(* ===== verification/Prelude.thy ===== *)
theory Prelude
  imports Main "HOL-Library.Word" "HOL-Library.Signed_Division"
begin

text \<open>
  Shared vocabulary of the development: the machine integer types of the i686 target, the
  error codes of \<^verbatim>\<open>src/status.h\<close>, the configuration constants of \<^verbatim>\<open>src/config.h\<close>, the outcome
  type of C code (a value, or a fault), checked array access, counted loops, and the word and
  list lemmas that several components use.

  A C function that can leave defined behaviour (an array access out of bounds, a dereference
  of a pointer that points to no object) or that ends in \<^verbatim>\<open>while(1)\<close> returns a value of
  \<open>fault + 'a\<close>: \<open>Inl Undefined\<close> for the first, \<open>Inl Halted\<close> for the second.
\<close>

unbundle bit_operations_syntax

section \<open>Machine integers\<close>

type_synonym u8 = "8 word"
type_synonym u16 = "16 word"
type_synonym u32 = "32 word"

lemma unat32_less [simp]: "unat (x :: u32) < 4294967296"
  using unsigned_less [of x] by simp

lemma unat32_le [simp]: "unat (x :: u32) \<le> 4294967296"
  using unat32_less [of x] by linarith

lemma unat_of_nat32: "k < 2 ^ 32 \<Longrightarrow> unat (word_of_nat k :: u32) = k"
  by (simp add: unat_of_nat take_bit_nat_eq_self)

lemma of_nat32_eq_iff: "k < 2 ^ 32 \<Longrightarrow> word_of_nat k = (w :: u32) \<longleftrightarrow> k = unat w"
  by (auto simp: unat_of_nat32)

lemma sint_eq_iff [simp]: "sint x = sint y \<longleftrightarrow> x = (y :: 'a::len word)"
  by (auto intro: signed_word_eqI)

lemma uint_eq_iff [simp]: "uint x = uint y \<longleftrightarrow> x = (y :: 'a::len word)"
  by (auto intro: unsigned_word_eqI)

lemma sint_small:
  fixes x :: u32
  assumes "unat x < 2 ^ 31"
  shows "sint x = int (unat x)"
proof -
  have u: "uint x = int (unat x)" by simp
  have "signed_take_bit 31 (int (unat x)) = int (unat x)"
    by (rule signed_take_bit_int_eq_self) (use assms in \<open>simp_all del: of_nat_unat int_nat_eq unsigned_0\<close>)
  with u show ?thesis by (simp add: sint_uint)
qed

lemma mod_4096_eq_0_iff: "(w :: u32) mod 4096 = 0 \<longleftrightarrow> 4096 dvd unat w"
proof -
  have "unat (w mod 4096) = unat w mod 4096" by (simp add: unat_mod)
  then show ?thesis by (metis unsigned_eq_0_iff dvd_eq_mod_eq_0)
qed

text \<open>The sign bit of a byte.\<close>

lemma bit_7_iff: "bit (c :: u8) 7 \<longleftrightarrow> 128 \<le> unat c"
proof -
  have "bit c 7 \<longleftrightarrow> bit (unat c) 7" by (simp add: bit_unsigned_iff)
  also have "\<dots> \<longleftrightarrow> odd (unat c div 128)" by (simp add: bit_iff_odd)
  also have "\<dots> \<longleftrightarrow> 128 \<le> unat c"
  proof -
    have "unat c < 256" using unsigned_less [of c] by simp
    then consider "unat c div 128 = 0" "unat c < 128" | "unat c div 128 = 1" "128 \<le> unat c"
      by linarith
    then show ?thesis by cases simp_all
  qed
  finally show ?thesis .
qed

text \<open>Two offsets below the distance of two areas never name the same address.\<close>

lemma add_of_nat_ne:
  fixes dest src :: u32
  assumes "i \<le> j" and "j < unat (dest - src) + i" and "j < 2 ^ 32"
  shows "src + word_of_nat j \<noteq> dest + word_of_nat i"
proof
  assume "src + word_of_nat j = dest + word_of_nat i"
  then have eq: "word_of_nat j = (dest - src) + word_of_nat i" by (simp add: algebra_simps)
  with assms(1) have "word_of_nat (j - i) = dest - src" by (simp add: of_nat_diff)
  moreover have "unat (word_of_nat (j - i) :: u32) = j - i"
    using assms(3) by (simp add: unat_of_nat take_bit_nat_eq_self)
  ultimately show False using assms(1,2) by simp
qed

section \<open>String literals\<close>

text \<open>The bytes of a C string literal, without the terminator.\<close>

definition lit :: "string \<Rightarrow> u8 list" where
  "lit cs = map of_char cs"

section \<open>Outcomes of C code\<close>

datatype fault = Undefined | Halted

type_synonym 'a outcome = "fault + 'a"

fun bnd :: "'a outcome \<Rightarrow> ('a \<Rightarrow> 'b outcome) \<Rightarrow> 'b outcome" where
  "bnd (Inl e) f = Inl e"
| "bnd (Inr x) f = f x"

named_theorems outcome_elims

lemma bnd_Inr_iff: "bnd m f = Inr y \<longleftrightarrow> (\<exists>x. m = Inr x \<and> f x = Inr y)"
  by (cases m) auto

lemma bnd_Inr_E [outcome_elims]:
  assumes "bnd m f = Inr y"
  obtains x where "m = Inr x" and "f x = Inr y"
  using assms by (cases m) auto

lemma bnd_assoc: "bnd (bnd m f) g = bnd m (\<lambda>x. bnd (f x) g)"
  by (cases m) auto

lemma bnd_cong [fundef_cong]:
  "m = m' \<Longrightarrow> (\<And>x. m' = Inr x \<Longrightarrow> f x = f' x) \<Longrightarrow> bnd m f = bnd m' f'"
  by (cases m') auto

lemma bnd_Inr_id [simp]: "bnd m Inr = m"
  by (cases m) simp_all

text \<open>A loop that may not end, as part of a computation: not ending is \<open>Halted\<close>.\<close>

definition ends :: "'a outcome option \<Rightarrow> 'a outcome" where
  "ends r = (case r of None \<Rightarrow> Inl Halted | Some x \<Rightarrow> x)"

text \<open>Array access with the bounds the object has.\<close>

definition arr_get :: "'a list \<Rightarrow> int \<Rightarrow> 'a outcome" where
  "arr_get xs i = (if 0 \<le> i \<and> i < int (length xs) then Inr (xs ! nat i) else Inl Undefined)"

definition arr_set :: "'a list \<Rightarrow> int \<Rightarrow> 'a \<Rightarrow> 'a list outcome" where
  "arr_set xs i v = (if 0 \<le> i \<and> i < int (length xs) then Inr (xs[nat i := v]) else Inl Undefined)"

lemma arr_get_in [simp]: "i < length xs \<Longrightarrow> arr_get xs (int i) = Inr (xs ! i)"
  by (simp add: arr_get_def)

lemma arr_set_in [simp]: "i < length xs \<Longrightarrow> arr_set xs (int i) v = Inr (xs[i := v])"
  by (simp add: arr_set_def)

lemma arr_get_out [simp]: "i < 0 \<or> int (length xs) \<le> i \<Longrightarrow> arr_get xs i = Inl Undefined"
  by (auto simp: arr_get_def)

lemma arr_set_out [simp]: "i < 0 \<or> int (length xs) \<le> i \<Longrightarrow> arr_set xs i v = Inl Undefined"
  by (auto simp: arr_set_def)

text \<open>A counted loop whose body cannot leave it early: the body runs once for each index.\<close>

fun for_each :: "('i \<Rightarrow> 's \<Rightarrow> 's outcome) \<Rightarrow> 'i list \<Rightarrow> 's \<Rightarrow> 's outcome" where
  "for_each f [] s = Inr s"
| "for_each f (i # is) s = bnd (f i s) (for_each f is)"

lemma for_each_append: "for_each f (xs @ ys) s = bnd (for_each f xs s) (for_each f ys)"
proof (induction xs arbitrary: s)
  case (Cons x xs)
  then show ?case by (cases "f x s") auto
qed simp

text \<open>What every round keeps the loop keeps.\<close>

lemma for_each_keeps:
  assumes "\<And>x s s'. f x s = Inr s' \<Longrightarrow> g s' = g s" "for_each f xs s = Inr s'"
  shows "g s' = g s"
  using assms(2)
proof (induction xs arbitrary: s)
  case (Cons x xs)
  then obtain s1 where "f x s = Inr s1" "for_each f xs s1 = Inr s'" by (auto simp: bnd_Inr_iff)
  then show ?case using Cons.IH assms(1) by metis
qed simp

lemma for_each_Nil: "for_each f [] = Inr"
  by (rule ext) simp

lemma for_each_map: "for_each f (map g xs) s = for_each (\<lambda>x. f (g x)) xs s"
  by (induction xs arbitrary: s) (auto intro!: bnd_cong)

text \<open>
  Total correctness of a counted loop: an invariant indexed by the number of iterations done,
  which each iteration keeps without a fault.
\<close>

lemma for_each_upt:
  assumes "P 0 s"
    and "\<And>i s. i < n \<Longrightarrow> P i s \<Longrightarrow> \<exists>s'. f i s = Inr s' \<and> P (Suc i) s'"
  shows "\<exists>s'. for_each f [0..<n] s = Inr s' \<and> P n s'"
  using assms(2)
proof (induction n)
  case 0
  with assms(1) show ?case by simp
next
  case (Suc n)
  then obtain s' where "for_each f [0..<n] s = Inr s'" and P: "P n s'"
    by (metis less_SucI)
  with Suc.prems [OF _ P] show ?case by (auto simp: for_each_append)
qed

text \<open>The first free slot of a table of pointers: the loops that look for a null entry.\<close>

fun first_zero :: "u32 list \<Rightarrow> nat option" where
  "first_zero [] = None"
| "first_zero (x # xs) = (if x = 0 then Some 0 else map_option Suc (first_zero xs))"

lemma first_zero_Some: "first_zero xs = Some i \<Longrightarrow> i < length xs \<and> xs ! i = 0 \<and> (\<forall>j < i. xs ! j \<noteq> 0)"
  by (induction xs arbitrary: i) (auto simp: nth_Cons split: if_splits nat.splits)

lemma first_zero_None: "first_zero xs = None \<longleftrightarrow> 0 \<notin> set xs"
  by (induction xs) auto

section \<open>Error codes (src/status.h) and configuration (src/config.h)\<close>

definition GUAVAOS_ALL_OK :: int where "GUAVAOS_ALL_OK = 0"
definition EIO :: int where "EIO = 1"
definition EINVARG :: int where "EINVARG = 2"
definition ENOMEM :: int where "ENOMEM = 3"
definition EBADPATH :: int where "EBADPATH = 4"
definition EFSNOTUS :: int where "EFSNOTUS = 5"
definition ERDONLY :: int where "ERDONLY = 6"
definition EUNIMP :: int where "EUNIMP = 7"
definition EISTKN :: int where "EISTKN = 8"

lemmas status_defs = GUAVAOS_ALL_OK_def EIO_def EINVARG_def ENOMEM_def EBADPATH_def EFSNOTUS_def
  ERDONLY_def EUNIMP_def EISTKN_def

end
