(* ===== verification/Memory.thy ===== *)
theory Memory
  imports Prelude
begin

text \<open>
  The flat 32-bit address space and \<^verbatim>\<open>src/memory/memory.c\<close>.

  Memory is a total function from 32-bit addresses to bytes: the kernel runs in ring 0 on a
  flat segment, so every address can be read and written, address 0 included. Multi-byte
  values are little-endian, as on i386. Pointer arithmetic wraps at 32 bits. The loops of
  \<^verbatim>\<open>memset\<close> and \<^verbatim>\<open>memcpy\<close> are folds over the iteration number, in the order the code writes.
\<close>

type_synonym memory = "u32 \<Rightarrow> u8"

section \<open>Words in memory\<close>

definition load32 :: "memory \<Rightarrow> u32 \<Rightarrow> u32" where
  "load32 m a = ucast (m a) OR push_bit 8 (ucast (m (a + 1)))
     OR push_bit 16 (ucast (m (a + 2))) OR push_bit 24 (ucast (m (a + 3)))"

definition store32 :: "memory \<Rightarrow> u32 \<Rightarrow> u32 \<Rightarrow> memory" where
  "store32 m a w = m(a := ucast w, a + 1 := ucast (drop_bit 8 w),
     a + 2 := ucast (drop_bit 16 w), a + 3 := ucast (drop_bit 24 w))"

definition load16 :: "memory \<Rightarrow> u32 \<Rightarrow> u16" where
  "load16 m a = ucast (m a) OR push_bit 8 (ucast (m (a + 1)))"

definition store16 :: "memory \<Rightarrow> u32 \<Rightarrow> u16 \<Rightarrow> memory" where
  "store16 m a w = m(a := ucast w, a + 1 := ucast (drop_bit 8 w))"

text \<open>The \<open>n\<close> bytes from address \<open>a\<close>.\<close>

definition bytes_at :: "memory \<Rightarrow> u32 \<Rightarrow> nat \<Rightarrow> u8 list" where
  "bytes_at m a n = map (\<lambda>i. m (a + word_of_nat i)) [0..<n]"

lemma length_bytes_at [simp]: "length (bytes_at m a n) = n"
  by (simp add: bytes_at_def)

lemma nth_bytes_at [simp]: "i < n \<Longrightarrow> bytes_at m a n ! i = m (a + word_of_nat i)"
  by (simp add: bytes_at_def)

lemma bytes_at_eq_iff:
  "bytes_at m a n = bytes_at m' b n \<longleftrightarrow> (\<forall>i<n. m (a + word_of_nat i) = m' (b + word_of_nat i))"
  by (auto simp: bytes_at_def)

lemma ne_add_small [simp]:
  "(a :: u32) + 1 \<noteq> a" "a + 2 \<noteq> a" "a + 3 \<noteq> a"
  "a + 1 \<noteq> a + 2" "a + 1 \<noteq> a + 3" "a + 2 \<noteq> a + 3"
  "a \<noteq> a + 1" "a \<noteq> a + 2" "a \<noteq> a + 3"
  "a + 2 \<noteq> a + 1" "a + 3 \<noteq> a + 1" "a + 3 \<noteq> a + 2"
  by simp_all

lemma load32_store32_same [simp]: "load32 (store32 m a w) a = w"
proof (rule bit_word_eqI)
  fix n
  assume "n < LENGTH(32)"
  then consider "n < 8" | "8 \<le> n" "n < 16" | "16 \<le> n" "n < 24" | "24 \<le> n" "n < 32"
    by (simp, linarith)
  then show "bit (load32 (store32 m a w) a) n = bit w n"
    by cases (auto simp: load32_def store32_def bit_simps)
qed

lemma load16_store16_same [simp]: "load16 (store16 m a w) a = w"
proof (rule bit_word_eqI)
  fix n
  assume "n < LENGTH(16)"
  then consider "n < 8" | "8 \<le> n" "n < 16" by (simp, linarith)
  then show "bit (load16 (store16 m a w) a) n = bit w n"
    by cases (auto simp: load16_def store16_def bit_simps)
qed

lemma store16_other: "x \<noteq> a \<Longrightarrow> x \<noteq> a + 1 \<Longrightarrow> store16 m a w x = m x"
  by (simp add: store16_def)

lemma load16_cong: "m a = m' a \<Longrightarrow> m (a + 1) = m' (a + 1) \<Longrightarrow> load16 m a = load16 m' a"
  by (simp add: load16_def)

lemma store32_other:
  "x \<noteq> a \<Longrightarrow> x \<noteq> a + 1 \<Longrightarrow> x \<noteq> a + 2 \<Longrightarrow> x \<noteq> a + 3 \<Longrightarrow> store32 m a w x = m x"
  by (simp add: store32_def)

lemma load32_cong:
  assumes "m a = m' a" "m (a + 1) = m' (a + 1)" "m (a + 2) = m' (a + 2)" "m (a + 3) = m' (a + 3)"
  shows "load32 m a = load32 m' a"
  using assms by (simp add: load32_def)

section \<open>memory.c\<close>

text \<open>
  \<^verbatim>\<open>void* memset(void* ptr, int c, size_t size)\<close>: the byte stored is \<open>(char) c\<close>.
\<close>

definition memset :: "u32 \<Rightarrow> int \<Rightarrow> u32 \<Rightarrow> memory \<Rightarrow> memory" where
  "memset ptr c n m =
     fold (\<lambda>i m. m(ptr + word_of_nat i := word_of_int c)) [0..<unat n] m"

text \<open>
  \<^verbatim>\<open>int memcmp(void* s1, void* s2, int count)\<close>: \<open>char\<close> is signed on this target, so bytes
  compare by their two's complement value.
\<close>

fun memcmp_loop :: "memory \<Rightarrow> u32 \<Rightarrow> u32 \<Rightarrow> nat \<Rightarrow> int" where
  "memcmp_loop m c1 c2 0 = 0"
| "memcmp_loop m c1 c2 (Suc count) =
     (if m c1 \<noteq> m c2 then (if sint (m c1) < sint (m c2) then -1 else 1)
      else memcmp_loop m (c1 + 1) (c2 + 1) count)"

definition memcmp :: "memory \<Rightarrow> u32 \<Rightarrow> u32 \<Rightarrow> int \<Rightarrow> int" where
  "memcmp m s1 s2 count = memcmp_loop m s1 s2 (nat count)"

text \<open>
  \<^verbatim>\<open>void* memcpy(void* dest, void* src, int len)\<close> counts \<open>len\<close> down to zero, so a length is
  its 32-bit pattern: a negative one runs \<open>unat len\<close> times.
\<close>

definition memcpy :: "u32 \<Rightarrow> u32 \<Rightarrow> u32 \<Rightarrow> memory \<Rightarrow> memory" where
  "memcpy dest src len m =
     fold (\<lambda>i m. m(dest + word_of_nat i := m (src + word_of_nat i))) [0..<unat len] m"

section \<open>What memory.c computes\<close>

lemma eq_add_word_of_nat_iff:
  fixes a p :: u32
  assumes "k < 2 ^ 32"
  shows "a = p + word_of_nat k \<longleftrightarrow> unat (a - p) = k"
proof
  assume "a = p + word_of_nat k"
  with assms show "unat (a - p) = k" by (simp add: unat_of_nat take_bit_nat_eq_self)
next
  assume "unat (a - p) = k"
  then have "word_of_nat k = a - p" by auto
  then show "a = p + word_of_nat k" by simp
qed

lemma fold_store_const:
  fixes a p :: u32
  shows "k \<le> 2 ^ 32 \<Longrightarrow>
    fold (\<lambda>i m. m(p + word_of_nat i := v)) [0..<k] m a = (if unat (a - p) < k then v else m a)"
proof (induction k)
  case (Suc k)
  then show ?case
    using eq_add_word_of_nat_iff [of k a p] by (auto simp: less_Suc_eq)
qed simp

lemma memset_apply:
  "memset p c n m a = (if unat (a - p) < unat n then word_of_int c else m a)"
  unfolding memset_def by (subst fold_store_const) simp_all

lemma fold_copy:
  fixes a dest src :: u32
  shows "k \<le> unat (dest - src) \<Longrightarrow>
    fold (\<lambda>i m. m(dest + word_of_nat i := m (src + word_of_nat i))) [0..<k] m a =
      (if unat (a - dest) < k then m (src + (a - dest)) else m a)"
proof (induction k arbitrary: a)
  case (Suc k)
  let ?D = "unat (dest - src)"
  have k: "k < 2 ^ 32" and D: "?D < 2 ^ 32"
    using Suc.prems unat32_less [of "dest - src"] by (simp_all del: unat32_less)
  have "src + word_of_nat k - dest = word_of_nat k - (dest - src)" by simp
  moreover have "unat (word_of_nat k - (dest - src)) = 2 ^ 32 + k - ?D"
    using Suc.prems k D
    by (simp add: unat_sub_if' [of _ "dest - src"] unat_of_nat take_bit_nat_eq_self del: unat32_less)
  ultimately have "\<not> unat (src + word_of_nat k - dest) < k" using D by (simp only:)
  then show ?case
    using Suc eq_add_word_of_nat_iff [OF k, of a dest] by (auto simp: less_Suc_eq)
qed simp

lemma memcpy_apply:
  assumes "unat n \<le> unat (dest - src)"
  shows "memcpy dest src n m a =
    (if unat (a - dest) < unat n then m (src + (a - dest)) else m a)"
  unfolding memcpy_def using assms by (rule fold_copy)

lemma memcmp_loop_eq_0_iff:
  "memcmp_loop m a b n = 0 \<longleftrightarrow> bytes_at m a n = bytes_at m b n"
proof (induction n arbitrary: a b)
  case (Suc n)
  show ?case
    by (auto simp: Suc.IH bytes_at_eq_iff less_Suc_eq_0_disj ac_simps)
qed (simp add: bytes_at_def)

lemma sint_less_antisym: "x \<noteq> y \<Longrightarrow> sint x < sint y \<longleftrightarrow> \<not> sint y < sint (x :: 'a::len word)"
  using sint_eq_iff [of x y] by linarith

lemma memcmp_loop_antisym: "memcmp_loop m b a n = - memcmp_loop m a b n"
proof (induction n arbitrary: a b)
  case (Suc n)
  show ?case
    using sint_less_antisym [of "m a" "m b"] Suc.IH [of "b + 1" "a + 1"]
    by (cases "m a = m b") simp_all
qed simp

section \<open>Properties: memory.c\<close>

lemma bytes_at_Suc: "bytes_at m p (Suc n) = m p # bytes_at m (p + 1) n"
  unfolding bytes_at_def by (subst upt_conv_Cons, simp)
    (simp add: map_Suc_upt [symmetric] add.assoc del: upt_Suc)

lemma memcmp_loop_less:
  "memcmp_loop m a b n = -1 \<longleftrightarrow>
     ord.lexordp (\<lambda>x y. sint x < sint y) (bytes_at m a n) (bytes_at m b n)"
proof (induction n arbitrary: a b)
  case 0
  then show ?case by (simp add: bytes_at_def ord.lexordp_simps)
next
  case (Suc n)
  then show ?case
    by (cases "m a = m b") (auto simp: bytes_at_Suc ord.lexordp_simps dest: sint_less_antisym)
qed

text \<open>Memcpy copies n bytes faithfully and touches nothing else whenever the destination does not
  start inside the source (a forward overlap is excluded, a backward one is not).\<close>

theorem memcpy_copies:
  "unat n \<le> unat (dest - src) \<Longrightarrow>
     bytes_at (memcpy dest src n m) dest (unat n) = bytes_at m src (unat n)
     \<and> (\<forall>a. unat n \<le> unat (a - dest) \<longrightarrow> memcpy dest src n m a = m a)"
proof -
  assume h: "unat n \<le> unat (dest - src)"
  have "unat (word_of_nat i :: u32) = i" if "i < unat n" for i
    by (rule unat_of_nat32, rule less_trans [OF that]) simp
  then show ?thesis by (auto simp: bytes_at_eq_iff memcpy_apply [OF h])
qed


text \<open>Memcmp is a three-way comparison of the two areas: 0 exactly for equal bytes, -1 exactly when
  the first is lexicographically smaller with bytes read as signed characters, and exchanging the
  areas flips the sign.\<close>

theorem memcmp_three_way:
  "(memcmp m a b n = 0 \<longleftrightarrow> bytes_at m a (nat n) = bytes_at m b (nat n))
   \<and> (memcmp m a b n = -1 \<longleftrightarrow>
        ord.lexordp (\<lambda>x y. sint x < sint y) (bytes_at m a (nat n)) (bytes_at m b (nat n)))
   \<and> memcmp m b a n = - memcmp m a b n"
  unfolding memcmp_def using memcmp_loop_eq_0_iff memcmp_loop_less memcmp_loop_antisym by blast

end
