(* ===== verification/Allocator.thy ===== *)
theory Allocator
  imports Memory
begin

text \<open>
  The contract between the kernel heap and its clients (paging, the file system, the task and
  process code). A provider has a set of live allocations \<open>(p, n)\<close>, \<open>n\<close> blocks of 4096 bytes
  from address \<open>p\<close>, and a number of vacant blocks; the laws say what a successful request, a
  refused one and a release do to them, and that a request succeeds when, however the live
  allocations divide the vacant blocks, one of the gaps must be large enough. \<open>zeroing_allocator\<close> extends the contract for the
  operations that also clear the memory they hand out.
\<close>

section \<open>Blocks\<close>

definition in_block :: "u32 \<Rightarrow> nat \<Rightarrow> u32 \<Rightarrow> bool" where
  "in_block p n a \<longleftrightarrow> unat p \<le> unat a \<and> unat a < unat p + 4096 * n"

definition blocks_of :: "u32 \<Rightarrow> nat" where
  "blocks_of sz = (unat sz + 4095) div 4096"

definition valid_size :: "u32 \<Rightarrow> bool" where
  "valid_size sz \<longleftrightarrow> 0 < sz \<and> sz \<le> 0xFFFFF000"

lemma blocks_of_page [simp]: "0 < sz \<Longrightarrow> sz \<le> 4096 \<Longrightarrow> blocks_of sz = 1"
  by (simp add: blocks_of_def word_less_nat_alt word_le_nat_alt)

lemma blocks_of_pos: "0 < sz \<Longrightarrow> 0 < blocks_of sz"
  by (simp add: blocks_of_def word_less_nat_alt)

lemma blocks_of_covers: "unat sz \<le> 4096 * blocks_of sz"
  by (simp add: blocks_of_def)

lemma valid_size_page: "0 < sz \<Longrightarrow> sz \<le> 4096 \<Longrightarrow> valid_size sz"
  by (simp add: valid_size_def word_le_nat_alt)

lemma in_block_base: "0 < n \<Longrightarrow> in_block p n p"
  by (simp add: in_block_def)

section \<open>The contract\<close>

locale block_allocator =
  fixes inv :: "'s \<Rightarrow> bool"
    and allocs :: "'s \<Rightarrow> (u32 \<times> nat) set"
    and vacant :: "'s \<Rightarrow> nat"
    and alloc :: "u32 \<Rightarrow> 's \<Rightarrow> (u32 \<times> 's) outcome"
    and release :: "u32 \<Rightarrow> 's \<Rightarrow> 's outcome"
  assumes allocs_shape: "inv s \<Longrightarrow> (p, n) \<in> allocs s \<Longrightarrow>
      0 < n \<and> p \<noteq> 0 \<and> 4096 dvd unat p \<and> unat p + 4096 * n \<le> 2 ^ 32"
    and allocs_apart: "inv s \<Longrightarrow> (p, n) \<in> allocs s \<Longrightarrow> (q, k) \<in> allocs s \<Longrightarrow>
      in_block p n a \<Longrightarrow> in_block q k a \<Longrightarrow> p = q \<and> n = k"
    and alloc_law: "inv s \<Longrightarrow> valid_size sz \<Longrightarrow> alloc sz s = Inr (p, s') \<Longrightarrow> p \<noteq> 0 \<Longrightarrow>
      inv s' \<and> allocs s' = insert (p, blocks_of sz) (allocs s)
      \<and> (p, blocks_of sz) \<notin> allocs s \<and> vacant s = vacant s' + blocks_of sz"
    and alloc_null: "inv s \<Longrightarrow> valid_size sz \<Longrightarrow> alloc sz s = Inr (0, s') \<Longrightarrow>
      inv s' \<and> allocs s' = allocs s \<and> vacant s' = vacant s"
    and alloc_room: "inv s \<Longrightarrow> valid_size sz \<Longrightarrow> (card (allocs s) + 1) * (blocks_of sz - 1) < vacant s \<Longrightarrow>
      \<exists>p s'. alloc sz s = Inr (p, s') \<and> p \<noteq> 0"
    and release_law: "inv s \<Longrightarrow> (p, n) \<in> allocs s \<Longrightarrow>
      \<exists>s'. release p s = Inr s' \<and> inv s' \<and> allocs s' = allocs s - {(p, n)} \<and> vacant s' = vacant s + n"
begin

text \<open>A single page fits wherever a block is vacant.\<close>

lemma alloc_page: "inv s \<Longrightarrow> 0 < sz \<Longrightarrow> sz \<le> 4096 \<Longrightarrow> 0 < vacant s \<Longrightarrow> \<exists>p s'. alloc sz s = Inr (p, s') \<and> p \<noteq> 0"
  by (rule alloc_room) (simp_all add: valid_size_page)

lemma alloc_fresh:
  assumes "inv s" "valid_size sz" "alloc sz s = Inr (p, s')" "p \<noteq> 0" "(q, k) \<in> allocs s" "in_block q k a"
  shows "\<not> in_block p (blocks_of sz) a"
proof
  assume "in_block p (blocks_of sz) a"
  moreover note alloc_law [OF assms(1-4)]
  ultimately have "p = q \<and> blocks_of sz = k"
    using allocs_apart [of s' p "blocks_of sz" q k a] assms(5,6) by auto
  with alloc_law [OF assms(1-4)] assms(5) show False by auto
qed

lemma alloc_base_new:
  assumes "inv s" "valid_size sz" "alloc sz s = Inr (p, s')" "p \<noteq> 0" "(q, k) \<in> allocs s"
  shows "q \<noteq> p"
proof -
  have "0 < k" using allocs_shape [OF assms(1,5)] by simp
  then have "\<not> in_block p (blocks_of sz) q"
    using alloc_fresh [OF assms(1-5)] in_block_base by blast
  moreover have "0 < blocks_of sz" using assms(2) by (simp add: valid_size_def blocks_of_pos)
  ultimately show ?thesis using in_block_base by blast
qed

text \<open>What was allocated can be released, and releasing it restores the state seen by clients.\<close>

lemma alloc_release:
  assumes "inv s" "valid_size sz" "alloc sz s = Inr (p, s')" "p \<noteq> 0"
  shows "\<exists>s''. release p s' = Inr s'' \<and> inv s'' \<and> allocs s'' = allocs s \<and> vacant s'' = vacant s"
  using alloc_law [OF assms] release_law [of s' p "blocks_of sz"] by auto

text \<open>A page request on a state with a vacant block succeeds; what the result looks like.\<close>

lemma alloc_page_full:
  assumes "inv s" "0 < sz" "sz \<le> 4096" "0 < vacant s"
  obtains p s' where "alloc sz s = Inr (p, s')" "p \<noteq> 0" "inv s'"
    "allocs s' = insert (p, 1) (allocs s)" "vacant s = Suc (vacant s')"
    "unat p mod 4096 = 0" "\<And>q k a. (q, k) \<in> allocs s \<Longrightarrow> in_block q k a \<Longrightarrow> \<not> in_block p 1 a"
proof -
  note v = valid_size_page [OF assms(2,3)] and b = blocks_of_page [OF assms(2,3)]
  obtain p s' where ps: "alloc sz s = Inr (p, s')" "p \<noteq> 0" using alloc_page [OF assms] by blast
  note l = alloc_law [OF assms(1) v ps]
  then have "(p, 1) \<in> allocs s'" using b by simp
  then have "4096 dvd unat p" using allocs_shape [of s' p 1] l by blast
  with that [OF ps] l b alloc_fresh [OF assms(1) v ps] show thesis
    by (auto simp: dvd_eq_mod_eq_0)
qed

end

locale zeroing_allocator = block_allocator +
  fixes memory_of :: "'s \<Rightarrow> memory"
  assumes alloc_zeroes: "inv s \<Longrightarrow> valid_size sz \<Longrightarrow> alloc sz s = Inr (p, s') \<Longrightarrow> p \<noteq> 0 \<Longrightarrow>
      memory_of s' a = (if unat (a - p) < unat sz then 0 else memory_of s a)"
begin

text \<open>A request touches the memory of the block it hands out and no other.\<close>

lemma alloc_frame:
  assumes "inv s" "valid_size sz" "alloc sz s = Inr (p, s')" "p \<noteq> 0" "\<not> in_block p (blocks_of sz) a"
  shows "memory_of s' a = memory_of s a"
proof (rule ccontr)
  assume "memory_of s' a \<noteq> memory_of s a"
  then have off: "unat (a - p) < unat sz" using alloc_zeroes [OF assms(1-4)] by (auto split: if_splits)
  note l = alloc_law [OF assms(1-4)]
  then have "unat p + 4096 * blocks_of sz \<le> 2 ^ 32"
    using allocs_shape [of s' p "blocks_of sz"] by simp
  with off blocks_of_covers [of sz] have "in_block p (blocks_of sz) a"
    by (auto simp: in_block_def unat_sub_if' split: if_splits)
  with assms(5) show False by blast
qed

text \<open>Memory of the other allocations survives a request.\<close>

lemma alloc_keeps_memory:
  assumes "inv s" "valid_size sz" "alloc sz s = Inr (p, s')" "p \<noteq> 0" "(q, k) \<in> allocs s" "in_block q k a"
  shows "memory_of s' a = memory_of s a"
  using alloc_frame [OF assms(1-4)] alloc_fresh [OF assms] by blast

text \<open>A page request, with its effect on memory.\<close>

lemma alloc_page_framed:
  assumes "inv s" "0 < sz" "sz \<le> 4096" "0 < vacant s"
  obtains p s' where "alloc sz s = Inr (p, s')" "p \<noteq> 0" "inv s'"
    "allocs s' = insert (p, 1) (allocs s)" "vacant s = Suc (vacant s')" "4096 dvd unat p"
    "\<And>q k. (q, k) \<in> allocs s \<Longrightarrow> q \<noteq> p"
    "\<And>q k a. (q, k) \<in> allocs s \<Longrightarrow> in_block q k a \<Longrightarrow> \<not> in_block p 1 a"
    "\<And>a. \<not> in_block p 1 a \<Longrightarrow> memory_of s' a = memory_of s a"
proof -
  note v = valid_size_page [OF assms(2,3)] and b = blocks_of_page [OF assms(2,3)]
  from alloc_page_full [OF assms] obtain p s' where ps: "alloc sz s = Inr (p, s')" "p \<noteq> 0" "inv s'"
    "allocs s' = insert (p, 1) (allocs s)" "vacant s = Suc (vacant s')" "unat p mod 4096 = 0"
    "\<And>q k a. (q, k) \<in> allocs s \<Longrightarrow> in_block q k a \<Longrightarrow> \<not> in_block p 1 a" by blast
  have "4096 dvd unat p" using ps(6) by (simp add: dvd_eq_mod_eq_0)
  then show thesis
    by (rule that [OF ps(1-5)])
       (use alloc_base_new [OF assms(1) v ps(1,2)] ps(7) alloc_frame [OF assms(1) v ps(1,2), unfolded b]
         in blast)+
qed

end

end
