(* ===== verification/Heap.thy ===== *)
theory Heap
  imports Allocator
begin

text \<open>
  \<^verbatim>\<open>src/memory/heap/heap.c\<close>: the block allocator. A heap is an address range cut into blocks of
  4096 bytes and a table with one byte per block. A taken block's byte has the low bits
  \<^verbatim>\<open>TAKEN\<close>; bit 6 marks the first block of an allocation, bit 7 a block that is followed by
  another one of the same allocation. The table is an array object of its own: an access
  outside it is \<open>Undefined\<close>. A C \<^verbatim>\<open>int\<close> that holds a block number is an \<open>int\<close>; a heap has fewer
  than \<open>2^20\<close> blocks (\<open>heap_create_total\<close>), so none of these can overflow.
\<close>

section \<open>Data\<close>

type_synonym HEAP_BLOCK_TABLE_ENTRY = u8

record heap_table =
  entries :: "HEAP_BLOCK_TABLE_ENTRY list"
  total :: u32

record heap =
  table :: heap_table
  saddr :: u32

definition HEAP_BLOCK_TABLE_ENTRY_TAKEN :: u8 where "HEAP_BLOCK_TABLE_ENTRY_TAKEN = 0x01"
definition HEAP_BLOCK_TABLE_ENTRY_FREE :: u8 where "HEAP_BLOCK_TABLE_ENTRY_FREE = 0x00"
definition HEAP_BLOCK_HAS_NEXT :: u8 where "HEAP_BLOCK_HAS_NEXT = 0x80"
definition HEAP_BLOCK_IS_FIRST :: u8 where "HEAP_BLOCK_IS_FIRST = 0x40"
definition GUAVAOS_HEAP_BLOCK_SIZE :: u32 where "GUAVAOS_HEAP_BLOCK_SIZE = 4096"

lemmas heap_consts = HEAP_BLOCK_TABLE_ENTRY_TAKEN_def HEAP_BLOCK_TABLE_ENTRY_FREE_def
  HEAP_BLOCK_HAS_NEXT_def HEAP_BLOCK_IS_FIRST_def GUAVAOS_HEAP_BLOCK_SIZE_def

section \<open>Creation\<close>

definition heap_validade_table :: "u32 \<Rightarrow> u32 \<Rightarrow> heap_table \<Rightarrow> int" where
  "heap_validade_table ptr end_ptr tbl =
     (let table_size = end_ptr - ptr;
          total_blocks = table_size div GUAVAOS_HEAP_BLOCK_SIZE
      in if total tbl \<noteq> total_blocks then - EINVARG else 0)"

definition heap_validate_alignment :: "u32 \<Rightarrow> bool" where
  "heap_validate_alignment ptr \<longleftrightarrow> ptr mod GUAVAOS_HEAP_BLOCK_SIZE = 0"

text \<open>The heap structure and the result; the table's entries are cleared last.\<close>

definition heap_create :: "heap \<Rightarrow> u32 \<Rightarrow> u32 \<Rightarrow> heap_table \<Rightarrow> (int \<times> heap) outcome" where
  "heap_create h ptr end_ptr tbl =
     (if \<not> heap_validate_alignment ptr \<or> \<not> heap_validate_alignment end_ptr
      then Inr (- EINVARG, h)
      else
        let h' = \<lparr>table = tbl, saddr = ptr\<rparr>;
            res = heap_validade_table ptr end_ptr tbl
        in if res < 0 then Inr (res, h')
           else if unat (total tbl) \<le> length (entries tbl)
           then Inr (res, h'\<lparr>table := tbl\<lparr>entries :=
                  replicate (unat (total tbl)) HEAP_BLOCK_TABLE_ENTRY_FREE
                  @ drop (unat (total tbl)) (entries tbl)\<rparr>\<rparr>)
           else Inl Undefined)"

section \<open>Allocation\<close>

definition heap_align_value_to_upper :: "u32 \<Rightarrow> u32" where
  "heap_align_value_to_upper val =
     (if val mod GUAVAOS_HEAP_BLOCK_SIZE = 0 then val
      else val - val mod GUAVAOS_HEAP_BLOCK_SIZE + GUAVAOS_HEAP_BLOCK_SIZE)"

definition heap_get_entry_type :: "HEAP_BLOCK_TABLE_ENTRY \<Rightarrow> u8" where
  "heap_get_entry_type entry = entry AND 0x0f"

function heap_get_start_block_loop ::
  "heap_table \<Rightarrow> u32 \<Rightarrow> nat \<Rightarrow> int \<Rightarrow> int \<Rightarrow> int outcome" where
  "heap_get_start_block_loop tbl total_blocks i bc bs =
     (if i < unat (total tbl) then
        bnd (arr_get (entries tbl) (int i)) (\<lambda>entry.
          if heap_get_entry_type entry \<noteq> HEAP_BLOCK_TABLE_ENTRY_FREE
          then heap_get_start_block_loop tbl total_blocks (Suc i) 0 (-1)
          else
            let bs' = (if bs = -1 then int i else bs);
                bc' = bc + 1
            in if word_of_int bc' = total_blocks then Inr bs'
               else heap_get_start_block_loop tbl total_blocks (Suc i) bc' bs')
      else Inr bs)"
  by pat_completeness auto
termination
  by (relation "measure (\<lambda>(tbl, n, i, bc, bs). unat (total tbl) - i)") auto

declare heap_get_start_block_loop.simps [simp del]

definition heap_get_start_block :: "heap \<Rightarrow> u32 \<Rightarrow> int outcome" where
  "heap_get_start_block h total_blocks =
     bnd (heap_get_start_block_loop (table h) total_blocks 0 0 (-1))
       (\<lambda>bs. Inr (if bs = -1 then - ENOMEM else bs))"

definition heap_block_to_address :: "heap \<Rightarrow> u32 \<Rightarrow> u32" where
  "heap_block_to_address h block = saddr h + block * GUAVAOS_HEAP_BLOCK_SIZE"

function heap_mark_blocks_taken_loop ::
  "u8 list \<Rightarrow> int \<Rightarrow> int \<Rightarrow> u8 \<Rightarrow> u8 list outcome" where
  "heap_mark_blocks_taken_loop es i end_block entry =
     (if i \<le> end_block then
        bnd (arr_set es i entry) (\<lambda>es'.
          heap_mark_blocks_taken_loop es' (i + 1) end_block
            (if i \<noteq> end_block - 1
             then HEAP_BLOCK_TABLE_ENTRY_TAKEN OR HEAP_BLOCK_HAS_NEXT
             else HEAP_BLOCK_TABLE_ENTRY_TAKEN))
      else Inr es)"
  by pat_completeness auto
termination
  by (relation "measure (\<lambda>(es, i, e, entry). nat (e + 1 - i))") auto

declare heap_mark_blocks_taken_loop.simps [simp del]

definition heap_mark_blocks_taken :: "heap \<Rightarrow> int \<Rightarrow> int \<Rightarrow> heap outcome" where
  "heap_mark_blocks_taken h start_block total_blocks =
     (let end_block = start_block + total_blocks - 1;
          entry = HEAP_BLOCK_TABLE_ENTRY_TAKEN OR HEAP_BLOCK_IS_FIRST;
          entry' = (if 1 < total_blocks then entry OR HEAP_BLOCK_HAS_NEXT else entry)
      in bnd (heap_mark_blocks_taken_loop (entries (table h)) start_block end_block entry')
           (\<lambda>es. Inr (h\<lparr>table := (table h)\<lparr>entries := es\<rparr>\<rparr>)))"

definition heap_malloc_blocks :: "heap \<Rightarrow> u32 \<Rightarrow> (u32 \<times> heap) outcome" where
  "heap_malloc_blocks h total_blocks =
     bnd (heap_get_start_block h total_blocks) (\<lambda>start_block.
       if start_block < 0 then Inr (0, h)
       else
         let address = heap_block_to_address h (word_of_int start_block)
         in bnd (heap_mark_blocks_taken h start_block (sint total_blocks))
              (\<lambda>h'. Inr (address, h')))"

definition heap_malloc :: "heap \<Rightarrow> u32 \<Rightarrow> (u32 \<times> heap) outcome" where
  "heap_malloc h n =
     (let aligned_size = heap_align_value_to_upper n;
          total_blocks = aligned_size div GUAVAOS_HEAP_BLOCK_SIZE
      in heap_malloc_blocks h total_blocks)"

section \<open>Release\<close>

function heap_mark_blocks_free_loop :: "u8 list \<Rightarrow> int \<Rightarrow> int \<Rightarrow> u8 list outcome" where
  "heap_mark_blocks_free_loop es tot i =
     (if i < tot then
        bnd (arr_get es i) (\<lambda>entry.
          bnd (arr_set es i HEAP_BLOCK_TABLE_ENTRY_FREE) (\<lambda>es'.
            if entry AND HEAP_BLOCK_HAS_NEXT = 0 then Inr es'
            else heap_mark_blocks_free_loop es' tot (i + 1)))
      else Inr es)"
  by pat_completeness auto
termination
  by (relation "measure (\<lambda>(es, tot, i). nat (tot - i))") auto

declare heap_mark_blocks_free_loop.simps [simp del]

definition heap_mark_blocks_free :: "heap \<Rightarrow> int \<Rightarrow> heap outcome" where
  "heap_mark_blocks_free h starting_block =
     bnd (heap_mark_blocks_free_loop (entries (table h)) (sint (total (table h))) starting_block)
       (\<lambda>es. Inr (h\<lparr>table := (table h)\<lparr>entries := es\<rparr>\<rparr>))"

definition heap_address_to_block :: "heap \<Rightarrow> u32 \<Rightarrow> int" where
  "heap_address_to_block h address = sint (address - saddr h) sdiv 4096"

definition heap_free :: "heap \<Rightarrow> u32 \<Rightarrow> heap outcome" where
  "heap_free h ptr = heap_mark_blocks_free h (heap_address_to_block h ptr)"

section \<open>Reference: free runs and first fit\<close>

definition entry_free :: "u8 \<Rightarrow> bool" where
  "entry_free e \<longleftrightarrow> heap_get_entry_type e = HEAP_BLOCK_TABLE_ENTRY_FREE"

definition fits :: "u8 list \<Rightarrow> nat \<Rightarrow> nat \<Rightarrow> bool" where
  "fits es n s \<longleftrightarrow> s + n \<le> length es \<and> list_all entry_free (take n (drop s es))"

definition free_suffix :: "u8 list \<Rightarrow> nat" where
  "free_suffix es = length (takeWhile entry_free (rev es))"

text \<open>
  What the scan computes: the lowest block from which \<open>n\<close> blocks are free; failing that,
  the start of the free run that reaches the end of the table, if there is one.
\<close>

definition first_fit :: "u8 list \<Rightarrow> nat \<Rightarrow> nat option" where
  "first_fit es n = find (fits es n) [0..<length es]"

definition scan_ref :: "u8 list \<Rightarrow> nat \<Rightarrow> nat option" where
  "scan_ref es n =
     (case first_fit es n of
        Some s \<Rightarrow> Some s
      | None \<Rightarrow> if free_suffix es = 0 then None else Some (length es - free_suffix es))"

lemma fits_iff: "fits es n s \<longleftrightarrow> s + n \<le> length es \<and> (\<forall>k<n. entry_free (es ! (s + k)))"
  by (auto simp: fits_def list_all_length)

lemma free_suffix_Suc:
  "i < length es \<Longrightarrow> free_suffix (take (Suc i) es) =
     (if entry_free (es ! i) then Suc (free_suffix (take i es)) else 0)"
  by (simp add: free_suffix_def take_Suc_conv_app_nth)

lemma free_suffix_le: "free_suffix es \<le> length es"
  using length_takeWhile_le [of entry_free "rev es"] by (simp add: free_suffix_def)

lemma free_suffix_free:
  assumes "length es - free_suffix es \<le> j" "j < length es"
  shows "entry_free (es ! j)"
proof -
  define k where "k = length es - Suc j"
  have "k < free_suffix es" using assms free_suffix_le [of es] by (simp add: k_def)
  then have "takeWhile entry_free (rev es) ! k \<in> set (takeWhile entry_free (rev es))"
    by (simp add: free_suffix_def)
  moreover have "takeWhile entry_free (rev es) ! k = rev es ! k"
    using \<open>k < free_suffix es\<close> by (simp add: free_suffix_def takeWhile_nth)
  moreover have "rev es ! k = es ! j" using assms by (simp add: k_def rev_nth)
  ultimately show ?thesis by (metis set_takeWhileD)
qed

lemma free_suffix_max:
  assumes "s \<le> length es" and "\<forall>j. s \<le> j \<and> j < length es \<longrightarrow> entry_free (es ! j)"
  shows "length es - s \<le> free_suffix es"
proof (rule ccontr)
  assume "\<not> length es - s \<le> free_suffix es"
  then have lt: "free_suffix es < length (rev es)" "free_suffix es < length es - s" by simp_all
  then have "\<not> entry_free (rev es ! free_suffix es)"
    unfolding free_suffix_def using nth_length_takeWhile by blast
  moreover have "rev es ! free_suffix es = es ! (length es - Suc (free_suffix es))"
    using lt by (simp add: rev_nth)
  moreover have "s \<le> length es - Suc (free_suffix es)" "length es - Suc (free_suffix es) < length es"
    using lt by simp_all
  ultimately show False using assms(2) by simp
qed

lemma fits_take: "fits (take i es) n s \<longleftrightarrow> fits es n s \<and> s + n \<le> i"
  by (auto simp: fits_iff)

lemma fits_Suc:
  assumes "0 < n" "i < length es" "\<not> (\<exists>s. fits (take i es) n s)"
  shows "fits (take (Suc i) es) n s \<longleftrightarrow> s + n = Suc i \<and> n \<le> free_suffix (take (Suc i) es)"
proof
  assume f: "fits (take (Suc i) es) n s"
  then have sn: "s + n = Suc i" using assms(3) by (auto simp: fits_take le_Suc_eq)
  moreover have "Suc i - s \<le> free_suffix (take (Suc i) es)"
  proof -
    have "length (take (Suc i) es) - s \<le> free_suffix (take (Suc i) es)"
    proof (rule free_suffix_max)
      show "\<forall>j. s \<le> j \<and> j < length (take (Suc i) es) \<longrightarrow> entry_free (take (Suc i) es ! j)"
      proof (intro allI impI)
        fix j
        assume "s \<le> j \<and> j < length (take (Suc i) es)"
        then show "entry_free (take (Suc i) es ! j)"
          using f sn assms(2) by (auto simp: fits_iff dest!: spec [of _ "j - s"])
      qed
    qed (use sn assms(2) in simp)
    then show ?thesis using assms(2) by simp
  qed
  ultimately show "s + n = Suc i \<and> n \<le> free_suffix (take (Suc i) es)" by simp
next
  assume a: "s + n = Suc i \<and> n \<le> free_suffix (take (Suc i) es)"
  have "entry_free (take (Suc i) es ! (s + k))" if "k < n" for k
    by (rule free_suffix_free) (use a assms(2) that in auto)
  with a assms(2) show "fits (take (Suc i) es) n s" by (auto simp: fits_iff)
qed

lemma first_fit_SomeI:
  assumes "fits es n s" "\<And>s'. s' < s \<Longrightarrow> \<not> fits es n s'" "0 < n"
  shows "first_fit es n = Some s"
proof -
  have "s < length es" using assms by (simp add: fits_iff)
  with assms show ?thesis by (auto simp: first_fit_def find_Some_iff intro!: exI [of _ s])
qed

lemma fits_less: "0 < n \<Longrightarrow> fits es n s \<Longrightarrow> s < length es"
  by (simp add: fits_iff)

lemma first_fit_None: "0 < n \<Longrightarrow> first_fit es n = None \<longleftrightarrow> (\<forall>s. \<not> fits es n s)"
  by (auto simp: first_fit_def find_None_iff dest: fits_less)

lemma first_fit_Some: "first_fit es n = Some s \<Longrightarrow> fits es n s \<and> (\<forall>t < s. \<not> fits es n t)"
  by (auto simp: first_fit_def find_Some_iff)

lemma scan_taken:
  "i < unat (total tbl) \<Longrightarrow> i < length (entries tbl) \<Longrightarrow> \<not> entry_free (entries tbl ! i) \<Longrightarrow>
   heap_get_start_block_loop tbl n i bc bs = heap_get_start_block_loop tbl n (Suc i) 0 (-1)"
  by (subst heap_get_start_block_loop.simps) (simp add: entry_free_def)

lemma scan_free:
  "i < unat (total tbl) \<Longrightarrow> i < length (entries tbl) \<Longrightarrow> entry_free (entries tbl ! i) \<Longrightarrow>
   bs' = (if bs = -1 then int i else bs) \<Longrightarrow>
   heap_get_start_block_loop tbl n i bc bs =
     (if word_of_int (bc + 1) = n then Inr bs'
      else heap_get_start_block_loop tbl n (Suc i) (bc + 1) bs')"
  by (subst heap_get_start_block_loop.simps) (simp add: entry_free_def Let_def)

text \<open>The scan is the reference: invariant of the loop at block \<open>i\<close>.\<close>

lemma heap_get_start_block_loop_ref:
  assumes "length (entries tbl) = unat (total tbl)" and "0 < unat n"
    and "i \<le> length (entries tbl)"
    and "\<not> (\<exists>s. fits (take i (entries tbl)) (unat n) s)"
    and "r = free_suffix (take i (entries tbl))"
  shows "heap_get_start_block_loop tbl n i (int r) (if r = 0 then -1 else int (i - r)) =
    Inr (case scan_ref (entries tbl) (unat n) of None \<Rightarrow> -1 | Some s \<Rightarrow> int s)"
  using assms(3-)
proof (induction "length (entries tbl) - i" arbitrary: i r)
  case 0
  then have "i = length (entries tbl)" by simp
  with 0 have "first_fit (entries tbl) (unat n) = None"
    using first_fit_None [OF assms(2)] by simp
  with 0 \<open>i = _\<close> assms(1) show ?case
    by (simp add: heap_get_start_block_loop.simps scan_ref_def)
next
  case (Suc x)
  let ?es = "entries tbl"
  have i: "i < length ?es" using Suc.hyps(2) by simp
  have r: "r \<le> i" using Suc.prems(3) free_suffix_le [of "take i ?es"] i by simp
  have n32: "unat n < 2 ^ 32" by simp
  have len32: "length ?es < 2 ^ 32" using assms(1) by simp
  define r' where "r' = free_suffix (take (Suc i) ?es)"
  have r': "r' = (if entry_free (?es ! i) then Suc r else 0)"
    using i Suc.prems(3) by (simp add: r'_def free_suffix_Suc)
  have rn: "r < unat n"
  proof (rule ccontr)
    assume "\<not> r < unat n"
    then have "fits (take i ?es) (unat n) (i - unat n)"
      using r i Suc.prems(3) free_suffix_free [of "take i ?es"] by (auto simp: fits_iff)
    with Suc.prems(2) show False by blast
  qed
  have step: "heap_get_start_block_loop tbl n i (int r) (if r = 0 then -1 else int (i - r)) =
    (if r' = unat n then Inr (int (Suc i - r'))
     else heap_get_start_block_loop tbl n (Suc i) (int r') (if r' = 0 then -1 else int (Suc i - r')))"
  proof -
    have "word_of_int (int r + 1) = (word_of_nat (Suc r) :: u32)" by simp
    moreover have "Suc r < 2 ^ 32" using rn n32 by linarith
    ultimately have eq: "word_of_int (int r + 1) = n \<longleftrightarrow> Suc r = unat n"
      using of_nat32_eq_iff [of "Suc r" n] by (simp only:)
    show ?thesis
    proof (cases "entry_free (?es ! i)")
      case True
      then have "heap_get_start_block_loop tbl n i (int r) (if r = 0 then -1 else int (i - r)) =
        (if word_of_int (int r + 1) = n then Inr (int (i - r))
         else heap_get_start_block_loop tbl n (Suc i) (int r + 1) (int (i - r)))"
        using i assms(1) by (intro scan_free) auto
      with True show ?thesis by (simp only: eq r') (auto simp: add.commute)
    next
      case False
      then show ?thesis using i assms by (simp add: scan_taken r')
    qed
  qed
  show ?case
  proof (cases "r' = unat n")
    case True
    have "fits ?es (unat n) (Suc i - unat n)"
      using fits_Suc [OF assms(2) i, of "Suc i - unat n"] Suc.prems(2) True r' rn r
      by (auto simp: fits_take r'_def [symmetric] split: if_splits)
    moreover have "\<not> fits ?es (unat n) s'" if "s' < Suc i - unat n" for s'
      using that Suc.prems(2) by (auto simp: fits_take)
    ultimately have "first_fit ?es (unat n) = Some (Suc i - unat n)"
      using first_fit_SomeI assms(2) by blast
    with step True show ?thesis by (simp add: scan_ref_def)
  next
    case False
    have "\<not> (\<exists>s. fits (take (Suc i) ?es) (unat n) s)"
      using fits_Suc [OF assms(2) i] Suc.prems(2) False r' rn
      by (auto simp: r'_def [symmetric] split: if_splits)
    then have "heap_get_start_block_loop tbl n (Suc i) (int r')
        (if r' = 0 then -1 else int (Suc i - r')) =
        Inr (case scan_ref ?es (unat n) of None \<Rightarrow> -1 | Some s \<Rightarrow> int s)"
      using Suc.hyps(1) [of "Suc i" r'] Suc.hyps(2) i by (simp add: r'_def)
    with step False show ?thesis by simp
  qed
qed

lemma heap_get_start_block_eq:
  assumes "length (entries (table h)) = unat (total (table h))" and "0 < unat n"
  shows "heap_get_start_block h n =
    Inr (case scan_ref (entries (table h)) (unat n) of None \<Rightarrow> - ENOMEM | Some s \<Rightarrow> int s)"
proof -
  have "\<not> (\<exists>s. fits (take 0 (entries (table h))) (unat n) s)"
    using assms(2) by (simp add: fits_iff)
  from heap_get_start_block_loop_ref [OF assms _ this, of 0]
  show ?thesis
    by (auto simp: heap_get_start_block_def free_suffix_def split: option.splits)
qed

section \<open>Allocations as the table shows them\<close>

text \<open>The byte of block \<open>k\<close> of an allocation of \<open>n\<close> blocks.\<close>

definition run_byte :: "nat \<Rightarrow> nat \<Rightarrow> u8" where
  "run_byte n k =
     (if k = 0 then (if 1 < n then 0xC1 else 0x41) else if k = n - 1 then 0x01 else 0x81)"

definition run_at :: "u8 list \<Rightarrow> nat \<Rightarrow> nat \<Rightarrow> bool" where
  "run_at es s n \<longleftrightarrow> 0 < n \<and> s + n \<le> length es \<and> (\<forall>k<n. es ! (s + k) = run_byte n k)"

definition put_run :: "u8 list \<Rightarrow> nat \<Rightarrow> nat \<Rightarrow> nat \<Rightarrow> u8 list" where
  "put_run es s n k =
     map (\<lambda>j. if s \<le> j \<and> j < s + k then run_byte n (j - s) else es ! j) [0..<length es]"

definition clear_run :: "u8 list \<Rightarrow> nat \<Rightarrow> nat \<Rightarrow> u8 list" where
  "clear_run es s k = map (\<lambda>j. if s \<le> j \<and> j < s + k then 0 else es ! j) [0..<length es]"

text \<open>Every byte is free (0) or belongs to an allocation.\<close>

definition wf_entries :: "u8 list \<Rightarrow> bool" where
  "wf_entries es \<longleftrightarrow>
     (\<forall>i<length es. es ! i = 0 \<or> (\<exists>a n. run_at es a n \<and> a \<le> i \<and> i < a + n))"

lemma length_put_run [simp]: "length (put_run es s n k) = length es"
  by (simp add: put_run_def)

lemma length_clear_run [simp]: "length (clear_run es s k) = length es"
  by (simp add: clear_run_def)

lemma nth_put_run:
  "j < length es \<Longrightarrow>
   put_run es s n k ! j = (if s \<le> j \<and> j < s + k then run_byte n (j - s) else es ! j)"
  by (simp add: put_run_def)

lemma nth_clear_run:
  "j < length es \<Longrightarrow> clear_run es s k ! j = (if s \<le> j \<and> j < s + k then 0 else es ! j)"
  by (simp add: clear_run_def)

lemma run_byte_ne_0 [simp]: "run_byte n k \<noteq> 0"
  by (simp add: run_byte_def)

lemma run_byte_not_free: "\<not> entry_free (run_byte n k)"
  by (simp add: run_byte_def entry_free_def heap_get_entry_type_def heap_consts)

lemma entry_free_0 [simp]: "entry_free 0"
  by (simp add: entry_free_def heap_get_entry_type_def heap_consts)

lemma run_byte_first: "run_byte n k AND HEAP_BLOCK_IS_FIRST = 0 \<longleftrightarrow> k \<noteq> 0"
  by (simp add: run_byte_def heap_consts)

lemma run_byte_next: "k < n \<Longrightarrow> run_byte n k AND HEAP_BLOCK_HAS_NEXT = 0 \<longleftrightarrow> k = n - 1"
  by (auto simp: run_byte_def heap_consts)

lemma wf_entries_free: "wf_entries es \<Longrightarrow> i < length es \<Longrightarrow> entry_free (es ! i) \<longleftrightarrow> es ! i = 0"
proof
  assume wf: "wf_entries es" and i: "i < length es" and f: "entry_free (es ! i)"
  show "es ! i = 0"
  proof (rule ccontr)
    assume "es ! i \<noteq> 0"
    with wf i obtain a n where "run_at es a n" "a \<le> i" "i < a + n"
      by (auto simp: wf_entries_def)
    then have "es ! i = run_byte n (i - a)" by (auto simp: run_at_def dest!: spec [of _ "i - a"])
    with f show False by (simp add: run_byte_not_free)
  qed
qed simp

text \<open>Two allocations that share a block are the same.\<close>

lemma run_at_start_eq:
  assumes "run_at es a n" "run_at es b k" "a \<le> b" "b < a + n"
  shows "a = b"
proof -
  have "es ! b = run_byte n (b - a)"
    using assms by (auto simp: run_at_def dest!: spec [of _ "b - a"])
  moreover have "es ! b = run_byte k 0" using assms by (auto simp: run_at_def dest: spec [of _ 0])
  ultimately show ?thesis using run_byte_first [of n "b - a"] run_byte_first [of k 0] assms(3) by simp
qed

lemma run_at_len_le:
  assumes "run_at es a n" "run_at es a k"
  shows "n \<le> k"
proof (rule ccontr)
  assume "\<not> n \<le> k"
  with assms have "run_byte n (k - 1) = run_byte k (k - 1)"
    by (auto simp: run_at_def dest!: spec [of _ "k - 1"])
  with \<open>\<not> n \<le> k\<close> assms(2) show False
    using run_byte_next [of "k - 1" n] run_byte_next [of "k - 1" k] by (auto simp: run_at_def)
qed

lemma run_at_disjoint:
  assumes "run_at es a n" "run_at es b k" "a \<le> i" "i < a + n" "b \<le> i" "i < b + k"
  shows "a = b \<and> n = k"
proof -
  have "a = b"
  proof (cases "a \<le> b")
    case True
    with assms show ?thesis by (intro run_at_start_eq [of es a n b k]) auto
  next
    case False
    with assms have "b = a" by (intro run_at_start_eq [of es b k a n]) auto
    then show ?thesis by simp
  qed
  with assms show ?thesis by (auto intro: le_antisym run_at_len_le)
qed

lemma run_at_nth: "run_at es a n \<Longrightarrow> a \<le> j \<Longrightarrow> j < a + n \<Longrightarrow> es ! j = run_byte n (j - a)"
  by (auto simp: run_at_def dest!: spec [of _ "j - a"])

lemma run_at_transfer:
  assumes "run_at es a n" "length es' = length es" "\<And>j. a \<le> j \<Longrightarrow> j < a + n \<Longrightarrow> es' ! j = es ! j"
  shows "run_at es' a n"
  using assms by (simp add: run_at_def)

lemma run_at_put_run:
  assumes "0 < n" "s + n \<le> length es" "\<And>j. s \<le> j \<Longrightarrow> j < s + n \<Longrightarrow> es ! j = 0"
  shows "run_at (put_run es s n n) a k \<longleftrightarrow> a = s \<and> k = n \<or> run_at es a k"
proof
  have new: "run_at (put_run es s n n) s n"
    using assms by (simp add: run_at_def nth_put_run)
  assume r: "run_at (put_run es s n n) a k"
  show "a = s \<and> k = n \<or> run_at es a k"
  proof (cases "\<exists>j. a \<le> j \<and> j < a + k \<and> s \<le> j \<and> j < s + n")
    case True
    then show ?thesis using run_at_disjoint [OF r new] by blast
  next
    case False
    have "run_at es a k"
    proof (rule run_at_transfer [OF r])
      fix j
      assume "a \<le> j" "j < a + k"
      with False r show "es ! j = put_run es s n n ! j"
        by (auto simp: nth_put_run run_at_def)
    qed simp
    then show ?thesis ..
  qed
next
  assume "a = s \<and> k = n \<or> run_at es a k"
  then show "run_at (put_run es s n n) a k"
  proof
    assume "a = s \<and> k = n"
    with assms show ?thesis by (simp add: run_at_def nth_put_run)
  next
    assume r: "run_at es a k"
    show ?thesis
    proof (rule run_at_transfer [OF r])
      fix j
      assume j: "a \<le> j" "j < a + k"
      then have "es ! j \<noteq> 0" using run_at_nth [OF r] by simp
      with j r assms(3) [of j] show "put_run es s n n ! j = es ! j"
        by (auto simp: nth_put_run run_at_def)
    qed simp
  qed
qed

lemma run_at_clear_run:
  assumes s: "run_at es s n"
  shows "run_at (clear_run es s n) a k \<longleftrightarrow> run_at es a k \<and> (a, k) \<noteq> (s, n)"
proof
  assume r: "run_at (clear_run es s n) a k"
  have out: "\<not> (s \<le> j \<and> j < s + n)" if "a \<le> j" "j < a + k" for j
    using run_at_nth [OF r that] r that by (auto simp: nth_clear_run run_at_def split: if_splits)
  have "run_at es a k"
  proof (rule run_at_transfer [OF r])
    fix j
    assume "a \<le> j" "j < a + k"
    with out [of j] r show "es ! j = clear_run es s n ! j"
      by (auto simp: nth_clear_run run_at_def)
  qed simp
  moreover have "(a, k) \<noteq> (s, n)" using out [of a] r by (auto simp: run_at_def)
  ultimately show "run_at es a k \<and> (a, k) \<noteq> (s, n)" ..
next
  assume r: "run_at es a k \<and> (a, k) \<noteq> (s, n)"
  show "run_at (clear_run es s n) a k"
  proof (rule run_at_transfer [of es])
    fix j
    assume j: "a \<le> j" "j < a + k"
    with r s have "\<not> (s \<le> j \<and> j < s + n)" using run_at_disjoint [of es a k s n j] by auto
    with j r show "clear_run es s n ! j = es ! j" by (auto simp: nth_clear_run run_at_def)
  qed (use r in auto)
qed

lemma wf_entries_put_run:
  assumes "wf_entries es" "0 < n" "s + n \<le> length es" "\<And>j. s \<le> j \<Longrightarrow> j < s + n \<Longrightarrow> es ! j = 0"
  shows "wf_entries (put_run es s n n)"
  unfolding wf_entries_def
proof (intro allI impI)
  fix i
  assume i: "i < length (put_run es s n n)"
  note put = run_at_put_run [OF assms(2-4)]
  show "put_run es s n n ! i = 0 \<or> (\<exists>a k. run_at (put_run es s n n) a k \<and> a \<le> i \<and> i < a + k)"
  proof (cases "s \<le> i \<and> i < s + n")
    case True
    with put show ?thesis by (intro disjI2 exI [of _ s] exI [of _ n]) simp
  next
    case False
    with i have "put_run es s n n ! i = es ! i" by (auto simp: nth_put_run)
    with assms(1) i put show ?thesis by (simp add: wf_entries_def) blast
  qed
qed

lemma wf_entries_clear_run:
  assumes "wf_entries es" and s: "run_at es s n"
  shows "wf_entries (clear_run es s n)"
  unfolding wf_entries_def
proof (intro allI impI)
  fix i
  assume i: "i < length (clear_run es s n)"
  show "clear_run es s n ! i = 0 \<or>
    (\<exists>a k. run_at (clear_run es s n) a k \<and> a \<le> i \<and> i < a + k)"
  proof (cases "s \<le> i \<and> i < s + n")
    case True
    with i show ?thesis by (simp add: nth_clear_run)
  next
    case False
    from assms(1) i consider "es ! i = 0" | a k where "run_at es a k" "a \<le> i" "i < a + k"
      by (auto simp: wf_entries_def)
    then show ?thesis
    proof cases
      case 1
      with False i show ?thesis by (auto simp: nth_clear_run)
    next
      case 2
      with False s show ?thesis
        by (intro disjI2 exI [of _ a] exI [of _ k]) (auto simp: run_at_clear_run)
    qed
  qed
qed

section \<open>The marking loops\<close>

lemma put_run_Suc:
  assumes "s + k < length es"
  shows "(put_run es s n k)[s + k := run_byte n k] = put_run es s n (Suc k)"
  using assms by (auto simp: list_eq_iff_nth_eq nth_put_run nth_list_update)

lemma put_run_0 [simp]: "put_run es s n 0 = es"
  by (auto simp: list_eq_iff_nth_eq nth_put_run)

lemma heap_mark_blocks_taken_loop_run:
  assumes "s + n \<le> length es" and "k \<le> n" and "k < n \<longrightarrow> entry = run_byte n k"
  shows "heap_mark_blocks_taken_loop (put_run es s n k) (int (s + k)) (int s + int n - 1) entry =
    Inr (put_run es s n n)"
  using assms(2,3)
proof (induction "n - k" arbitrary: k entry)
  case 0
  then show ?case by (simp add: heap_mark_blocks_taken_loop.simps)
next
  case (Suc x)
  then have k: "k < n" by simp
  have set: "arr_set (put_run es s n k) (int (s + k)) entry = Inr (put_run es s n (Suc k))"
    using k assms(1) Suc.prems(2) put_run_Suc [of s k es n]
    by (subst arr_set_in) simp_all
  have next_entry: "Suc k < n \<Longrightarrow>
      (if int (s + k) \<noteq> int s + int n - 1 - 1 then HEAP_BLOCK_TABLE_ENTRY_TAKEN OR HEAP_BLOCK_HAS_NEXT
       else HEAP_BLOCK_TABLE_ENTRY_TAKEN) = run_byte n (Suc k)"
    by (auto simp: run_byte_def heap_consts)
  have "heap_mark_blocks_taken_loop (put_run es s n k) (int (s + k)) (int s + int n - 1) entry =
    heap_mark_blocks_taken_loop (put_run es s n (Suc k)) (int (s + Suc k)) (int s + int n - 1)
      (if int (s + k) \<noteq> int s + int n - 1 - 1 then HEAP_BLOCK_TABLE_ENTRY_TAKEN OR HEAP_BLOCK_HAS_NEXT
       else HEAP_BLOCK_TABLE_ENTRY_TAKEN)"
    using k by (subst heap_mark_blocks_taken_loop.simps, simp only: set) (simp add: add.commute)
  with Suc.hyps(1) [of "Suc k"] Suc.hyps(2) k next_entry show ?case by simp
qed

lemma heap_mark_blocks_taken_loop_overrun:
  assumes "i \<le> end_block" and "0 \<le> i" and "int (length es) \<le> end_block"
  shows "heap_mark_blocks_taken_loop es i end_block entry = Inl Undefined"
  using assms
proof (induction es i end_block entry rule: heap_mark_blocks_taken_loop.induct)
  case (1 es i end_block entry)
  show ?case
  proof (cases "i < int (length es)")
    case True
    then have "arr_set es i entry = Inr (es[nat i := entry])" using "1.prems" by (simp add: arr_set_def)
    with True "1.IH" "1.prems" show ?thesis by (subst heap_mark_blocks_taken_loop.simps) simp
  next
    case False
    with "1.prems" show ?thesis by (subst heap_mark_blocks_taken_loop.simps) simp
  qed
qed

lemma clear_run_0 [simp]: "clear_run es s 0 = es"
  by (auto simp: list_eq_iff_nth_eq nth_clear_run)

lemma clear_run_Suc:
  assumes "s + k < length es"
  shows "(clear_run es s k)[s + k := 0] = clear_run es s (Suc k)"
  using assms by (auto simp: list_eq_iff_nth_eq nth_clear_run nth_list_update)

lemma heap_mark_blocks_free_loop_run:
  assumes r: "run_at es s n" and "int (length es) = tot" and "k < n"
  shows "heap_mark_blocks_free_loop (clear_run es s k) tot (int (s + k)) = Inr (clear_run es s n)"
  using assms(3)
proof (induction "n - k" arbitrary: k)
  case 0
  then show ?case by simp
next
  case (Suc x)
  have len: "s + k < length es" using Suc.prems r by (simp add: run_at_def)
  have get: "arr_get (clear_run es s k) (int (s + k)) = Inr (run_byte n k)"
    using len Suc.prems run_at_nth [OF r, of "s + k"]
    by (subst arr_get_in) (simp_all add: nth_clear_run)
  have set: "arr_set (clear_run es s k) (int (s + k)) HEAP_BLOCK_TABLE_ENTRY_FREE =
      Inr (clear_run es s (Suc k))"
    using len clear_run_Suc [of s k es] by (subst arr_set_in) (simp_all add: heap_consts)
  have step: "heap_mark_blocks_free_loop (clear_run es s k) tot (int (s + k)) =
    (if k = n - 1 then Inr (clear_run es s (Suc k))
     else heap_mark_blocks_free_loop (clear_run es s (Suc k)) tot (int (s + Suc k)))"
    using len assms(2) run_byte_next [OF Suc.prems]
    by (subst heap_mark_blocks_free_loop.simps, simp only: get set bnd.simps) (simp add: add.commute)
  show ?case
  proof (cases "k = n - 1")
    case True
    then have "Suc k = n" using Suc.prems by simp
    with step True show ?thesis by simp
  next
    case False
    with step Suc.hyps(1) [of "Suc k"] Suc.hyps(2) Suc.prems show ?thesis by simp
  qed
qed

section \<open>The heap as an allocator\<close>

text \<open>
  The invariant: the table has an entry per block, the range is block aligned, does not start
  at the null address, does not wrap and spans at most \<open>2^31\<close> bytes (so that the distance of an
  address from the start is a non-negative \<^verbatim>\<open>int\<close>), and the entries form allocations.
\<close>

definition heap_inv :: "heap \<Rightarrow> bool" where
  "heap_inv h \<longleftrightarrow>
     length (entries (table h)) = unat (total (table h))
     \<and> 4096 * length (entries (table h)) \<le> 2 ^ 31
     \<and> 4096 dvd unat (saddr h) \<and> saddr h \<noteq> 0
     \<and> unat (saddr h) + 4096 * length (entries (table h)) \<le> 2 ^ 32
     \<and> wf_entries (entries (table h))"

definition heap_allocs :: "heap \<Rightarrow> (u32 \<times> nat) set" where
  "heap_allocs h = {(saddr h + word_of_nat (4096 * s), n) | s n. run_at (entries (table h)) s n}"

definition heap_vacant :: "heap \<Rightarrow> nat" where
  "heap_vacant h = length (filter (\<lambda>e. e = 0) (entries (table h)))"

abbreviation with_entries :: "heap \<Rightarrow> u8 list \<Rightarrow> heap" where
  "with_entries h es \<equiv> h\<lparr>table := (table h)\<lparr>entries := es\<rparr>\<rparr>"

lemma unat_align:
  assumes "sz \<le> 0xFFFFF000"
  shows "unat (heap_align_value_to_upper sz) = 4096 * blocks_of sz"
proof -
  define k where "k = unat sz"
  have le: "k \<le> 4294963200" using assms by (simp add: word_le_nat_alt k_def)
  have m: "unat (sz mod 4096) = k mod 4096" by (simp add: unat_mod k_def)
  then have z: "sz mod 4096 = 0 \<longleftrightarrow> k mod 4096 = 0" by (metis unsigned_eq_0_iff)
  show ?thesis
  proof (cases "k mod 4096 = 0")
    case True
    then obtain q where "k = 4096 * q" by auto
    with True z show ?thesis
      by (simp add: heap_align_value_to_upper_def GUAVAOS_HEAP_BLOCK_SIZE_def blocks_of_def k_def)
  next
    case False
    define q r where "q = k div 4096" and "r = k mod 4096"
    have k: "k = 4096 * q + r" "0 < r" "r < 4096" using False by (simp_all add: q_def r_def)
    have "unat (sz - sz mod 4096) = 4096 * q"
      using m k by (simp add: unat_sub_if' k_def [symmetric] r_def [symmetric])
    moreover have "4096 * q + 4096 < 2 ^ 32" using k le by simp
    ultimately have "unat (sz - sz mod 4096 + 4096) = 4096 * q + 4096"
      by (simp add: unat_plus_if')
    moreover have "blocks_of sz = Suc q"
      using k by (simp add: blocks_of_def k_def [symmetric])
    ultimately show ?thesis using False z
      by (simp add: heap_align_value_to_upper_def GUAVAOS_HEAP_BLOCK_SIZE_def)
  qed
qed

lemma unat_align_blocks:
  "sz \<le> 0xFFFFF000 \<Longrightarrow>
   unat (heap_align_value_to_upper sz div GUAVAOS_HEAP_BLOCK_SIZE) = blocks_of sz"
  by (simp add: unat_div unat_align GUAVAOS_HEAP_BLOCK_SIZE_def)

lemma fits_vacant:
  "wf_entries es \<Longrightarrow> fits es n s \<Longrightarrow> s \<le> j \<Longrightarrow> j < s + n \<Longrightarrow> es ! j = 0"
  using wf_entries_free [of es j] by (auto simp: fits_iff dest!: spec [of _ "j - s"])


lemma scan_ref_less: "0 < n \<Longrightarrow> scan_ref es n = Some s \<Longrightarrow> s < length es"
  using free_suffix_le [of es]
  by (auto simp: scan_ref_def dest: first_fit_Some fits_less split: option.splits if_splits)

lemma heap_malloc_scan:
  assumes h: "heap_inv h" and sz: "valid_size sz"
  shows "heap_malloc h sz =
    (case scan_ref (entries (table h)) (blocks_of sz) of
       None \<Rightarrow> Inr (0, h)
     | Some s \<Rightarrow> bnd (heap_mark_blocks_taken h (int s) (int (blocks_of sz)))
         (\<lambda>h'. Inr (saddr h + word_of_nat (4096 * s), h')))"
proof -
  let ?n = "heap_align_value_to_upper sz div GUAVAOS_HEAP_BLOCK_SIZE"
  have n: "unat ?n = blocks_of sz" using sz by (simp add: valid_size_def unat_align_blocks)
  have pos: "0 < blocks_of sz" using sz by (simp add: valid_size_def blocks_of_pos)
  have "blocks_of sz \<le> 2 ^ 20"
  proof -
    have "unat sz + 4095 \<le> 4294967295" using sz by (simp add: valid_size_def word_le_nat_alt)
    then have "(unat sz + 4095) div 4096 \<le> 4294967295 div 4096" by (rule div_le_mono)
    then show ?thesis by (simp add: blocks_of_def)
  qed
  then have sint_n: "sint ?n = int (blocks_of sz)" using n by (simp add: sint_small)
  have "heap_get_start_block h ?n =
      Inr (case scan_ref (entries (table h)) (blocks_of sz) of None \<Rightarrow> - ENOMEM | Some s \<Rightarrow> int s)"
    using heap_get_start_block_eq [of h ?n] h pos n by (simp add: heap_inv_def)
  then show ?thesis
    using sint_n unfolding GUAVAOS_HEAP_BLOCK_SIZE_def
    by (auto simp: heap_malloc_def heap_malloc_blocks_def Let_def ENOMEM_def
        heap_block_to_address_def GUAVAOS_HEAP_BLOCK_SIZE_def mult.commute split: option.splits)
qed

lemma heap_mark_blocks_taken_run:
  assumes "s + n \<le> length (entries (table h))" "0 < n"
  shows "heap_mark_blocks_taken h (int s) (int n) =
    Inr (with_entries h (put_run (entries (table h)) s n n))"
  using heap_mark_blocks_taken_loop_run [OF assms(1), of 0] assms(2)
  by (cases "n = 1") (simp_all add: heap_mark_blocks_taken_def Let_def run_byte_def heap_consts)

text \<open>The three outcomes of a request.\<close>

lemma heap_malloc_fit:
  assumes "heap_inv h" "valid_size sz" "first_fit (entries (table h)) (blocks_of sz) = Some s"
  shows "heap_malloc h sz = Inr (saddr h + word_of_nat (4096 * s),
    with_entries h (put_run (entries (table h)) s (blocks_of sz) (blocks_of sz)))"
  using assms heap_mark_blocks_taken_run [of s "blocks_of sz" h] first_fit_Some [OF assms(3)]
  by (simp add: heap_malloc_scan scan_ref_def fits_iff valid_size_def blocks_of_pos)

lemma heap_malloc_null:
  assumes "heap_inv h" "valid_size sz" "scan_ref (entries (table h)) (blocks_of sz) = None"
  shows "heap_malloc h sz = Inr (0, h)"
  using assms by (simp add: heap_malloc_scan)

lemma heap_malloc_overrun:
  assumes "heap_inv h" "valid_size sz" "first_fit (entries (table h)) (blocks_of sz) = None"
    and "0 < free_suffix (entries (table h))"
  shows "heap_malloc h sz = Inl Undefined"
proof -
  let ?es = "entries (table h)" and ?n = "blocks_of sz"
  let ?s = "length ?es - free_suffix ?es"
  have pos: "0 < ?n" using assms(2) by (simp add: valid_size_def blocks_of_pos)
  have "\<not> fits ?es ?n ?s" using assms(3) first_fit_None [OF pos] by simp
  moreover have "entry_free (?es ! (?s + k))" if "k < ?n" "?s + ?n \<le> length ?es" for k
    using that by (intro free_suffix_free) simp_all
  ultimately have "length ?es < ?s + ?n" unfolding fits_iff by (meson not_le)
  then have over: "int ?s \<le> int ?s + int ?n - 1" "int (length ?es) \<le> int ?s + int ?n - 1"
    using pos by simp_all
  have "heap_mark_blocks_taken h (int ?s) (int ?n) = Inl Undefined"
    by (simp add: heap_mark_blocks_taken_def Let_def
        heap_mark_blocks_taken_loop_overrun [OF over(1) _ over(2)])
  with assms show ?thesis by (simp add: heap_malloc_scan scan_ref_def)
qed

lemma heap_malloc_Inr_cases:
  assumes "heap_inv h" "valid_size sz" "heap_malloc h sz = Inr (p, h')"
  obtains (null) "p = 0" "h' = h" "scan_ref (entries (table h)) (blocks_of sz) = None"
  | (fit) s where "first_fit (entries (table h)) (blocks_of sz) = Some s"
      "p = saddr h + word_of_nat (4096 * s)"
      "h' = with_entries h (put_run (entries (table h)) s (blocks_of sz) (blocks_of sz))"
proof (cases "first_fit (entries (table h)) (blocks_of sz)")
  case (Some s)
  with heap_malloc_fit [OF assms(1,2) Some] assms(3) fit show thesis by simp
next
  case None
  with heap_malloc_overrun [OF assms(1,2)] assms(3)
  have "scan_ref (entries (table h)) (blocks_of sz) = None" by (auto simp: scan_ref_def)
  with heap_malloc_null [OF assms(1,2)] assms(3) null show thesis by simp
qed

lemma heap_inv_with_entries:
  "heap_inv h \<Longrightarrow> length es = length (entries (table h)) \<Longrightarrow> wf_entries es \<Longrightarrow>
   heap_inv (with_entries h es)"
  by (simp add: heap_inv_def)

lemma unat_block_address:
  assumes "heap_inv h" "s < length (entries (table h))"
  shows "unat (saddr h + word_of_nat (4096 * s)) = unat (saddr h) + 4096 * s"
proof -
  have "unat (saddr h) + 4096 * s < 2 ^ 32" "4096 * s < 2 ^ 32"
    using assms by (simp_all add: heap_inv_def)
  then show ?thesis
    using unat_of_nat32 [of "4096 * s"] by (simp add: unat_plus_if' del: of_nat_mult)
qed

lemma heap_free_run:
  assumes h: "heap_inv h" and r: "run_at (entries (table h)) s n"
  shows "heap_free h (saddr h + word_of_nat (4096 * s)) =
    Inr (with_entries h (clear_run (entries (table h)) s n))"
proof -
  let ?es = "entries (table h)"
  have s: "s < length ?es" "0 < n" using r by (simp_all add: run_at_def)
  have off: "unat (word_of_nat (4096 * s) :: u32) = 4096 * s"
    using h s by (subst unat_of_nat32) (simp_all add: heap_inv_def)
  moreover have "4096 * s < 2 ^ 31" using h s by (simp add: heap_inv_def)
  ultimately have "sint (word_of_nat (4096 * s) :: u32) = int (4096 * s)"
    using sint_small [of "word_of_nat (4096 * s)"] by (simp only:)
  then have blk: "heap_address_to_block h (saddr h + word_of_nat (4096 * s)) = int s"
    by (simp add: heap_address_to_block_def signed_divide_int_def sgn_if del: of_nat_mult) simp
  have tot: "sint (total (table h)) = int (length ?es)"
    using h sint_small [of "total (table h)"] by (simp add: heap_inv_def)
  show ?thesis
    using heap_mark_blocks_free_loop_run [OF r _ s(2), of "int (length ?es)"]
    by (simp add: heap_free_def heap_mark_blocks_free_def blk tot del: of_nat_mult)
qed

lemma heap_vacant_card:
  "heap_vacant h = card {i. i < length (entries (table h)) \<and> entries (table h) ! i = 0}"
  by (simp add: heap_vacant_def length_filter_conv_card)

lemma card_zero_run:
  assumes "s + n \<le> length es" "\<And>j. s \<le> j \<Longrightarrow> j < s + n \<Longrightarrow> es ! j = 0"
    and "length es' = length es"
    and "\<And>j. j < length es \<Longrightarrow> es' ! j = 0 \<longleftrightarrow> es ! j = 0 \<and> \<not> (s \<le> j \<and> j < s + n)"
  shows "card {i. i < length es \<and> es ! i = (0 :: u8)} = card {i. i < length es' \<and> es' ! i = 0} + n"
proof -
  have "{i. i < length es \<and> es ! i = 0} = {i. i < length es' \<and> es' ! i = 0} \<union> {s..<s + n}"
    using assms by auto
  moreover have "{i. i < length es' \<and> es' ! i = 0} \<inter> {s..<s + n} = {}"
    using assms by auto
  ultimately show ?thesis by (simp add: card_Un_disjoint)
qed

lemma heap_vacant_put_run:
  assumes "s + n \<le> length (entries (table h))"
    and "\<And>j. s \<le> j \<Longrightarrow> j < s + n \<Longrightarrow> entries (table h) ! j = 0"
  shows "heap_vacant h = heap_vacant (with_entries h (put_run (entries (table h)) s n n)) + n"
  using card_zero_run [OF assms, of "put_run (entries (table h)) s n n"]
  by (simp add: heap_vacant_card nth_put_run)

lemma heap_vacant_clear_run:
  assumes r: "run_at (entries (table h)) s n"
  shows "heap_vacant (with_entries h (clear_run (entries (table h)) s n)) = heap_vacant h + n"
proof -
  let ?es = "entries (table h)"
  have len: "s + n \<le> length ?es" using r by (simp add: run_at_def)
  have taken: "?es ! j \<noteq> 0" if "s \<le> j" "j < s + n" for j using run_at_nth [OF r that] by simp
  have "card {i. i < length (clear_run ?es s n) \<and> clear_run ?es s n ! i = 0} =
      card {i. i < length ?es \<and> ?es ! i = 0} + n"
    by (rule card_zero_run) (use len taken in \<open>auto simp: nth_clear_run\<close>)
  then show ?thesis by (simp add: heap_vacant_card)
qed

lemma heap_allocs_addr_inj:
  assumes "heap_inv h" "s < length (entries (table h))" "t < length (entries (table h))"
  shows "saddr h + word_of_nat (4096 * s) = saddr h + word_of_nat (4096 * t) \<longleftrightarrow> s = t"
proof
  assume "saddr h + word_of_nat (4096 * s) = saddr h + word_of_nat (4096 * t)"
  then have "unat (saddr h + word_of_nat (4096 * s)) = unat (saddr h + word_of_nat (4096 * t))"
    by (rule arg_cong)
  then have "unat (saddr h) + 4096 * s = unat (saddr h) + 4096 * t"
    by (simp only: unat_block_address [OF assms(1,2)] unat_block_address [OF assms(1,3)])
  then show "s = t" by simp
qed simp

lemma run_at_less: "run_at es s n \<Longrightarrow> s < length es"
  by (simp add: run_at_def)

lemma heap_allocs_put_run:
  assumes "heap_inv h" "0 < n" "s + n \<le> length (entries (table h))"
    and "\<And>j. s \<le> j \<Longrightarrow> j < s + n \<Longrightarrow> entries (table h) ! j = 0"
  shows "heap_allocs (with_entries h (put_run (entries (table h)) s n n)) =
      insert (saddr h + word_of_nat (4096 * s), n) (heap_allocs h)"
    and "(saddr h + word_of_nat (4096 * s), n) \<notin> heap_allocs h"
proof -
  show "heap_allocs (with_entries h (put_run (entries (table h)) s n n)) =
      insert (saddr h + word_of_nat (4096 * s), n) (heap_allocs h)"
    by (auto simp: heap_allocs_def run_at_put_run [OF assms(2-4)])
  show "(saddr h + word_of_nat (4096 * s), n) \<notin> heap_allocs h"
  proof
    assume "(saddr h + word_of_nat (4096 * s), n) \<in> heap_allocs h"
    then obtain t where t: "saddr h + word_of_nat (4096 * s) = saddr h + word_of_nat (4096 * t)"
      "run_at (entries (table h)) t n"
      unfolding heap_allocs_def by blast
    then have "run_at (entries (table h)) s n"
      using heap_allocs_addr_inj [OF assms(1), of s t] assms(2,3) run_at_less [OF t(2)] by simp
    then show False using run_at_nth [of _ s n s] assms(2) assms(4) [of s] by simp
  qed
qed

lemma heap_allocs_clear_run:
  assumes h: "heap_inv h" and r: "run_at (entries (table h)) s n"
  shows "heap_allocs (with_entries h (clear_run (entries (table h)) s n)) =
    heap_allocs h - {(saddr h + word_of_nat (4096 * s), n)}"
  using heap_allocs_addr_inj [OF h] run_at_less [OF r] run_at_less
  by (auto simp: heap_allocs_def run_at_clear_run [OF r] simp del: of_nat_mult)

lemma heap_allocs_E:
  assumes "heap_inv h" "(p, n) \<in> heap_allocs h"
  obtains s where "p = saddr h + word_of_nat (4096 * s)" "run_at (entries (table h)) s n"
    "unat p = unat (saddr h) + 4096 * s"
  using assms unat_block_address [OF assms(1)] run_at_less unfolding heap_allocs_def by blast

section \<open>Conservation of blocks\<close>

text \<open>Free blocks and the blocks of live allocations make up the whole table.\<close>

lemma finite_runs: "finite {(a, n). run_at es a n}"
proof (rule finite_subset)
  show "{(a, n). run_at es a n} \<subseteq> {..length es} \<times> {..length es}" by (auto simp: run_at_def)
qed simp

lemma taken_blocks:
  assumes "wf_entries es"
  shows "card {i. i < length es \<and> es ! i \<noteq> 0} = (\<Sum>(a, n) \<in> {(a, n). run_at es a n}. n)"
proof -
  have "{i. i < length es \<and> es ! i \<noteq> 0} = (\<Union>(a, n) \<in> {(a, n). run_at es a n}. {a..<a + n})"
  proof (intro set_eqI iffI)
    fix i
    assume "i \<in> {i. i < length es \<and> es ! i \<noteq> 0}"
    then show "i \<in> (\<Union>(a, n) \<in> {(a, n). run_at es a n}. {a..<a + n})" using assms by (fastforce simp: wf_entries_def)
  next
    fix i
    assume "i \<in> (\<Union>(a, n) \<in> {(a, n). run_at es a n}. {a..<a + n})"
    then obtain a n where r: "run_at es a n" "a \<le> i" "i < a + n" by auto
    then have "es ! i = run_byte n (i - a)" by (rule run_at_nth)
    moreover have "run_byte n (i - a) \<noteq> 0" by (simp add: run_byte_def)
    ultimately show "i \<in> {i. i < length es \<and> es ! i \<noteq> 0}" using r by (auto simp: run_at_def)
  qed
  also have "card \<dots> = (\<Sum>x \<in> {(a, n). run_at es a n}. card (case x of (a, n) \<Rightarrow> {a..<a + n}))"
  proof (rule card_UN_disjoint [OF finite_runs])
    show "\<forall>x \<in> {(a, n). run_at es a n}. \<forall>y \<in> {(a, n). run_at es a n}. x \<noteq> y \<longrightarrow>
        (case x of (a, n) \<Rightarrow> {a..<a + n}) \<inter> (case y of (a, n) \<Rightarrow> {a..<a + n}) = {}"
    proof (intro ballI impI equals0I)
      fix x y i
      assume "x \<in> {(a, n). run_at es a n}" "y \<in> {(a, n). run_at es a n}" "x \<noteq> y"
        "i \<in> (case x of (a, n) \<Rightarrow> {a..<a + n}) \<inter> (case y of (a, n) \<Rightarrow> {a..<a + n})"
      then show False using run_at_disjoint [of es "fst x" "snd x" "fst y" "snd y" i] by (cases x; cases y) simp
    qed
  qed auto
  also have "\<dots> = (\<Sum>(a, n) \<in> {(a, n). run_at es a n}. n)" by (rule sum.cong) auto
  finally show ?thesis .
qed

lemma block_address_inj:
  assumes "heap_inv h"
  shows "inj_on (\<lambda>(a, n). (saddr h + word_of_nat (4096 * a) :: u32, n)) {(a, n). run_at (entries (table h)) a n}"
proof (rule inj_onI, clarify)
  have bound: "4096 * a < 2 ^ 32" if "run_at (entries (table h)) a n" for a n
    using that assms by (auto simp: heap_inv_def run_at_def)
  fix a n b k
  assume r: "run_at (entries (table h)) a n" "run_at (entries (table h)) b k"
    and "saddr h + word_of_nat (4096 * a) = saddr h + (word_of_nat (4096 * b) :: u32)"
  then have "unat (word_of_nat (4096 * a) :: u32) = unat (word_of_nat (4096 * b) :: u32)" by simp
  then have "4096 * a = 4096 * b" using unat_of_nat32 [OF bound [OF r(1)]] unat_of_nat32 [OF bound [OF r(2)]] by metis
  then show "a = b \<and> n = n" by simp
qed

lemma heap_allocs_image:
  "heap_allocs h = (\<lambda>(a, n). (saddr h + word_of_nat (4096 * a), n)) ` {(a, n). run_at (entries (table h)) a n}"
  by (auto simp: heap_allocs_def image_def)

lemma heap_blocks_partition:
  assumes "heap_inv h"
  shows "heap_vacant h + (\<Sum>(p, n) \<in> heap_allocs h. n) = length (entries (table h))"
proof -
  let ?es = "entries (table h)" and ?R = "{(a, n). run_at (entries (table h)) a n}"
  let ?f = "\<lambda>(a, n). (saddr h + word_of_nat (4096 * a) :: u32, n)"
  have "inj_on ?f ?R" by (rule block_address_inj [OF assms])
  then have "(\<Sum>(p, n) \<in> ?f ` ?R. n) = (\<Sum>(a, n) \<in> ?R. n)"
    by (subst sum.reindex) (auto intro: sum.cong)
  moreover have "heap_allocs h = ?f ` ?R" by (auto simp: heap_allocs_def image_def)
  moreover have "length (filter (\<lambda>e. e = 0) ?es) + card {i. i < length ?es \<and> ?es ! i \<noteq> 0} = length ?es"
  proof -
    have "length (filter (\<lambda>e. e \<noteq> 0) ?es) = card {i. i < length ?es \<and> ?es ! i \<noteq> 0}" by (rule length_filter_conv_card)
    then show ?thesis using sum_length_filter_compl [of "\<lambda>e. e = 0" ?es] by simp
  qed
  ultimately show ?thesis
    using taken_blocks [of ?es] assms by (simp add: heap_vacant_def heap_inv_def)
qed

lemma finite_heap_allocs: "finite (heap_allocs h)"
  unfolding heap_allocs_image using finite_runs by (rule finite_imageI)

lemma heap_allocs_card: "heap_inv h \<Longrightarrow> card (heap_allocs h) = card {(a, n). run_at (entries (table h)) a n}"
  unfolding heap_allocs_image by (rule card_image [OF block_address_inj])

text \<open>
  Fragmentation: \<open>k\<close> allocations leave at most \<open>k + 1\<close> free runs, so one of them has \<open>n\<close> blocks as soon as
  more than \<open>(k + 1) * (n - 1)\<close> blocks are free.
\<close>

lemma fits_of_room:
  assumes wf: "wf_entries es" and n: "0 < n"
    and room: "(card {(a, k). run_at es a k} + 1) * (n - 1) < length (filter (\<lambda>e. e = 0) es)"
  shows "\<exists>s. fits es n s"
proof (rule ccontr)
  assume no: "\<not> (\<exists>s. fits es n s)"
  define Z where "Z = {i. i < length es \<and> es ! i = 0}"
  define E where "E = insert 0 ((\<lambda>(a, k). a + k) ` {(a, k). run_at es a k})"
  have zero: "es ! i = 0 \<Longrightarrow> entry_free (es ! i)" for i by simp
  have "Z \<subseteq> (\<lambda>(b, d). b + d) ` (E \<times> {..<n - 1})"
  proof
    fix i
    assume "i \<in> Z"
    then have i: "i < length es" "es ! i = 0" by (simp_all add: Z_def)
    define b where "b = (LEAST b. b \<le> i \<and> (\<forall>j. b \<le> j \<and> j \<le> i \<longrightarrow> es ! j = 0))"
    have "i \<le> i \<and> (\<forall>j. i \<le> j \<and> j \<le> i \<longrightarrow> es ! j = 0)" using i(2) by (auto dest: le_antisym)
    then have b: "b \<le> i \<and> (\<forall>j. b \<le> j \<and> j \<le> i \<longrightarrow> es ! j = 0)" unfolding b_def by (rule LeastI)
    have min: "\<not> (c \<le> i \<and> (\<forall>j. c \<le> j \<and> j \<le> i \<longrightarrow> es ! j = 0))" if "c < b" for c
      using not_less_Least that unfolding b_def by blast
    have "b \<in> E"
    proof (cases b)
      case (Suc c)
      have "\<exists>j. c \<le> j \<and> j \<le> i \<and> es ! j \<noteq> 0" using min [of c] b Suc by auto
      then have c: "es ! c \<noteq> 0" "c < length es" "es ! Suc c = 0"
        using b i Suc by (auto simp: le_Suc_eq dest: le_neq_implies_less)
      then obtain a k where r: "run_at es a k" "a \<le> c" "c < a + k" using wf by (auto simp: wf_entries_def)
      have "\<not> Suc c < a + k"
      proof
        assume "Suc c < a + k"
        then have "es ! Suc c = run_byte k (Suc c - a)" using run_at_nth [OF r(1)] r(2) by simp
        with c(3) show False by simp
      qed
      then have "b = a + k" using r Suc by simp
      then show ?thesis using r(1) by (auto simp: E_def)
    qed (simp add: E_def)
    moreover have "i - b < n - 1"
    proof (rule ccontr)
      assume "\<not> i - b < n - 1"
      then have "fits es n b" using b i n by (auto simp: fits_iff)
      with no show False by blast
    qed
    ultimately show "i \<in> (\<lambda>(b, d). b + d) ` (E \<times> {..<n - 1})" using b by (intro image_eqI [of _ _ "(b, i - b)"]) simp_all
  qed
  moreover have "finite E" using finite_runs by (simp add: E_def)
  ultimately have c: "card Z \<le> card E * (n - 1)"
    using card_image_le [of "E \<times> {..<n - 1}" "\<lambda>(b, d). b + d"] card_mono [of "(\<lambda>(b, d). b + d) ` (E \<times> {..<n - 1})" Z]
    by (simp add: card_cartesian_product)
  have e: "card E \<le> card {(a, k). run_at es a k} + 1"
  proof -
    have "card E \<le> Suc (card ((\<lambda>(a, k). a + k) ` {(a, k). run_at es a k}))"
      unfolding E_def by (rule card_insert_le_m1) simp_all
    then show ?thesis using card_image_le [OF finite_runs, of "\<lambda>(a, k). a + k" es] by simp
  qed
  have "card Z = length (filter (\<lambda>e. e = 0) es)" by (simp add: Z_def length_filter_conv_card)
  then have "card E * (n - 1) < card Z" using le_less_trans [OF mult_le_mono1 [OF e] room] by simp
  with c show False by simp
qed

section \<open>The allocator contract\<close>

interpretation hp: block_allocator heap_inv heap_allocs heap_vacant "\<lambda>sz h. heap_malloc h sz"
  "\<lambda>p h. heap_free h p"
proof
  fix s :: heap and p n
  assume h: "heap_inv s" "(p, n) \<in> heap_allocs s"
  then obtain t where t: "run_at (entries (table s)) t n" "unat p = unat (saddr s) + 4096 * t"
    by (rule heap_allocs_E)
  moreover have "p \<noteq> 0" using h(1) t(2) by (auto simp: heap_inv_def unsigned_eq_0_iff)
  ultimately show "0 < n \<and> p \<noteq> 0 \<and> 4096 dvd unat p \<and> unat p + 4096 * n \<le> 2 ^ 32"
    using h(1) by (auto simp: heap_inv_def run_at_def)
next
  fix s :: heap and p n q k a
  assume h: "heap_inv s" and p: "(p, n) \<in> heap_allocs s" and q: "(q, k) \<in> heap_allocs s"
    and a: "in_block p n a" "in_block q k a"
  obtain t where t: "p = saddr s + word_of_nat (4096 * t)" "run_at (entries (table s)) t n"
    "unat p = unat (saddr s) + 4096 * t" using h p by (rule heap_allocs_E)
  obtain u where u: "q = saddr s + word_of_nat (4096 * u)" "run_at (entries (table s)) u k"
    "unat q = unat (saddr s) + 4096 * u" using h q by (rule heap_allocs_E)
  define i where "i = (unat a - unat (saddr s)) div 4096"
  have "t \<le> i" "i < t + n" "u \<le> i" "i < u + k"
    using a t(3) u(3) by (auto simp: in_block_def i_def)
  then have "t = u \<and> n = k" using run_at_disjoint [OF t(2) u(2)] by blast
  with t u show "p = q \<and> n = k" by simp
next
  fix s :: heap and sz p s'
  assume h: "heap_inv s" and sz: "valid_size sz" and m: "heap_malloc s sz = Inr (p, s')" and "p \<noteq> 0"
  from heap_malloc_Inr_cases [OF h sz m] \<open>p \<noteq> 0\<close> obtain t where
    t: "first_fit (entries (table s)) (blocks_of sz) = Some t" "p = saddr s + word_of_nat (4096 * t)"
      "s' = with_entries s (put_run (entries (table s)) t (blocks_of sz) (blocks_of sz))"
    by metis
  have pos: "0 < blocks_of sz" using sz by (simp add: valid_size_def blocks_of_pos)
  have f: "fits (entries (table s)) (blocks_of sz) t" using first_fit_Some [OF t(1)] by blast
  then have len: "t + blocks_of sz \<le> length (entries (table s))" by (simp add: fits_iff)
  have z: "\<And>j. t \<le> j \<Longrightarrow> j < t + blocks_of sz \<Longrightarrow> entries (table s) ! j = 0"
    using fits_vacant [OF _ f] h by (simp add: heap_inv_def)
  show "heap_inv s' \<and> heap_allocs s' = insert (p, blocks_of sz) (heap_allocs s)
      \<and> (p, blocks_of sz) \<notin> heap_allocs s \<and> heap_vacant s = heap_vacant s' + blocks_of sz"
    using heap_allocs_put_run [OF h pos len z] heap_vacant_put_run [OF len z]
      heap_inv_with_entries [OF h] wf_entries_put_run [OF _ pos len z] h
    by (simp add: t heap_inv_def)
next
  fix s :: heap and sz s'
  assume h: "heap_inv s" and sz: "valid_size sz" and m: "heap_malloc s sz = Inr (0, s')"
  show "heap_inv s' \<and> heap_allocs s' = heap_allocs s \<and> heap_vacant s' = heap_vacant s"
  proof (cases rule: heap_malloc_Inr_cases [OF h sz m])
    case 1
    with h show ?thesis by simp
  next
    case fit: (2 t)
    have "t < length (entries (table s))"
      using first_fit_Some [OF fit(1)] fits_less sz by (meson blocks_of_pos valid_size_def)
    from unat_block_address [OF h this] fit(2) h show ?thesis
      by (simp add: heap_inv_def unsigned_eq_0_iff del: of_nat_mult)
  qed
next
  fix s :: heap and sz :: u32
  assume h: "heap_inv s" and sz: "valid_size sz"
    and v: "(card (heap_allocs s) + 1) * (blocks_of sz - 1) < heap_vacant s"
  let ?es = "entries (table s)"
  have pos: "0 < blocks_of sz" using sz by (simp add: valid_size_def blocks_of_pos)
  have "wf_entries ?es" using h by (simp add: heap_inv_def)
  then have "\<exists>i. fits ?es (blocks_of sz) i"
    by (rule fits_of_room [OF _ pos]) (use v heap_allocs_card [OF h] in \<open>simp add: heap_vacant_def\<close>)
  then obtain t where t: "first_fit ?es (blocks_of sz) = Some t" using first_fit_None [OF pos, of ?es] by fastforce
  then have tl: "t < length ?es" using first_fit_Some fits_less [OF pos] by blast
  have "saddr s + word_of_nat (4096 * t) \<noteq> 0"
    using unat_block_address [OF h tl] h by (auto simp: heap_inv_def unsigned_eq_0_iff simp del: of_nat_mult)
  with heap_malloc_fit [OF h sz t] show "\<exists>p s'. heap_malloc s sz = Inr (p, s') \<and> p \<noteq> 0" by blast
next
  fix s :: heap and p n
  assume h: "heap_inv s" and p: "(p, n) \<in> heap_allocs s"
  then obtain t where t: "p = saddr s + word_of_nat (4096 * t)" "run_at (entries (table s)) t n"
    by (rule heap_allocs_E)
  show "\<exists>s'. heap_free s p = Inr s' \<and> heap_inv s' \<and> heap_allocs s' = heap_allocs s - {(p, n)}
      \<and> heap_vacant s' = heap_vacant s + n"
    using heap_free_run [OF h t(2)] heap_allocs_clear_run [OF h t(2)] heap_vacant_clear_run [OF t(2)]
      heap_inv_with_entries [OF h] wf_entries_clear_run [OF _ t(2)] h
    by (simp add: t heap_inv_def)
qed

section \<open>A created heap\<close>

lemma wf_entries_replicate [simp]: "wf_entries (replicate n 0)"
  by (simp add: wf_entries_def)

lemma run_at_replicate [simp]: "\<not> run_at (replicate n 0) s k"
  using run_byte_ne_0 [of k 0] by (auto simp: run_at_def dest!: spec [of _ 0])

lemma heap_create_Inr:
  assumes "heap_create h ptr end_ptr tbl = Inr (0, h')"
  shows "heap_validate_alignment ptr" "heap_validate_alignment end_ptr"
    and "total tbl = (end_ptr - ptr) div 4096" "saddr h' = ptr" "total (table h') = total tbl"
    and "entries (table h') =
      replicate (unat (total tbl)) 0 @ drop (unat (total tbl)) (entries tbl)"
  using assms
  by (auto simp: heap_create_def heap_validade_table_def Let_def EINVARG_def heap_consts
      split: if_splits)

lemma heap_create_total:
  "heap_create h ptr end_ptr tbl = Inr (0, h') \<Longrightarrow> unat (total (table h')) < 2 ^ 20"
  using unat32_less [of "end_ptr - ptr"]
  by (simp add: heap_create_Inr unat_div div_less_iff_less_mult del: unat32_less)

lemma heap_create_inv:
  assumes "heap_create h ptr end_ptr tbl = Inr (0, h')"
    and "length (entries tbl) = unat (total tbl)" "ptr \<noteq> 0" "ptr \<le> end_ptr" "end_ptr - ptr \<le> 2 ^ 31"
  shows "heap_inv h' \<and> heap_allocs h' = {} \<and> heap_vacant h' = unat (total tbl)"
proof -
  note c = heap_create_Inr [OF assms(1)]
  let ?n = "unat (end_ptr - ptr) div 4096"
  have n: "unat (total tbl) = ?n" by (simp add: c(3) unat_div)
  have d: "unat (end_ptr - ptr) = unat end_ptr - unat ptr"
    using assms(4) by (simp add: unat_sub_if' word_le_nat_alt)
  have "4096 * ?n \<le> 2 ^ 31" using assms(5) by (simp add: word_le_nat_alt)
  moreover have "unat ptr + 4096 * ?n \<le> 2 ^ 32"
    using d assms(4) unat32_le [of end_ptr] by (simp add: word_le_nat_alt del: unat32_le)
  moreover have "4096 dvd unat ptr"
    using c(1) by (simp add: heap_validate_alignment_def heap_consts mod_4096_eq_0_iff)
  ultimately show ?thesis
    using assms(2,3) c n by (simp add: heap_inv_def heap_allocs_def heap_vacant_def)
qed

section \<open>Properties: heap.c\<close>

text \<open>A heap of four blocks, for the witnesses.\<close>

definition demo_heap :: heap where
  "demo_heap = \<lparr>table = \<lparr>entries = [0, 0, 0, 0], total = 4\<rparr>, saddr = 0x01000000\<rparr>"

lemma demo_heap_inv: "heap_inv demo_heap"
proof -
  have "[0, 0, 0, 0] = replicate 4 (0 :: u8)" by (simp add: eval_nat_numeral)
  then show ?thesis by (simp add: heap_inv_def demo_heap_def)
qed

text \<open>C11: the block scan is first fit: with a table that has an entry per block, it returns the lowest
  start of a run of n free entries when there is one; when there is none it returns -ENOMEM if
  the last entry is taken, and otherwise the start of the free run that ends the table, although
  that run is too short.\<close>

theorem heap_scan_first_fit:
  assumes "length (entries (table h)) = unat (total (table h))" "0 < n"
  shows "heap_get_start_block h n =
    Inr (case first_fit (entries (table h)) (unat n) of
           Some s \<Rightarrow> int s
         | None \<Rightarrow> if free_suffix (entries (table h)) = 0 then - ENOMEM
                   else int (length (entries (table h)) - free_suffix (entries (table h))))"
proof -
  have "0 < unat n" using assms(2) by (simp add: word_less_nat_alt)
  from heap_get_start_block_eq [OF assms(1) this] show ?thesis
    by (simp add: scan_ref_def split: option.splits)
qed

theorem heap_scan_first_fit_witness:
  "heap_get_start_block \<lparr>table = \<lparr>entries = [0x41, 0, 0x41, 0, 0], total = 5\<rparr>, saddr = 0x01000000\<rparr> 2 = Inr 3"
proof -
  let ?h = "\<lparr>table = \<lparr>entries = [0x41, 0, 0x41, 0, 0], total = 5\<rparr>, saddr = 0x01000000\<rparr>"
  have "length (entries (table ?h)) = unat (total (table ?h))" "0 < (2 :: u32)" by simp_all
  note heap_scan_first_fit [OF this]
  moreover have "first_fit (entries (table ?h)) (unat (2 :: u32)) = Some 3"
    by (simp add: first_fit_def fits_def entry_free_def heap_get_entry_type_def heap_consts upt_rec)
  ultimately show ?thesis by simp
qed

text \<open>C12: a request that fits is served at the lowest address where it fits, with exactly as many blocks
  as its size needs; the invariant is kept, the new allocation is apart from every live one, and
  no other allocation changes.\<close>

theorem heap_malloc_serves:
  assumes "heap_inv h" "valid_size sz" "first_fit (entries (table h)) (blocks_of sz) = Some s"
  shows "\<exists>h'. heap_malloc h sz = Inr (saddr h + word_of_nat (4096 * s), h') \<and> heap_inv h'
    \<and> heap_allocs h' = insert (saddr h + word_of_nat (4096 * s), blocks_of sz) (heap_allocs h)
    \<and> heap_vacant h = heap_vacant h' + blocks_of sz
    \<and> (\<forall>(q, k) \<in> heap_allocs h. \<forall>a. in_block q k a \<longrightarrow>
         \<not> in_block (saddr h + word_of_nat (4096 * s)) (blocks_of sz) a)"
proof -
  let ?p = "saddr h + word_of_nat (4096 * s)"
  obtain h' where m: "heap_malloc h sz = Inr (?p, h')" using heap_malloc_fit [OF assms] by blast
  have "s < length (entries (table h))"
    using first_fit_Some [OF assms(3)] fits_less assms(2) by (meson blocks_of_pos valid_size_def)
  from unat_block_address [OF assms(1) this] have nz: "?p \<noteq> 0"
    using assms(1) by (auto simp: heap_inv_def unsigned_eq_0_iff simp del: of_nat_mult)
  show ?thesis
    using m hp.alloc_law [OF assms(1,2) m nz] hp.alloc_fresh [OF assms(1,2) m nz] by blast
qed

theorem heap_malloc_serves_witness:
  "\<exists>h'. heap_malloc demo_heap 5000 = Inr (0x01000000, h') \<and> heap_allocs h' = {(0x01000000, 2)}"
proof -
  have v: "valid_size 5000" by (simp add: valid_size_def)
  have b: "blocks_of 5000 = 2" by (simp add: blocks_of_def)
  have f: "first_fit (entries (table demo_heap)) (blocks_of 5000) = Some 0" unfolding b
    by (simp add: demo_heap_def first_fit_def fits_def upt_rec)
  have "heap_allocs demo_heap = {}"
  proof -
    have "[0, 0, 0, 0] = replicate 4 (0 :: u8)" by (simp add: eval_nat_numeral)
    then show ?thesis by (simp add: heap_allocs_def demo_heap_def)
  qed
  with heap_malloc_serves [OF demo_heap_inv v f] show ?thesis
    unfolding b by (auto simp: demo_heap_def)
qed

text \<open>C22: a request that fits nowhere is refused with a null pointer when the last block is taken; when
  the table ends in a free run it is not refused, and the code writes past the end of the table.\<close>

theorem heap_malloc_full:
  assumes "heap_inv h" "valid_size sz" "first_fit (entries (table h)) (blocks_of sz) = None"
  shows "heap_malloc h sz =
    (if free_suffix (entries (table h)) = 0 then Inr (0, h) else Inl Undefined)"
  using heap_malloc_null [OF assms(1,2)] heap_malloc_overrun [OF assms] assms(3)
  by (auto simp: scan_ref_def)

theorem heap_malloc_full_witness: "heap_malloc demo_heap 20000 = Inl Undefined"
proof -
  have v: "valid_size 20000" by (simp add: valid_size_def)
  have b: "blocks_of 20000 = 5" by (simp add: blocks_of_def)
  have "first_fit (entries (table demo_heap)) (blocks_of 20000) = None" unfolding b
    by (simp add: demo_heap_def first_fit_def fits_def upt_rec)
  from heap_malloc_full [OF demo_heap_inv v this] show ?thesis
    by (simp add: demo_heap_def free_suffix_def)
qed

text \<open>C23: freeing any live allocation removes that allocation and no other, and gives back exactly its
  blocks.\<close>

theorem heap_free_releases:
  "heap_inv h \<Longrightarrow> (p, n) \<in> heap_allocs h \<Longrightarrow>
     \<exists>h'. heap_free h p = Inr h' \<and> heap_inv h' \<and> heap_allocs h' = heap_allocs h - {(p, n)}
       \<and> heap_vacant h' = heap_vacant h + n"
  by (rule hp.release_law)

theorem heap_free_releases_witness:
  "\<exists>h h'. heap_malloc demo_heap 1 = Inr (0x01000000, h) \<and> heap_free h 0x01000000 = Inr h'
     \<and> heap_vacant h' = 4"
proof -
  have v: "0 < heap_vacant demo_heap" "0 < (1 :: u32)" "1 \<le> (4096 :: u32)"
    by (simp_all add: heap_vacant_def demo_heap_def)
  have f: "first_fit (entries (table demo_heap)) (blocks_of 1) = Some 0"
    by (simp add: demo_heap_def first_fit_def fits_def upt_rec)
  have vs: "valid_size 1" by (simp add: valid_size_def)
  obtain h where h: "heap_malloc demo_heap 1 = Inr (0x01000000, h)"
    using heap_malloc_fit [OF demo_heap_inv vs f] by (auto simp: demo_heap_def)
  from hp.alloc_law [OF demo_heap_inv vs h] have
    a: "heap_inv h" "(0x01000000, 1) \<in> heap_allocs h" "heap_vacant demo_heap = heap_vacant h + 1" by auto
  from heap_free_releases [OF a(1,2)] a(3) h show ?thesis
    by (auto simp: heap_vacant_def demo_heap_def)
qed

end
