(* ===== verification/CString.thy ===== *)
theory CString
  imports Memory
begin

text \<open>
  \<^verbatim>\<open>src/string/string.c\<close> over the flat memory: every function reads through the addresses it
  is given, one byte at a time and in the order of the code. \<^verbatim>\<open>strlen\<close> and \<^verbatim>\<open>strcpy\<close> loop until
  they meet a zero byte, so they are partial functions into \<open>option\<close>, \<open>None\<close> being a loop
  that does not end. A C \<^verbatim>\<open>int\<close> that counts characters is an \<open>int\<close>; \<^verbatim>\<open>char\<close> is signed.
\<close>

section \<open>Characters\<close>

definition tolower :: "u8 \<Rightarrow> u8" where
  "tolower s1 = (if 65 \<le> sint s1 \<and> sint s1 \<le> 90 then s1 + 32 else s1)"

definition is_digit :: "u8 \<Rightarrow> bool" where
  "is_digit c \<longleftrightarrow> 48 \<le> sint c \<and> sint c \<le> 57"

definition to_numeric_digit :: "u8 \<Rightarrow> int" where
  "to_numeric_digit c = sint c - 48"

section \<open>Lengths\<close>

partial_function (option) strlen_loop :: "memory \<Rightarrow> u32 \<Rightarrow> int \<Rightarrow> int option" where
  "strlen_loop m ptr i = (if m ptr \<noteq> 0 then strlen_loop m (ptr + 1) (i + 1) else Some i)"

definition strlen :: "memory \<Rightarrow> u32 \<Rightarrow> int option" where
  "strlen m ptr = strlen_loop m ptr 0"

fun strnlen_loop :: "memory \<Rightarrow> u32 \<Rightarrow> nat \<Rightarrow> nat \<Rightarrow> nat" where
  "strnlen_loop m ptr i 0 = i"
| "strnlen_loop m ptr i (Suc k) =
     (if m (ptr + word_of_nat i) = 0 then i else strnlen_loop m ptr (Suc i) k)"

definition strnlen :: "memory \<Rightarrow> u32 \<Rightarrow> int \<Rightarrow> int" where
  "strnlen m ptr mx = int (strnlen_loop m ptr 0 (nat mx))"

fun strnlen_terminator_loop :: "memory \<Rightarrow> u32 \<Rightarrow> u8 \<Rightarrow> nat \<Rightarrow> nat \<Rightarrow> nat" where
  "strnlen_terminator_loop m str t i 0 = i"
| "strnlen_terminator_loop m str t i (Suc k) =
     (if m (str + word_of_nat i) = 0 \<or> m (str + word_of_nat i) = t then i
      else strnlen_terminator_loop m str t (Suc i) k)"

definition strnlen_terminator :: "memory \<Rightarrow> u32 \<Rightarrow> int \<Rightarrow> u8 \<Rightarrow> int" where
  "strnlen_terminator m str mx t = int (strnlen_terminator_loop m str t 0 (nat mx))"

section \<open>Comparison\<close>

fun strncmp_loop :: "memory \<Rightarrow> u32 \<Rightarrow> u32 \<Rightarrow> nat \<Rightarrow> int" where
  "strncmp_loop m str1 str2 0 = 0"
| "strncmp_loop m str1 str2 (Suc n) =
     (let u1 = m str1; u2 = m str2
      in if u1 \<noteq> u2 then uint u1 - uint u2
         else if u1 = 0 then 0
         else strncmp_loop m (str1 + 1) (str2 + 1) n)"

definition strncmp :: "memory \<Rightarrow> u32 \<Rightarrow> u32 \<Rightarrow> int \<Rightarrow> int" where
  "strncmp m str1 str2 n = strncmp_loop m str1 str2 (nat n)"

fun istrncmp_loop :: "memory \<Rightarrow> u32 \<Rightarrow> u32 \<Rightarrow> nat \<Rightarrow> int" where
  "istrncmp_loop m s1 s2 0 = 0"
| "istrncmp_loop m s1 s2 (Suc n) =
     (let u1 = m s1; u2 = m s2
      in if u1 \<noteq> u2 \<and> tolower u1 \<noteq> tolower u2 then uint u1 - uint u2
         else if u1 = 0 then 0
         else istrncmp_loop m (s1 + 1) (s2 + 1) n)"

definition istrncmp :: "memory \<Rightarrow> u32 \<Rightarrow> u32 \<Rightarrow> int \<Rightarrow> int" where
  "istrncmp m s1 s2 n = istrncmp_loop m s1 s2 (nat n)"

section \<open>Copying\<close>

partial_function (option) strcpy_loop :: "u32 \<Rightarrow> u32 \<Rightarrow> memory \<Rightarrow> memory option" where
  "strcpy_loop dest src m =
     (if m src \<noteq> 0 then strcpy_loop (dest + 1) (src + 1) (m(dest := m src))
      else Some (m(dest := 0)))"

definition strcpy :: "u32 \<Rightarrow> u32 \<Rightarrow> memory \<Rightarrow> memory option" where
  "strcpy dest src m = strcpy_loop dest src m"

text \<open>
  \<^verbatim>\<open>strncpy\<close> copies at most \<open>count - 1\<close> characters and then stores the terminator; the
  terminator is stored whatever \<open>count\<close> is.
\<close>

fun strncpy_loop :: "u32 \<Rightarrow> u32 \<Rightarrow> nat \<Rightarrow> nat \<Rightarrow> memory \<Rightarrow> memory" where
  "strncpy_loop dest src i 0 m = m(dest + word_of_nat i := 0)"
| "strncpy_loop dest src i (Suc k) m =
     (if m (src + word_of_nat i) = 0 then m(dest + word_of_nat i := 0)
      else strncpy_loop dest src (Suc i) k
             (m(dest + word_of_nat i := m (src + word_of_nat i))))"

definition strncpy :: "u32 \<Rightarrow> u32 \<Rightarrow> int \<Rightarrow> memory \<Rightarrow> memory" where
  "strncpy dest src count m = strncpy_loop dest src 0 (nat (count - 1)) m"

section \<open>Zero-terminated strings in memory\<close>

definition cstr_at :: "memory \<Rightarrow> u32 \<Rightarrow> u8 list \<Rightarrow> bool" where
  "cstr_at m p s \<longleftrightarrow> bytes_at m p (length s) = s \<and> 0 \<notin> set s \<and> m (p + word_of_nat (length s)) = 0"

lemma cstr_at_Nil [simp]: "cstr_at m p [] \<longleftrightarrow> m p = 0"
  by (simp add: cstr_at_def bytes_at_def)

lemma cstr_at_Cons [simp]:
  "cstr_at m p (c # s) \<longleftrightarrow> m p = c \<and> c \<noteq> 0 \<and> cstr_at m (p + 1) s"
proof -
  have "bytes_at m p (Suc n) = m p # bytes_at m (p + 1) n" for n
    unfolding bytes_at_def by (subst upt_conv_Cons, simp)
      (simp add: map_Suc_upt [symmetric] add.assoc del: upt_Suc)
  then show ?thesis by (auto simp: cstr_at_def add.assoc)
qed

lemma cstr_at_unique: "cstr_at m p s \<Longrightarrow> cstr_at m p t \<Longrightarrow> s = t"
proof (induction s arbitrary: p t)
  case Nil
  then show ?case by (cases t) auto
next
  case (Cons c s)
  then show ?case by (cases t) auto
qed

lemma strlen_loop_cstr: "cstr_at m p s \<Longrightarrow> strlen_loop m p i = Some (i + int (length s))"
proof (induction s arbitrary: p i)
  case Nil
  then show ?case by (simp add: strlen_loop.simps)
next
  case (Cons c s)
  then show ?case by (subst strlen_loop.simps) simp
qed

lemma strlen_cstr: "cstr_at m p s \<Longrightarrow> strlen m p = Some (int (length s))"
  by (simp add: strlen_def strlen_loop_cstr)

text \<open>The characters before the terminator, at most \<open>n\<close> of them: what the bounded routines see.\<close>

fun cstr_upto :: "memory \<Rightarrow> u32 \<Rightarrow> nat \<Rightarrow> u8 list" where
  "cstr_upto m p 0 = []"
| "cstr_upto m p (Suc n) = (if m p = 0 then [] else m p # cstr_upto m (p + 1) n)"

lemma length_cstr_upto: "length (cstr_upto m p n) \<le> n"
  by (induction n arbitrary: p) auto

lemma cstr_upto_cstr: "cstr_at m p s \<Longrightarrow> cstr_upto m p n = take n s"
proof (induction n arbitrary: p s)
  case (Suc n)
  then show ?case by (cases s) auto
qed simp

lemma strlen_loop_Some:
  "m (p + word_of_nat k) = 0 \<Longrightarrow> \<exists>r. strlen_loop m p i = Some r"
proof (induction k arbitrary: p i)
  case 0
  then show ?case by (simp add: strlen_loop.simps)
next
  case (Suc k)
  then have "\<exists>r. strlen_loop m (p + 1) (i + 1) = Some r" by (simp add: ac_simps)
  then show ?case by (subst strlen_loop.simps) auto
qed

lemma strlen_loop_raw: "strlen_loop m p i = Some r \<Longrightarrow> \<exists>s. cstr_at m p s \<and> r = i + int (length s)"
proof (rule strlen_loop.raw_induct [where P = "\<lambda>m p i r. \<exists>s. cstr_at m p s \<and> r = i + int (length s)"])
  fix f m p i r
  assume IH: "\<And>m p i r. f m p i = Some r \<Longrightarrow> \<exists>s. cstr_at m p s \<and> r = i + int (length s)"
    and eq: "(if m p \<noteq> 0 then f m (p + 1) (i + 1) else Some i) = Some r"
  show "\<exists>s. cstr_at m p s \<and> r = i + int (length s)"
  proof (cases "m p = 0")
    case True
    with eq show ?thesis by (intro exI [of _ "[]"]) simp
  next
    case False
    with eq have "f m (p + 1) (i + 1) = Some r" by simp
    from IH [OF this] obtain s where "cstr_at m (p + 1) s" "r = i + 1 + int (length s)" by blast
    with False show ?thesis by (intro exI [of _ "m p # s"]) simp
  qed
qed

lemma strnlen_loop_eq:
  "strnlen_loop m p i k = i + length (cstr_upto m (p + word_of_nat i) k)"
  by (induction k arbitrary: i) (auto simp: ac_simps)

lemma strnlen_eq: "strnlen m p n = int (length (cstr_upto m p (nat n)))"
  by (simp add: strnlen_def strnlen_loop_eq)

lemma strnlen_terminator_loop_eq:
  "strnlen_terminator_loop m p t i k =
     i + length (takeWhile (\<lambda>c. c \<noteq> t) (cstr_upto m (p + word_of_nat i) k))"
  by (induction k arbitrary: i) (auto simp: ac_simps)

lemma strnlen_terminator_eq:
  "strnlen_terminator m p n t = int (length (takeWhile (\<lambda>c. c \<noteq> t) (cstr_upto m p (nat n))))"
  by (simp add: strnlen_terminator_def strnlen_terminator_loop_eq)

lemma strncmp_loop_0: "strncmp_loop m a b n = 0 \<longleftrightarrow> cstr_upto m a n = cstr_upto m b n"
  by (induction n arbitrary: a b) (auto simp: Let_def unsigned_eq_0_iff)

lemma strncmp_eq_0: "strncmp m a b n = 0 \<longleftrightarrow> cstr_upto m a (nat n) = cstr_upto m b (nat n)"
  by (simp add: strncmp_def strncmp_loop_0)

lemma tolower_eq_0_iff [simp]: "tolower c = 0 \<longleftrightarrow> c = 0"
proof
  assume z: "tolower c = 0"
  show "c = 0"
  proof (cases "65 \<le> sint c \<and> sint c \<le> 90")
    case True
    with z have "c + 32 = 0" by (simp add: tolower_def)
    then have "c = - 32" by (simp add: eq_neg_iff_add_eq_0)
    with True show ?thesis by simp
  next
    case False
    with z show ?thesis by (auto simp: tolower_def split: if_splits)
  qed
qed (simp add: tolower_def)

lemma istrncmp_loop_0:
  "istrncmp_loop m a b n = 0 \<longleftrightarrow> map tolower (cstr_upto m a n) = map tolower (cstr_upto m b n)"
proof (induction n arbitrary: a b)
  case (Suc n)
  then show ?case
    using tolower_eq_0_iff [of "m a"] tolower_eq_0_iff [of "m b"]
    by (auto simp: Let_def simp del: tolower_eq_0_iff)
qed simp

lemma istrncmp_eq_0:
  "istrncmp m a b n = 0 \<longleftrightarrow>
     map tolower (cstr_upto m a (nat n)) = map tolower (cstr_upto m b (nat n))"
  by (simp add: istrncmp_def istrncmp_loop_0)

lemma cstr_upto_cong:
  "(\<And>j. j < n \<Longrightarrow> m (p + word_of_nat j) = m' (p + word_of_nat j)) \<Longrightarrow> cstr_upto m p n = cstr_upto m' p n"
proof (induction n arbitrary: p)
  case (Suc n)
  from Suc.prems [of 0] have "m p = m' p" by simp
  moreover have "cstr_upto m (p + 1) n = cstr_upto m' (p + 1) n"
    using Suc.prems [of "Suc j" for j] by (intro Suc.IH) (simp add: ac_simps)
  ultimately show ?case by simp
qed simp

lemma strncpy_loop_apply:
  assumes "i + k \<le> unat (dest - src)" and "i + k < 2 ^ 32"
  shows "strncpy_loop dest src i k m a =
    (let n = length (cstr_upto m (src + word_of_nat i) k); d = unat (a - dest)
     in if i \<le> d \<and> d < i + n then m (src + (a - dest)) else if d = i + n then 0 else m a)"
  using assms
proof (induction k arbitrary: i m)
  case 0
  then show ?case using eq_add_word_of_nat_iff [of i a dest] by (auto simp: Let_def)
next
  case (Suc k)
  have i: "i < 2 ^ 32" using Suc.prems by simp
  show ?case
  proof (cases "m (src + word_of_nat i) = 0")
    case True
    then show ?thesis using eq_add_word_of_nat_iff [OF i, of a dest] by (auto simp: Let_def)
  next
    case False
    define M where "M = m(dest + word_of_nat i := m (src + word_of_nat i))"
    have same: "M (src + word_of_nat j) = m (src + word_of_nat j)" if "i < j" "j \<le> i + k" for j
      using add_of_nat_ne [of i j dest src] that Suc.prems by (simp add: M_def)
    have len: "cstr_upto M (src + word_of_nat (Suc i)) k = cstr_upto m (src + word_of_nat (Suc i)) k"
    proof (rule cstr_upto_cong)
      fix j
      assume "j < k"
      then show "M (src + word_of_nat (Suc i) + word_of_nat j) = m (src + word_of_nat (Suc i) + word_of_nat j)"
        using same [of "Suc i + j"] by (simp add: ac_simps)
    qed
    define n where "n = length (cstr_upto m (src + word_of_nat (Suc i)) k)"
    define d where "d = unat (a - dest)"
    have nk: "n \<le> k" unfolding n_def by (rule length_cstr_upto)
    have read: "M (src + (a - dest)) = m (src + (a - dest))" if "Suc i \<le> d" "d < Suc i + n"
      using same [of d] that nk by (simp add: d_def)
    have "strncpy_loop dest src (Suc i) k M a =
      (if Suc i \<le> d \<and> d < Suc i + n then m (src + (a - dest)) else if d = Suc i + n then 0 else M a)"
      using Suc.IH [of "Suc i" M] Suc.prems len read by (simp add: Let_def n_def d_def)
    moreover have "strncpy_loop dest src i (Suc k) m a = strncpy_loop dest src (Suc i) k M a"
      using False by (simp add: M_def)
    moreover have "length (cstr_upto m (src + word_of_nat i) (Suc k)) = Suc n"
      using False by (simp add: n_def ac_simps)
    moreover have "M a = (if d = i then m (src + (a - dest)) else m a)"
      using eq_add_word_of_nat_iff [OF i, of a dest] by (auto simp: M_def d_def)
    ultimately show ?thesis by (auto simp: Let_def d_def [symmetric])
  qed
qed

lemma strncpy_apply:
  assumes "nat (count - 1) \<le> unat (dest - src)" and "count < 2 ^ 31"
  shows "strncpy dest src count m a =
    (let n = length (cstr_upto m src (nat (count - 1))); d = unat (a - dest)
     in if d < n then m (src + (a - dest)) else if d = n then 0 else m a)"
proof -
  have "nat (count - 1) < 2 ^ 32" using assms(2) by (simp add: nat_less_iff)
  with strncpy_loop_apply [of 0 "nat (count - 1)" dest src m a] assms(1)
  show ?thesis by (simp add: strncpy_def Let_def)
qed

lemma bytes_at_cstr_upto:
  "bytes_at m p (length (cstr_upto m p n)) = cstr_upto m p n"
proof (rule nth_equalityI)
  fix i
  assume "i < length (bytes_at m p (length (cstr_upto m p n)))"
  then show "bytes_at m p (length (cstr_upto m p n)) ! i = cstr_upto m p n ! i"
  proof (simp, induction n arbitrary: p i)
    case (Suc n)
    from Suc show ?case
      by (cases i) (auto simp: add.assoc [symmetric] split: if_splits)
  qed simp
qed simp

lemma zero_notin_cstr_upto: "0 \<notin> set (cstr_upto m p n)"
  by (induction n arbitrary: p) auto

text \<open>
  Copying into an area that does not start inside the characters read: the destination holds
  the zero-terminated prefix, and nothing else in memory changes.
\<close>

lemma strncpy_result:
  assumes "nat (count - 1) \<le> unat (dest - src)" and "count < 2 ^ 31"
  shows "cstr_at (strncpy dest src count m) dest (cstr_upto m src (nat (count - 1)))"
    and "unat (a - dest) > length (cstr_upto m src (nat (count - 1))) \<Longrightarrow>
      strncpy dest src count m a = m a"
proof -
  let ?s = "cstr_upto m src (nat (count - 1))"
  let ?m = "strncpy dest src count m"
  have len: "length ?s < 2 ^ 32"
    using length_cstr_upto [of m src "nat (count - 1)"] assms(2) by simp
  have off: "unat (dest + word_of_nat i - dest) = i" if "i \<le> length ?s" for i
    using that len by (simp add: unat_of_nat take_bit_nat_eq_self)
  have "bytes_at ?m dest (length ?s) = bytes_at m src (length ?s)"
    using off by (auto simp: bytes_at_eq_iff strncpy_apply [OF assms] Let_def)
  moreover have "?m (dest + word_of_nat (length ?s)) = 0"
    using off by (simp add: strncpy_apply [OF assms])
  ultimately show "cstr_at ?m dest ?s"
    by (simp add: cstr_at_def bytes_at_cstr_upto zero_notin_cstr_upto)
  show "?m a = m a" if "unat (a - dest) > length ?s"
    using that by (simp add: strncpy_apply [OF assms])
qed

section \<open>Properties: string.c\<close>



text \<open>Strncmp and istrncmp return 0 exactly when the two strings agree on their first n
  characters, up to the terminator; istrncmp compares after lowering the letters.\<close>

theorem strncmp_equality:
  "(strncmp m a b n = 0 \<longleftrightarrow> cstr_upto m a (nat n) = cstr_upto m b (nat n))
   \<and> (istrncmp m a b n = 0 \<longleftrightarrow>
        map tolower (cstr_upto m a (nat n)) = map tolower (cstr_upto m b (nat n)))"
  using strncmp_eq_0 istrncmp_eq_0 by blast

end
