(* ===== verification/Terminal.thy ===== *)
theory Terminal
  imports CString
begin

text \<open>
  The text console of \<^verbatim>\<open>src/kernel.c\<close>: the cursor, the frame buffer in memory and
  \<^verbatim>\<open>print\<close>. \<open>machine\<close> is the part of the state every component shares: the flat memory and the
  three console globals. The later components extend it with their own fields; each operation
  is polymorphic in the extension, so it runs on the whole kernel's state unchanged.
\<close>

record machine =
  mem :: memory
  video_mem :: u32
  terminal_row :: u16
  terminal_col :: u16

definition VGA_WIDTH :: int where "VGA_WIDTH = 80"
definition VGA_HEIGHT :: int where "VGA_HEIGHT = 20"

text \<open>
  \<^verbatim>\<open>(colour << 8) | c\<close> on signed \<^verbatim>\<open>char\<close>s promoted to \<^verbatim>\<open>int\<close>, truncated to 16 bits.
\<close>

definition terminal_make_char :: "u8 \<Rightarrow> u8 \<Rightarrow> u16" where
  "terminal_make_char c colour = push_bit 8 (scast colour) OR scast c"

definition terminal_putchar :: "int \<Rightarrow> int \<Rightarrow> u8 \<Rightarrow> u8 \<Rightarrow> 'a machine_scheme \<Rightarrow> 'a machine_scheme" where
  "terminal_putchar x y c colour s =
     s\<lparr>mem := store16 (mem s) (video_mem s + word_of_int (2 * (y * VGA_WIDTH + x)))
                (terminal_make_char c colour)\<rparr>"

definition terminal_writechar :: "u8 \<Rightarrow> u8 \<Rightarrow> 'a machine_scheme \<Rightarrow> 'a machine_scheme" where
  "terminal_writechar c colour s =
     (if c = 0x0A then s\<lparr>terminal_row := terminal_row s + 1, terminal_col := 0\<rparr>
      else
        let s1 = terminal_putchar (uint (terminal_col s)) (uint (terminal_row s)) c colour s;
            s2 = s1\<lparr>terminal_col := terminal_col s1 + 1\<rparr>
        in if VGA_WIDTH \<le> uint (terminal_col s2)
           then s2\<lparr>terminal_col := 0, terminal_row := terminal_row s2 + 1\<rparr>
           else s2)"

definition terminal_initialize :: "'a machine_scheme \<Rightarrow> 'a machine_scheme" where
  "terminal_initialize s =
     (let s0 = s\<lparr>terminal_row := 0, terminal_col := 0, video_mem := 0xB8000\<rparr>
      in fold (\<lambda>y. fold (\<lambda>x. terminal_putchar (int x) (int y) 0x20 0) [0..<nat VGA_WIDTH])
           [0..<nat VGA_HEIGHT] s0)"

text \<open>\<^verbatim>\<open>print\<close> measures the message first and re-reads each character from memory.\<close>

definition print :: "u32 \<Rightarrow> u8 \<Rightarrow> 'a machine_scheme \<Rightarrow> 'a machine_scheme outcome" where
  "print msg colour s =
     (case strlen (mem s) msg of
        None \<Rightarrow> Inl Halted
      | Some len \<Rightarrow> Inr (fold (\<lambda>i s. terminal_writechar (mem s (msg + word_of_nat i)) colour s)
                          [0..<nat len] s))"

text \<open>The same for a string literal, whose characters do not change.\<close>

definition print_literal :: "u8 list \<Rightarrow> u8 \<Rightarrow> 'a machine_scheme \<Rightarrow> 'a machine_scheme" where
  "print_literal cs colour s = fold (\<lambda>c. terminal_writechar c colour) cs s"

section \<open>Cells\<close>

definition cell_addr :: "'a machine_scheme \<Rightarrow> nat \<Rightarrow> u32" where
  "cell_addr s k = video_mem s + word_of_nat (2 * k)"

definition cursor :: "'a machine_scheme \<Rightarrow> nat" where
  "cursor s = 80 * unat (terminal_row s) + unat (terminal_col s)"

definition cell :: "'a machine_scheme \<Rightarrow> nat \<Rightarrow> u16" where
  "cell s k = load16 (mem s) (cell_addr s k)"

lemma make_char_low: "take_bit 8 (terminal_make_char c colour) = ucast c"
proof (rule bit_word_eqI)
  fix n
  show "bit (take_bit 8 (terminal_make_char c colour)) n = bit (ucast c :: u16) n"
  proof (cases "n < 8")
    case True
    then have "min 7 n = n" by simp
    with True show ?thesis by (auto simp: terminal_make_char_def bit_simps)
  next
    case False
    then show ?thesis using bit_imp_le_length [of c n] by (auto simp: bit_simps)
  qed
qed

lemma make_char_high:
  "drop_bit 8 (terminal_make_char c colour) = (if unat c < 128 then ucast colour else 0xFF)"
proof (rule bit_word_eqI)
  fix n
  have m: "0xFF = (mask 8 :: u16)" by (simp add: mask_eq_exp_minus_1)
  have c: "bit c 7 \<longleftrightarrow> \<not> unat c < 128" by (simp add: bit_7_iff not_less)
  show "bit (drop_bit 8 (terminal_make_char c colour)) n =
      bit (if unat c < 128 then ucast colour else 0xFF :: u16) n"
  proof (cases "n < 8")
    case True
    then have "min 7 n = n" by simp
    with True c show ?thesis
      by (auto simp: terminal_make_char_def m bit_simps simp del: mask_numeral)
  next
    case False
    then have "\<not> bit colour n" "\<not> bit (terminal_make_char c colour) (8 + n)"
      using bit_imp_le_length [of colour n] bit_imp_le_length [of "terminal_make_char c colour" "8 + n"]
      by auto
    with False show ?thesis by (simp add: m bit_simps del: mask_numeral)
  qed
qed

section \<open>Writing characters\<close>

lemma writechar_newline:
  "terminal_writechar 0x0A colour s = s\<lparr>terminal_row := terminal_row s + 1, terminal_col := 0\<rparr>"
  by (simp add: terminal_writechar_def)

lemma cell_word: "word_of_int (2 * (uint r * 80 + uint c)) = (word_of_nat (2 * (80 * unat r + unat c)) :: u32)"
  for r c :: u16
  by (simp add: mult.commute)

lemma writechar_char:
  assumes "c \<noteq> 0x0A" "unat (terminal_col s) < 80" "unat (terminal_row s) < 65535"
  shows "cursor (terminal_writechar c colour s) = Suc (cursor s)"
    and "unat (terminal_col (terminal_writechar c colour s)) < 80"
    and "mem (terminal_writechar c colour s) =
      store16 (mem s) (cell_addr s (cursor s)) (terminal_make_char c colour)"
    and "video_mem (terminal_writechar c colour s) = video_mem s"
proof -
  have col: "unat (terminal_col s + 1) = Suc (unat (terminal_col s))"
    using assms(2) by (simp add: unat_plus_if')
  have row: "unat (terminal_row s + 1) = Suc (unat (terminal_row s))"
    using assms(3) by (simp add: unat_plus_if')
  have wrap: "80 \<le> uint (terminal_col s + 1) \<longleftrightarrow> Suc (unat (terminal_col s)) = 80"
    using col assms(2) by (simp add: uint_nat del: nat_uint_eq int_nat_eq of_nat_unat) linarith
  show "cursor (terminal_writechar c colour s) = Suc (cursor s)"
    using assms(1) col row wrap
    by (auto simp: cursor_def terminal_writechar_def terminal_putchar_def VGA_WIDTH_def Let_def)
  show "unat (terminal_col (terminal_writechar c colour s)) < 80"
    using assms(1,2) col wrap
    by (auto simp: terminal_writechar_def terminal_putchar_def VGA_WIDTH_def Let_def)
  show "mem (terminal_writechar c colour s) =
      store16 (mem s) (cell_addr s (cursor s)) (terminal_make_char c colour)"
    using assms(1) cell_word [of "terminal_row s" "terminal_col s"]
    by (simp add: terminal_writechar_def terminal_putchar_def VGA_WIDTH_def Let_def
        cell_addr_def cursor_def)
  show "video_mem (terminal_writechar c colour s) = video_mem s"
    using assms(1) by (simp add: terminal_writechar_def terminal_putchar_def Let_def)
qed

lemma cell_offset:
  "2 * k < 2 ^ 32 \<Longrightarrow> unat (cell_addr s k - video_mem s) = 2 * k"
  "2 * k + 1 < 2 ^ 32 \<Longrightarrow> unat (cell_addr s k + 1 - video_mem s) = 2 * k + 1"
proof -
  show "unat (cell_addr s k - video_mem s) = 2 * k" if "2 * k < 2 ^ 32"
    using that unat_of_nat32 [of "2 * k"] by (simp add: cell_addr_def)
  show "unat (cell_addr s k + 1 - video_mem s) = 2 * k + 1" if "2 * k + 1 < 2 ^ 32"
    using that unat_of_nat32 [of "2 * k + 1"] by (simp add: cell_addr_def add.commute)
qed

lemma store16_cell_other:
  assumes "2 * k + 1 < 2 ^ 32" "unat (a - video_mem s) < 2 * k \<or> 2 * k + 1 < unat (a - video_mem s)"
  shows "store16 m (cell_addr s k) w a = m a"
  using cell_offset [of k s] assms by (intro store16_other) auto

text \<open>
  A literal without newlines fills the cells from the cursor on, in order, and touches nothing
  else; the cursor ends right after the last cell written.
\<close>

lemma print_literal_cells:
  assumes "0x0A \<notin> set cs" "unat (terminal_col s) < 80" "cursor s + length cs < 80 * 65535"
  shows "cursor (print_literal cs colour s) = cursor s + length cs
    \<and> video_mem (print_literal cs colour s) = video_mem s
    \<and> unat (terminal_col (print_literal cs colour s)) < 80
    \<and> (\<forall>i<length cs. cell (print_literal cs colour s) (cursor s + i) = terminal_make_char (cs ! i) colour)
    \<and> (\<forall>a. unat (a - video_mem s) < 2 * cursor s \<or> 2 * (cursor s + length cs) \<le> unat (a - video_mem s)
         \<longrightarrow> mem (print_literal cs colour s) a = mem s a)"
  using assms
proof (induction cs arbitrary: s)
  case Nil
  then show ?case by (simp add: print_literal_def)
next
  case (Cons c cs)
  define s1 where "s1 = terminal_writechar c colour s"
  define k where "k = cursor s"
  define s2 where "s2 = print_literal cs colour s1"
  have row: "unat (terminal_row s) < 65535" using Cons.prems(3) by (simp add: cursor_def)
  have s1: "cursor s1 = Suc k" "unat (terminal_col s1) < 80" "video_mem s1 = video_mem s"
    "mem s1 = store16 (mem s) (cell_addr s k) (terminal_make_char c colour)"
    unfolding s1_def k_def using Cons.prems writechar_char [OF _ Cons.prems(2) row] by simp_all
  have k: "2 * k + 1 < 2 ^ 32" using Cons.prems(3) by (simp add: k_def)
  have IH: "cursor s2 = Suc k + length cs" "video_mem s2 = video_mem s" "unat (terminal_col s2) < 80"
    "\<And>i. i < length cs \<Longrightarrow> cell s2 (Suc k + i) = terminal_make_char (cs ! i) colour"
    "\<And>a. unat (a - video_mem s) < 2 * Suc k \<or> 2 * (Suc k + length cs) \<le> unat (a - video_mem s) \<Longrightarrow>
      mem s2 a = mem s1 a"
    using Cons.IH [of s1] Cons.prems s1(1-3) by (auto simp: s2_def k_def)
  have eq: "print_literal (c # cs) colour s = s2" by (simp add: s2_def s1_def print_literal_def)
  have first: "cell s2 k = terminal_make_char c colour"
  proof -
    have "cell s2 k = load16 (mem s2) (cell_addr s k)" by (simp add: cell_def cell_addr_def IH(2))
    also have "\<dots> = load16 (mem s1) (cell_addr s k)"
      using cell_offset [of k s] k by (intro load16_cong IH(5)) auto
    finally show ?thesis by (simp add: s1(4))
  qed
  have "mem s2 a = mem s a"
    if "unat (a - video_mem s) < 2 * k \<or> 2 * (k + length (c # cs)) \<le> unat (a - video_mem s)" for a
    using that IH(5) [of a] store16_cell_other [OF k, of a s "mem s"] s1(4) by auto
  moreover have "cell s2 (k + i) = terminal_make_char ((c # cs) ! i) colour" if "i < length (c # cs)" for i
    using that first IH(4) [of "i - 1"] by (cases i) auto
  ultimately show ?case using IH(1-3) unfolding eq k_def [symmetric] by simp
qed

text \<open>\<^verbatim>\<open>print\<close> of a string in memory is \<open>print_literal\<close> of its characters, as long as the frame
  buffer cells it writes are not the string itself.\<close>

lemma print_cstr:
  assumes s: "cstr_at (mem s) msg cs" and "0x0A \<notin> set cs" "unat (terminal_col s) < 80"
    and len: "cursor s + length cs < 80 * 65535"
    and apart: "\<And>i. i < length cs \<Longrightarrow> unat (msg + word_of_nat i - video_mem s) < 2 * cursor s
      \<or> 2 * (cursor s + length cs) \<le> unat (msg + word_of_nat i - video_mem s)"
  shows "print msg colour s = Inr (print_literal cs colour s)"
proof -
  have "fold (\<lambda>i s. terminal_writechar (mem s (msg + word_of_nat i)) colour s) [0..<n] s =
      print_literal (take n cs) colour s" if "n \<le> length cs" for n
    using that
  proof (induction n)
    case 0
    then show ?case by (simp add: print_literal_def)
  next
    case (Suc n)
    have "0x0A \<notin> set (take n cs)" using assms(2) in_set_takeD by fastforce
    moreover have "unat (msg + word_of_nat n - video_mem s) < 2 * cursor s
        \<or> 2 * (cursor s + length (take n cs)) \<le> unat (msg + word_of_nat n - video_mem s)"
      using apart [of n] Suc.prems by auto
    ultimately have "mem (print_literal (take n cs) colour s) (msg + word_of_nat n) = mem s (msg + word_of_nat n)"
      using print_literal_cells [of "take n cs" s colour] assms(3) len Suc.prems by auto
    also have "\<dots> = cs ! n"
      using s Suc.prems nth_bytes_at [of n "length cs" "mem s" msg] by (simp add: cstr_at_def)
    finally show ?case
      using Suc by (simp add: take_Suc_conv_app_nth print_literal_def)
  qed
  from this [of "length cs"] strlen_cstr [OF s] show ?thesis by (simp add: print_def)
qed

section \<open>Properties: console\<close>

text \<open>A frame-buffer cell made by terminal_make_char always carries its character; it carries the
  colour only for characters below 0x80, since a larger one is sign-extended over the colour byte.\<close>

theorem make_char_fields:
  "take_bit 8 (terminal_make_char c colour) = ucast c
   \<and> drop_bit 8 (terminal_make_char c colour) = (if unat c < 128 then ucast colour else 0xFF)"
  using make_char_low make_char_high by blast

text \<open>print of a string without newlines that lies outside the cells it fills succeeds: the cells
  from the cursor on hold its characters in the colour, the cursor ends behind them, and no other
  byte of memory changes.\<close>

lemma print_fills_cells:
  assumes "cstr_at (mem s) msg cs" "0x0A \<notin> set cs" "unat (terminal_col s) < 80"
    and "cursor s + length cs < 80 * 65535"
    and "\<And>i. i < length cs \<Longrightarrow> unat (msg + word_of_nat i - video_mem s) < 2 * cursor s
      \<or> 2 * (cursor s + length cs) \<le> unat (msg + word_of_nat i - video_mem s)"
  shows "\<exists>s'. print msg colour s = Inr s' \<and> cursor s' = cursor s + length cs
    \<and> (\<forall>i < length cs. cell s' (cursor s + i) = terminal_make_char (cs ! i) colour)
    \<and> (\<forall>a. unat (a - video_mem s) < 2 * cursor s \<or> 2 * (cursor s + length cs) \<le> unat (a - video_mem s)
         \<longrightarrow> mem s' a = mem s a)"
  using print_cstr [OF assms] print_literal_cells [OF assms(2-4), of colour] by blast

end
