(* ===== verification/KHeap.thy ===== *)
theory KHeap
  imports Heap Terminal
begin

text \<open>
  \<^verbatim>\<open>src/memory/heap/kheap.c\<close>: the kernel's own heap, 100 MB from address \<^verbatim>\<open>0x01000000\<close> in 25600
  blocks, its table at \<^verbatim>\<open>0x7E00\<close>. \<open>kstate\<close> adds the heap to the machine. After
  \<^verbatim>\<open>kheap_init\<close> the table's bytes are the \<open>entries\<close> of the heap; no other code of the kernel
  addresses them.
\<close>

record kstate = machine +
  kernel_heap :: heap

definition GUAVAOS_HEAP_SIZE_BYTES :: u32 where "GUAVAOS_HEAP_SIZE_BYTES = 104857600"
definition GUAVAOS_HEAP_ADDRESS :: u32 where "GUAVAOS_HEAP_ADDRESS = 0x01000000"
definition GUAVAOS_HEAP_TABLE_ADDRESS :: u32 where "GUAVAOS_HEAP_TABLE_ADDRESS = 0x00007E00"

lemmas kheap_consts = GUAVAOS_HEAP_SIZE_BYTES_def GUAVAOS_HEAP_ADDRESS_def
  GUAVAOS_HEAP_TABLE_ADDRESS_def GUAVAOS_HEAP_BLOCK_SIZE_def

definition kheap_init :: "'a kstate_scheme \<Rightarrow> 'a kstate_scheme outcome" where
  "kheap_init s =
     (let total_table_entries = GUAVAOS_HEAP_SIZE_BYTES div GUAVAOS_HEAP_BLOCK_SIZE;
          tbl = \<lparr>entries = bytes_at (mem s) GUAVAOS_HEAP_TABLE_ADDRESS (unat total_table_entries),
                 total = total_table_entries\<rparr>;
          end_ptr = GUAVAOS_HEAP_ADDRESS + GUAVAOS_HEAP_SIZE_BYTES
      in bnd (heap_create (kernel_heap s) GUAVAOS_HEAP_ADDRESS end_ptr tbl) (\<lambda>(res, h).
           let s' = s\<lparr>kernel_heap := h\<rparr>
           in if res < 0 then Inr (print_literal (lit ''Failed to create heap/n'') 5 s')
              else Inr s'))"

definition kmalloc :: "u32 \<Rightarrow> 'a kstate_scheme \<Rightarrow> (u32 \<times> 'a kstate_scheme) outcome" where
  "kmalloc n s = bnd (heap_malloc (kernel_heap s) n) (\<lambda>(p, h). Inr (p, s\<lparr>kernel_heap := h\<rparr>))"

definition kzalloc :: "u32 \<Rightarrow> 'a kstate_scheme \<Rightarrow> (u32 \<times> 'a kstate_scheme) outcome" where
  "kzalloc n s = bnd (kmalloc n s) (\<lambda>(p, s').
     if p = 0 then Inr (0, s') else Inr (p, s'\<lparr>mem := memset p 0 n (mem s')\<rparr>))"

definition kfree :: "u32 \<Rightarrow> 'a kstate_scheme \<Rightarrow> 'a kstate_scheme outcome" where
  "kfree p s = bnd (heap_free (kernel_heap s) p) (\<lambda>h. Inr (s\<lparr>kernel_heap := h\<rparr>))"

text \<open>A word and a sequence of bytes stored in the memory of a state.\<close>

definition st32 :: "u32 \<Rightarrow> u32 \<Rightarrow> 'a kstate_scheme \<Rightarrow> 'a kstate_scheme" where
  "st32 a w s = s\<lparr>mem := store32 (mem s) a w\<rparr>"

definition store_bytes :: "u32 \<Rightarrow> u8 list \<Rightarrow> memory \<Rightarrow> memory" where
  "store_bytes p bs m = fold (\<lambda>i m. m(p + word_of_nat i := bs ! i)) [0..<length bs] m"

section \<open>The kernel heap as an allocator\<close>

definition kheap_inv :: "'a kstate_scheme \<Rightarrow> bool" where
  "kheap_inv s \<longleftrightarrow> heap_inv (kernel_heap s)"

definition kheap_allocs :: "'a kstate_scheme \<Rightarrow> (u32 \<times> nat) set" where
  "kheap_allocs s = heap_allocs (kernel_heap s)"

definition kheap_vacant :: "'a kstate_scheme \<Rightarrow> nat" where
  "kheap_vacant s = heap_vacant (kernel_heap s)"

lemmas kheap_view_defs = kheap_inv_def kheap_allocs_def kheap_vacant_def

lemma st32_state [simp]:
  "mem (st32 a w s) = store32 (mem s) a w" "kernel_heap (st32 a w s) = kernel_heap s"
  "kheap_inv (st32 a w s) = kheap_inv s" "kheap_allocs (st32 a w s) = kheap_allocs s"
  "kheap_vacant (st32 a w s) = kheap_vacant s"
  by (simp_all add: st32_def kheap_view_defs)

lemma kmalloc_Inr:
  "kmalloc n s = Inr (p, s') \<longleftrightarrow>
     (\<exists>h. heap_malloc (kernel_heap s) n = Inr (p, h) \<and> s' = s\<lparr>kernel_heap := h\<rparr>)"
  by (auto simp: kmalloc_def bnd_Inr_iff)

lemma kzalloc_Inr:
  "kzalloc n s = Inr (p, s') \<longleftrightarrow>
     (\<exists>s1. kmalloc n s = Inr (p, s1) \<and>
        s' = (if p = 0 then s1 else s1\<lparr>mem := memset p 0 n (mem s1)\<rparr>))"
  by (auto simp: kzalloc_def bnd_Inr_iff split: if_splits)

text \<open>The heap \<^verbatim>\<open>kheap_init\<close> makes: 25600 free blocks from 16 MB on.\<close>

definition fresh_heap :: heap where
  "fresh_heap = \<lparr>table = \<lparr>entries = replicate 25600 0, total = 25600\<rparr>, saddr = 0x01000000\<rparr>"

lemma fresh_heap_inv: "heap_inv fresh_heap" "heap_vacant fresh_heap = 25600" "heap_allocs fresh_heap = {}"
  by (simp_all add: heap_inv_def heap_vacant_def heap_allocs_def fresh_heap_def)

lemma kheap_init_ok: "kheap_init s = Inr (s\<lparr>kernel_heap := fresh_heap\<rparr>)"
proof -
  define tbl where "tbl = \<lparr>entries = bytes_at (mem s) 0x7E00 25600, total = 25600\<rparr>"
  have "heap_create (kernel_heap s) 0x01000000 (0x01000000 + 104857600) tbl = Inr (0, fresh_heap)"
    by (simp add: heap_create_def heap_validate_alignment_def heap_validade_table_def Let_def
        heap_consts tbl_def fresh_heap_def)
  then show ?thesis by (simp add: kheap_init_def kheap_consts Let_def tbl_def)
qed

interpretation km: block_allocator kheap_inv kheap_allocs kheap_vacant kmalloc kfree
proof
  fix s :: "'a kstate_scheme" and p n
  assume "kheap_inv s" "(p, n) \<in> kheap_allocs s"
  then show "0 < n \<and> p \<noteq> 0 \<and> 4096 dvd unat p \<and> unat p + 4096 * n \<le> 2 ^ 32"
    unfolding kheap_view_defs by (rule hp.allocs_shape)
next
  fix s :: "'a kstate_scheme" and p n q k a
  assume "kheap_inv s" "(p, n) \<in> kheap_allocs s" "(q, k) \<in> kheap_allocs s"
    "in_block p n a" "in_block q k a"
  then show "p = q \<and> n = k" unfolding kheap_view_defs by (rule hp.allocs_apart)
next
  fix s s' :: "'a kstate_scheme" and sz p
  assume "kheap_inv s" "valid_size sz" "kmalloc sz s = Inr (p, s')" "p \<noteq> 0"
  then show "kheap_inv s' \<and> kheap_allocs s' = insert (p, blocks_of sz) (kheap_allocs s)
      \<and> (p, blocks_of sz) \<notin> kheap_allocs s \<and> kheap_vacant s = kheap_vacant s' + blocks_of sz"
    using hp.alloc_law [of "kernel_heap s" sz p] by (auto simp: kmalloc_Inr kheap_view_defs)
next
  fix s s' :: "'a kstate_scheme" and sz
  assume "kheap_inv s" "valid_size sz" "kmalloc sz s = Inr (0, s')"
  then show "kheap_inv s' \<and> kheap_allocs s' = kheap_allocs s \<and> kheap_vacant s' = kheap_vacant s"
    using hp.alloc_null [of "kernel_heap s" sz] by (auto simp: kmalloc_Inr kheap_view_defs)
next
  fix s :: "'a kstate_scheme" and sz :: u32
  assume "kheap_inv s" "valid_size sz" "(card (kheap_allocs s) + 1) * (blocks_of sz - 1) < kheap_vacant s"
  then show "\<exists>p s'. kmalloc sz s = Inr (p, s') \<and> p \<noteq> 0"
    using hp.alloc_room [of "kernel_heap s" sz] by (auto simp: kmalloc_Inr kheap_view_defs)
next
  fix s :: "'a kstate_scheme" and p n
  assume "kheap_inv s" "(p, n) \<in> kheap_allocs s"
  then show "\<exists>s'. kfree p s = Inr s' \<and> kheap_inv s' \<and> kheap_allocs s' = kheap_allocs s - {(p, n)}
      \<and> kheap_vacant s' = kheap_vacant s + n"
    using hp.release_law [of "kernel_heap s" p n] by (auto simp: kfree_def kheap_view_defs)
qed

interpretation kz: zeroing_allocator kheap_inv kheap_allocs kheap_vacant kzalloc kfree mem
proof
  fix s s' :: "'a kstate_scheme" and sz p
  assume "kheap_inv s" "valid_size sz" "kzalloc sz s = Inr (p, s')" "p \<noteq> 0"
  then show "kheap_inv s' \<and> kheap_allocs s' = insert (p, blocks_of sz) (kheap_allocs s)
      \<and> (p, blocks_of sz) \<notin> kheap_allocs s \<and> kheap_vacant s = kheap_vacant s' + blocks_of sz"
    using km.alloc_law [of s sz p] by (auto simp: kzalloc_Inr kheap_view_defs)
next
  fix s s' :: "'a kstate_scheme" and sz
  assume "kheap_inv s" "valid_size sz" "kzalloc sz s = Inr (0, s')"
  then show "kheap_inv s' \<and> kheap_allocs s' = kheap_allocs s \<and> kheap_vacant s' = kheap_vacant s"
    using km.alloc_null [of s sz] by (auto simp: kzalloc_Inr)
next
  fix s :: "'a kstate_scheme" and sz :: u32
  assume "kheap_inv s" "valid_size sz" "(card (kheap_allocs s) + 1) * (blocks_of sz - 1) < kheap_vacant s"
  then show "\<exists>p s'. kzalloc sz s = Inr (p, s') \<and> p \<noteq> 0"
    using km.alloc_room [of s sz] by (auto simp: kzalloc_Inr)
next
  fix s s' :: "'a kstate_scheme" and sz p a
  assume "kheap_inv s" "valid_size sz" "kzalloc sz s = Inr (p, s')" "p \<noteq> 0"
  then show "mem s' a = (if unat (a - p) < unat sz then 0 else mem s a)"
    by (auto simp: kzalloc_Inr kmalloc_Inr memset_apply)
qed (fact km.allocs_shape km.allocs_apart km.release_law)+

section \<open>The heap's part of memory\<close>

definition heap_area :: "'a kstate_scheme \<Rightarrow> u32 set" where
  "heap_area s = {a. unat (saddr (kernel_heap s)) \<le> unat a
     \<and> unat a < unat (saddr (kernel_heap s)) + 4096 * length (entries (table (kernel_heap s)))}"

lemma live_in_area:
  assumes "kheap_inv s" "(p, n) \<in> kheap_allocs s" "in_block p n a"
  shows "a \<in> heap_area s"
proof -
  obtain t where "run_at (entries (table (kernel_heap s))) t n" "unat p = unat (saddr (kernel_heap s)) + 4096 * t"
    using heap_allocs_E assms(1,2) unfolding kheap_view_defs by blast
  then show ?thesis using assms(3) by (auto simp: heap_area_def in_block_def run_at_def)
qed

lemma st32_area [simp]: "heap_area (st32 a w s) = heap_area s"
  and mem_area [simp]: "heap_area (s\<lparr>mem := m\<rparr>) = heap_area s"
  by (simp_all add: heap_area_def)

lemma mark_taken_length: "heap_mark_blocks_taken_loop es i e x = Inr es' \<Longrightarrow> length es' = length es"
proof (induction es i e x arbitrary: es' rule: heap_mark_blocks_taken_loop.induct)
  case (1 es i e x)
  show ?case
  proof (cases "i \<le> e")
    case True
    then obtain es1 where es1: "arr_set es i x = Inr es1" "heap_mark_blocks_taken_loop es1 (i + 1) e
        (if i \<noteq> e - 1 then HEAP_BLOCK_TABLE_ENTRY_TAKEN OR HEAP_BLOCK_HAS_NEXT else HEAP_BLOCK_TABLE_ENTRY_TAKEN) = Inr es'"
      using "1.prems" by (subst (asm) heap_mark_blocks_taken_loop.simps) (simp add: bnd_Inr_iff, blast)
    from "1.IH" [OF True es1] show ?thesis using es1(1) by (auto simp: arr_set_def split: if_splits)
  next
    case False
    then show ?thesis using "1.prems" by (subst (asm) heap_mark_blocks_taken_loop.simps) simp
  qed
qed

lemma kzalloc_area:
  assumes "kzalloc n s = Inr (p, s')"
  shows "heap_area s' = heap_area s"
proof -
  obtain h where h: "heap_malloc (kernel_heap s) n = Inr (p, h)" "kernel_heap s' = h"
    using assms by (auto simp: kzalloc_Inr kmalloc_Inr)
  from h(1) have "saddr h = saddr (kernel_heap s) \<and> length (entries (table h)) = length (entries (table (kernel_heap s)))"
    by (auto simp: heap_malloc_def heap_malloc_blocks_def heap_mark_blocks_taken_def Let_def bnd_Inr_iff
        dest!: mark_taken_length split: if_splits)
  then show ?thesis by (simp add: heap_area_def h(2))
qed

lemma kfree_area:
  assumes "kheap_inv s" "(p, n) \<in> kheap_allocs s" "kfree p s = Inr s'"
  shows "heap_area s' = heap_area s"
proof -
  have h: "heap_inv (kernel_heap s)" using assms(1) by (simp add: kheap_view_defs)
  obtain t where t: "run_at (entries (table (kernel_heap s))) t n" "p = saddr (kernel_heap s) + word_of_nat (4096 * t)"
    using heap_allocs_E h assms(2) unfolding kheap_view_defs by blast
  from assms(3) heap_free_run [OF h t(1)] show ?thesis
    unfolding t(2) by (auto simp: kfree_def heap_area_def simp del: of_nat_mult)
qed

section \<open>Properties: kheap.c\<close>

text \<open>A kernel state right after boot, for the witnesses.\<close>

definition boot_kernel :: kstate where
  "boot_kernel = \<lparr>mem = \<lambda>_. 0, video_mem = 0xB8000, terminal_row = 0, terminal_col = 0,
     kernel_heap = fresh_heap\<rparr>"

lemma boot_kernel_inv:
  "kheap_inv boot_kernel" "kheap_vacant boot_kernel = 25600" "kheap_allocs boot_kernel = {}"
  by (simp_all add: kheap_view_defs boot_kernel_def fresh_heap_inv)

text \<open>C24: kzalloc of at most a page with a free block left returns a fresh page whose first sz bytes are
  zero; all memory outside them, so every live allocation, keeps its contents, and kfree undoes
  the allocation.\<close>

theorem kzalloc_page_fresh:
  assumes "kheap_inv s" "0 < sz" "sz \<le> 4096" "0 < kheap_vacant s"
  shows "\<exists>p s'. kzalloc sz s = Inr (p, s') \<and> p \<noteq> 0 \<and> kheap_inv s'
    \<and> kheap_allocs s' = insert (p, 1) (kheap_allocs s)
    \<and> (\<forall>a. mem s' a = (if unat (a - p) < unat sz then 0 else mem s a))
    \<and> (\<forall>(q, k) \<in> kheap_allocs s. \<forall>a. in_block q k a \<longrightarrow> mem s' a = mem s a)
    \<and> (\<exists>s''. kfree p s' = Inr s'' \<and> kheap_inv s'' \<and> kheap_allocs s'' = kheap_allocs s)"
proof -
  note v = valid_size_page [OF assms(2,3)]
  from kz.alloc_page [OF assms] obtain p s' where p: "kzalloc sz s = Inr (p, s')" "p \<noteq> 0" by blast
  have keep: "\<forall>(q, k) \<in> kheap_allocs s. \<forall>a. in_block q k a \<longrightarrow> mem s' a = mem s a"
    using kz.alloc_keeps_memory [OF assms(1) v p] by blast
  have zero: "\<forall>a. mem s' a = (if unat (a - p) < unat sz then 0 else mem s a)"
    using kz.alloc_zeroes [OF assms(1) v p] by blast
  have law: "kheap_inv s'" "kheap_allocs s' = insert (p, 1) (kheap_allocs s)"
    using kz.alloc_law [OF assms(1) v p] blocks_of_page [OF assms(2,3)] by simp_all
  show ?thesis
    using p law zero keep kz.alloc_release [OF assms(1) v p] by blast
qed

theorem kzalloc_page_fresh_witness:
  "\<exists>p s'. kzalloc 64 boot_kernel = Inr (p, s') \<and> p \<noteq> 0 \<and> kheap_allocs s' = {(p, 1)}"
proof -
  have "0 < (64 :: u32)" "64 \<le> (4096 :: u32)" "0 < kheap_vacant boot_kernel"
    by (simp_all add: boot_kernel_inv)
  from kzalloc_page_fresh [OF boot_kernel_inv(1) this] show ?thesis
    by (auto simp: boot_kernel_inv)
qed

end
