(* ===== verification/Paging.thy ===== *)
theory Paging
  imports KHeap
begin

text \<open>
  \<^verbatim>\<open>src/memory/paging/paging.c\<close> (and the register it loads in \<^verbatim>\<open>paging.asm\<close>): two-level i386 page
  tables that live in blocks of the kernel heap. \<open>pstate\<close> adds the page directory register and
  the static \<^verbatim>\<open>current_directory\<close>. A directory and a table are 1024 little-endian words in
  memory; nothing here checks a pointer, so the operations are total on the flat memory. The C
  \<^verbatim>\<open>int offset\<close> of \<^verbatim>\<open>paging_new_4gb\<close> and the flags are 32-bit patterns.
\<close>

record pstate = kstate +
  cr3 :: u32
  paging_enabled :: bool
  current_directory :: u32

definition PAGING_ACCESS_FROM_ALL :: u32 where "PAGING_ACCESS_FROM_ALL = 4"
definition PAGING_IS_WRITABLE :: u32 where "PAGING_IS_WRITABLE = 2"
definition PAGING_IS_PRESENT :: u32 where "PAGING_IS_PRESENT = 1"
definition PAGING_TOTAL_ENTRIES_PER_TABLE :: nat where "PAGING_TOTAL_ENTRIES_PER_TABLE = 1024"
definition PAGING_PAGE_SIZE :: u32 where "PAGING_PAGE_SIZE = 4096"

lemmas paging_consts = PAGING_ACCESS_FROM_ALL_def PAGING_IS_WRITABLE_def PAGING_IS_PRESENT_def
  PAGING_TOTAL_ENTRIES_PER_TABLE_def PAGING_PAGE_SIZE_def

section \<open>Address spaces\<close>

text \<open>Word \<open>i\<close> of the array of 32-bit words at \<open>p\<close>.\<close>

definition ldw :: "memory \<Rightarrow> u32 \<Rightarrow> nat \<Rightarrow> u32" where
  "ldw m p i = load32 m (p + word_of_nat (4 * i))"

definition stw :: "u32 \<Rightarrow> nat \<Rightarrow> u32 \<Rightarrow> memory \<Rightarrow> memory" where
  "stw p i w m = store32 m (p + word_of_nat (4 * i)) w"

definition paging_new_4gb_table ::
  "u32 \<Rightarrow> u8 \<Rightarrow> nat \<Rightarrow> u32 \<times> 'a pstate_scheme \<Rightarrow> (u32 \<times> 'a pstate_scheme) outcome" where
  "paging_new_4gb_table directory flags i = (\<lambda>(offset, s).
     bnd (kzalloc (4 * word_of_nat PAGING_TOTAL_ENTRIES_PER_TABLE) s) (\<lambda>(entry, s1).
       let m1 = fold (\<lambda>b. stw entry b ((offset + word_of_nat b * PAGING_PAGE_SIZE) OR ucast flags))
                  [0..<PAGING_TOTAL_ENTRIES_PER_TABLE] (mem s1);
           offset' = offset + word_of_nat PAGING_TOTAL_ENTRIES_PER_TABLE * PAGING_PAGE_SIZE;
           m2 = stw directory i (entry OR ucast flags OR PAGING_IS_WRITABLE) m1
       in Inr (offset', s1\<lparr>mem := m2\<rparr>)))"

definition paging_new_4gb :: "u8 \<Rightarrow> 'a pstate_scheme \<Rightarrow> (u32 \<times> 'a pstate_scheme) outcome" where
  "paging_new_4gb flags s =
     bnd (kzalloc (4 * word_of_nat PAGING_TOTAL_ENTRIES_PER_TABLE) s) (\<lambda>(directory, s1).
     bnd (for_each (paging_new_4gb_table directory flags) [0..<PAGING_TOTAL_ENTRIES_PER_TABLE] (0, s1))
       (\<lambda>(_, s2).
     bnd (kzalloc 4 s2) (\<lambda>(chunk_4gb, s3).
       Inr (chunk_4gb, s3\<lparr>mem := store32 (mem s3) chunk_4gb directory\<rparr>))))"

definition paging_free_4gb :: "u32 \<Rightarrow> 'a pstate_scheme \<Rightarrow> 'a pstate_scheme outcome" where
  "paging_free_4gb chunk s =
     bnd (for_each (\<lambda>i s.
            let entry = ldw (mem s) (load32 (mem s) chunk) i
            in kfree (entry AND 0xfffff000) s) [0..<1024] s) (\<lambda>s1.
     bnd (kfree (load32 (mem s1) chunk) s1) (\<lambda>s2.
       kfree chunk s2))"

definition paging_switch :: "u32 \<Rightarrow> 'a pstate_scheme \<Rightarrow> 'a pstate_scheme" where
  "paging_switch directory s =
     s\<lparr>cr3 := load32 (mem s) directory, current_directory := load32 (mem s) directory\<rparr>"

definition paging_4gb_chunk_get_directory :: "memory \<Rightarrow> u32 \<Rightarrow> u32" where
  "paging_4gb_chunk_get_directory m chunk = load32 m chunk"

section \<open>Entries\<close>

definition paging_is_aligned :: "u32 \<Rightarrow> bool" where
  "paging_is_aligned address \<longleftrightarrow> address mod PAGING_PAGE_SIZE = 0"

text \<open>The out parameters keep their value when the address is not aligned.\<close>

definition paging_get_indexes :: "u32 \<Rightarrow> u32 \<times> u32 \<Rightarrow> int \<times> u32 \<times> u32" where
  "paging_get_indexes virtual_address out =
     (if \<not> paging_is_aligned virtual_address then (- EINVARG, out)
      else (0, virtual_address div (word_of_nat PAGING_TOTAL_ENTRIES_PER_TABLE * PAGING_PAGE_SIZE),
            virtual_address mod (word_of_nat PAGING_TOTAL_ENTRIES_PER_TABLE * PAGING_PAGE_SIZE)
              div PAGING_PAGE_SIZE))"

definition paging_set :: "u32 \<Rightarrow> u32 \<Rightarrow> u32 \<Rightarrow> 'a pstate_scheme \<Rightarrow> int \<times> 'a pstate_scheme" where
  "paging_set directory virt val s =
     (if \<not> paging_is_aligned virt then (- EINVARG, s)
      else case paging_get_indexes virt (0, 0) of (res, directory_index, table_index) \<Rightarrow>
        if res < 0 then (res, s)
        else
          let entry = ldw (mem s) directory (unat directory_index);
              tbl = entry AND 0xfffff000
          in (res, s\<lparr>mem := stw tbl (unat table_index) val (mem s)\<rparr>))"

definition paging_map :: "u32 \<Rightarrow> u32 \<Rightarrow> u32 \<Rightarrow> u32 \<Rightarrow> 'a pstate_scheme \<Rightarrow> int \<times> 'a pstate_scheme" where
  "paging_map chunk virt phys flags s =
     (if virt mod PAGING_PAGE_SIZE \<noteq> 0 \<or> phys mod PAGING_PAGE_SIZE \<noteq> 0 then (- EINVARG, s)
      else paging_set (load32 (mem s) chunk) virt (phys OR flags) s)"

definition paging_align_address :: "u32 \<Rightarrow> u32" where
  "paging_align_address ptr =
     (if ptr mod PAGING_PAGE_SIZE \<noteq> 0
      then ptr + PAGING_PAGE_SIZE - ptr mod PAGING_PAGE_SIZE else ptr)"

fun paging_map_range_loop ::
  "u32 \<Rightarrow> u32 \<Rightarrow> u32 \<Rightarrow> nat \<Rightarrow> u32 \<Rightarrow> int \<Rightarrow> 'a pstate_scheme \<Rightarrow> int \<times> 'a pstate_scheme" where
  "paging_map_range_loop chunk virt phys 0 flags res s = (res, s)"
| "paging_map_range_loop chunk virt phys (Suc k) flags res s =
     (case paging_map chunk virt phys flags s of (res', s') \<Rightarrow>
        if res' < 0 then (res', s')
        else paging_map_range_loop chunk (virt + PAGING_PAGE_SIZE) (phys + PAGING_PAGE_SIZE) k
               flags res' s')"

definition paging_map_range ::
  "u32 \<Rightarrow> u32 \<Rightarrow> u32 \<Rightarrow> int \<Rightarrow> u32 \<Rightarrow> 'a pstate_scheme \<Rightarrow> int \<times> 'a pstate_scheme" where
  "paging_map_range chunk virt phys count flags s =
     paging_map_range_loop chunk virt phys (nat count) flags 0 s"

definition paging_map_to ::
  "u32 \<Rightarrow> u32 \<Rightarrow> u32 \<Rightarrow> u32 \<Rightarrow> u32 \<Rightarrow> 'a pstate_scheme \<Rightarrow> int \<times> 'a pstate_scheme" where
  "paging_map_to chunk virt phys phys_end flags s =
     (if virt mod PAGING_PAGE_SIZE \<noteq> 0 then (- EINVARG, s)
      else if phys mod PAGING_PAGE_SIZE \<noteq> 0 then (- EINVARG, s)
      else if phys_end mod PAGING_PAGE_SIZE \<noteq> 0 then (- EINVARG, s)
      else if phys_end < phys then (- EINVARG, s)
      else
        let total_bytes = phys_end - phys;
            total_pages = sint (total_bytes div PAGING_PAGE_SIZE)
        in paging_map_range chunk virt phys total_pages flags s)"

definition paging_get :: "memory \<Rightarrow> u32 \<Rightarrow> u32 \<Rightarrow> u32" where
  "paging_get m directory virt =
     (case paging_get_indexes virt (0, 0) of (_, directory_index, table_index) \<Rightarrow>
        let entry = ldw m directory (unat directory_index);
            tbl = entry AND 0xfffff000
        in ldw m tbl (unat table_index))"

section \<open>Words of a page\<close>

definition page_aligned :: "u32 \<Rightarrow> bool" where
  "page_aligned p \<longleftrightarrow> 4096 dvd unat p"

lemma page_aligned_bound: "page_aligned p \<Longrightarrow> unat p + 4096 \<le> 2 ^ 32"
proof -
  assume "page_aligned p"
  then obtain k where k: "unat p = 4096 * k" by (auto simp: page_aligned_def)
  then have "4096 * k < 4294967296" using unat32_less [of p] by simp
  then have "k < 1048576" by simp
  then show ?thesis using k by simp
qed

lemma unat_page_offset:
  assumes "page_aligned p" "k < 4096"
  shows "unat (p + word_of_nat k) = unat p + k"
proof -
  have "unat (word_of_nat k :: u32) = k" using assms(2) by (simp add: unat_of_nat32)
  then show ?thesis using page_aligned_bound [OF assms(1)] assms(2) by (simp add: unat_plus_if')
qed

definition in_page :: "u32 \<Rightarrow> u32 \<Rightarrow> bool" where
  "in_page p a \<longleftrightarrow> unat a div 4096 = unat p div 4096"

lemma in_block_page: "page_aligned p \<Longrightarrow> in_block p (Suc 0) a \<longleftrightarrow> in_page p a"
  by (auto simp: in_block_def page_aligned_def in_page_def)

lemma in_page_unique: "page_aligned p \<Longrightarrow> page_aligned q \<Longrightarrow> in_page p a \<Longrightarrow> in_page q a \<Longrightarrow> p = q"
  unfolding page_aligned_def in_page_def by (metis dvd_div_mult_self word_unat_eq_iff)

lemma in_page_offset: "page_aligned p \<Longrightarrow> j < 4096 \<Longrightarrow> in_page p (p + word_of_nat j)"
proof -
  assume p: "page_aligned p" and j: "j < 4096"
  have "unat p mod 4096 = 0" using p by (simp add: page_aligned_def)
  then show ?thesis using j unfolding in_page_def unat_page_offset [OF p j] by (auto simp: page_aligned_def)
qed

lemma in_page_self [simp]: "in_page p p"
  by (simp add: in_page_def)

lemma page_word_bytes:
  assumes "page_aligned p" "i < 1024"
  shows "unat (p + word_of_nat (4 * i)) = unat p + 4 * i"
    "unat (p + word_of_nat (4 * i) + 1) = unat p + 4 * i + 1"
    "unat (p + word_of_nat (4 * i) + 2) = unat p + 4 * i + 2"
    "unat (p + word_of_nat (4 * i) + 3) = unat p + 4 * i + 3"
proof -
  have eq: "p + word_of_nat (4 * i) + word_of_nat k = p + word_of_nat (4 * i + k)" for k by simp
  have off: "unat (p + word_of_nat (4 * i) + word_of_nat k) = unat p + 4 * i + k" if "k < 4" for k
    using unat_page_offset [OF assms(1), of "4 * i + k"] assms(2) that by (simp add: eq del: of_nat_add of_nat_mult)
  show "unat (p + word_of_nat (4 * i)) = unat p + 4 * i"
    "unat (p + word_of_nat (4 * i) + 1) = unat p + 4 * i + 1"
    "unat (p + word_of_nat (4 * i) + 2) = unat p + 4 * i + 2"
    "unat (p + word_of_nat (4 * i) + 3) = unat p + 4 * i + 3"
    using off [of 0] off [of 1] off [of 2] off [of 3] by (simp_all del: of_nat_mult)
qed

lemma ldw_stw_same [simp]: "ldw (stw p i w m) p i = w"
  by (simp add: ldw_def stw_def)

lemma page_word_in_page:
  assumes "page_aligned p" "i < 1024"
  shows "in_page p (p + word_of_nat (4 * i))" "in_page p (p + word_of_nat (4 * i) + 1)"
    "in_page p (p + word_of_nat (4 * i) + 2)" "in_page p (p + word_of_nat (4 * i) + 3)"
proof -
  have "(unat p + k) div 4096 = unat p div 4096" if "k < 4096" for k
    using assms(1) that by (auto simp: page_aligned_def)
  from this [of "4 * i"] this [of "4 * i + 1"] this [of "4 * i + 2"] this [of "4 * i + 3"]
  show "in_page p (p + word_of_nat (4 * i))" "in_page p (p + word_of_nat (4 * i) + 1)"
    "in_page p (p + word_of_nat (4 * i) + 2)" "in_page p (p + word_of_nat (4 * i) + 3)"
    unfolding in_page_def page_word_bytes [OF assms] using assms(2) by (simp_all add: add.assoc)
qed

lemma stw_frame:
  assumes "page_aligned p" "i < 1024" "\<not> in_page p a"
  shows "stw p i w m a = m a"
  unfolding stw_def
  by (rule store32_other) (use assms(3) page_word_in_page [OF assms(1,2)] in blast)+

lemma ldw_cong:
  assumes "page_aligned p" "i < 1024" "\<And>a. in_page p a \<Longrightarrow> m a = m' a"
  shows "ldw m p i = ldw m' p i"
  unfolding ldw_def
  by (rule load32_cong; rule assms(3); rule page_word_in_page [OF assms(1,2)])

lemma ldw_stw_page:
  assumes "page_aligned p" "page_aligned q" "p \<noteq> q" "i < 1024" "j < 1024"
  shows "ldw (stw p i w m) q j = ldw m q j"
  using assms in_page_unique stw_frame by (intro ldw_cong) blast+

lemma ldw_stw_index:
  assumes "page_aligned p" "i < 1024" "j < 1024" "i \<noteq> j"
  shows "ldw (stw p i w m) p j = ldw m p j"
proof -
  let ?a = "p + word_of_nat (4 * i)" and ?b = "p + word_of_nat (4 * j)"
  note bytes = page_word_bytes [OF assms(1,2)] page_word_bytes [OF assms(1,3)]
  have ne: "x \<noteq> ?a \<and> x \<noteq> ?a + 1 \<and> x \<noteq> ?a + 2 \<and> x \<noteq> ?a + 3"
    if "unat x div 4 = unat ?b div 4" for x
  proof -
    have "unat p mod 4 = 0" using assms(1) by (auto simp: page_aligned_def)
    then have "unat ?b div 4 = unat p div 4 + j" "unat ?a div 4 = unat p div 4 + i"
      "unat (?a + 1) div 4 = unat p div 4 + i" "unat (?a + 2) div 4 = unat p div 4 + i"
      "unat (?a + 3) div 4 = unat p div 4 + i"
      unfolding bytes by presburger+
    with that assms(4) show ?thesis by (metis add_left_cancel)
  qed
  have div: "unat ?b div 4 = unat ?b div 4" "unat (?b + 1) div 4 = unat ?b div 4"
    "unat (?b + 2) div 4 = unat ?b div 4" "unat (?b + 3) div 4 = unat ?b div 4"
  proof -
    have "unat p mod 4 = 0" using assms(1) by (auto simp: page_aligned_def)
    then show "unat ?b div 4 = unat ?b div 4" "unat (?b + 1) div 4 = unat ?b div 4"
      "unat (?b + 2) div 4 = unat ?b div 4" "unat (?b + 3) div 4 = unat ?b div 4"
      unfolding bytes by presburger+
  qed
  show ?thesis
    unfolding ldw_def stw_def
    by (rule load32_cong; rule store32_other) (use ne [OF div(1)] ne [OF div(2)] ne [OF div(3)] ne [OF div(4)] in blast)+
qed

lemma ldw_stw:
  assumes "page_aligned p" "page_aligned q" "i < 1024" "j < 1024"
  shows "ldw (stw p i w m) q j = (if p = q \<and> i = j then w else ldw m q j)"
  using assms ldw_stw_page [of p q i j] ldw_stw_index [of p i j] by (cases "p = q") auto

text \<open>The loop that fills a table.\<close>

lemma fold_stw:
  assumes "page_aligned p" "n \<le> 1024"
  shows "j < 1024 \<Longrightarrow> ldw (fold (\<lambda>b. stw p b (f b)) [0..<n] m) p j = (if j < n then f j else ldw m p j)"
    and "\<not> in_page p a \<Longrightarrow> fold (\<lambda>b. stw p b (f b)) [0..<n] m a = m a"
proof -
  show "ldw (fold (\<lambda>b. stw p b (f b)) [0..<n] m) p j = (if j < n then f j else ldw m p j)" if "j < 1024"
    using assms(2) that
  proof (induction n)
    case (Suc n)
    then show ?case by (auto simp: ldw_stw [OF assms(1) assms(1)] less_Suc_eq)
  qed simp
  show "fold (\<lambda>b. stw p b (f b)) [0..<n] m a = m a" if "\<not> in_page p a"
    using assms(2)
  proof (induction n)
    case (Suc n)
    then show ?case using stw_frame [OF assms(1) _ that] by simp
  qed simp
qed

text \<open>Masking a directory entry gives back the table it points to.\<close>

lemma page_aligned_take_bit: "page_aligned p \<longleftrightarrow> take_bit 12 p = 0"
proof -
  have "page_aligned p \<longleftrightarrow> p mod 4096 = 0" by (simp add: page_aligned_def mod_4096_eq_0_iff)
  then show ?thesis by (simp add: take_bit_eq_mod)
qed

lemma entry_mask:
  assumes "page_aligned t"
  shows "(t OR ucast (flags :: u8) OR 2) AND 0xfffff000 = t"
proof (rule bit_word_eqI)
  fix n
  assume n: "n < LENGTH(32)"
  have m: "0xfffff000 = (NOT (mask 12) :: u32)" by (simp add: mask_eq_exp_minus_1)
  have low: "\<not> bit t n" if "n < 12"
  proof -
    have "bit (take_bit 12 t) n = (n < 12 \<and> bit t n)" by (simp add: bit_take_bit_iff)
    with assms that show ?thesis by (simp add: page_aligned_take_bit)
  qed
  have two: "bit (2 :: u32) n \<longleftrightarrow> n = 1" by (auto simp: bit_2_iff)
  show "bit ((t OR ucast flags OR 2) AND 0xfffff000) n = bit t n"
    using n low two bit_imp_le_length [of flags n]
    by (auto simp: m bit_simps simp del: mask_numeral)
qed

lemma masked_aligned [simp]: "page_aligned (w AND 0xfffff000)"
proof -
  have m: "0xfffff000 = (NOT (mask 12) :: u32)" by (simp add: mask_eq_exp_minus_1)
  show ?thesis unfolding page_aligned_take_bit m
    by (rule bit_word_eqI) (auto simp: bit_simps simp del: mask_numeral)
qed

section \<open>Well-formed address spaces\<close>

text \<open>
  The blocks of an address space: the chunk that names it, the directory, and the tables the
  directory's entries point to. A well-formed space has 1026 distinct live heap pages.
\<close>

definition table_of :: "memory \<Rightarrow> u32 \<Rightarrow> nat \<Rightarrow> u32" where
  "table_of m dir i = ldw m dir i AND 0xfffff000"

definition space_tables :: "memory \<Rightarrow> u32 \<Rightarrow> u32 list" where
  "space_tables m dir = map (table_of m dir) [0..<1024]"

definition space_blocks :: "memory \<Rightarrow> u32 \<Rightarrow> u32 list" where
  "space_blocks m chunk = chunk # load32 m chunk # space_tables m (load32 m chunk)"

definition space_ok :: "u32 \<Rightarrow> 'a pstate_scheme \<Rightarrow> bool" where
  "space_ok chunk s \<longleftrightarrow> distinct (space_blocks (mem s) chunk)
     \<and> (\<forall>p \<in> set (space_blocks (mem s) chunk). (p, 1) \<in> kheap_allocs s)"

text \<open>The translation an address space holds: the entry for a page.\<close>

definition space_view :: "memory \<Rightarrow> u32 \<Rightarrow> u32 \<Rightarrow> u32" where
  "space_view m chunk virt = paging_get m (load32 m chunk) virt"

definition dir_index :: "u32 \<Rightarrow> nat" where "dir_index v = unat v div 4194304"
definition table_index :: "u32 \<Rightarrow> nat" where "table_index v = unat v mod 4194304 div 4096"

lemma dir_index_less [simp]: "dir_index v < 1024"
  using unat32_less [of v] by (simp add: dir_index_def less_mult_imp_div_less)

lemma table_index_less [simp]: "table_index v < 1024"
  by (simp add: table_index_def less_mult_imp_div_less)

lemma page_index_split:
  assumes "page_aligned v"
  shows "unat v = 4194304 * dir_index v + 4096 * table_index v"
proof -
  have "unat v = 4194304 * (unat v div 4194304) + unat v mod 4194304"
    by (simp only: mult_div_mod_eq)
  moreover have "4096 dvd unat v mod 4194304"
    using assms by (simp add: page_aligned_def dvd_mod)
  ultimately show ?thesis by (simp add: dir_index_def table_index_def)
qed

lemma page_index_inject:
  assumes "page_aligned v" "page_aligned w" "dir_index v = dir_index w" "table_index v = table_index w"
  shows "v = w"
  using page_index_split [OF assms(1)] page_index_split [OF assms(2)] assms(3,4)
  by (simp add: word_unat_eq_iff)

lemma is_aligned_eq [simp]: "paging_is_aligned v = page_aligned v"
  by (simp add: paging_is_aligned_def paging_consts mod_4096_eq_0_iff page_aligned_def)

lemma get_indexes_aligned:
  assumes "page_aligned v"
  shows "\<exists>d t. paging_get_indexes v out = (0, d, t) \<and> unat d = dir_index v \<and> unat t = table_index v"
  using assms
  by (simp add: paging_get_indexes_def paging_consts dir_index_def table_index_def unat_div unat_mod)

lemma paging_get_eq:
  "page_aligned v \<Longrightarrow>
     paging_get m dir v = ldw m (ldw m dir (dir_index v) AND 0xfffff000) (table_index v)"
  using get_indexes_aligned [of v "(0, 0)"] by (auto simp: paging_get_def Let_def)

lemma paging_set_eq:
  "page_aligned v \<Longrightarrow> paging_set dir v w s =
     (0, s\<lparr>mem := stw (ldw (mem s) dir (dir_index v) AND 0xfffff000) (table_index v) w (mem s)\<rparr>)"
  using get_indexes_aligned [of v "(0, 0)"] by (auto simp: paging_set_def Let_def)

lemma paging_set_unaligned: "\<not> page_aligned v \<Longrightarrow> paging_set dir v w s = (- EINVARG, s)"
  by (simp add: paging_set_def)

lemma paging_map_eq:
  "paging_map chunk v p flags s =
     (if page_aligned v \<and> page_aligned p then paging_set (load32 (mem s) chunk) v (p OR flags) s
      else (- EINVARG, s))"
  by (auto simp: paging_map_def paging_consts page_aligned_def mod_4096_eq_0_iff)

lemma space_ok_pages:
  assumes "kheap_inv s" "space_ok chunk s" "p \<in> set (space_blocks (mem s) chunk)"
  shows "page_aligned p" "p \<noteq> 0" "(p, 1) \<in> kheap_allocs s"
proof -
  show l: "(p, 1) \<in> kheap_allocs s" using assms(2,3) by (simp add: space_ok_def)
  show "page_aligned p" "p \<noteq> 0"
    using km.allocs_shape [OF assms(1) l] by (simp_all add: page_aligned_def)
qed

lemma set_space_tables: "set (space_tables m dir) = table_of m dir ` {..<1024}"
  by (simp add: space_tables_def atLeast_upt lessThan_atLeast0)

lemma table_in_blocks: "i < 1024 \<Longrightarrow> table_of m (load32 m chunk) i \<in> set (space_blocks m chunk)"
  by (simp add: space_blocks_def set_space_tables)

lemma table_ne_chunk:
  assumes "space_ok chunk s" "i < 1024"
  shows "table_of (mem s) (load32 (mem s) chunk) i \<noteq> chunk"
    "table_of (mem s) (load32 (mem s) chunk) i \<noteq> load32 (mem s) chunk"
proof -
  have "table_of (mem s) (load32 (mem s) chunk) i \<in> set (space_tables (mem s) (load32 (mem s) chunk))"
    using assms(2) by (simp add: set_space_tables)
  moreover have "chunk \<notin> set (space_tables (mem s) (load32 (mem s) chunk))"
    "load32 (mem s) chunk \<notin> set (space_tables (mem s) (load32 (mem s) chunk))"
    using assms(1) by (simp_all add: space_ok_def space_blocks_def)
  ultimately show "table_of (mem s) (load32 (mem s) chunk) i \<noteq> chunk"
    "table_of (mem s) (load32 (mem s) chunk) i \<noteq> load32 (mem s) chunk" by metis+
qed

lemma table_inject:
  assumes "space_ok chunk s" "i < 1024" "j < 1024"
    "table_of (mem s) (load32 (mem s) chunk) i = table_of (mem s) (load32 (mem s) chunk) j"
  shows "i = j"
proof -
  have "distinct (map (table_of (mem s) (load32 (mem s) chunk)) [0..<1024])"
    using assms(1) by (simp add: space_ok_def space_blocks_def space_tables_def)
  then have "inj_on (table_of (mem s) (load32 (mem s) chunk)) (set [0..<1024])"
    unfolding distinct_map by blast
  from inj_onD [OF this assms(4)] assms(2,3) show ?thesis by simp
qed

text \<open>Memory outside the blocks of a space may change without the space noticing.\<close>

lemma load32_page_cong:
  assumes "page_aligned p" "\<And>a. in_page p a \<Longrightarrow> m a = m' a"
  shows "load32 m p = load32 m' p"
  using ldw_cong [OF assms(1) _ assms(2), of 0] by (simp add: ldw_def)

lemma space_tables_cong:
  assumes "page_aligned dir" "\<And>a. in_page dir a \<Longrightarrow> m a = m' a"
  shows "space_tables m dir = space_tables m' dir"
  unfolding space_tables_def table_of_def using ldw_cong [OF assms(1) _ assms(2)] by simp

lemma space_blocks_cong:
  assumes "page_aligned chunk" "page_aligned (load32 m chunk)"
    "\<And>a. in_page chunk a \<or> in_page (load32 m chunk) a \<Longrightarrow> m a = m' a"
  shows "space_blocks m chunk = space_blocks m' chunk"
  unfolding space_blocks_def
  using load32_page_cong [of chunk m m'] space_tables_cong [of "load32 m chunk" m m'] assms by auto

lemma space_view_cong:
  assumes "\<And>p. p \<in> set (space_blocks m chunk) \<Longrightarrow> page_aligned p"
    "\<And>p a. p \<in> set (space_blocks m chunk) \<Longrightarrow> in_page p a \<Longrightarrow> m a = m' a" "page_aligned v"
  shows "space_view m chunk v = space_view m' chunk v"
proof -
  have al: "page_aligned chunk" "page_aligned (load32 m chunk)"
    and c: "\<And>a. in_page chunk a \<Longrightarrow> m a = m' a" and d: "\<And>a. in_page (load32 m chunk) a \<Longrightarrow> m a = m' a"
    using assms(1,2) by (auto simp: space_blocks_def)
  note t = table_in_blocks [of "dir_index v" m chunk, OF dir_index_less]
  have ch: "load32 m' chunk = load32 m chunk" using load32_page_cong [OF al(1) c] by simp
  have di: "ldw m (load32 m chunk) (dir_index v) = ldw m' (load32 m chunk) (dir_index v)"
    by (rule ldw_cong [OF al(2) dir_index_less d])
  have "ldw m (table_of m (load32 m chunk) (dir_index v)) (table_index v)
      = ldw m' (table_of m (load32 m chunk) (dir_index v)) (table_index v)"
    by (rule ldw_cong [OF assms(1) [OF t] table_index_less assms(2) [OF t]])
  then show ?thesis
    unfolding space_view_def paging_get_eq [OF assms(3)] ch table_of_def di .
qed

text \<open>The memory a mapping may change: the tables of its own space.\<close>

definition space_frame :: "'a pstate_scheme \<Rightarrow> 'a pstate_scheme \<Rightarrow> u32 \<Rightarrow> bool" where
  "space_frame s s' chunk \<longleftrightarrow>
     (\<exists>m'. s' = s\<lparr>mem := m'\<rparr>) \<and>
     (\<forall>a. (\<forall>t \<in> set (space_tables (mem s) (load32 (mem s) chunk)). \<not> in_page t a) \<longrightarrow> mem s' a = mem s a)"

lemma mem_update_twice: "s\<lparr>mem := m\<rparr>\<lparr>mem := m'\<rparr> = (s\<lparr>mem := m'\<rparr> :: 'a pstate_scheme)"
  by simp

lemma space_frame_refl [simp]: "space_frame s s chunk"
  by (auto simp: space_frame_def intro: exI [of _ "mem s"])

lemma space_frame_dir:
  assumes "kheap_inv s" "space_ok chunk s" "space_frame s s' chunk"
    and pg: "in_page chunk a \<or> in_page (load32 (mem s) chunk) a"
  shows "mem s' a = mem s a"
proof -
  let ?dir = "load32 (mem s) chunk"
  have "\<not> in_page t a" if t: "t \<in> set (space_tables (mem s) ?dir)" for t
  proof
    assume ia: "in_page t a"
    have "t \<in> set (space_blocks (mem s) chunk)" "chunk \<in> set (space_blocks (mem s) chunk)"
      "?dir \<in> set (space_blocks (mem s) chunk)" using t by (auto simp: space_blocks_def)
    from this [THEN space_ok_pages(1) [OF assms(1,2)]]
    have "page_aligned t" "page_aligned chunk" "page_aligned ?dir" .
    with ia pg have "t = chunk \<or> t = ?dir"
      using in_page_unique [of t chunk a] in_page_unique [of t ?dir a] by argo
    then show False using assms(2) t by (auto simp: space_ok_def space_blocks_def)
  qed
  then show ?thesis using assms(3) by (auto simp: space_frame_def)
qed

lemma space_frame_keeps:
  assumes "kheap_inv s" "space_ok chunk s" "space_frame s s' chunk"
  shows "kheap_inv s'" "space_ok chunk s'" "space_blocks (mem s') chunk = space_blocks (mem s) chunk"
proof -
  let ?dir = "load32 (mem s) chunk"
  note mem_out = space_frame_dir [OF assms]
  have al: "page_aligned chunk" "page_aligned ?dir"
    using space_ok_pages(1) [OF assms(1,2)] by (simp_all add: space_blocks_def)
  show b: "space_blocks (mem s') chunk = space_blocks (mem s) chunk"
    using space_blocks_cong [OF al, of "mem s'"] mem_out by metis
  from assms(3) obtain m' where "s' = s\<lparr>mem := m'\<rparr>" by (auto simp: space_frame_def)
  then have h: "kernel_heap s' = kernel_heap s" by simp
  show "kheap_inv s'" using assms(1) by (simp only: kheap_inv_def h)
  show "space_ok chunk s'" using assms(2) unfolding space_ok_def b kheap_allocs_def h .
qed

lemma space_frame_trans:
  assumes "kheap_inv s" "space_ok chunk s" "space_frame s s1 chunk" "space_frame s1 s2 chunk"
  shows "space_frame s s2 chunk"
proof -
  have "space_blocks (mem s1) chunk = space_blocks (mem s) chunk"
    by (rule space_frame_keeps(3) [OF assms(1-3)])
  then have t: "load32 (mem s1) chunk = load32 (mem s) chunk
      \<and> space_tables (mem s1) (load32 (mem s1) chunk) = space_tables (mem s) (load32 (mem s) chunk)"
    unfolding space_blocks_def list.inject by blast
  from assms(3,4) show ?thesis
    unfolding space_frame_def using t by (metis (no_types, lifting) mem_update_twice)
qed

text \<open>One mapping updates the translation at one page.\<close>

lemma paging_set_ok:
  assumes "kheap_inv s" "space_ok chunk s" "page_aligned v"
  obtains s' where "paging_set (load32 (mem s) chunk) v e s = (0, s')" "space_frame s s' chunk"
    "\<And>w. page_aligned w \<Longrightarrow>
       space_view (mem s') chunk w = (if w = v then e else space_view (mem s) chunk w)"
proof -
  let ?m = "mem s" and ?dir = "load32 (mem s) chunk"
  let ?t = "table_of ?m ?dir"
  define m' where "m' = stw (?t (dir_index v)) (table_index v) e ?m"
  have run: "paging_set ?dir v e s = (0, s\<lparr>mem := m'\<rparr>)"
    using assms(3) by (simp add: paging_set_eq m'_def table_of_def)
  have al: "page_aligned (?t i)" for i by (simp add: table_of_def)
  have dal: "page_aligned ?dir" using space_ok_pages(1) [OF assms(1,2)] by (simp add: space_blocks_def)
  have cal: "page_aligned chunk" using space_ok_pages(1) [OF assms(1,2)] by (simp add: space_blocks_def)
  have fr: "space_frame s (s\<lparr>mem := m'\<rparr>) chunk"
    unfolding space_frame_def
  proof (intro conjI allI impI)
    fix a assume "\<forall>t \<in> set (space_tables ?m ?dir). \<not> in_page t a"
    then have "\<not> in_page (?t (dir_index v)) a" by (simp add: set_space_tables)
    then show "mem (s\<lparr>mem := m'\<rparr>) a = mem s a" by (simp add: m'_def stw_frame [OF al])
  qed blast
  have dir': "load32 m' chunk = ?dir"
    using space_frame_keeps(3) [OF assms(1,2) fr] by (simp add: space_blocks_def)
  have ent: "ldw m' ?dir i = ldw ?m ?dir i" if "i < 1024" for i
    unfolding m'_def by (rule ldw_stw_page [OF al dal table_ne_chunk(2) [OF assms(2)]]) (use that in simp_all)
  have vw: "space_view m' chunk w = (if w = v then e else space_view ?m chunk w)"
    if w: "page_aligned w" for w
  proof -
    have "space_view m' chunk w = ldw m' (?t (dir_index w)) (table_index w)"
      by (simp add: space_view_def dir' paging_get_eq [OF w] ent table_of_def)
    also have "\<dots> = (if ?t (dir_index v) = ?t (dir_index w) \<and> table_index v = table_index w then e
        else ldw ?m (?t (dir_index w)) (table_index w))"
      unfolding m'_def by (rule ldw_stw) (simp_all add: al)
    also have "(?t (dir_index v) = ?t (dir_index w) \<and> table_index v = table_index w) \<longleftrightarrow> w = v"
      using table_inject [OF assms(2), of "dir_index v" "dir_index w"]
        page_index_inject [OF w assms(3)] dir_index_less by metis
    finally show ?thesis by (simp add: space_view_def paging_get_eq [OF w] table_of_def)
  qed
  from that [OF run fr] vw show thesis by simp
qed

lemma paging_map_ok:
  assumes "kheap_inv s" "space_ok chunk s" "page_aligned v" "page_aligned p"
  obtains s' where "paging_map chunk v p flags s = (0, s')" "space_frame s s' chunk"
    "\<And>w. page_aligned w \<Longrightarrow>
       space_view (mem s') chunk w = (if w = v then p OR flags else space_view (mem s) chunk w)"
proof (rule paging_set_ok [OF assms(1-3), of "p OR flags"])
  fix s'
  assume r: "paging_set (load32 (mem s) chunk) v (p OR flags) s = (0, s')"
    and f: "space_frame s s' chunk"
    and w: "\<And>w. page_aligned w \<Longrightarrow>
       space_view (mem s') chunk w = (if w = v then p OR flags else space_view (mem s) chunk w)"
  have "paging_map chunk v p flags s = (0, s')" using r by (simp add: paging_map_eq assms(3,4))
  from that [OF this f w] show thesis .
qed

text \<open>A range of mappings, and the checks of \<^verbatim>\<open>paging_map_to\<close>.\<close>

lemma page_aligned_add: "page_aligned v \<Longrightarrow> page_aligned w \<Longrightarrow> page_aligned (v + w)"
  by (auto simp: page_aligned_def unat_plus_if')

lemma page_aligned_diff: "page_aligned v \<Longrightarrow> page_aligned w \<Longrightarrow> page_aligned (w - v)"
  by (auto simp: page_aligned_def unat_sub_if')

lemma page_aligned_4096 [simp]: "page_aligned 4096"
  by (simp add: page_aligned_def)

lemma page_offset_cases:
  assumes "page_aligned v" "page_aligned w" "v \<noteq> w"
  shows "unat (w - (v + 4096)) + 4096 = unat (w - v)"
proof -
  have "4096 dvd unat (w - v)" using page_aligned_diff [OF assms(1,2)] by (simp add: page_aligned_def)
  moreover have "unat (w - v) \<noteq> 0" using assms(3) by (simp add: unsigned_eq_0_iff)
  ultimately have le: "4096 \<le> unat (w - v)" by (simp add: dvd_imp_le)
  then have "unat (w - v - 4096) = unat (w - v) - 4096"
    using unat_sub [of "4096 :: u32" "w - v"] by (simp add: word_le_nat_alt)
  with le show ?thesis by (simp only: diff_diff_eq [symmetric] le_add_diff_inverse2)
qed

lemma paging_map_range_loop_ok:
  assumes "kheap_inv s" "space_ok chunk s" "page_aligned v" "page_aligned p" "n \<le> 1048576"
  shows "\<exists>s'. paging_map_range_loop chunk v p n flags 0 s = (0, s') \<and> space_frame s s' chunk
    \<and> (\<forall>w. page_aligned w \<longrightarrow> space_view (mem s') chunk w =
         (if unat (w - v) < 4096 * n then (p + (w - v)) OR flags else space_view (mem s) chunk w))"
  using assms
proof (induction n arbitrary: v p s)
  case 0
  then show ?case by auto
next
  case (Suc n)
  from paging_map_ok [OF Suc.prems(1-4), of flags] obtain s1 where
    s1: "paging_map chunk v p flags s = (0, s1)" "space_frame s s1 chunk" and
    v1: "\<And>w. page_aligned w \<Longrightarrow>
       space_view (mem s1) chunk w = (if w = v then p OR flags else space_view (mem s) chunk w)" by blast
  note keep = space_frame_keeps [OF Suc.prems(1,2) s1(2)]
  have "page_aligned (v + 4096)" "page_aligned (p + 4096)" "n \<le> 1048576"
    using Suc.prems(3-5) by (simp_all add: page_aligned_add)
  from Suc.IH [OF keep(1,2) this] obtain s' where
    s': "paging_map_range_loop chunk (v + 4096) (p + 4096) n flags 0 s1 = (0, s')" "space_frame s1 s' chunk"
    and v2: "\<And>w. page_aligned w \<Longrightarrow> space_view (mem s') chunk w =
         (if unat (w - (v + 4096)) < 4096 * n then (p + 4096 + (w - (v + 4096))) OR flags
          else space_view (mem s1) chunk w)" by blast
  have "space_view (mem s') chunk w = (if unat (w - v) < 4096 * Suc n then (p + (w - v)) OR flags
      else space_view (mem s) chunk w)" if w: "page_aligned w" for w
  proof (cases "w = v")
    case True
    have "unat (v - (v + 4096)) = 4294963200" by simp
    then show ?thesis using v2 [OF w] v1 [OF w] True Suc.prems(5) by simp
  next
    case False
    then show ?thesis using v2 [OF w] v1 [OF w] page_offset_cases [OF Suc.prems(3) w] by auto
  qed
  then show ?case
    using s1(1) s'(1) space_frame_trans [OF Suc.prems(1,2) s1(2) s'(2)] by (auto simp: paging_consts)
qed

lemma paging_map_range_ok:
  assumes "kheap_inv s" "space_ok chunk s" "page_aligned v" "page_aligned p" "count \<le> 1048576"
  shows "\<exists>s'. paging_map_range chunk v p count flags s = (0, s') \<and> space_frame s s' chunk
    \<and> (\<forall>w. page_aligned w \<longrightarrow> space_view (mem s') chunk w =
         (if unat (w - v) < 4096 * nat count then (p + (w - v)) OR flags else space_view (mem s) chunk w))"
  unfolding paging_map_range_def
  by (rule paging_map_range_loop_ok [OF assms(1-4)]) (use assms(5) in simp)

lemma paging_map_to_eq:
  "paging_map_to chunk v p pe flags s =
     (if page_aligned v \<and> page_aligned p \<and> page_aligned pe \<and> p \<le> pe
      then paging_map_range chunk v p (int (unat (pe - p) div 4096)) flags s else (- EINVARG, s))"
proof -
  have "unat ((pe - p) div 4096) = unat (pe - p) div 4096" by (simp add: unat_div)
  moreover have "unat (pe - p) div 4096 < 2 ^ 31"
    by (rule less_mult_imp_div_less, rule less_trans [OF unat32_less]) simp
  ultimately have "sint ((pe - p) div 4096) = int (unat (pe - p) div 4096)"
    by (simp add: sint_small)
  then show ?thesis
    by (auto simp: paging_map_to_def Let_def paging_consts mod_4096_eq_0_iff page_aligned_def)
qed

lemma paging_map_to_ok:
  assumes "kheap_inv s" "space_ok chunk s" "page_aligned v" "page_aligned p" "page_aligned pe" "p \<le> pe"
  shows "\<exists>s'. paging_map_to chunk v p pe flags s = (0, s') \<and> space_frame s s' chunk
    \<and> (\<forall>w. page_aligned w \<longrightarrow> space_view (mem s') chunk w =
         (if w - v < pe - p then (p + (w - v)) OR flags else space_view (mem s) chunk w))"
proof -
  let ?n = "unat (pe - p) div 4096"
  have "4096 dvd unat (pe - p)" using page_aligned_diff [OF assms(4,5)] by (simp add: page_aligned_def)
  then have n: "4096 * ?n = unat (pe - p)" by simp
  have "?n \<le> 1048576" using unat32_less [of "pe - p"] by linarith
  then have "int ?n \<le> 1048576" by linarith
  from paging_map_range_ok [OF assms(1-4) this, of flags] show ?thesis
    using assms(3-6) by (simp add: paging_map_to_eq n word_less_nat_alt)
qed


text \<open>Mappings of one space leave a space with other blocks alone.\<close>

lemma space_frame_isolated:
  assumes "kheap_inv s" "space_ok c1 s" "space_ok c2 s" "space_frame s s' c1"
    "set (space_blocks (mem s) c1) \<inter> set (space_blocks (mem s) c2) = {}"
  shows "space_ok c2 s'" "page_aligned v \<Longrightarrow> space_view (mem s') c2 v = space_view (mem s) c2 v"
proof -
  have same: "mem s a = mem s' a" if p: "p \<in> set (space_blocks (mem s) c2)" and a: "in_page p a" for p a
  proof -
    have "\<not> in_page t a" if t: "t \<in> set (space_tables (mem s) (load32 (mem s) c1))" for t
    proof
      assume ia: "in_page t a"
      have t1: "t \<in> set (space_blocks (mem s) c1)" using t by (simp add: space_blocks_def)
      have "t = p"
        by (rule in_page_unique [OF space_ok_pages(1) [OF assms(1,2) t1] space_ok_pages(1) [OF assms(1,3) p] ia a])
      with t1 p assms(5) show False by blast
    qed
    with assms(4) show ?thesis by (auto simp: space_frame_def)
  qed
  have al: "page_aligned c2" "page_aligned (load32 (mem s) c2)"
    using space_ok_pages(1) [OF assms(1,3)] by (simp_all add: space_blocks_def)
  have b: "space_blocks (mem s) c2 = space_blocks (mem s') c2"
    by (rule space_blocks_cong [OF al]) (use same in \<open>auto simp: space_blocks_def\<close>)
  from assms(4) obtain m' where "s' = s\<lparr>mem := m'\<rparr>" by (auto simp: space_frame_def)
  then have h: "kernel_heap s' = kernel_heap s" by simp
  show "space_ok c2 s'" using assms(3) unfolding space_ok_def b kheap_allocs_def h .
  show "space_view (mem s') c2 v = space_view (mem s) c2 v" if "page_aligned v"
    using space_view_cong [OF space_ok_pages(1) [OF assms(1,3)] same that] by simp
qed

section \<open>A new address space\<close>

text \<open>
  What the loop has built after \<open>i\<close> rounds, from the state \<open>s0\<close> that \<open>paging_new_4gb\<close> was
  called in: a directory page, \<open>i\<close> further table pages, entries that map every page of the
  tables' range to itself, and all memory outside these pages as it was.
\<close>

definition heap_step :: "'a pstate_scheme \<Rightarrow> 'a pstate_scheme \<Rightarrow> bool" where
  "heap_step s0 s \<longleftrightarrow> (\<exists>h m. s = s0\<lparr>kernel_heap := h, mem := m\<rparr>)"

lemma heap_step_refl [simp]: "heap_step s s"
  unfolding heap_step_def by (rule exI [of _ "kernel_heap s"], rule exI [of _ "mem s"]) simp

lemma heap_step_trans: "heap_step s0 s1 \<Longrightarrow> heap_step s1 s2 \<Longrightarrow> heap_step s0 s2"
proof -
  assume "heap_step s0 s1" "heap_step s1 s2"
  then obtain h m h' m' where "s2 = s0\<lparr>kernel_heap := h, mem := m\<rparr>\<lparr>kernel_heap := h', mem := m'\<rparr>"
    by (auto simp: heap_step_def)
  then have "s2 = s0\<lparr>kernel_heap := h', mem := m'\<rparr>" by simp
  then show ?thesis unfolding heap_step_def by blast
qed

lemma heap_step_mem: "heap_step s (s\<lparr>mem := m\<rparr>)"
  unfolding heap_step_def by (rule exI [of _ "kernel_heap s"], rule exI [of _ m]) simp

lemma heap_step_heap: "heap_step s (s\<lparr>kernel_heap := h\<rparr>)"
  unfolding heap_step_def by (rule exI [of _ h], rule exI [of _ "mem s"]) simp

definition new_space :: "u8 \<Rightarrow> u32 \<Rightarrow> u32 list \<Rightarrow> 'a pstate_scheme \<Rightarrow> 'a pstate_scheme \<Rightarrow> bool" where
  "new_space flags dir ts s0 s \<longleftrightarrow>
     kheap_inv s \<and> distinct (dir # ts) \<and> kheap_vacant s0 = kheap_vacant s + 1 + length ts
     \<and> kheap_allocs s = kheap_allocs s0 \<union> (\<lambda>t. (t, 1)) ` set (dir # ts)
     \<and> (\<forall>p \<in> set (dir # ts). page_aligned p \<and> (\<forall>q k. (q, k) \<in> kheap_allocs s0 \<longrightarrow> q \<noteq> p))
     \<and> (\<forall>j < length ts. ldw (mem s) dir j = ts ! j OR ucast flags OR 2)
     \<and> (\<forall>j < length ts. \<forall>b < 1024.
          ldw (mem s) (ts ! j) b = word_of_nat (4194304 * j + 4096 * b) OR ucast flags)
     \<and> (\<forall>a. (\<forall>p \<in> set (dir # ts). \<not> in_page p a) \<longrightarrow> mem s a = mem s0 a)
     \<and> heap_step s0 s"

lemma new_space_rest: "new_space flags dir ts s0 s \<Longrightarrow> heap_step s0 s"
  by (simp add: new_space_def)

lemma kheap_view_mem [simp]:
  "kheap_inv (s\<lparr>mem := m\<rparr>) = kheap_inv s" "kheap_allocs (s\<lparr>mem := m\<rparr>) = kheap_allocs s"
  "kheap_vacant (s\<lparr>mem := m\<rparr>) = kheap_vacant s"
  by (simp_all add: kheap_view_defs)

text \<open>A page from the kernel heap.\<close>

lemma kzalloc_page:
  assumes "kheap_inv s" "0 < kheap_vacant s" "0 < sz" "sz \<le> 4096"
  obtains t s1 where "kzalloc sz s = Inr (t, s1)" "t \<noteq> 0" "kheap_inv s1"
    "kheap_allocs s1 = insert (t, 1) (kheap_allocs s)" "kheap_vacant s = Suc (kheap_vacant s1)"
    "\<And>q k. (q, k) \<in> kheap_allocs s \<Longrightarrow> q \<noteq> t" "page_aligned t"
    "\<And>a. \<not> in_page t a \<Longrightarrow> mem s1 a = mem s a" "heap_step s s1"
proof (rule kz.alloc_page_framed [OF assms(1,3,4,2)])
  fix t s1
  assume t: "kzalloc sz s = Inr (t, s1)" "t \<noteq> 0" "kheap_inv s1"
    "kheap_allocs s1 = insert (t, 1) (kheap_allocs s)" "kheap_vacant s = Suc (kheap_vacant s1)"
    and al: "4096 dvd unat t" and new: "\<And>q k. (q, k) \<in> kheap_allocs s \<Longrightarrow> q \<noteq> t"
    and fr: "\<And>a. \<not> in_block t 1 a \<Longrightarrow> mem s1 a = mem s a"
  have tal: "page_aligned t" using al by (simp add: page_aligned_def)
  have s1: "mem s1 a = mem s a" if "\<not> in_page t a" for a
    using fr that tal by (simp add: in_block_page)
  have "heap_step s s1"
    using t(1,2) by (auto simp: kzalloc_Inr kmalloc_Inr heap_step_def)
  from that [OF t new tal s1 this] show thesis .
qed

text \<open>The stores of one round: a filled table and the directory entry that points to it.\<close>

definition table_stores :: "u8 \<Rightarrow> u32 \<Rightarrow> nat \<Rightarrow> u32 \<Rightarrow> memory \<Rightarrow> memory" where
  "table_stores flags dir i t m =
     stw dir i (t OR ucast flags OR 2)
       (fold (\<lambda>b. stw t b (word_of_nat (4194304 * i + 4096 * b) OR ucast flags)) [0..<1024] m)"

lemma table_stores_ldw:
  assumes "page_aligned dir" "page_aligned t" "dir \<noteq> t" "i < 1024" "b < 1024"
  shows "ldw (table_stores flags dir i t m) t b = word_of_nat (4194304 * i + 4096 * b) OR ucast flags"
    and "ldw (table_stores flags dir i t m) dir b =
      (if b = i then t OR ucast flags OR 2 else ldw m dir b)"
    and "page_aligned p \<Longrightarrow> p \<noteq> dir \<Longrightarrow> p \<noteq> t \<Longrightarrow> ldw (table_stores flags dir i t m) p b = ldw m p b"
    and "\<not> in_page dir a \<Longrightarrow> \<not> in_page t a \<Longrightarrow> table_stores flags dir i t m a = m a"
proof -
  define f :: "nat \<Rightarrow> u32" where "f = (\<lambda>b. word_of_nat (4194304 * i + 4096 * b) OR ucast flags)"
  define m1 where "m1 = fold (\<lambda>b. stw t b (f b)) [0..<1024] m"
  have eq: "table_stores flags dir i t m = stw dir i (t OR ucast flags OR 2) m1"
    by (simp add: table_stores_def m1_def f_def)
  have m1_t: "ldw m1 t b = f b"
    unfolding m1_def using fold_stw(1) [OF assms(2) order_refl, of b f m] assms(5) by simp
  have m1_out: "m1 a = m a" if "\<not> in_page t a" for a
    unfolding m1_def by (rule fold_stw(2) [OF assms(2) order_refl that])
  have m1_p: "ldw m1 p b = ldw m p b" if "page_aligned p" "p \<noteq> t" for p
    using that in_page_unique [OF assms(2)] m1_out assms(5) by (intro ldw_cong) blast+
  show "ldw (table_stores flags dir i t m) t b = word_of_nat (4194304 * i + 4096 * b) OR ucast flags"
    unfolding eq using ldw_stw_page [OF assms(1-5)] m1_t by (simp add: f_def)
  show "ldw (table_stores flags dir i t m) dir b = (if b = i then t OR ucast flags OR 2 else ldw m dir b)"
    unfolding eq using ldw_stw [OF assms(1,1,4,5)] m1_p [OF assms(1,3)] by simp
  show "ldw (table_stores flags dir i t m) p b = ldw m p b"
    if "page_aligned p" "p \<noteq> dir" "p \<noteq> t" for p
    unfolding eq using ldw_stw_page [OF assms(1) that(1) _ assms(4,5)] m1_p [OF that(1,3)] that(2) by metis
  show "table_stores flags dir i t m a = m a" if "\<not> in_page dir a" "\<not> in_page t a"
    unfolding eq using stw_frame [OF assms(1,4) that(1)] m1_out [OF that(2)] by simp
qed

lemma new_table_run:
  assumes "kzalloc 4096 s = Inr (t, s1)" "offset = word_of_nat (4194304 * i)"
  shows "paging_new_4gb_table dir flags i (offset, s) =
    Inr (word_of_nat (4194304 * Suc i), s1\<lparr>mem := table_stores flags dir i t (mem s1)\<rparr>)"
proof -
  have f: "(offset + word_of_nat b * 4096) OR ucast flags
      = word_of_nat (4194304 * i + 4096 * b) OR ucast flags" for b
    by (simp add: assms(2) mult.commute)
  have off: "offset + 4194304 = word_of_nat (4194304 * Suc i)" by (simp add: assms(2) algebra_simps)
  show ?thesis using assms(1)
    by (simp add: paging_new_4gb_table_def paging_consts f off table_stores_def Let_def
        del: of_nat_mult of_nat_Suc of_nat_add)
qed

lemma new_table_step:
  assumes "new_space flags dir ts s0 s" "length ts < 1024" "0 < kheap_vacant s"
    "offset = word_of_nat (4194304 * length ts)"
  obtains t s' where
    "paging_new_4gb_table dir flags (length ts) (offset, s) =
       Inr (word_of_nat (4194304 * Suc (length ts)), s')"
    "new_space flags dir (ts @ [t]) s0 s'"
proof -
  have inv: "kheap_inv s" using assms(1) by (simp add: new_space_def)
  have "0 < (4096 :: u32)" by simp
  from kzalloc_page [OF inv assms(3) this order_refl]
  obtain t s1 where t: "kzalloc 4096 s = Inr (t, s1)" "t \<noteq> 0" "kheap_inv s1"
    "kheap_allocs s1 = insert (t, 1) (kheap_allocs s)" "kheap_vacant s = Suc (kheap_vacant s1)"
    "\<And>q k. (q, k) \<in> kheap_allocs s \<Longrightarrow> q \<noteq> t" and tal: "page_aligned t"
    and s1: "\<And>a. \<not> in_page t a \<Longrightarrow> mem s1 a = mem s a"
    "heap_step s s1" by blast
  have old: "page_aligned p \<and> p \<noteq> t" if "p \<in> set (dir # ts)" for p
    using assms(1) t(6) that by (auto simp: new_space_def)
  have t_new: "t \<notin> set (dir # ts)" "\<forall>q k. (q, k) \<in> kheap_allocs s0 \<longrightarrow> q \<noteq> t"
    using old assms(1) t(6) by (blast, auto simp: new_space_def)
  have dal: "page_aligned dir" and dt: "dir \<noteq> t" using old by auto
  have s1_ldw: "ldw (mem s1) p b = ldw (mem s) p b" if "p \<in> set (dir # ts)" "b < 1024" for p b
    using old [OF that(1)] in_page_unique [OF tal] s1(1) that(2) by (intro ldw_cong) blast+
  note st = table_stores_ldw [OF dal tal dt assms(2)]
  let ?s = "s1\<lparr>mem := table_stores flags dir (length ts) t (mem s1)\<rparr>"
  have st_ts: "ldw (mem ?s) (ts ! j) b = word_of_nat (4194304 * j + 4096 * b) OR ucast flags"
    if "j < length ts" "b < 1024" for j b
  proof -
    have mem: "ts ! j \<in> set ts" using that(1) by simp
    then have "ts ! j \<noteq> dir" "page_aligned (ts ! j)" "ts ! j \<noteq> t"
      using assms(1) old [of "ts ! j"] by (auto simp: new_space_def)
    with st(3) [OF that(2), of "ts ! j" flags "mem s1"] s1_ldw [of "ts ! j" b] mem that(2)
    have "ldw (mem ?s) (ts ! j) b = ldw (mem s) (ts ! j) b" by simp
    with assms(1) that show ?thesis by (simp add: new_space_def)
  qed
  have "heap_step s0 ?s"
    using assms(1) s1(2) by (blast intro: heap_step_trans heap_step_mem dest: new_space_rest)
  moreover have "\<forall>a. (\<forall>p \<in> set (dir # ts @ [t]). \<not> in_page p a) \<longrightarrow> mem ?s a = mem s0 a"
    using assms(1) s1(1) st(4) [of 0] by (auto simp: new_space_def)
  moreover have "\<forall>j < length (ts @ [t]). ldw (mem ?s) dir j = (ts @ [t]) ! j OR ucast flags OR 2"
    using assms(1,2) st(2) s1_ldw [of dir] by (auto simp: new_space_def nth_append less_Suc_eq)
  moreover have "\<forall>j < length (ts @ [t]). \<forall>b < 1024. ldw (mem ?s) ((ts @ [t]) ! j) b =
      word_of_nat (4194304 * j + 4096 * b) OR ucast flags"
    using st_ts st(1) by (auto simp: nth_append less_Suc_eq)
  ultimately have "new_space flags dir (ts @ [t]) s0 ?s"
    using assms(1) t_new tal t(3-5) unfolding new_space_def by auto
  with new_table_run [OF t(1) assms(4)] that show thesis by blast
qed


lemma new_space_start:
  assumes "kheap_inv s" "0 < kheap_vacant s"
  obtains dir s1 where "kzalloc 4096 s = Inr (dir, s1)" "new_space flags dir [] s s1"
proof -
  have "0 < (4096 :: u32)" by simp
  from kzalloc_page [OF assms this order_refl]
  obtain t s1 where t: "kzalloc 4096 s = Inr (t, s1)" "t \<noteq> 0" "kheap_inv s1"
    "kheap_allocs s1 = insert (t, 1) (kheap_allocs s)" "kheap_vacant s = Suc (kheap_vacant s1)"
    "\<And>q k. (q, k) \<in> kheap_allocs s \<Longrightarrow> q \<noteq> t" and tal: "page_aligned t"
    and s1: "\<And>a. \<not> in_page t a \<Longrightarrow> mem s1 a = mem s a"
    "heap_step s s1" by blast
  then have "new_space flags t [] s s1" by (auto simp: new_space_def)
  with t(1) that show thesis by blast
qed

lemma new_space_tables:
  assumes "new_space flags dir [] s0 s1" "1024 \<le> kheap_vacant s1"
  obtains ts s2 off where
    "for_each (paging_new_4gb_table dir flags) [0..<1024] (0, s1) = Inr (off, s2)"
    "new_space flags dir ts s0 s2" "length ts = 1024"
proof -
  let ?P = "\<lambda>i (offset, s). offset = word_of_nat (4194304 * i) \<and>
      (\<exists>ts. length ts = i \<and> new_space flags dir ts s0 s)"
  have "\<exists>st. for_each (paging_new_4gb_table dir flags) [0..<1024] (0, s1) = Inr st \<and> ?P 1024 st"
  proof (rule for_each_upt [where P = ?P])
    show "?P 0 (0, s1)" using assms(1) by simp
  next
    fix i and st :: "u32 \<times> 'a pstate_scheme"
    assume i: "i < 1024" and P: "?P i st"
    obtain offset s where st: "st = (offset, s)" by (cases st)
    from P st obtain ts where ts: "length ts = i" "new_space flags dir ts s0 s"
      and off: "offset = word_of_nat (4194304 * length ts)" by auto
    have "0 < kheap_vacant s" using ts assms i by (simp add: new_space_def)
    from new_table_step [OF ts(2) _ this off] i ts(1)
    obtain t s' where "paging_new_4gb_table dir flags i (offset, s) = Inr (word_of_nat (4194304 * Suc i), s')"
      "new_space flags dir (ts @ [t]) s0 s'" by blast
    with st ts(1) show "\<exists>st'. paging_new_4gb_table dir flags i st = Inr st' \<and> ?P (Suc i) st'"
      by (intro exI [of _ "(word_of_nat (4194304 * Suc i), s')"]) (auto intro!: exI [of _ "ts @ [t]"])
  qed
  then show thesis using that by auto
qed

text \<open>The space as the mapping operations see it.\<close>

lemma new_space_view:
  assumes "new_space flags dir ts s0 s" "length ts = 1024" "page_aligned v"
  shows "paging_get (mem s) dir v = v OR ucast flags" "space_tables (mem s) dir = ts"
proof -
  have tbl: "table_of (mem s) dir j = ts ! j" if "j < 1024" for j
    using assms(1,2) that entry_mask [of "ts ! j" flags] by (auto simp: new_space_def table_of_def)
  show "space_tables (mem s) dir = ts"
    unfolding space_tables_def by (rule nth_equalityI) (simp_all add: assms(2) tbl)
  have "paging_get (mem s) dir v = ldw (mem s) (ts ! dir_index v) (table_index v)"
    using tbl [of "dir_index v"] by (simp add: paging_get_eq [OF assms(3)] table_of_def)
  also have "\<dots> = word_of_nat (4194304 * dir_index v + 4096 * table_index v) OR ucast flags"
    using assms(1,2) by (simp add: new_space_def)
  also have "\<dots> = v OR ucast flags"
    unfolding page_index_split [OF assms(3), symmetric] by simp
  finally show "paging_get (mem s) dir v = v OR ucast flags" .
qed

lemma store32_frame:
  assumes "page_aligned p" "\<not> in_page p a"
  shows "store32 m p w a = m a"
  using stw_frame [OF assms(1) _ assms(2), of 0 w m] by (simp add: stw_def)

text \<open>
  \<^verbatim>\<open>paging_new_4gb\<close> with at least 1026 free blocks: an identity mapping with the given flags in
  1026 new blocks, and nothing else changed.
\<close>

lemma paging_new_4gb_full:
  assumes "kheap_inv s" "1026 \<le> kheap_vacant s"
  obtains chunk s' where "paging_new_4gb flags s = Inr (chunk, s')" "kheap_inv s'" "space_ok chunk s'"
    "\<And>v. page_aligned v \<Longrightarrow> space_view (mem s') chunk v = v OR ucast flags"
    "kheap_allocs s' = kheap_allocs s \<union> (\<lambda>p. (p, 1)) ` set (space_blocks (mem s') chunk)"
    "\<And>p q k. p \<in> set (space_blocks (mem s') chunk) \<Longrightarrow> (q, k) \<in> kheap_allocs s \<Longrightarrow> q \<noteq> p"
    "kheap_vacant s = kheap_vacant s' + 1026"
    "\<And>a. \<forall>p \<in> set (space_blocks (mem s') chunk). \<not> in_page p a \<Longrightarrow> mem s' a = mem s a"
    "heap_step s s'"
    "\<And>i. i < 1024 \<Longrightarrow> ldw (mem s') (load32 (mem s') chunk) i =
       table_of (mem s') (load32 (mem s') chunk) i OR ucast flags OR 2"
    "chunk \<noteq> 0"
proof -
  have "0 < kheap_vacant s" using assms(2) by simp
  from new_space_start [OF assms(1) this] obtain dir s1 where
    s1: "kzalloc 4096 s = Inr (dir, s1)" "new_space flags dir [] s s1" by blast
  then have "1024 \<le> kheap_vacant s1" using assms(2) by (simp add: new_space_def)
  from new_space_tables [OF s1(2) this] obtain ts s2 off where
    s2: "for_each (paging_new_4gb_table dir flags) [0..<1024] (0, s1) = Inr (off, s2)"
    and ns: "new_space flags dir ts s s2" and len: "length ts = 1024" by blast
  have inv: "kheap_inv s2" "0 < kheap_vacant s2" using ns len assms(2) by (simp_all add: new_space_def)
  have "0 < (4 :: u32)" "4 \<le> (4096 :: u32)" by simp_all
  from kzalloc_page [OF inv this] obtain chunk s3 where
    s3: "kzalloc 4 s2 = Inr (chunk, s3)" "chunk \<noteq> 0" "kheap_inv s3"
    "kheap_allocs s3 = insert (chunk, 1) (kheap_allocs s2)" "kheap_vacant s2 = Suc (kheap_vacant s3)"
    "\<And>q k. (q, k) \<in> kheap_allocs s2 \<Longrightarrow> q \<noteq> chunk" "page_aligned chunk"
    "\<And>a. \<not> in_page chunk a \<Longrightarrow> mem s3 a = mem s2 a" "heap_step s2 s3" by blast
  define s' where "s' = s3\<lparr>mem := store32 (mem s3) chunk dir\<rparr>"
  have run: "paging_new_4gb flags s = Inr (chunk, s')"
    using s1(1) s2 s3(1) by (simp add: paging_new_4gb_def paging_consts s'_def)
  have m: "mem s' a = mem s2 a" if "\<not> in_page chunk a" for a
    using s3(7,8) store32_frame that by (simp add: s'_def)
  have fresh: "chunk \<notin> set (dir # ts)" using ns s3(6) by (auto simp: new_space_def)
  have al: "page_aligned p" if "p \<in> set (dir # ts)" for p using ns that by (auto simp: new_space_def)
  have off: "mem s' a = mem s2 a" if "p \<in> set (dir # ts)" "in_page p a" for p a
    using m in_page_unique [OF s3(7) al [OF that(1)] _ that(2)] fresh that(1) by blast
  have ch: "load32 (mem s') chunk = dir" by (simp add: s'_def)
  have dal: "page_aligned dir" using al by simp
  have tabs: "space_tables (mem s') dir = ts"
    using space_tables_cong [OF dal, of "mem s'" "mem s2"] off [of dir] new_space_view(2) [OF ns len, of 0]
    by (simp add: page_aligned_def)
  have blocks: "space_blocks (mem s') chunk = chunk # dir # ts" by (simp add: space_blocks_def ch tabs)
  have view: "space_view (mem s') chunk v = v OR ucast flags" if "page_aligned v" for v
  proof -
    have mem_cong: "ldw (mem s') p i = ldw (mem s2) p i" if "p \<in> set (dir # ts)" "i < 1024" for p i
      by (rule ldw_cong [OF al [OF that(1)] that(2) off [OF that(1)]])
    have "table_of (mem s') dir (dir_index v) \<in> set ts"
      using tabs set_space_tables [of "mem s'" dir] by auto
    then have "space_view (mem s') chunk v = paging_get (mem s2) dir v"
      using mem_cong [of dir "dir_index v"] mem_cong [of "table_of (mem s') dir (dir_index v)" "table_index v"]
      by (simp add: space_view_def ch paging_get_eq [OF that] table_of_def)
    then show ?thesis using new_space_view(1) [OF ns len that] by simp
  qed
  show thesis
  proof (rule that [OF run])
    show "kheap_inv s'" using s3(3) by (simp add: s'_def)
    show "kheap_allocs s' = kheap_allocs s \<union> (\<lambda>p. (p, 1)) ` set (space_blocks (mem s') chunk)"
      using s3(4) ns unfolding blocks by (auto simp: s'_def new_space_def)
    then show "space_ok chunk s'"
      using ns fresh unfolding space_ok_def blocks by (auto simp: new_space_def)
    show "q \<noteq> p" if "p \<in> set (space_blocks (mem s') chunk)" "(q, k) \<in> kheap_allocs s" for p q k
    proof -
      have "(q, k) \<in> kheap_allocs s2" using ns that(2) by (auto simp: new_space_def)
      moreover have "q \<noteq> p" if "p \<in> set (dir # ts)"
        using ns that \<open>(q, k) \<in> kheap_allocs s\<close> unfolding new_space_def by blast
      ultimately show ?thesis using that(1) s3(6) unfolding blocks by auto
    qed
    show "kheap_vacant s = kheap_vacant s' + 1026"
      using ns s3(5) len by (simp add: s'_def new_space_def)
    show "mem s' a = mem s a" if "\<forall>p \<in> set (space_blocks (mem s') chunk). \<not> in_page p a" for a
      using m that ns unfolding blocks by (auto simp: new_space_def)
    show "heap_step s s'"
      unfolding s'_def using new_space_rest [OF ns] s3(9) by (blast intro: heap_step_trans heap_step_mem)
    show "ldw (mem s') (load32 (mem s') chunk) i =
       table_of (mem s') (load32 (mem s') chunk) i OR ucast flags OR 2" if "i < 1024" for i
    proof -
      have "ldw (mem s') dir i = ldw (mem s2) dir i"
        by (rule ldw_cong [OF dal that]) (use off [of dir] in simp)
      also have "\<dots> = ts ! i OR ucast flags OR 2" using ns len that by (simp add: new_space_def)
      also have "ts ! i = table_of (mem s') dir i"
        using arg_cong [OF tabs, of "\<lambda>ts. ts ! i"] that by (simp add: space_tables_def)
      finally show ?thesis by (simp add: ch)
    qed
  qed (use view s3(2) in blast)+
qed

lemma paging_new_4gb_ok:
  assumes "kheap_inv s" "1026 \<le> kheap_vacant s"
  obtains chunk s' where "paging_new_4gb flags s = Inr (chunk, s')" "kheap_inv s'" "space_ok chunk s'"
    "\<And>v. page_aligned v \<Longrightarrow> space_view (mem s') chunk v = v OR ucast flags"
    "kheap_allocs s' = kheap_allocs s \<union> (\<lambda>p. (p, 1)) ` set (space_blocks (mem s') chunk)"
    "\<And>p q k. p \<in> set (space_blocks (mem s') chunk) \<Longrightarrow> (q, k) \<in> kheap_allocs s \<Longrightarrow> q \<noteq> p"
    "kheap_vacant s = kheap_vacant s' + 1026"
    "\<And>a. \<forall>p \<in> set (space_blocks (mem s') chunk). \<not> in_page p a \<Longrightarrow> mem s' a = mem s a"
    "heap_step s s'"
  by (rule paging_new_4gb_full [OF assms, of flags], rule that)

section \<open>Releasing an address space\<close>

lemma kfree_alloc:
  assumes "kheap_inv s" "(p, n) \<in> kheap_allocs s"
  obtains h where "kfree p s = Inr (s\<lparr>kernel_heap := h\<rparr>)" "kheap_inv (s\<lparr>kernel_heap := h\<rparr>)"
    "kheap_allocs (s\<lparr>kernel_heap := h\<rparr>) = kheap_allocs s - {(p, n)}"
    "kheap_vacant (s\<lparr>kernel_heap := h\<rparr>) = kheap_vacant s + n"
proof -
  from km.release_law [OF assms] obtain s' where s': "kfree p s = Inr s'" "kheap_inv s'"
    "kheap_allocs s' = kheap_allocs s - {(p, n)}" "kheap_vacant s' = kheap_vacant s + n" by blast
  from s'(1) obtain h where "s' = s\<lparr>kernel_heap := h\<rparr>" by (auto simp: kfree_def bnd_Inr_iff)
  with s' that show thesis by blast
qed

text \<open>Freeing a list of live pages, one by one.\<close>

lemma kfree_pages:
  assumes "kheap_inv s" "distinct ps" "\<forall>p \<in> set ps. (p, 1) \<in> kheap_allocs s"
  shows "\<exists>h. for_each kfree ps s = Inr (s\<lparr>kernel_heap := h\<rparr>) \<and> kheap_inv (s\<lparr>kernel_heap := h\<rparr>)
    \<and> kheap_allocs (s\<lparr>kernel_heap := h\<rparr>) = kheap_allocs s - (\<lambda>p. (p, 1)) ` set ps
    \<and> kheap_vacant (s\<lparr>kernel_heap := h\<rparr>) = kheap_vacant s + length ps"
  using assms
proof (induction ps arbitrary: s)
  case Nil
  then show ?case by (intro exI [of _ "kernel_heap s"]) simp
next
  case (Cons p ps)
  then have "(p, 1) \<in> kheap_allocs s" by simp
  from kfree_alloc [OF Cons.prems(1) this] obtain h where
    h: "kfree p s = Inr (s\<lparr>kernel_heap := h\<rparr>)" "kheap_inv (s\<lparr>kernel_heap := h\<rparr>)"
    "kheap_allocs (s\<lparr>kernel_heap := h\<rparr>) = kheap_allocs s - {(p, 1)}"
    "kheap_vacant (s\<lparr>kernel_heap := h\<rparr>) = kheap_vacant s + 1" by blast
  have "distinct ps" "\<forall>q \<in> set ps. (q, 1) \<in> kheap_allocs (s\<lparr>kernel_heap := h\<rparr>)"
    using Cons.prems(2,3) h(3) by auto
  from Cons.IH [OF h(2) this] obtain h' where h':
    "for_each kfree ps (s\<lparr>kernel_heap := h\<rparr>) = Inr (s\<lparr>kernel_heap := h'\<rparr>)"
    "kheap_inv (s\<lparr>kernel_heap := h'\<rparr>)"
    "kheap_allocs (s\<lparr>kernel_heap := h'\<rparr>) = kheap_allocs s - {(p, 1)} - (\<lambda>p. (p, 1)) ` set ps"
    "kheap_vacant (s\<lparr>kernel_heap := h'\<rparr>) = kheap_vacant s + 1 + length ps" using h(3,4) by auto
  show ?case
    using h(1) h' by (intro exI [of _ h']) auto
qed

text \<open>The blocks are freed in the order tables, directory, chunk; memory is not written.\<close>

lemma kfree_loop_mem:
  "for_each (\<lambda>i s. let entry = ldw (mem s) (load32 (mem s) chunk) i in kfree (entry AND 0xfffff000) s) is s =
   for_each (\<lambda>i. kfree (table_of (mem s0) (load32 (mem s0) chunk) i)) is s"
  if "mem s = mem s0"
  using that
proof (induction "is" arbitrary: s)
  case (Cons i "is")
  have "mem s' = mem s0" if "kfree p s = Inr s'" for p s'
    using that Cons.prems by (auto simp: kfree_def bnd_Inr_iff)
  then show ?case using Cons by (auto simp: table_of_def intro!: bnd_cong)
qed simp

lemma kfree_pages_mem: "for_each kfree ps s = Inr s' \<Longrightarrow> mem s' = mem s"
proof (induction ps arbitrary: s)
  case (Cons p ps)
  then obtain s1 where s1: "kfree p s = Inr s1" "for_each kfree ps s1 = Inr s'"
    by (auto simp: bnd_Inr_iff)
  then have "mem s1 = mem s" by (auto simp: kfree_def bnd_Inr_iff)
  with Cons.IH [OF s1(2)] show ?case by simp
qed simp

lemma paging_free_4gb_eq:
  "paging_free_4gb chunk s =
     for_each kfree (space_tables (mem s) (load32 (mem s) chunk) @ [load32 (mem s) chunk, chunk]) s"
proof -
  have "for_each (\<lambda>i s. let entry = ldw (mem s) (load32 (mem s) chunk) i in kfree (entry AND 0xfffff000) s)
      [0..<1024] s = for_each kfree (space_tables (mem s) (load32 (mem s) chunk)) s"
    unfolding kfree_loop_mem [OF refl] by (simp add: space_tables_def for_each_map)
  moreover have "bnd (kfree (load32 (mem s1) chunk) s1) (kfree chunk) = for_each kfree [load32 (mem s) chunk, chunk] s1"
    if "for_each kfree (space_tables (mem s) (load32 (mem s) chunk)) s = Inr s1" for s1
  proof -
    have one: "for_each kfree [chunk] = (kfree chunk :: 'a pstate_scheme \<Rightarrow> _)"
      by (rule ext) (simp add: for_each_Nil)
    show ?thesis using kfree_pages_mem [OF that] by (simp add: one)
  qed
  ultimately show ?thesis
    unfolding paging_free_4gb_def for_each_append by (simp cong: bnd_cong)
qed

lemma paging_free_4gb_ok:
  assumes "kheap_inv s" "space_ok chunk s"
  obtains h where "paging_free_4gb chunk s = Inr (s\<lparr>kernel_heap := h\<rparr>)" "kheap_inv (s\<lparr>kernel_heap := h\<rparr>)"
    "kheap_allocs (s\<lparr>kernel_heap := h\<rparr>) =
       kheap_allocs s - (\<lambda>p. (p, 1)) ` set (space_blocks (mem s) chunk)"
    "kheap_vacant (s\<lparr>kernel_heap := h\<rparr>) = kheap_vacant s + 1026"
proof -
  let ?ps = "space_tables (mem s) (load32 (mem s) chunk) @ [load32 (mem s) chunk, chunk]"
  have "set ?ps = set (space_blocks (mem s) chunk)" "distinct ?ps"
    using assms(2) by (auto simp: space_ok_def space_blocks_def)
  moreover have "length ?ps = 1026" by (simp add: space_tables_def)
  ultimately show thesis
    using kfree_pages [OF assms(1), of ?ps] assms(2) that unfolding paging_free_4gb_eq space_ok_def by metis
qed

section \<open>Several address spaces\<close>

text \<open>A new address space shares no block with an older one and leaves its translations.\<close>

lemma paging_new_4gb_other:
  assumes "kheap_inv s" "1026 \<le> kheap_vacant s" "space_ok c2 s"
    and "paging_new_4gb flags s = Inr (chunk, s')"
  shows "space_ok c2 s'" "set (space_blocks (mem s') chunk) \<inter> set (space_blocks (mem s') c2) = {}"
    "page_aligned w \<Longrightarrow> space_view (mem s') c2 w = space_view (mem s) c2 w"
proof -
  from paging_new_4gb_ok [OF assms(1,2), of flags] obtain chunk1 s1 where
    t: "paging_new_4gb flags s = Inr (chunk1, s1)" "kheap_inv s1" "space_ok chunk1 s1"
    "\<And>v. page_aligned v \<Longrightarrow> space_view (mem s1) chunk1 v = v OR ucast flags"
    "kheap_allocs s1 = kheap_allocs s \<union> (\<lambda>p. (p, 1)) ` set (space_blocks (mem s1) chunk1)"
    "\<And>p q k. p \<in> set (space_blocks (mem s1) chunk1) \<Longrightarrow> (q, k) \<in> kheap_allocs s \<Longrightarrow> q \<noteq> p"
    "kheap_vacant s = kheap_vacant s1 + 1026"
    "\<And>a. \<forall>p \<in> set (space_blocks (mem s1) chunk1). \<not> in_page p a \<Longrightarrow> mem s1 a = mem s a"
    "heap_step s s1" by blast
  then have eq: "chunk1 = chunk" "s1 = s'" using assms(4) by simp_all
  note t = t [unfolded eq]
  have old: "(p, 1) \<in> kheap_allocs s" if "p \<in> set (space_blocks (mem s) c2)" for p
    using assms(3) that by (simp add: space_ok_def)
  have same: "mem s a = mem s' a" if p: "p \<in> set (space_blocks (mem s) c2)" and a: "in_page p a" for p a
  proof -
    have "\<not> in_page q a" if q: "q \<in> set (space_blocks (mem s') chunk)" for q
      using in_page_unique [OF space_ok_pages(1) [OF t(2,3) q] space_ok_pages(1) [OF assms(1,3) p] _ a]
        t(6) [OF q old [OF p]] by blast
    then show ?thesis using t(8) [of a] by simp
  qed
  have al: "page_aligned c2" "page_aligned (load32 (mem s) c2)"
    using space_ok_pages(1) [OF assms(1,3)] by (simp_all add: space_blocks_def)
  have b: "space_blocks (mem s) c2 = space_blocks (mem s') c2"
    by (rule space_blocks_cong [OF al]) (use same in \<open>auto simp: space_blocks_def\<close>)
  show "space_ok c2 s'" using assms(3) unfolding space_ok_def b t(5) by blast
  show "set (space_blocks (mem s') chunk) \<inter> set (space_blocks (mem s') c2) = {}"
    using t(6) old unfolding b by blast
  show "space_view (mem s') c2 w = space_view (mem s) c2 w" if "page_aligned w"
    using space_view_cong [OF space_ok_pages(1) [OF assms(1,3)] same that] by simp
qed

lemma paging_new_4gb_area:
  assumes "paging_new_4gb flags s = Inr (chunk, s')"
  shows "heap_area s' = heap_area s"
proof -
  obtain d s1 st s2 s3 where h: "kzalloc (4 * word_of_nat PAGING_TOTAL_ENTRIES_PER_TABLE) s = Inr (d, s1)"
    "for_each (paging_new_4gb_table d flags) [0..<PAGING_TOTAL_ENTRIES_PER_TABLE] (0, s1) = Inr (st, s2)"
    "kzalloc 4 s2 = Inr (chunk, s3)" "s' = s3\<lparr>mem := store32 (mem s3) chunk d\<rparr>"
    using assms unfolding paging_new_4gb_def by (auto simp: bnd_Inr_iff)
  have step: "heap_area (snd y) = heap_area (snd x)" if "paging_new_4gb_table d flags i x = Inr y" for i x y
    using that by (auto simp: paging_new_4gb_table_def Let_def bnd_Inr_iff dest: kzalloc_area split: prod.splits)
  have "heap_area s2 = heap_area s1"
    using for_each_keeps [where g = "\<lambda>x. heap_area (snd x)", OF step h(2)] by simp
  then show ?thesis using kzalloc_area [OF h(1)] kzalloc_area [OF h(3)] h(4) by simp
qed

section \<open>Properties: paging.c\<close>

text \<open>A kernel state right after boot, for the witnesses.\<close>

definition boot_state :: pstate where
  "boot_state = \<lparr>mem = \<lambda>_. 0, video_mem = 0xB8000, terminal_row = 0, terminal_col = 0,
     kernel_heap = fresh_heap, cr3 = 0, paging_enabled = False, current_directory = 0\<rparr>"

lemma boot_state_inv:
  "kheap_inv boot_state" "kheap_vacant boot_state = 25600" "kheap_allocs boot_state = {}"
  by (simp_all add: kheap_view_defs boot_state_def fresh_heap_inv)

text \<open>with 1026 free heap blocks, paging_new_4gb succeeds and builds a well-formed address space of
  1026 new blocks in which every page is mapped to itself with the given flags; memory outside
  these blocks is unchanged.\<close>

lemma paging_new_4gb_identity:
  assumes "kheap_inv s" "1026 \<le> kheap_vacant s"
  shows "\<exists>chunk s'. paging_new_4gb flags s = Inr (chunk, s') \<and> kheap_inv s' \<and> space_ok chunk s'
    \<and> (\<forall>v. page_aligned v \<longrightarrow> space_view (mem s') chunk v = v OR ucast flags)
    \<and> kheap_allocs s' = kheap_allocs s \<union> (\<lambda>p. (p, 1)) ` set (space_blocks (mem s') chunk)
    \<and> kheap_vacant s = kheap_vacant s' + 1026
    \<and> (\<forall>a. (\<forall>p \<in> set (space_blocks (mem s') chunk). \<not> in_page p a) \<longrightarrow> mem s' a = mem s a)"
proof -
  from paging_new_4gb_ok [OF assms, of flags] obtain chunk s' where
    "paging_new_4gb flags s = Inr (chunk, s')" "kheap_inv s'" "space_ok chunk s'"
    "\<And>v. page_aligned v \<Longrightarrow> space_view (mem s') chunk v = v OR ucast flags"
    "kheap_allocs s' = kheap_allocs s \<union> (\<lambda>p. (p, 1)) ` set (space_blocks (mem s') chunk)"
    "\<And>p q k. p \<in> set (space_blocks (mem s') chunk) \<Longrightarrow> (q, k) \<in> kheap_allocs s \<Longrightarrow> q \<noteq> p"
    "kheap_vacant s = kheap_vacant s' + 1026"
    "\<And>a. \<forall>p \<in> set (space_blocks (mem s') chunk). \<not> in_page p a \<Longrightarrow> mem s' a = mem s a"
    "heap_step s s'" by blast
  then show ?thesis by blast
qed

lemma boot_state_room: "1026 \<le> kheap_vacant boot_state"
  by (simp add: boot_state_inv)

lemma paging_new_4gb_short:
  assumes "kheap_inv s" "1026 \<le> kheap_vacant s"
  shows "\<exists>chunk s'. paging_new_4gb flags s = Inr (chunk, s') \<and> kheap_inv s' \<and> space_ok chunk s'
    \<and> kheap_vacant s = kheap_vacant s' + 1026
    \<and> (\<forall>v. page_aligned v \<longrightarrow> space_view (mem s') chunk v = v OR ucast flags)"
proof -
  from paging_new_4gb_ok [OF assms, of flags] obtain chunk s' where
    "paging_new_4gb flags s = Inr (chunk, s')" "kheap_inv s'" "space_ok chunk s'"
    "\<And>v. page_aligned v \<Longrightarrow> space_view (mem s') chunk v = v OR ucast flags"
    "kheap_allocs s' = kheap_allocs s \<union> (\<lambda>p. (p, 1)) ` set (space_blocks (mem s') chunk)"
    "\<And>p q k. p \<in> set (space_blocks (mem s') chunk) \<Longrightarrow> (q, k) \<in> kheap_allocs s \<Longrightarrow> q \<noteq> p"
    "kheap_vacant s = kheap_vacant s' + 1026"
    "\<And>a. \<forall>p \<in> set (space_blocks (mem s') chunk). \<not> in_page p a \<Longrightarrow> mem s' a = mem s a"
    "heap_step s s'" by blast
  then show ?thesis by blast
qed





text \<open>C7: address spaces are isolated: mapping a range in one space leaves every translation of a space
  that shares no block with it, and that space stays well formed.\<close>

theorem paging_spaces_isolated:
  assumes "kheap_inv s" "space_ok c1 s" "space_ok c2 s"
    and "set (space_blocks (mem s) c1) \<inter> set (space_blocks (mem s) c2) = {}"
    and "paging_map_to c1 v p pe flags s = (r, s')"
  shows "space_ok c2 s' \<and> (\<forall>w. page_aligned w \<longrightarrow> space_view (mem s') c2 w = space_view (mem s) c2 w)"
proof -
  have "space_frame s s' c1"
  proof (cases "page_aligned v \<and> page_aligned p \<and> page_aligned pe \<and> p \<le> pe")
    case True
    then show ?thesis using paging_map_to_ok [OF assms(1,2), of v p pe flags] assms(5) by auto
  next
    case False
    then have "paging_map_to c1 v p pe flags s = (- EINVARG, s)" unfolding paging_map_to_eq by argo
    with assms(5) show ?thesis by simp
  qed
  from space_frame_isolated [OF assms(1-3) this assms(4)] show ?thesis by blast
qed

theorem paging_spaces_isolated_witness:
  "\<exists>c1 c2 (s :: pstate) s'. c1 \<noteq> c2 \<and> paging_map_to c1 0x400000 0x1000000 0x1001000 7 s = (0, s')
     \<and> space_view (mem s') c2 0x400000 = 0x400005"
proof -
  have v: "page_aligned 0x400000" "page_aligned 0x1000000" "page_aligned 0x1001000"
    and le: "(0x1000000 :: u32) \<le> 0x1001000" by (simp_all add: page_aligned_def)
  from paging_new_4gb_short [OF boot_state_inv(1) boot_state_room, of 5] obtain c2 and s :: pstate where
    s: "kheap_inv s" "space_ok c2 s" "kheap_vacant boot_state = kheap_vacant s + 1026"
    "space_view (mem s) c2 0x400000 = 0x400005" using v(1) by fastforce
  from s(3) have room: "1026 \<le> kheap_vacant s" by (simp add: boot_state_inv)
  from paging_new_4gb_short [OF s(1) room, of 5] obtain c1 t where
    t: "paging_new_4gb 5 s = Inr (c1, t)" "kheap_inv t" "space_ok c1 t" by blast
  note o = paging_new_4gb_other [OF s(1) room s(2) t(1)]
  from paging_map_to_ok [OF t(2,3) v le, of 7] obtain t' where
    m: "paging_map_to c1 0x400000 0x1000000 0x1001000 7 t = (0, t')" by blast
  have "c1 \<noteq> c2" using o(2) by (auto simp: space_blocks_def)
  moreover have "space_view (mem t') c2 0x400000 = 0x400005"
    using paging_spaces_isolated [OF t(2,3) o(1,2) m] v(1) o(3) [OF v(1)] s(4) by simp
  ultimately show ?thesis using m by blast
qed

end
