(* ===== verification/Mmu.thy ===== *)
theory Mmu
  imports Paging
begin

text \<open>
  The processor's use of the tables that paging.c builds: the two-level walk of the i386 manual,
  from the page directory register to a physical address. Code that runs while a task's
  directory is loaded and follows a user pointer is modelled with it. No page-fault handler is
  installed by the kernel, so an access to a page that is not present is \<open>Inl Undefined\<close>.
\<close>

section \<open>The table walk\<close>

definition mmu_walk :: "memory \<Rightarrow> u32 \<Rightarrow> u32 \<Rightarrow> u32 option" where
  "mmu_walk m dir v =
     (let pde = ldw m (dir AND 0xfffff000) (unat v div 4194304)
      in if pde AND 1 = 0 then None
         else let pte = ldw m (pde AND 0xfffff000) (unat v mod 4194304 div 4096)
              in if pte AND 1 = 0 then None else Some ((pte AND 0xfffff000) + (v AND 0xfff)))"

definition virt_to_phys :: "'a pstate_scheme \<Rightarrow> u32 \<Rightarrow> u32 outcome" where
  "virt_to_phys s v =
     (if paging_enabled s
      then (case mmu_walk (mem s) (cr3 s) v of None \<Rightarrow> Inl Undefined | Some a \<Rightarrow> Inr a)
      else Inr v)"

text \<open>Byte and word accesses through the tables.\<close>

definition vload8 :: "'a pstate_scheme \<Rightarrow> u32 \<Rightarrow> u8 outcome" where
  "vload8 s v = bnd (virt_to_phys s v) (\<lambda>a. Inr (mem s a))"

definition vstore8 :: "u32 \<Rightarrow> u8 \<Rightarrow> 'a pstate_scheme \<Rightarrow> 'a pstate_scheme outcome" where
  "vstore8 v c s = bnd (virt_to_phys s v) (\<lambda>a. Inr (s\<lparr>mem := (mem s)(a := c)\<rparr>))"

definition vload32 :: "'a pstate_scheme \<Rightarrow> u32 \<Rightarrow> u32 outcome" where
  "vload32 s v =
     bnd (vload8 s v) (\<lambda>b0. bnd (vload8 s (v + 1)) (\<lambda>b1.
     bnd (vload8 s (v + 2)) (\<lambda>b2. bnd (vload8 s (v + 3)) (\<lambda>b3.
       Inr (ucast b0 OR push_bit 8 (ucast b1) OR push_bit 16 (ucast b2) OR push_bit 24 (ucast b3))))))"

section \<open>The walk and the view of an address space\<close>

definition page_base :: "u32 \<Rightarrow> u32" where
  "page_base v = v AND 0xfffff000"

lemma mask_low: "0xfff = (mask 12 :: u32)" and mask_high: "0xfffff000 = (NOT (mask 12) :: u32)"
  by (simp_all add: mask_eq_exp_minus_1)

lemma page_base_aligned [simp]: "page_aligned (page_base v)"
  by (simp add: page_base_def)

lemma unat_low: "unat (v AND 0xfff) = unat v mod 4096"
  for v :: u32
proof -
  have "v AND 0xfff = take_bit 12 v" by (simp add: mask_low take_bit_eq_mask)
  then show ?thesis by (simp add: take_bit_eq_mod unat_mod)
qed

lemma page_base_offset: "page_base v + (v AND 0xfff) = v"
proof -
  have "page_base v + (v AND 0xfff) = page_base v OR (v AND 0xfff)"
    by (rule disjunctive_add_eq_or)
      (rule bit_word_eqI, auto simp: page_base_def mask_low mask_high bit_simps simp del: mask_numeral)
  also have "\<dots> = v"
    by (rule bit_word_eqI) (auto simp: page_base_def mask_low mask_high bit_simps simp del: mask_numeral)
  finally show ?thesis .
qed

lemma unat_page_base: "unat v = unat (page_base v) + unat v mod 4096"
proof -
  have "unat (page_base v) + unat (v AND 0xfff) < 2 ^ 32"
    using page_aligned_bound [OF page_base_aligned, of v] unat_low [of v] by simp
  then have "unat (page_base v + (v AND 0xfff)) = unat (page_base v) + unat (v AND 0xfff)"
    by (simp add: unat_plus_if')
  then show ?thesis by (simp add: page_base_offset unat_low)
qed

lemma index_via_page:
  fixes a :: nat
  shows "a div 4194304 = a div 4096 div 1024" "a mod 4194304 div 4096 = a div 4096 mod 1024"
proof -
  show "a div 4194304 = a div 4096 div 1024" by (simp flip: div_mult2_eq)
  have "a mod (4096 * 1024) = 4096 * (a div 4096 mod 1024) + a mod 4096" by (rule mod_mult2_eq)
  then show "a mod 4194304 div 4096 = a div 4096 mod 1024" by simp
qed

lemma page_base_div: "unat (page_base v) div 4096 = unat v div 4096"
proof -
  define x where "x = unat (page_base v)"
  define r where "r = unat v mod 4096"
  have "unat v = x + r" unfolding x_def r_def by (rule unat_page_base)
  moreover have "4096 dvd x" using page_base_aligned [of v] by (simp only: page_aligned_def x_def)
  moreover have "r < 4096" by (simp add: r_def)
  ultimately have "unat v div 4096 = x div 4096" by auto
  then show ?thesis by (simp add: x_def)
qed

lemma page_base_indexes:
  "dir_index (page_base v) = unat v div 4194304" "table_index (page_base v) = unat v mod 4194304 div 4096"
  by (simp_all add: dir_index_def table_index_def index_via_page page_base_div)

definition space_present :: "memory \<Rightarrow> u32 \<Rightarrow> bool" where
  "space_present m chunk \<longleftrightarrow> (\<forall>i<1024. ldw m (load32 m chunk) i AND 1 \<noteq> 0)"

lemma aligned_mask: "page_aligned p \<Longrightarrow> p AND 0xfffff000 = p"
proof -
  assume "page_aligned p"
  then have "unat p mod 4096 = 0" by (simp add: page_aligned_def)
  then have "unat (page_base p) = unat p" using unat_page_base [of p] by simp
  then have "page_base p = p" by (simp only: word_unat_eq_iff)
  then show ?thesis by (simp add: page_base_def)
qed

lemma mmu_walk_view:
  assumes "page_aligned (load32 m chunk)" "space_present m chunk"
  shows "mmu_walk m (load32 m chunk) v =
    (if space_view m chunk (page_base v) AND 1 = 0 then None
     else Some ((space_view m chunk (page_base v) AND 0xfffff000) + (v AND 0xfff)))"
proof -
  have "unat v div 4194304 < 1024" using dir_index_less [of v] by (simp add: dir_index_def)
  then have "ldw m (load32 m chunk) (unat v div 4194304) AND 1 \<noteq> 0"
    using assms(2) by (simp add: space_present_def)
  then show ?thesis
    unfolding mmu_walk_def aligned_mask [OF assms(1)] space_view_def
    by (simp add: paging_get_eq page_base_indexes Let_def)
qed

text \<open>An identity mapping of present pages translates every address to itself.\<close>

lemma mmu_walk_identity:
  assumes "page_aligned (load32 m chunk)" "space_present m chunk"
    and "space_view m chunk (page_base v) = page_base v OR ucast (flags :: u8)" "bit flags 0"
    "take_bit 12 (ucast flags :: u32) = ucast flags"
  shows "mmu_walk m (load32 m chunk) v = Some v"
proof -
  have "bit (page_base v OR ucast flags) 0" using assms(4) by (simp add: bit_simps)
  then have "(page_base v OR ucast flags) AND 1 \<noteq> 0" by (simp add: and_one_eq odd_iff_mod_2_eq_one [symmetric] bit_0)
  moreover have "(page_base v OR ucast flags) AND 0xfffff000 = page_base v"
  proof (rule bit_word_eqI)
    fix n
    have "bit (ucast flags :: u32) n \<Longrightarrow> n < 12"
      using assms(5) by (metis bit_take_bit_iff)
    then show "bit ((page_base v OR ucast flags) AND 0xfffff000) n = bit (page_base v) n"
      by (auto simp: page_base_def mask_high bit_simps simp del: mask_numeral)
  qed
  ultimately show ?thesis
    by (simp add: mmu_walk_view [OF assms(1,2)] assms(3) page_base_offset)
qed

end
