(* ===== verification/Task.thy ===== *)
theory Task
  imports Mmu CString
begin

text \<open>
  \<^verbatim>\<open>src/task/task.c\<close>, with \<^verbatim>\<open>kernel_page\<close> of \<^verbatim>\<open>src/kernel.c\<close>, which it uses. \<^verbatim>\<open>struct task\<close>
  objects live in kernel heap blocks; their sixteen words are addressed in the flat memory as
  the compiler lays them out: page directory chunk, twelve registers, next, prev, process.
  \<open>tstate\<close> adds the run queue's globals, the kernel's own chunk and the data segment selector
  that the assembly routines \<^verbatim>\<open>kernel_registers\<close> and \<^verbatim>\<open>user_registers\<close> load.
\<close>

record tstate = pstate +
  kernel_chunk :: u32
  current_task :: u32
  task_tail :: u32
  task_head :: u32
  data_segment :: u16

record interrupt_frame =
  f_edi :: u32
  f_esi :: u32
  f_ebp :: u32
  f_reserved :: u32
  f_ebx :: u32
  f_edx :: u32
  f_ecx :: u32
  f_eax :: u32
  f_ip :: u32
  f_cs :: u32
  f_flags :: u32
  f_esp :: u32
  f_ss :: u32

definition GUAVAOS_PROGRAM_VIRTUAL_ADDRESS :: u32 where "GUAVAOS_PROGRAM_VIRTUAL_ADDRESS = 0x400000"
definition USER_DATA_SEGMENT :: u32 where "USER_DATA_SEGMENT = 0x23"
definition USER_CODE_SEGMENT :: u32 where "USER_CODE_SEGMENT = 0x1b"
definition GUAVAOS_PROGRAM_VIRTUAL_STACK_ADDRESS_START :: u32 where
  "GUAVAOS_PROGRAM_VIRTUAL_STACK_ADDRESS_START = 0x3ff000"
definition KERNEL_DATA_SELECTOR :: u32 where "KERNEL_DATA_SELECTOR = 0x10"

lemmas task_consts = GUAVAOS_PROGRAM_VIRTUAL_ADDRESS_def USER_DATA_SEGMENT_def USER_CODE_SEGMENT_def
  GUAVAOS_PROGRAM_VIRTUAL_STACK_ADDRESS_START_def KERNEL_DATA_SELECTOR_def

section \<open>The task structure\<close>

text \<open>Word offsets of the fields, in declaration order.\<close>

definition PAGE_DIRECTORY :: nat where "PAGE_DIRECTORY = 0"
definition R_EDI :: nat where "R_EDI = 1"
definition R_ESI :: nat where "R_ESI = 2"
definition R_EBP :: nat where "R_EBP = 3"
definition R_EBX :: nat where "R_EBX = 4"
definition R_EDX :: nat where "R_EDX = 5"
definition R_ECX :: nat where "R_ECX = 6"
definition R_EAX :: nat where "R_EAX = 7"
definition R_IP :: nat where "R_IP = 8"
definition R_CS :: nat where "R_CS = 9"
definition R_FLAGS :: nat where "R_FLAGS = 10"
definition R_ESP :: nat where "R_ESP = 11"
definition R_SS :: nat where "R_SS = 12"
definition T_NEXT :: nat where "T_NEXT = 13"
definition T_PREV :: nat where "T_PREV = 14"
definition T_PROCESS :: nat where "T_PROCESS = 15"

lemmas task_fields = PAGE_DIRECTORY_def R_EDI_def R_ESI_def R_EBP_def R_EBX_def R_EDX_def R_ECX_def
  R_EAX_def R_IP_def R_CS_def R_FLAGS_def R_ESP_def R_SS_def T_NEXT_def T_PREV_def T_PROCESS_def

definition get :: "'a tstate_scheme \<Rightarrow> u32 \<Rightarrow> nat \<Rightarrow> u32" where
  "get s t f = ldw (mem s) t f"

definition put :: "u32 \<Rightarrow> nat \<Rightarrow> u32 \<Rightarrow> 'a tstate_scheme \<Rightarrow> 'a tstate_scheme" where
  "put t f w s = s\<lparr>mem := stw t f w (mem s)\<rparr>"

definition task_sizeof :: u32 where "task_sizeof = 64"

section \<open>Segments and the kernel's page directory\<close>

definition kernel_registers :: "'a tstate_scheme \<Rightarrow> 'a tstate_scheme" where
  "kernel_registers s = s\<lparr>data_segment := 0x10\<rparr>"

definition user_registers :: "'a tstate_scheme \<Rightarrow> 'a tstate_scheme" where
  "user_registers s = s\<lparr>data_segment := 0x23\<rparr>"

definition kernel_page :: "'a tstate_scheme \<Rightarrow> 'a tstate_scheme" where
  "kernel_page s = (let s1 = kernel_registers s in paging_switch (kernel_chunk s1) s1)"

section \<open>The run queue\<close>

definition task_current :: "'a tstate_scheme \<Rightarrow> u32" where
  "task_current s = current_task s"

definition task_get_next :: "'a tstate_scheme \<Rightarrow> u32" where
  "task_get_next s =
     (if get s (current_task s) T_NEXT = 0 then task_head s else get s (current_task s) T_NEXT)"

definition task_list_remove :: "u32 \<Rightarrow> 'a tstate_scheme \<Rightarrow> 'a tstate_scheme" where
  "task_list_remove t s =
     (let s1 = (if get s t T_PREV \<noteq> 0 then put (get s t T_PREV) T_NEXT (get s t T_NEXT) s else s);
          s2 = (if t = task_head s1 then s1\<lparr>task_head := get s1 t T_NEXT\<rparr> else s1);
          s3 = (if t = task_tail s2 then s2\<lparr>task_tail := get s2 t T_PREV\<rparr> else s2)
      in if t = current_task s3 then s3\<lparr>current_task := task_get_next s3\<rparr> else s3)"

definition task_free :: "u32 \<Rightarrow> 'a tstate_scheme \<Rightarrow> (int \<times> 'a tstate_scheme) outcome" where
  "task_free t s =
     bnd (paging_free_4gb (get s t PAGE_DIRECTORY) s) (\<lambda>s1.
     bnd (kfree t (task_list_remove t s1)) (\<lambda>s2.
       Inr (0, s2)))"

definition task_init :: "u32 \<Rightarrow> u32 \<Rightarrow> 'a tstate_scheme \<Rightarrow> (int \<times> 'a tstate_scheme) outcome" where
  "task_init t process s =
     bnd (paging_new_4gb (ucast (PAGING_IS_PRESENT OR PAGING_ACCESS_FROM_ALL))
            (s\<lparr>mem := memset t 0 task_sizeof (mem s)\<rparr>)) (\<lambda>(chunk, s1).
       let s2 = put t PAGE_DIRECTORY chunk s1
       in if get s2 t PAGE_DIRECTORY = 0 then Inr (- EIO, s2)
          else
            let s3 = put t R_IP GUAVAOS_PROGRAM_VIRTUAL_ADDRESS s2;
                s4 = put t R_SS USER_DATA_SEGMENT s3;
                s5 = put t R_CS USER_CODE_SEGMENT s4;
                s6 = put t R_ESP GUAVAOS_PROGRAM_VIRTUAL_STACK_ADDRESS_START s5;
                s7 = put t T_PROCESS process s6
            in Inr (0, s7))"

text \<open>
  \<^verbatim>\<open>task_new\<close> returns the task, or an error number as a pointer. A failure of \<^verbatim>\<open>kzalloc\<close>
  reaches \<^verbatim>\<open>task_free\<close> with the null pointer, as in the code.
\<close>

definition task_new :: "u32 \<Rightarrow> 'a tstate_scheme \<Rightarrow> (u32 \<times> 'a tstate_scheme) outcome" where
  "task_new process s =
     bnd (kzalloc task_sizeof s) (\<lambda>(t, s1).
       let out = (\<lambda>(res, s). if res < 0
                    then bnd (task_free t s) (\<lambda>(_, s'). Inr (word_of_int res, s'))
                    else Inr (t, s))
       in if t = 0 then out (- ENOMEM, s1)
          else bnd (task_init t process s1) (\<lambda>(res, s2).
            if res \<noteq> GUAVAOS_ALL_OK then out (res, s2)
            else if task_head s2 = 0
              then out (res, s2\<lparr>task_head := t, task_tail := t, current_task := t\<rparr>)
            else
              let s3 = put (task_tail s2) T_NEXT t s2;
                  s4 = put t T_PREV (task_tail s3) s3
              in out (res, s4\<lparr>task_tail := t\<rparr>)))"

section \<open>Switching\<close>

definition task_switch :: "u32 \<Rightarrow> 'a tstate_scheme \<Rightarrow> int \<times> 'a tstate_scheme" where
  "task_switch t s =
     (let s1 = s\<lparr>current_task := t\<rparr> in (0, paging_switch (get s1 t PAGE_DIRECTORY) s1))"

definition task_save_state :: "u32 \<Rightarrow> interrupt_frame \<Rightarrow> 'a tstate_scheme \<Rightarrow> 'a tstate_scheme" where
  "task_save_state t frame s =
     (put t R_ESI (f_esi frame) \<circ> put t R_EDX (f_edx frame) \<circ> put t R_EDI (f_edi frame)
      \<circ> put t R_ECX (f_ecx frame) \<circ> put t R_EBX (f_ebx frame) \<circ> put t R_EBP (f_ebp frame)
      \<circ> put t R_EAX (f_eax frame) \<circ> put t R_SS (f_ss frame) \<circ> put t R_ESP (f_esp frame)
      \<circ> put t R_FLAGS (f_flags frame) \<circ> put t R_CS (f_cs frame) \<circ> put t R_IP (f_ip frame)) s"

definition task_current_save_state ::
  "interrupt_frame \<Rightarrow> 'a tstate_scheme \<Rightarrow> 'a tstate_scheme outcome" where
  "task_current_save_state frame s =
     (if task_current s = 0 then Inl Halted else Inr (task_save_state (task_current s) frame s))"

definition task_page :: "'a tstate_scheme \<Rightarrow> int \<times> 'a tstate_scheme" where
  "task_page s = (let s1 = user_registers s in (0, snd (task_switch (current_task s1) s1)))"

definition task_page_task :: "u32 \<Rightarrow> 'a tstate_scheme \<Rightarrow> int \<times> 'a tstate_scheme" where
  "task_page_task t s =
     (let s1 = user_registers s in (0, paging_switch (get s1 t PAGE_DIRECTORY) s1))"

text \<open>
  \<^verbatim>\<open>task_return\<close> (assembly) loads the registers it is given and does not come back; the result
  is the address of those registers with the state they are loaded in.
\<close>

definition task_run_first_ever_task :: "'a tstate_scheme \<Rightarrow> (u32 \<times> 'a tstate_scheme) outcome" where
  "task_run_first_ever_task s =
     (if current_task s = 0 then Inl Halted
      else let (_, s1) = task_switch (task_head s) s in Inr (task_head s1 + 4, s1))"

section \<open>Reading a task's memory\<close>

text \<open>\<^verbatim>\<open>strncpy\<close> while a task's directory is loaded: the same loop through the tables.\<close>

fun vstrncpy_loop :: "u32 \<Rightarrow> u32 \<Rightarrow> nat \<Rightarrow> nat \<Rightarrow> 'a pstate_scheme \<Rightarrow> 'a pstate_scheme outcome" where
  "vstrncpy_loop dest src i 0 s = vstore8 (dest + word_of_nat i) 0 s"
| "vstrncpy_loop dest src i (Suc k) s =
     bnd (vload8 s (src + word_of_nat i)) (\<lambda>c.
       if c = 0 then vstore8 (dest + word_of_nat i) 0 s
       else bnd (vstore8 (dest + word_of_nat i) c s) (\<lambda>s'. vstrncpy_loop dest src (Suc i) k s'))"

definition vstrncpy :: "u32 \<Rightarrow> u32 \<Rightarrow> int \<Rightarrow> 'a pstate_scheme \<Rightarrow> 'a pstate_scheme outcome" where
  "vstrncpy dest src count s = vstrncpy_loop dest src 0 (nat (count - 1)) s"

definition copy_string_from_task ::
  "u32 \<Rightarrow> u32 \<Rightarrow> u32 \<Rightarrow> int \<Rightarrow> 'a tstate_scheme \<Rightarrow> (int \<times> 'a tstate_scheme) outcome" where
  "copy_string_from_task t virt phys mx s =
     (if sint PAGING_PAGE_SIZE \<le> mx then Inr (- EINVARG, s)
      else bnd (kzalloc (word_of_int mx) s) (\<lambda>(tmp, s1).
        if tmp = 0 then Inr (- ENOMEM, s1)
        else
          let task_directory = load32 (mem s1) (get s1 t PAGE_DIRECTORY);
              old_entry = paging_get (mem s1) task_directory tmp;
              (_, s2) = paging_map (get s1 t PAGE_DIRECTORY) tmp tmp
                          (PAGING_IS_WRITABLE OR PAGING_IS_PRESENT OR PAGING_ACCESS_FROM_ALL) s1;
              s3 = paging_switch (get s2 t PAGE_DIRECTORY) s2
          in bnd (vstrncpy tmp virt mx s3) (\<lambda>s4.
               let s5 = kernel_page s4;
                   (res, s6) = paging_set task_directory tmp old_entry s5
               in if res < 0 then bnd (kfree tmp s6) (\<lambda>s7. Inr (- EIO, s7))
                  else bnd (kfree tmp (s6\<lparr>mem := strncpy phys tmp mx (mem s6)\<rparr>)) (\<lambda>s7. Inr (res, s7)))))"

definition task_get_stack_item ::
  "u32 \<Rightarrow> int \<Rightarrow> 'a tstate_scheme \<Rightarrow> (u32 \<times> 'a tstate_scheme) outcome" where
  "task_get_stack_item t index s =
     (let sp_ptr = get s t R_ESP;
          (_, s1) = task_page_task t s
      in bnd (vload32 s1 (sp_ptr + 4 * word_of_int index)) (\<lambda>res. Inr (res, kernel_page s1)))"

section \<open>Fields\<close>

lemma put_state [simp]:
  "kheap_inv (put t f w s) = kheap_inv s" "kheap_allocs (put t f w s) = kheap_allocs s"
  "kheap_vacant (put t f w s) = kheap_vacant s" "current_task (put t f w s) = current_task s"
  "task_head (put t f w s) = task_head s" "task_tail (put t f w s) = task_tail s"
  "kernel_chunk (put t f w s) = kernel_chunk s" "kernel_heap (put t f w s) = kernel_heap s"
  "mem (put t f w s) = stw t f w (mem s)" "paging_enabled (put t f w s) = paging_enabled s"
  "cr3 (put t f w s) = cr3 s" "data_segment (put t f w s) = data_segment s"
  by (simp_all add: put_def kheap_view_defs)

lemma get_state [simp]:
  "get (s\<lparr>task_head := x\<rparr>) t f = get s t f" "get (s\<lparr>task_tail := x\<rparr>) t f = get s t f"
  "get (s\<lparr>current_task := x\<rparr>) t f = get s t f" "get (s\<lparr>kernel_heap := h\<rparr>) t f = get s t f"
  by (simp_all add: get_def)

lemma get_put:
  "page_aligned t \<Longrightarrow> page_aligned u \<Longrightarrow> f < 1024 \<Longrightarrow> g < 1024 \<Longrightarrow>
     get (put t f w s) u g = (if t = u \<and> f = g then w else get s u g)"
  by (simp add: get_def ldw_stw)

lemma field_less [simp]:
  "PAGE_DIRECTORY < 1024" "R_EDI < 1024" "R_ESI < 1024" "R_EBP < 1024" "R_EBX < 1024" "R_EDX < 1024"
  "R_ECX < 1024" "R_EAX < 1024" "R_IP < 1024" "R_CS < 1024" "R_FLAGS < 1024" "R_ESP < 1024"
  "R_SS < 1024" "T_NEXT < 1024" "T_PREV < 1024" "T_PROCESS < 1024"
  by (simp_all add: task_fields)

section \<open>The queue as a list\<close>

text \<open>
  \<open>queue s ts\<close>: head, tail and the next fields describe the list \<open>ts\<close>, and the current task is
  one of them. \<open>linked_back s ts\<close>: the prev fields do too.
\<close>

definition queue :: "'a tstate_scheme \<Rightarrow> u32 list \<Rightarrow> bool" where
  "queue s ts \<longleftrightarrow>
     distinct ts \<and> (\<forall>t \<in> set ts. page_aligned t \<and> t \<noteq> 0)
     \<and> task_head s = (if ts = [] then 0 else hd ts) \<and> task_tail s = (if ts = [] then 0 else last ts)
     \<and> (\<forall>i < length ts. get s (ts ! i) T_NEXT = (if Suc i < length ts then ts ! Suc i else 0))
     \<and> (if ts = [] then current_task s = 0 else current_task s \<in> set ts)"

definition linked_back :: "'a tstate_scheme \<Rightarrow> u32 list \<Rightarrow> bool" where
  "linked_back s ts \<longleftrightarrow>
     (\<forall>i < length ts. get s (ts ! i) T_PREV = (if i = 0 then 0 else ts ! (i - 1)))"

definition without :: "nat \<Rightarrow> 'b list \<Rightarrow> 'b list" where
  "without i ts = take i ts @ drop (Suc i) ts"

lemma length_without: "i < length ts \<Longrightarrow> length (without i ts) = length ts - 1"
  by (simp add: without_def)

lemma nth_without: "i < length ts \<Longrightarrow> j < length ts - 1 \<Longrightarrow>
    without i ts ! j = ts ! (if j < i then j else Suc j)"
  by (auto simp: without_def nth_append min_def)

lemma set_without: "distinct ts \<Longrightarrow> i < length ts \<Longrightarrow> set (without i ts) = set ts - {ts ! i}"
proof -
  assume "distinct ts" "i < length ts"
  moreover have "ts = take i ts @ ts ! i # drop (Suc i) ts" using \<open>i < length ts\<close> by (rule id_take_nth_drop)
  ultimately show ?thesis unfolding without_def by (metis Diff_insert_absorb Un_insert_right distinct.simps(2)
    distinct_append list.simps(15) not_distinct_conv_prefix set_append disjoint_iff Un_iff list.set_intros(1))
qed

lemma distinct_without: "distinct ts \<Longrightarrow> distinct (without i ts)"
  unfolding without_def using set_take_disj_set_drop_if_distinct [of ts i "Suc i"] by simp

lemma hd_last_nth: "ts \<noteq> [] \<Longrightarrow> hd ts = ts ! 0" "ts \<noteq> [] \<Longrightarrow> last ts = ts ! (length ts - 1)"
  by (simp_all add: hd_conv_nth last_conv_nth)

text \<open>Round robin: the next task is the cyclic successor.\<close>

lemma task_get_next_queue:
  assumes "queue s ts" "i < length ts" "current_task s = ts ! i"
  shows "task_get_next s = ts ! (Suc i mod length ts)"
proof -
  have ne: "ts \<noteq> []" using assms(2) by auto
  show ?thesis
  proof (cases "Suc i < length ts")
    case True
    then have "ts ! Suc i \<noteq> 0" using assms(1) by (auto simp: queue_def)
    with True assms show ?thesis by (simp add: queue_def task_get_next_def)
  next
    case False
    with assms(2) have "Suc i = length ts" by linarith
    with False ne assms show ?thesis by (auto simp: queue_def task_get_next_def hd_conv_nth)
  qed
qed

text \<open>Removing a task unlinks it from a queue whose prev fields are right.\<close>

lemma task_list_remove_gets:
  assumes "queue s ts" "linked_back s ts" "i < length ts" "u \<in> set ts" "f < 1024"
  shows "get (task_list_remove (ts ! i) s) u f =
    (if 0 < i \<and> u = ts ! (i - 1) \<and> f = T_NEXT then get s (ts ! i) T_NEXT else get s u f)"
proof -
  have al: "page_aligned (ts ! j)" "ts ! j \<noteq> 0" if "j < length ts" for j
    using assms(1) that by (auto simp: queue_def)
  have u: "page_aligned u" using assms(1,4) by (auto simp: queue_def)
  have prev: "get s (ts ! i) T_PREV = (if i = 0 then 0 else ts ! (i - 1))"
    using assms(2,3) by (simp add: linked_back_def)
  show ?thesis
  proof (cases "i = 0")
    case True
    then show ?thesis using prev by (simp add: task_list_remove_def Let_def)
  next
    case False
    then have p: "page_aligned (ts ! (i - 1))" "ts ! (i - 1) \<noteq> 0" using al assms(3) by simp_all
    then show ?thesis
      using False prev get_put [OF p(1) u _ assms(5), of T_NEXT]
      by (auto simp: task_list_remove_def Let_def)
  qed
qed

lemma task_list_remove_globals:
  assumes q: "queue s ts" and b: "linked_back s ts" and i: "i < length ts"
  defines "s' \<equiv> task_list_remove (ts ! i) s"
  shows "task_head s' = (if i = 0 then (if Suc 0 < length ts then ts ! Suc 0 else 0) else ts ! 0)"
    "task_tail s' = (if i = length ts - 1 then (if i = 0 then 0 else ts ! (i - 1)) else ts ! (length ts - 1))"
    "current_task s' = (if current_task s = ts ! i
      then (if Suc i < length ts then ts ! Suc i else task_head s') else current_task s)"
proof -
  let ?n = "length ts"
  have ne: "ts \<noteq> []" and d: "distinct ts" using i q by (auto simp: queue_def)
  have nth_eq: "ts ! j = ts ! k \<longleftrightarrow> j = k" if "j < ?n" "k < ?n" for j k
    using nth_eq_iff_index_eq [OF d] that by blast
  have nxt: "get s (ts ! i) T_NEXT = (if Suc i < ?n then ts ! Suc i else 0)"
    using q i by (simp add: queue_def)
  have prev: "get s (ts ! i) T_PREV = (if i = 0 then 0 else ts ! (i - 1))"
    using b i by (simp add: linked_back_def)
  have al: "page_aligned (ts ! j)" "ts ! j \<noteq> 0" if "j < ?n" for j
    using q that by (auto simp: queue_def)
  define s1 where "s1 = (if get s (ts ! i) T_PREV \<noteq> 0
    then put (get s (ts ! i) T_PREV) T_NEXT (get s (ts ! i) T_NEXT) s else s)"
  have s1_next: "get s1 (ts ! i) T_NEXT = (if Suc i < ?n then ts ! Suc i else 0)"
    and s1_prev: "get s1 (ts ! i) T_PREV = (if i = 0 then 0 else ts ! (i - 1))"
    using prev nxt al i nth_eq [of "i - 1" i] by (auto simp: s1_def get_put task_fields)
  have s1_st: "task_head s1 = ts ! 0" "task_tail s1 = ts ! (?n - 1)" "current_task s1 = current_task s"
    using q ne by (auto simp: s1_def queue_def hd_conv_nth last_conv_nth)
  have "0 < ?n" "?n - 1 < ?n" using i by linarith+
  note hd0 = nth_eq [OF i this(1)] and tl0 = nth_eq [OF i this(2)]
  define s2 where "s2 = (if i = 0 then s1\<lparr>task_head := get s1 (ts ! i) T_NEXT\<rparr> else s1)"
  define s3 where "s3 = (if i = ?n - 1 then s2\<lparr>task_tail := get s1 (ts ! i) T_PREV\<rparr> else s2)"
  have s2_st: "task_tail s2 = ts ! (?n - 1)" "current_task s2 = current_task s" "get s2 u f = get s1 u f"
    "task_head s2 = (if i = 0 then get s1 (ts ! i) T_NEXT else ts ! 0)" for u f
    by (simp_all add: s2_def s1_st)
  have s3_st: "task_tail s3 = (if i = ?n - 1 then get s1 (ts ! i) T_PREV else ts ! (?n - 1))"
    "current_task s3 = current_task s" "get s3 u f = get s1 u f" "task_head s3 = task_head s2" for u f
    by (simp_all add: s3_def s2_st)
  have s': "s' = (if ts ! i = current_task s then s3\<lparr>current_task := task_get_next s3\<rparr> else s3)"
    unfolding s'_def task_list_remove_def Let_def s1_def [symmetric] s1_st hd0
      s2_def [symmetric] s2_st tl0 s3_def [symmetric] s3_st ..
  show "task_head s' = (if i = 0 then (if Suc 0 < ?n then ts ! Suc 0 else 0) else ts ! 0)"
  proof -
    have "task_head s' = task_head s3" by (simp add: s')
    then show ?thesis unfolding s3_st s2_st s1_next by (cases "i = 0") simp_all
  qed
  show "task_tail s' = (if i = ?n - 1 then (if i = 0 then 0 else ts ! (i - 1)) else ts ! (?n - 1))"
  proof -
    have "task_tail s' = task_tail s3" by (simp add: s')
    then show ?thesis unfolding s3_st s1_prev .
  qed
  show "current_task s' = (if current_task s = ts ! i
      then (if Suc i < ?n then ts ! Suc i else task_head s') else current_task s)"
  proof -
    have "task_get_next s3 = (if Suc i < ?n then ts ! Suc i else task_head s3)" if "current_task s = ts ! i"
      using al [of "Suc i"] unfolding task_get_next_def s3_st that s1_next by simp
    moreover have "task_head s' = task_head s3" by (simp add: s')
    ultimately show ?thesis by (auto simp: s' s3_st)
  qed
qed

lemma without_Nil: "i < length ts \<Longrightarrow> without i ts = [] \<longleftrightarrow> length ts = 1"
  using length_without [of i ts] by (metis One_nat_def Suc_diff_1 Suc_lessD Suc_lessI diff_Suc_1 gr_zeroI length_0_conv not_less_zero)

lemma hd_without:
  "i < length ts \<Longrightarrow> length ts \<noteq> 1 \<Longrightarrow> hd (without i ts) = (if i = 0 then ts ! Suc 0 else ts ! 0)"
  using without_Nil [of i ts] nth_without [of i ts 0] by (auto simp: hd_conv_nth)

lemma last_without:
  "i < length ts \<Longrightarrow> length ts \<noteq> 1 \<Longrightarrow>
     last (without i ts) = (if i = length ts - 1 then ts ! (i - 1) else ts ! (length ts - 1))"
proof -
  assume i: "i < length ts" and n: "length ts \<noteq> 1"
  then have "Suc (length ts - 2) = length ts - 1" "length ts - 2 < length ts - 1" by linarith+
  moreover have "length ts - 2 < i \<longleftrightarrow> i = length ts - 1" using i n by linarith
  moreover have "length ts - 1 - 1 = length ts - 2" by simp
  ultimately show "last (without i ts) = (if i = length ts - 1 then ts ! (i - 1) else ts ! (length ts - 1))"
    using without_Nil [OF i] n nth_without [OF i, of "length ts - 2"] length_without [OF i]
    by (simp add: last_conv_nth del: One_nat_def)
qed

lemma task_list_remove_queue:
  assumes q: "queue s ts" and b: "linked_back s ts" and i: "i < length ts"
  shows "queue (task_list_remove (ts ! i) s) (without i ts)"
proof -
  let ?s = "task_list_remove (ts ! i) s" and ?n = "length ts"
  have ne: "ts \<noteq> []" and d: "distinct ts" using i q by (auto simp: queue_def)
  have nth_eq: "ts ! j = ts ! k \<longleftrightarrow> j = k" if "j < ?n" "k < ?n" for j k
    using nth_eq_iff_index_eq [OF d] that by blast
  have nxt: "get s (ts ! j) T_NEXT = (if Suc j < ?n then ts ! Suc j else 0)" if "j < ?n" for j
    using q that by (simp add: queue_def)
  have gets: "get ?s (ts ! j) T_NEXT =
      (if Suc j = i then (if Suc i < ?n then ts ! Suc i else 0) else if Suc j < ?n then ts ! Suc j else 0)"
    if j: "j < ?n" for j
    using task_list_remove_gets [OF q b i nth_mem [OF j], of T_NEXT] nxt [OF j] nxt [OF i] nth_eq j i
    by (cases i) auto
  note g = task_list_remove_globals [OF q b i]
  have links: "get ?s (without i ts ! j) T_NEXT =
      (if Suc j < length (without i ts) then without i ts ! Suc j else 0)" if j: "j < length (without i ts)" for j
  proof -
    consider "Suc j < i" | "i = Suc j" | "i \<le> j" by linarith
    then show ?thesis using j i gets length_without [OF i] nth_without [OF i] by cases auto
  qed
  have head: "task_head ?s = (if without i ts = [] then 0 else hd (without i ts))"
    and tail: "task_tail ?s = (if without i ts = [] then 0 else last (without i ts))"
    using g(1,2) i by (auto simp: without_Nil hd_without last_without)
  have "if without i ts = [] then current_task ?s = 0 else current_task ?s \<in> set (without i ts)"
  proof (cases "without i ts = []")
    case True
    then have n: "?n = 1" using without_Nil [OF i] by simp
    moreover have "current_task s = ts ! i" using n q i by (auto simp: queue_def length_Suc_conv)
    ultimately show ?thesis using g(1,3) True i by simp
  next
    case False
    have "current_task s \<in> set ts" using q ne by (simp add: queue_def)
    moreover have "ts ! Suc i \<in> set (without i ts)" if "Suc i < ?n"
      using set_without [OF d i] that nth_eq [of "Suc i" i] by simp
    ultimately show ?thesis
      using False g(3) head set_without [OF d i] hd_in_set [OF False] by auto
  qed
  then show ?thesis
    unfolding queue_def
    using head tail links distinct_without [OF d] q set_without [OF d i] by (auto simp: queue_def)
qed

text \<open>
  The prev field of the successor is not updated: it still names the removed task. Removing the
  successor next writes through that stale pointer, leaves the queue with a dangling next field
  and makes the removed task its tail.
\<close>

lemma task_list_remove_stale_prev:
  assumes "queue s ts" "linked_back s ts" "Suc i < length ts"
  shows "get (task_list_remove (ts ! i) s) (ts ! Suc i) T_PREV = ts ! i"
  using task_list_remove_gets [OF assms(1,2), of i "ts ! Suc i" T_PREV] assms
  by (simp add: linked_back_def task_fields)

lemma task_list_remove_dangles:
  assumes q: "queue s [a, b, c]" and l: "linked_back s [a, b, c]"
  defines "s2 \<equiv> task_list_remove c (task_list_remove b s)"
  shows "get s2 a T_NEXT = c" "task_tail s2 = b"
proof -
  define s1 where "s1 = task_list_remove b s"
  have al: "page_aligned a" "page_aligned b" "page_aligned c" "b \<noteq> 0" and ne: "a \<noteq> b" "a \<noteq> c" "b \<noteq> c"
    using q by (auto simp: queue_def)
  have g: "get s1 u f = (if u = a \<and> f = T_NEXT then c else get s u f)" if "u \<in> {a, b, c}" "f < 1024" for u f
    using task_list_remove_gets [OF q l, of 1 u f] that q by (auto simp: s1_def queue_def)
  have s1: "task_tail s1 = c" "task_head s1 = a"
    using task_list_remove_globals [OF q l, of 1] by (simp_all add: s1_def)
  have p: "get s1 c T_PREV = b" and n: "get s1 c T_NEXT = 0"
    using g l q by (auto simp: linked_back_def queue_def less_Suc_eq task_fields)
  define s1a where "s1a = put b T_NEXT 0 s1"
  have "get s1a a T_NEXT = c" "get s1a c T_PREV = b"
    using g [of a T_NEXT] p ne al by (simp_all add: s1a_def get_put task_fields)
  moreover have s1a: "task_tail s1a = c" "task_head s1a = a" by (simp_all add: s1a_def s1)
  ultimately show "get s2 a T_NEXT = c" "task_tail s2 = b"
    using p n al(4) s1a ne
    by (simp_all add: s2_def s1_def [symmetric] task_list_remove_def [of c] s1a_def [symmetric] Let_def)
qed

section \<open>Saving registers\<close>

lemma task_save_state_gets:
  fixes s :: "'a tstate_scheme" and fr :: interrupt_frame
  assumes "page_aligned t"
  defines "s' \<equiv> task_save_state t fr s"
  shows "get s' t R_EDI = f_edi fr" "get s' t R_ESI = f_esi fr" "get s' t R_EBP = f_ebp fr"
    "get s' t R_EBX = f_ebx fr" "get s' t R_EDX = f_edx fr" "get s' t R_ECX = f_ecx fr"
    "get s' t R_EAX = f_eax fr" "get s' t R_IP = f_ip fr" "get s' t R_CS = f_cs fr"
    "get s' t R_FLAGS = f_flags fr" "get s' t R_ESP = f_esp fr" "get s' t R_SS = f_ss fr"
    "get s' t PAGE_DIRECTORY = get s t PAGE_DIRECTORY" "get s' t T_NEXT = get s t T_NEXT"
    "get s' t T_PREV = get s t T_PREV" "get s' t T_PROCESS = get s t T_PROCESS"
  unfolding s'_def task_save_state_def o_def
  by (simp_all add: get_put [OF assms(1) assms(1)] task_fields)

lemma put_frame: "page_aligned t \<Longrightarrow> f < 1024 \<Longrightarrow> \<not> in_page t a \<Longrightarrow> mem (put t f w s) a = mem s a"
  by (simp add: stw_frame)

lemma task_save_state_frame:
  assumes "page_aligned t" "\<not> in_page t a"
  shows "mem (task_save_state t fr s) a = mem s a"
  unfolding task_save_state_def o_def
  by (simp add: put_frame [OF assms(1) _ assms(2)] stw_frame [OF assms(1) _ assms(2)] task_fields)

section \<open>Creating a task\<close>

text \<open>Stores to a page that is no block of a space do not change the space.\<close>

lemma space_other_page:
  assumes "kheap_inv s" "space_ok chunk s" "t \<notin> set (space_blocks (mem s) chunk)" "page_aligned t"
    and out: "\<And>a. \<not> in_page t a \<Longrightarrow> m' a = mem s a"
  shows "space_blocks m' chunk = space_blocks (mem s) chunk"
    "page_aligned v \<Longrightarrow> space_view m' chunk v = space_view (mem s) chunk v"
    "space_present m' chunk = space_present (mem s) chunk"
proof -
  have same: "mem s a = m' a" if "p \<in> set (space_blocks (mem s) chunk)" "in_page p a" for p a
  proof -
    have "t \<noteq> p" using that(1) assms(3) by blast
    then have "\<not> in_page t a"
      using in_page_unique [OF assms(4) space_ok_pages(1) [OF assms(1,2) that(1)] _ that(2)] by blast
    then show ?thesis using out by simp
  qed
  have al: "page_aligned chunk" "page_aligned (load32 (mem s) chunk)"
    using space_ok_pages(1) [OF assms(1,2)] by (simp_all add: space_blocks_def)
  have in_b: "chunk \<in> set (space_blocks (mem s) chunk)" "load32 (mem s) chunk \<in> set (space_blocks (mem s) chunk)"
    by (simp_all add: space_blocks_def)
  show "space_blocks m' chunk = space_blocks (mem s) chunk"
    by (rule space_blocks_cong [OF al, of m', symmetric]) (use same in_b in blast)
  show "space_view m' chunk v = space_view (mem s) chunk v" if "page_aligned v"
    using space_view_cong [OF space_ok_pages(1) [OF assms(1,2)] same that] by simp
  have "load32 (mem s) chunk = load32 m' chunk"
    by (rule load32_page_cong [OF al(1)]) (use same in_b in blast)
  moreover have "ldw (mem s) (load32 (mem s) chunk) i = ldw m' (load32 (mem s) chunk) i" if "i < 1024" for i
    by (rule ldw_cong [OF al(2) that]) (use same in_b in blast)
  ultimately show "space_present m' chunk = space_present (mem s) chunk"
    by (simp add: space_present_def)
qed

lemma flags_present_user: "ucast (PAGING_IS_PRESENT OR PAGING_ACCESS_FROM_ALL) = (5 :: u8)"
  by (simp add: paging_consts)

lemma heap_step_globals:
  assumes "heap_step s s'"
  shows "task_head s' = task_head s" "task_tail s' = task_tail s" "current_task s' = current_task s"
    "kernel_chunk s' = kernel_chunk s" "cr3 s' = cr3 s" "paging_enabled s' = paging_enabled s"
  using assms by (auto simp: heap_step_def)

text \<open>Present directory entries of a new space.\<close>

lemma new_space_present:
  assumes "\<And>i. i < 1024 \<Longrightarrow> ldw m (load32 m chunk) i = table_of m (load32 m chunk) i OR ucast flags OR 2"
    and "bit (flags :: u8) 0"
  shows "space_present m chunk"
  unfolding space_present_def
proof (intro allI impI)
  fix i :: nat
  assume "i < 1024"
  then have "bit (ldw m (load32 m chunk) i) 0" using assms by (simp add: bit_simps)
  then show "ldw m (load32 m chunk) i AND 1 \<noteq> 0"
    by (simp add: and_one_eq odd_iff_mod_2_eq_one [symmetric] bit_0)
qed

definition task_fresh_field :: "u32 \<Rightarrow> u32 \<Rightarrow> nat \<Rightarrow> u32" where
  "task_fresh_field chunk process f =
     (if f = PAGE_DIRECTORY then chunk else if f = R_IP then 0x400000 else if f = R_SS then 0x23
      else if f = R_CS then 0x1b else if f = R_ESP then 0x3ff000 else if f = T_PROCESS then process else 0)"

lemma memset_field:
  assumes "page_aligned t" "f < 16"
  shows "ldw (memset t 0 task_sizeof m) t f = 0"
proof -
  have z: "memset t 0 task_sizeof m (t + word_of_nat k) = 0" if "k < 64" for k
    using that by (simp add: memset_apply task_sizeof_def unat_of_nat32)
  have "load32 (memset t 0 task_sizeof m) (t + word_of_nat (4 * f)) = 0"
    using z [of "4 * f"] z [of "4 * f + 1"] z [of "4 * f + 2"] z [of "4 * f + 3"] assms(2)
    by (simp add: load32_def ac_simps)
  then show ?thesis by (simp add: ldw_def)
qed

lemma memset_frame:
  assumes "page_aligned t" "\<not> in_page t a"
  shows "memset t 0 task_sizeof m a = m a"
proof -
  have "\<not> unat (a - t) < 64"
  proof
    assume lt: "unat (a - t) < 64"
    have "a = t + word_of_nat (unat (a - t))" by simp
    then have "unat a = unat t + unat (a - t)"
      using unat_page_offset [OF assms(1), of "unat (a - t)"] lt by simp
    then have "unat a div 4096 = unat t div 4096"
      using assms(1) lt by (auto simp: page_aligned_def)
    then show False using assms(2) by (simp add: in_page_def)
  qed
  then show ?thesis by (simp add: memset_apply task_sizeof_def)
qed

lemma heap_step_put: "heap_step s s1 \<Longrightarrow> heap_step s (put t f w s1)"
  unfolding put_def by (blast intro: heap_step_trans heap_step_mem)

lemma live_page_aligned: "kheap_inv s \<Longrightarrow> (p, 1) \<in> kheap_allocs s \<Longrightarrow> page_aligned p"
  unfolding page_aligned_def using km.allocs_shape by blast

lemma task_init_ok:
  assumes inv: "kheap_inv s" and t: "(t, 1) \<in> kheap_allocs s" and room: "1026 \<le> kheap_vacant s"
  obtains chunk s' where "task_init t process s = Inr (0, s')" "kheap_inv s'" "space_ok chunk s'"
    "space_present (mem s') chunk" "\<And>v. page_aligned v \<Longrightarrow> space_view (mem s') chunk v = v OR 5"
    "kheap_allocs s' = kheap_allocs s \<union> (\<lambda>p. (p, 1)) ` set (space_blocks (mem s') chunk)"
    "\<And>p q k. p \<in> set (space_blocks (mem s') chunk) \<Longrightarrow> (q, k) \<in> kheap_allocs s \<Longrightarrow> q \<noteq> p"
    "kheap_vacant s = kheap_vacant s' + 1026"
    "\<And>f. f < 16 \<Longrightarrow> get s' t f = task_fresh_field chunk process f"
    "\<And>p k a. (p, k) \<in> kheap_allocs s \<Longrightarrow> p \<noteq> t \<Longrightarrow> in_block p k a \<Longrightarrow> mem s' a = mem s a"
    "heap_step s s'"
proof -
  define s0 where "s0 = s\<lparr>mem := memset t 0 task_sizeof (mem s)\<rparr>"
  have tal: "page_aligned t" by (rule live_page_aligned [OF inv t])
  have s0: "kheap_inv s0" "1026 \<le> kheap_vacant s0" "kheap_allocs s0 = kheap_allocs s"
    "kheap_vacant s0 = kheap_vacant s"
    using inv room by (simp_all add: s0_def)
  from paging_new_4gb_full [OF s0(1,2), of 5] obtain chunk s1 where
    n: "paging_new_4gb 5 s0 = Inr (chunk, s1)" "kheap_inv s1" "space_ok chunk s1"
    "\<And>v. page_aligned v \<Longrightarrow> space_view (mem s1) chunk v = v OR ucast (5 :: u8)"
    "kheap_allocs s1 = kheap_allocs s0 \<union> (\<lambda>p. (p, 1)) ` set (space_blocks (mem s1) chunk)"
    "\<And>p q k. p \<in> set (space_blocks (mem s1) chunk) \<Longrightarrow> (q, k) \<in> kheap_allocs s0 \<Longrightarrow> q \<noteq> p"
    "kheap_vacant s0 = kheap_vacant s1 + 1026"
    "\<And>a. \<forall>p \<in> set (space_blocks (mem s1) chunk). \<not> in_page p a \<Longrightarrow> mem s1 a = mem s0 a"
    "heap_step s0 s1"
    "\<And>i. i < 1024 \<Longrightarrow> ldw (mem s1) (load32 (mem s1) chunk) i =
       table_of (mem s1) (load32 (mem s1) chunk) i OR ucast (5 :: u8) OR 2" "chunk \<noteq> 0" by blast
  have old: "mem s1 a = mem s0 a" if "(p, k) \<in> kheap_allocs s" "in_block p k a" for p k a
  proof (rule n(8), rule ballI, rule notI)
    fix q assume q: "q \<in> set (space_blocks (mem s1) chunk)" "in_page q a"
    note b = space_ok_pages [OF n(2,3) q(1)]
    have "(p, k) \<in> kheap_allocs s1" using that(1) n(5) s0(3) by simp
    moreover have "in_block q 1 a" using q(2) in_block_page [OF b(1)] by simp
    ultimately have "p = q" using km.allocs_apart [OF n(2) _ b(3) that(2)] by blast
    then show False using n(6) [OF q(1)] that(1) s0(3) by blast
  qed
  define s' where "s' = put t T_PROCESS process (put t R_ESP GUAVAOS_PROGRAM_VIRTUAL_STACK_ADDRESS_START
    (put t R_CS USER_CODE_SEGMENT (put t R_SS USER_DATA_SEGMENT (put t R_IP GUAVAOS_PROGRAM_VIRTUAL_ADDRESS
      (put t PAGE_DIRECTORY chunk s1)))))"
  have "get (put t PAGE_DIRECTORY chunk s1) t PAGE_DIRECTORY = chunk" by (simp add: get_put tal)
  then have run: "task_init t process s = Inr (0, s')"
    using n(1,11) unfolding task_init_def flags_present_user s0_def [symmetric]
    by (simp add: Let_def s'_def)
  have out: "mem s' a = mem s1 a" if "\<not> in_page t a" for a
    unfolding s'_def using that by (simp add: stw_frame tal)
  have tb: "t \<notin> set (space_blocks (mem s1) chunk)" using n(6) t s0(3) by blast
  have sp: "space_blocks (mem s') chunk = space_blocks (mem s1) chunk"
    "page_aligned v \<Longrightarrow> space_view (mem s') chunk v = space_view (mem s1) chunk v"
    "space_present (mem s') chunk = space_present (mem s1) chunk" for v
    by (rule space_other_page [OF n(2,3) tb tal], rule out, assumption+)+
  have heap: "kernel_heap s' = kernel_heap s1" by (simp add: s'_def)
  have allocs: "kheap_allocs s' = kheap_allocs s1" "kheap_vacant s' = kheap_vacant s1"
    "kheap_inv s' = kheap_inv s1" by (simp_all add: kheap_view_defs heap)
  have fields: "get s' t f = task_fresh_field chunk process f" if f: "f < 16" for f
  proof -
    have "ldw (mem s1) t f = ldw (mem s0) t f"
      by (rule ldw_cong [OF tal]) (use f old [OF t] in_block_page [OF tal] in simp_all)
    then have "get s1 t f = 0" using memset_field [OF tal f] by (simp add: get_def s0_def)
    then show ?thesis using f unfolding s'_def task_fresh_field_def
      by (simp add: get_put [OF tal tal] task_consts) (simp add: task_fields)
  qed
  show thesis
  proof (rule that [OF run])
    show "space_ok chunk s'" using n(3) unfolding space_ok_def sp(1) allocs .
    show "space_present (mem s') chunk"
      using new_space_present [OF n(10)] sp(3) by (simp add: bit_0)
    show "space_view (mem s') chunk v = v OR 5" if "page_aligned v" for v
      using sp(2) n(4) that by simp
    show "mem s' a = mem s a" if "(p, k) \<in> kheap_allocs s" "p \<noteq> t" "in_block p k a" for p k a
    proof -
      have "\<not> in_block t 1 a" using km.allocs_apart [OF inv that(1) t that(3)] that(2) by blast
      then have "\<not> in_page t a" using in_block_page [OF tal] by simp
      then show ?thesis using out old [OF that(1,3)] memset_frame [OF tal] by (simp add: s0_def)
    qed
    show "heap_step s s'"
      unfolding s'_def using heap_step_trans [OF heap_step_mem n(9) [unfolded s0_def]]
      by (intro heap_step_put)
  qed (use n s0 fields in \<open>simp_all add: allocs sp(1)\<close>)
qed

section \<open>All tasks\<close>

text \<open>
  The blocks a task owns: its structure and its address space. In a well-formed system the
  tasks of the queue own pairwise different live heap pages.
\<close>

definition task_blocks :: "'a tstate_scheme \<Rightarrow> u32 \<Rightarrow> u32 list" where
  "task_blocks s t = t # space_blocks (mem s) (get s t PAGE_DIRECTORY)"

definition all_blocks :: "'a tstate_scheme \<Rightarrow> u32 list \<Rightarrow> u32 list" where
  "all_blocks s ts = concat (map (task_blocks s) ts)"

definition tasks_inv :: "'a tstate_scheme \<Rightarrow> u32 list \<Rightarrow> bool" where
  "tasks_inv s ts \<longleftrightarrow>
     kheap_inv s \<and> queue s ts \<and> distinct (all_blocks s ts)
     \<and> (\<forall>p \<in> set (all_blocks s ts). (p, 1) \<in> kheap_allocs s)
     \<and> (\<forall>t \<in> set ts. space_present (mem s) (get s t PAGE_DIRECTORY))"

lemma set_all_blocks: "set (all_blocks s ts) = (\<Union>t \<in> set ts. set (task_blocks s t))"
  by (simp add: all_blocks_def)

lemma distinct_concat_map:
  "distinct (concat (map f xs)) \<Longrightarrow> x \<in> set xs \<Longrightarrow> y \<in> set xs \<Longrightarrow> x \<noteq> y \<Longrightarrow> set (f x) \<inter> set (f y) = {}"
  by (induction xs) auto

lemma distinct_concat_map_part: "distinct (concat (map f xs)) \<Longrightarrow> x \<in> set xs \<Longrightarrow> distinct (f x)"
  by (induction xs) auto

lemma tasks_inv_task:
  assumes "tasks_inv s ts" "t \<in> set ts"
  shows "space_ok (get s t PAGE_DIRECTORY) s" "(t, 1) \<in> kheap_allocs s" "page_aligned t"
    "space_present (mem s) (get s t PAGE_DIRECTORY)"
    "\<And>u. u \<in> set ts \<Longrightarrow> u \<notin> set (space_blocks (mem s) (get s t PAGE_DIRECTORY))"
    "\<And>u. u \<in> set ts \<Longrightarrow> t \<noteq> u \<Longrightarrow> set (space_blocks (mem s) (get s t PAGE_DIRECTORY))
       \<inter> set (space_blocks (mem s) (get s u PAGE_DIRECTORY)) = {}"
proof -
  have d: "distinct (all_blocks s ts)" and live: "\<forall>p \<in> set (all_blocks s ts). (p, 1) \<in> kheap_allocs s"
    and inv: "kheap_inv s" using assms(1) by (simp_all add: tasks_inv_def)
  have dt: "distinct (task_blocks s t)"
    using distinct_concat_map_part [OF d [unfolded all_blocks_def] assms(2)] .
  have sub: "set (task_blocks s t) \<subseteq> set (all_blocks s ts)" using assms(2) by (auto simp: set_all_blocks)
  show "space_ok (get s t PAGE_DIRECTORY) s"
    unfolding space_ok_def using dt sub live by (auto simp: task_blocks_def)
  show l: "(t, 1) \<in> kheap_allocs s" using sub live by (auto simp: task_blocks_def)
  show "page_aligned t" by (rule live_page_aligned [OF inv l])
  show "space_present (mem s) (get s t PAGE_DIRECTORY)" using assms by (simp add: tasks_inv_def)
  show "u \<notin> set (space_blocks (mem s) (get s t PAGE_DIRECTORY))" if "u \<in> set ts" for u
    using distinct_concat_map [OF d [unfolded all_blocks_def] assms(2) that] dt
    by (cases "t = u") (auto simp: task_blocks_def)
  show "set (space_blocks (mem s) (get s t PAGE_DIRECTORY))
       \<inter> set (space_blocks (mem s) (get s u PAGE_DIRECTORY)) = {}" if "u \<in> set ts" "t \<noteq> u" for u
    using distinct_concat_map [OF d [unfolded all_blocks_def] assms(2) that] by (auto simp: task_blocks_def)
qed

text \<open>A task whose own pages keep their contents keeps its address space.\<close>

lemma space_kept:
  assumes "kheap_inv s" "space_ok chunk s"
    and same: "\<And>p a. p \<in> set (space_blocks (mem s) chunk) \<Longrightarrow> in_page p a \<Longrightarrow> m' a = mem s a"
  shows "space_blocks m' chunk = space_blocks (mem s) chunk"
    "page_aligned v \<Longrightarrow> space_view m' chunk v = space_view (mem s) chunk v"
    "space_present m' chunk = space_present (mem s) chunk"
proof -
  have al: "page_aligned chunk" "page_aligned (load32 (mem s) chunk)"
    using space_ok_pages(1) [OF assms(1,2)] by (simp_all add: space_blocks_def)
  have in_b: "chunk \<in> set (space_blocks (mem s) chunk)" "load32 (mem s) chunk \<in> set (space_blocks (mem s) chunk)"
    by (simp_all add: space_blocks_def)
  show "space_blocks m' chunk = space_blocks (mem s) chunk"
    by (rule space_blocks_cong [OF al, of m', symmetric]) (use same in_b in metis)
  show "space_view m' chunk v = space_view (mem s) chunk v" if "page_aligned v"
    using space_view_cong [OF space_ok_pages(1) [OF assms(1,2)] same [symmetric] that] by simp
  have "load32 (mem s) chunk = load32 m' chunk"
    by (rule load32_page_cong [OF al(1)]) (use same in_b in metis)
  moreover have "ldw (mem s) (load32 (mem s) chunk) i = ldw m' (load32 (mem s) chunk) i" if "i < 1024" for i
    by (rule ldw_cong [OF al(2) that]) (use same in_b in metis)
  ultimately show "space_present m' chunk = space_present (mem s) chunk"
    by (simp add: space_present_def)
qed

section \<open>A new task joins the queue\<close>

text \<open>The links that \<^verbatim>\<open>task_new\<close> stores once the task is initialised.\<close>

definition task_append :: "u32 \<Rightarrow> 'a tstate_scheme \<Rightarrow> 'a tstate_scheme" where
  "task_append t s =
     (if task_head s = 0 then s\<lparr>task_head := t, task_tail := t, current_task := t\<rparr>
      else (put t T_PREV (task_tail s) (put (task_tail s) T_NEXT t s))\<lparr>task_tail := t\<rparr>)"

lemma task_append_queue:
  assumes q: "queue s ts" and t: "page_aligned t" "t \<noteq> 0" "t \<notin> set ts" "get s t T_NEXT = 0"
  shows "queue (task_append t s) (ts @ [t])"
    and "linked_back s ts \<Longrightarrow> get s t T_PREV = 0 \<Longrightarrow> linked_back (task_append t s) (ts @ [t])"
    and "current_task (task_append t s) = (if ts = [] then t else current_task s)"
    and "\<And>u f. page_aligned u \<Longrightarrow> f < 1024 \<Longrightarrow> get (task_append t s) u f =
      (if ts \<noteq> [] \<and> u = t \<and> f = T_PREV then last ts
       else if ts \<noteq> [] \<and> u = last ts \<and> f = T_NEXT then t else get s u f)"
proof -
  have head: "task_head s = 0 \<longleftrightarrow> ts = []" using q by (auto simp: queue_def)
  have lst: "ts \<noteq> [] \<Longrightarrow> page_aligned (last ts) \<and> last ts \<noteq> t \<and> task_tail s = last ts"
    using q t(3) by (auto simp: queue_def)
  show gets: "get (task_append t s) u f =
      (if ts \<noteq> [] \<and> u = t \<and> f = T_PREV then last ts
       else if ts \<noteq> [] \<and> u = last ts \<and> f = T_NEXT then t else get s u f)"
    if "page_aligned u" "f < 1024" for u f
    using that lst t(1) head by (auto simp: task_append_def get_put task_fields)
  show cur: "current_task (task_append t s) = (if ts = [] then t else current_task s)"
    using head by (simp add: task_append_def)
  have al: "page_aligned (ts ! i)" if "i < length ts" for i using q that by (auto simp: queue_def)
  have last_i: "ts ! i = last ts \<longleftrightarrow> Suc i = length ts" if "i < length ts" for i
  proof -
    have "ts \<noteq> []" "distinct ts" using that q by (auto simp: queue_def)
    then have "ts ! i = last ts \<longleftrightarrow> i = length ts - 1"
      using nth_eq_iff_index_eq [of ts i "length ts - 1"] that by (simp add: last_conv_nth)
    then show ?thesis using that by auto
  qed
  have nxt: "get (task_append t s) ((ts @ [t]) ! i) T_NEXT =
      (if Suc i < length (ts @ [t]) then (ts @ [t]) ! Suc i else 0)" if i: "i < length (ts @ [t])" for i
  proof (cases "i < length ts")
    case True
    then have "ts ! i \<noteq> t" using t(3) by auto
    then show ?thesis using True gets [OF al [OF True], of T_NEXT] last_i [OF True] q
      by (auto simp: nth_append queue_def task_fields)
  next
    case False
    with i have "i = length ts" by simp
    then show ?thesis using gets [OF t(1), of T_NEXT] t(4) lst by (auto simp: task_fields)
  qed
  show "queue (task_append t s) (ts @ [t])"
    unfolding queue_def
  proof (intro conjI)
    show "distinct (ts @ [t])" "\<forall>u \<in> set (ts @ [t]). page_aligned u \<and> u \<noteq> 0"
      using q t by (auto simp: queue_def)
    show "task_head (task_append t s) = (if ts @ [t] = [] then 0 else hd (ts @ [t]))"
      using q head by (auto simp: task_append_def queue_def hd_append)
    show "task_tail (task_append t s) = (if ts @ [t] = [] then 0 else last (ts @ [t]))"
      using head by (auto simp: task_append_def)
    show "\<forall>i < length (ts @ [t]). get (task_append t s) ((ts @ [t]) ! i) T_NEXT =
        (if Suc i < length (ts @ [t]) then (ts @ [t]) ! Suc i else 0)" using nxt by blast
    show "if ts @ [t] = [] then current_task (task_append t s) = 0
        else current_task (task_append t s) \<in> set (ts @ [t])"
      using cur q by (auto simp: queue_def)
  qed
  show "linked_back (task_append t s) (ts @ [t])" if "linked_back s ts" "get s t T_PREV = 0"
    unfolding linked_back_def
  proof (intro allI impI)
    fix i
    assume i: "i < length (ts @ [t])"
    show "get (task_append t s) ((ts @ [t]) ! i) T_PREV = (if i = 0 then 0 else (ts @ [t]) ! (i - 1))"
    proof (cases "i < length ts")
      case True
      then have "ts ! i \<noteq> t" using t(3) by auto
      then show ?thesis using True gets [OF al [OF True], of T_PREV] that(1)
        by (auto simp: nth_append linked_back_def task_fields)
    next
      case False
      with i have "i = length ts" by simp
      then show ?thesis using gets [OF t(1), of T_PREV] that(2)
        by (auto simp: nth_append last_conv_nth)
    qed
  qed
qed

lemma task_append_frame:
  assumes "queue s ts" "page_aligned t" "\<not> in_page t a" "ts \<noteq> [] \<Longrightarrow> \<not> in_page (last ts) a"
  shows "mem (task_append t s) a = mem s a"
  using assms by (auto simp: task_append_def queue_def stw_frame task_fields)

lemma task_append_heap [simp]:
  "kernel_heap (task_append t s) = kernel_heap s" "kheap_inv (task_append t s) = kheap_inv s"
  "kheap_allocs (task_append t s) = kheap_allocs s" "kheap_vacant (task_append t s) = kheap_vacant s"
  by (simp_all add: task_append_def kheap_view_defs)

lemma task_new_run:
  assumes "kzalloc task_sizeof s = Inr (t, s1)" "t \<noteq> 0" "task_init t process s1 = Inr (0, s2)"
  shows "task_new process s = Inr (t, task_append t s2)"
  using assms by (simp add: task_new_def task_append_def GUAVAOS_ALL_OK_def Let_def)

lemma tasks_inv_queue: "tasks_inv s ts \<Longrightarrow> queue s ts" and tasks_inv_heap: "tasks_inv s ts \<Longrightarrow> kheap_inv s"
  by (simp_all add: tasks_inv_def)

text \<open>What only adds allocations and leaves the live pages alone leaves every task as it was.\<close>

lemma tasks_inv_grow:
  assumes inv: "tasks_inv s ts" and hi: "kheap_inv s2"
    and gl: "task_head s2 = task_head s" "task_tail s2 = task_tail s" "current_task s2 = current_task s"
    and grow: "\<forall>p. (p, 1) \<in> kheap_allocs s \<longrightarrow> (p, 1) \<in> kheap_allocs s2"
    and same': "\<forall>p a. p \<in> set (all_blocks s ts) \<longrightarrow> in_page p a \<longrightarrow> mem s2 a = mem s a"
  shows "tasks_inv s2 ts" "\<And>u f. u \<in> set ts \<Longrightarrow> f < 1024 \<Longrightarrow> get s2 u f = get s u f"
    "\<And>u v. u \<in> set ts \<Longrightarrow> page_aligned v \<Longrightarrow>
       space_view (mem s2) (get s u PAGE_DIRECTORY) v = space_view (mem s) (get s u PAGE_DIRECTORY) v"
    "all_blocks s2 ts = all_blocks s ts" "linked_back s2 ts = linked_back s ts"
    "\<And>u. u \<in> set ts \<Longrightarrow> task_blocks s2 u = task_blocks s u"
proof -
  note tk = tasks_inv_task [OF inv] and q = tasks_inv_queue [OF inv]
  have same: "mem s2 a = mem s a" if "p \<in> set (all_blocks s ts)" "in_page p a" for p a
    using same' that by blast
  have own: "u \<in> set (all_blocks s ts)" if "u \<in> set ts" for u
    using that by (auto simp: set_all_blocks task_blocks_def)
  show gets: "get s2 u f = get s u f" if "u \<in> set ts" "f < 1024" for u f
    unfolding get_def by (rule ldw_cong [OF tk(3) [OF that(1)] that(2) same [OF own [OF that(1)]]])
  have blk: "p \<in> set (all_blocks s ts)"
    if "u \<in> set ts" "p \<in> set (space_blocks (mem s) (get s u PAGE_DIRECTORY))" for u p
    using that by (auto simp: set_all_blocks task_blocks_def)
  have sp: "space_blocks (mem s2) (get s u PAGE_DIRECTORY) = space_blocks (mem s) (get s u PAGE_DIRECTORY)"
    "page_aligned v \<Longrightarrow> space_view (mem s2) (get s u PAGE_DIRECTORY) v = space_view (mem s) (get s u PAGE_DIRECTORY) v"
    "space_present (mem s2) (get s u PAGE_DIRECTORY) = space_present (mem s) (get s u PAGE_DIRECTORY)"
    if "u \<in> set ts" for u v
    by (rule space_kept [OF tasks_inv_heap [OF inv] tk(1) [OF that]], rule same, rule blk [OF that], assumption+)+
  show "space_view (mem s2) (get s u PAGE_DIRECTORY) v = space_view (mem s) (get s u PAGE_DIRECTORY) v"
    if "u \<in> set ts" "page_aligned v" for u v by (rule sp(2) [OF that])
  have dir: "get s2 u PAGE_DIRECTORY = get s u PAGE_DIRECTORY" if "u \<in> set ts" for u
    by (rule gets [OF that]) simp
  show tb: "task_blocks s2 u = task_blocks s u" if "u \<in> set ts" for u
    unfolding task_blocks_def dir [OF that] sp(1) [OF that] ..
  show b: "all_blocks s2 ts = all_blocks s ts" using tb by (simp add: all_blocks_def cong: map_cong)
  have "queue s2 ts" using q gets gl by (auto simp: queue_def)
  then show "tasks_inv s2 ts"
    using inv hi grow b dir sp(3) unfolding tasks_inv_def by auto
  show "linked_back s2 ts = linked_back s ts" using gets by (auto simp: linked_back_def)
qed

text \<open>Appending an initialised task whose blocks are its own.\<close>

lemma tasks_inv_append:
  assumes inv: "tasks_inv s ts" and t: "(t, 1) \<in> kheap_allocs s" "t \<noteq> 0" "t \<notin> set (all_blocks s ts)"
    and link: "get s t T_NEXT = 0"
    and c: "get s t PAGE_DIRECTORY = chunk" "space_ok chunk s" "space_present (mem s) chunk"
      "set (space_blocks (mem s) chunk) \<inter> insert t (set (all_blocks s ts)) = {}"
  defines "s' \<equiv> task_append t s"
  shows "tasks_inv s' (ts @ [t])"
    "\<And>u v. u \<in> set (ts @ [t]) \<Longrightarrow> page_aligned v \<Longrightarrow>
       space_view (mem s') (get s' u PAGE_DIRECTORY) v = space_view (mem s) (get s u PAGE_DIRECTORY) v"
    "\<And>u f. u \<in> set (ts @ [t]) \<Longrightarrow> f < 1024 \<Longrightarrow> get s' u f =
      (if ts \<noteq> [] \<and> u = t \<and> f = T_PREV then last ts
       else if ts \<noteq> [] \<and> u = last ts \<and> f = T_NEXT then t else get s u f)"
    "\<And>a. \<forall>u \<in> set (ts @ [t]). \<not> in_page u a \<Longrightarrow> mem s' a = mem s a"
    "linked_back s ts \<Longrightarrow> get s t T_PREV = 0 \<Longrightarrow> linked_back s' (ts @ [t])"
    "all_blocks s' (ts @ [t]) = all_blocks s ts @ t # space_blocks (mem s) chunk"
proof -
  note tk = tasks_inv_task [OF inv] and q = tasks_inv_queue [OF inv] and hi = tasks_inv_heap [OF inv]
  have tal: "page_aligned t" by (rule live_page_aligned [OF hi t(1)])
  have all: "set ts \<subseteq> set (all_blocks s ts)" by (auto simp: set_all_blocks task_blocks_def)
  then have tts: "t \<notin> set ts" using t(3) by blast
  note app = task_append_queue [OF q tal t(2) tts link, folded s'_def]
  show gets: "get s' u f =
      (if ts \<noteq> [] \<and> u = t \<and> f = T_PREV then last ts
       else if ts \<noteq> [] \<and> u = last ts \<and> f = T_NEXT then t else get s u f)"
    if "u \<in> set (ts @ [t])" "f < 1024" for u f
    by (rule app(4)) (use that tk(3) tal in auto)
  show "linked_back s' (ts @ [t])" if "linked_back s ts" "get s t T_PREV = 0" by (rule app(2) [OF that])
  show off: "mem s' a = mem s a" if "\<forall>u \<in> set (ts @ [t]). \<not> in_page u a" for a
    unfolding s'_def using task_append_frame [OF q tal] that by simp
  have out: "mem s' a = mem s a" if "page_aligned p" "p \<noteq> t" "p \<notin> set ts" "in_page p a" for p a
  proof (rule off, rule ballI)
    fix u
    assume "u \<in> set (ts @ [t])"
    then have "page_aligned u" "u \<noteq> p" using tk(3) tal that(2,3) by auto
    then show "\<not> in_page u a" using in_page_unique [OF _ that(1) _ that(4)] by blast
  qed
  have dir: "get s' u PAGE_DIRECTORY = get s u PAGE_DIRECTORY" if "u \<in> set (ts @ [t])" for u
    using gets [OF that, of PAGE_DIRECTORY] by (auto simp: task_fields)
  have ok: "space_ok (get s u PAGE_DIRECTORY) s" if "u \<in> set (ts @ [t])" for u
    using that c(1,2) tk(1) by auto
  have own: "p \<noteq> t" "p \<notin> set ts"
    if "u \<in> set (ts @ [t])" "p \<in> set (space_blocks (mem s) (get s u PAGE_DIRECTORY))" for u p
  proof -
    show "p \<noteq> t"
      using that c(1,4) t(3) by (auto simp: set_all_blocks task_blocks_def)
    show "p \<notin> set ts" using that c(1,4) all tk(5) by auto
  qed
  have same: "mem s' a = mem s a"
    if "u \<in> set (ts @ [t])" "p \<in> set (space_blocks (mem s) (get s u PAGE_DIRECTORY))" "in_page p a" for u p a
    by (rule out [OF space_ok_pages(1) [OF hi ok [OF that(1)] that(2)] own [OF that(1,2)] that(3)])
  have sp: "space_blocks (mem s') (get s u PAGE_DIRECTORY) = space_blocks (mem s) (get s u PAGE_DIRECTORY)"
    "page_aligned v \<Longrightarrow> space_view (mem s') (get s u PAGE_DIRECTORY) v = space_view (mem s) (get s u PAGE_DIRECTORY) v"
    "space_present (mem s') (get s u PAGE_DIRECTORY) = space_present (mem s) (get s u PAGE_DIRECTORY)"
    if "u \<in> set (ts @ [t])" for u v
    by (rule space_kept [OF hi ok [OF that]], rule same [OF that], assumption+)+
  show "space_view (mem s') (get s' u PAGE_DIRECTORY) v = space_view (mem s) (get s u PAGE_DIRECTORY) v"
    if "u \<in> set (ts @ [t])" "page_aligned v" for u v
    unfolding dir [OF that(1)] by (rule sp(2) [OF that])
  have tb: "task_blocks s' u = task_blocks s u" if "u \<in> set (ts @ [t])" for u
    unfolding task_blocks_def dir [OF that] sp(1) [OF that] ..
  then show blocks: "all_blocks s' (ts @ [t]) = all_blocks s ts @ t # space_blocks (mem s) chunk"
    using tb [of t] c(1) by (simp add: all_blocks_def task_blocks_def cong: map_cong)
  have heap: "kheap_inv s'" "kheap_allocs s' = kheap_allocs s" using hi by (simp_all add: s'_def)
  have "distinct (all_blocks s' (ts @ [t]))"
    unfolding blocks using inv c(2,4) t(3) by (auto simp: tasks_inv_def space_ok_def)
  moreover have "\<forall>p \<in> set (all_blocks s' (ts @ [t])). (p, 1) \<in> kheap_allocs s'"
    unfolding blocks heap(2) using inv t(1) c(2) by (auto simp: tasks_inv_def space_ok_def)
  moreover have "space_present (mem s') (get s' u PAGE_DIRECTORY)" if "u \<in> set (ts @ [t])" for u
    unfolding dir [OF that] sp(3) [OF that] using that c(1,3) tk(4) by auto
  ultimately show "tasks_inv s' (ts @ [t])" unfolding tasks_inv_def using heap(1) app(1) by blast
qed

text \<open>What the task operations can change beside memory and the heap: the three globals.\<close>

definition task_change :: "'a tstate_scheme \<Rightarrow> 'a tstate_scheme \<Rightarrow> bool" where
  "task_change s s' \<longleftrightarrow> (\<exists>h m h1 h2 c. s' = s\<lparr>kernel_heap := h, mem := m, task_head := h1, task_tail := h2, current_task := c\<rparr>)"

lemma task_changeI: "task_change s (s\<lparr>kernel_heap := h, mem := m, task_head := h1, task_tail := h2, current_task := c\<rparr>)"
  unfolding task_change_def by blast

lemma task_append_change:
  assumes "heap_step s s2"
  shows "task_change s (task_append t s2)"
proof -
  obtain h m where s2: "s2 = s\<lparr>kernel_heap := h, mem := m\<rparr>" using assms by (auto simp: heap_step_def)
  show ?thesis
  proof (cases "task_head s = 0")
    case True
    then have "task_append t s2 = s\<lparr>kernel_heap := h, mem := m, task_head := t, task_tail := t, current_task := t\<rparr>"
      by (simp add: task_append_def s2)
    then show ?thesis by (simp only: task_changeI)
  next
    case False
    define m' where "m' = stw t T_PREV (task_tail s) (stw (task_tail s) T_NEXT t m)"
    have "task_append t s2 = s\<lparr>kernel_heap := h, mem := m', task_head := task_head s, task_tail := t, current_task := current_task s\<rparr>"
      using False by (simp add: task_append_def s2 put_def m'_def)
    then show ?thesis by (simp only: task_changeI)
  qed
qed

lemma task_init_area:
  assumes "task_init t process s = Inr (r, s')"
  shows "heap_area s' = heap_area s"
  using assms by (auto simp: task_init_def Let_def bnd_Inr_iff put_def dest!: paging_new_4gb_area split: if_splits)

text \<open>
  With room for a structure and an address space, \<^verbatim>\<open>task_new\<close> returns a fresh task at the end of
  the queue; the other tasks, their spaces and registers stay as they are.
\<close>

lemma task_new_ok:
  assumes inv: "tasks_inv s ts" and room: "1027 \<le> kheap_vacant s"
  obtains t s' where "task_new process s = Inr (t, s')" "tasks_inv s' (ts @ [t])" "t \<notin> set ts"
    "\<And>f. f < 14 \<Longrightarrow> get s' t f = task_fresh_field (get s' t PAGE_DIRECTORY) process f"
    "get s' t T_PROCESS = process"
    "\<And>v. page_aligned v \<Longrightarrow> space_view (mem s') (get s' t PAGE_DIRECTORY) v = v OR 5"
    "current_task s' = (if ts = [] then t else current_task s)"
    "\<And>u f. u \<in> set ts \<Longrightarrow> f < 1024 \<Longrightarrow>
       get s' u f = (if u = last ts \<and> f = T_NEXT then t else get s u f)"
    "\<And>u v. u \<in> set ts \<Longrightarrow> page_aligned v \<Longrightarrow>
       space_view (mem s') (get s' u PAGE_DIRECTORY) v = space_view (mem s) (get s u PAGE_DIRECTORY) v"
    "linked_back s ts \<Longrightarrow> linked_back s' (ts @ [t])"
    "kheap_vacant s = kheap_vacant s' + 1027"
    "kernel_chunk s' = kernel_chunk s" "paging_enabled s' = paging_enabled s"
    "\<And>p k a. (p, k) \<in> kheap_allocs s \<Longrightarrow> p \<notin> set ts \<Longrightarrow> in_block p k a \<Longrightarrow> mem s' a = mem s a"
    "\<And>p k. (p, k) \<in> kheap_allocs s \<Longrightarrow> (p, k) \<in> kheap_allocs s'"
    "\<And>p k. p \<in> set (task_blocks s' t) \<Longrightarrow> (p, k) \<notin> kheap_allocs s"
    "all_blocks s' (ts @ [t]) = all_blocks s ts @ task_blocks s' t" "task_change s s'" "heap_area s' = heap_area s"
proof -
  note hi = tasks_inv_heap [OF inv] and tk = tasks_inv_task [OF inv]
  have "0 < kheap_vacant s" "0 < task_sizeof" "task_sizeof \<le> 4096" using room by (simp_all add: task_sizeof_def)
  from kzalloc_page [OF hi this] obtain t s1 where
    t: "kzalloc task_sizeof s = Inr (t, s1)" "t \<noteq> 0" "kheap_inv s1"
    "kheap_allocs s1 = insert (t, 1) (kheap_allocs s)" "kheap_vacant s = Suc (kheap_vacant s1)"
    "\<And>q k. (q, k) \<in> kheap_allocs s \<Longrightarrow> q \<noteq> t" "page_aligned t"
    "\<And>a. \<not> in_page t a \<Longrightarrow> mem s1 a = mem s a" "heap_step s s1" by blast
  have t1: "(t, 1) \<in> kheap_allocs s1" "1026 \<le> kheap_vacant s1" using t(4,5) room by simp_all
  obtain chunk s2 where
    n: "task_init t process s1 = Inr (0, s2)" "kheap_inv s2" "space_ok chunk s2"
    "space_present (mem s2) chunk" "\<And>v. page_aligned v \<Longrightarrow> space_view (mem s2) chunk v = v OR 5"
    "kheap_allocs s2 = kheap_allocs s1 \<union> (\<lambda>p. (p, 1)) ` set (space_blocks (mem s2) chunk)"
    "\<And>p q k. p \<in> set (space_blocks (mem s2) chunk) \<Longrightarrow> (q, k) \<in> kheap_allocs s1 \<Longrightarrow> q \<noteq> p"
    "kheap_vacant s1 = kheap_vacant s2 + 1026"
    "\<And>f. f < 16 \<Longrightarrow> get s2 t f = task_fresh_field chunk process f"
    "\<And>p k a. (p, k) \<in> kheap_allocs s1 \<Longrightarrow> p \<noteq> t \<Longrightarrow> in_block p k a \<Longrightarrow> mem s2 a = mem s1 a"
    "heap_step s1 s2" by (rule task_init_ok [OF t(3) t1, of process], rule that)
  note gl = heap_step_globals [OF heap_step_trans [OF t(9) n(11)]]
  have kept: "mem s2 a = mem s a" "\<not> in_page t a" if "(p, k) \<in> kheap_allocs s" "in_block p k a" for p k a
  proof -
    have p: "p \<noteq> t" "(p, k) \<in> kheap_allocs s1" using t(4,6) that(1) by auto
    then have "\<not> in_block t 1 a" using km.allocs_apart [OF t(3) p(2) t1(1) that(2)] by blast
    then show out: "\<not> in_page t a" using in_block_page [OF t(7)] by simp
    show "mem s2 a = mem s a" using n(10) [OF p(2,1) that(2)] t(8) [OF out] by simp
  qed
  have page: "in_block p 1 a" if "(p, 1) \<in> kheap_allocs s" "in_page p a" for p a
    using in_block_page [OF live_page_aligned [OF hi that(1)]] that(2) by simp
  have al2: "kheap_allocs s2 = insert (t, 1) (kheap_allocs s \<union> (\<lambda>p. (p, 1)) ` set (space_blocks (mem s2) chunk))"
    unfolding n(6) t(4) by blast
  have grow: "\<forall>p. (p, 1) \<in> kheap_allocs s \<longrightarrow> (p, 1) \<in> kheap_allocs s2" by (simp add: al2)
  have live: "\<forall>p \<in> set (all_blocks s ts). (p, 1) \<in> kheap_allocs s" using inv by (simp add: tasks_inv_def)
  have same: "\<forall>p a. p \<in> set (all_blocks s ts) \<longrightarrow> in_page p a \<longrightarrow> mem s2 a = mem s a"
    using kept(1) page live by blast
  note g = tasks_inv_grow [OF inv n(2) gl(1-3) grow same]
  have fr: "get s2 t T_NEXT = 0" "get s2 t T_PREV = 0" "get s2 t PAGE_DIRECTORY = chunk"
    using n(9) by (simp_all add: task_fresh_field_def task_fields)
  have tnew: "(t, 1) \<in> kheap_allocs s2" by (simp add: al2)
  have tnew2: "t \<notin> set (all_blocks s2 ts)"
    unfolding g(4) using live t(6) by metis
  have cnew: "set (space_blocks (mem s2) chunk) \<inter> insert t (set (all_blocks s2 ts)) = {}"
    using live n(7) t(4) unfolding g(4) by fast
  define s' where "s' = task_append t s2"
  note app = tasks_inv_append [OF g(1) tnew t(2) tnew2 fr(1,3) n(3,4) cnew, folded s'_def]
  have tts: "t \<notin> set ts" using t(6) tk(2) by blast
  have fields: "get s' t f = task_fresh_field chunk process f" if "f < 16" "f \<noteq> T_PREV" for f
  proof -
    have "ts \<noteq> [] \<Longrightarrow> last ts \<noteq> t" using tts by auto
    then show ?thesis using app(3) [of t f] n(9) that by auto
  qed
  have dir: "get s' t PAGE_DIRECTORY = chunk"
    using fields [of PAGE_DIRECTORY] by (simp add: task_fresh_field_def task_fields)
  have ublk: "space_blocks (mem s') chunk = space_blocks (mem s2) chunk"
  proof (rule space_kept(1) [OF n(2,3)])
    fix p a
    assume p: "p \<in> set (space_blocks (mem s2) chunk)" "in_page p a"
    have "set ts \<subseteq> set (all_blocks s2 ts)" by (auto simp: set_all_blocks task_blocks_def)
    then have "p \<noteq> t" "p \<notin> set ts" using p(1) cnew by blast+
    moreover have "page_aligned u" if "u \<in> set (ts @ [t])" for u using tk(3) t(7) that by auto
    ultimately have "\<not> in_page u a" if "u \<in> set (ts @ [t])" for u
      using in_page_unique [OF _ space_ok_pages(1) [OF n(2,3) p(1)] _ p(2), of u] that by auto
    then show "mem s' a = mem s2 a" using app(4) by blast
  qed
  show thesis
  proof (rule that [OF task_new_run [OF t(1,2) n(1), folded s'_def] app(1) tts])
    show "get s' t f = task_fresh_field (get s' t PAGE_DIRECTORY) process f" if "f < 14" for f
      using fields [of f] that unfolding dir by (simp add: task_fields)
    show "get s' t T_PROCESS = process"
      using fields [of T_PROCESS] by (simp add: task_fresh_field_def task_fields)
    show "space_view (mem s') (get s' t PAGE_DIRECTORY) v = v OR 5" if "page_aligned v" for v
      using app(2) [of t v] n(5) that fr(3) by simp
    show "current_task s' = (if ts = [] then t else current_task s)" "kernel_chunk s' = kernel_chunk s"
      "paging_enabled s' = paging_enabled s"
      using gl tasks_inv_queue [OF g(1)] by (auto simp: s'_def task_append_def queue_def)
    show "get s' u f = (if u = last ts \<and> f = T_NEXT then t else get s u f)" if "u \<in> set ts" "f < 1024" for u f
      using app(3) [of u f] that tts g(2) by auto
    show "space_view (mem s') (get s' u PAGE_DIRECTORY) v = space_view (mem s) (get s u PAGE_DIRECTORY) v"
      if "u \<in> set ts" "page_aligned v" for u v
      using app(2) [of u v] g(3) g(2) [of u PAGE_DIRECTORY] that by simp
    show "linked_back s' (ts @ [t])" if "linked_back s ts" using app(5) g(5) that fr(2) by simp
    show "kheap_vacant s = kheap_vacant s' + 1027" using t(5) n(8) by (simp add: s'_def)
    show "mem s' a = mem s a" if "(p, k) \<in> kheap_allocs s" "p \<notin> set ts" "in_block p k a" for p k a
    proof -
      have "\<not> in_page u a" if "u \<in> set ts" for u
        using km.allocs_apart [OF hi \<open>(p, k) \<in> kheap_allocs s\<close> tk(2) [OF that] \<open>in_block p k a\<close>]
          in_block_page [OF tk(3) [OF that]] \<open>p \<notin> set ts\<close> that by auto
      then show ?thesis using app(4) [of a] kept [OF that(1,3)] by simp
    qed
    show "(p, k) \<in> kheap_allocs s'" if "(p, k) \<in> kheap_allocs s" for p k
      using that al2 by (simp add: s'_def)
    show "heap_area s' = heap_area s"
      using kzalloc_area [OF t(1)] task_init_area [OF n(1)] by (simp add: heap_area_def s'_def)
    show "task_change s s'"
      unfolding s'_def by (rule task_append_change [OF heap_step_trans [OF t(9) n(11)]])
    show "all_blocks s' (ts @ [t]) = all_blocks s ts @ task_blocks s' t"
      unfolding app(6) g(4) task_blocks_def dir ublk ..
    show "(p, k) \<notin> kheap_allocs s" if "p \<in> set (task_blocks s' t)" for p k
    proof
      assume a: "(p, k) \<in> kheap_allocs s"
      then have "p \<noteq> t" "(p, k) \<in> kheap_allocs s1" using t(4,6) by blast+
      then show False using that n(7) [of p p k] unfolding task_blocks_def dir ublk by auto
    qed
  qed
qed

section \<open>A task leaves\<close>

lemma task_list_remove_heap [simp]:
  "kernel_heap (task_list_remove t s) = kernel_heap s" "kheap_inv (task_list_remove t s) = kheap_inv s"
  "kheap_allocs (task_list_remove t s) = kheap_allocs s" "kheap_vacant (task_list_remove t s) = kheap_vacant s"
  by (simp_all add: task_list_remove_def Let_def kheap_view_defs)

lemma task_list_remove_frame:
  assumes "queue s ts" "linked_back s ts" "i < length ts" "\<And>u. u \<in> set ts \<Longrightarrow> \<not> in_page u a"
  shows "mem (task_list_remove (ts ! i) s) a = mem s a"
proof -
  have "get s (ts ! i) T_PREV = (if i = 0 then 0 else ts ! (i - 1))"
    using assms(2,3) by (simp add: linked_back_def)
  moreover have "page_aligned (ts ! (i - 1))" "\<not> in_page (ts ! (i - 1)) a"
    using assms(1,3,4) by (auto simp: queue_def)
  ultimately show ?thesis
    by (simp add: task_list_remove_def Let_def stw_frame task_fields)
qed

lemma queue_heap: "queue (s\<lparr>kernel_heap := h\<rparr>) ts = queue s ts" "linked_back (s\<lparr>kernel_heap := h\<rparr>) ts = linked_back s ts"
  by (simp_all add: queue_def linked_back_def)

lemma all_blocks_without:
  assumes "distinct (all_blocks s ts)" "distinct ts" "i < length ts"
  shows "distinct (all_blocks s (without i ts))"
    "set (all_blocks s (without i ts)) = set (all_blocks s ts) - set (task_blocks s (ts ! i))"
proof -
  have ts: "ts = take i ts @ ts ! i # drop (Suc i) ts" by (rule id_take_nth_drop [OF assms(3)])
  have eq: "all_blocks s ts = all_blocks s (take i ts) @ task_blocks s (ts ! i) @ all_blocks s (drop (Suc i) ts)"
    by (subst ts) (simp add: all_blocks_def)
  have w: "all_blocks s (without i ts) = all_blocks s (take i ts) @ all_blocks s (drop (Suc i) ts)"
    by (simp add: all_blocks_def without_def)
  show "distinct (all_blocks s (without i ts))" using assms(1) unfolding eq w by auto
  show "set (all_blocks s (without i ts)) = set (all_blocks s ts) - set (task_blocks s (ts ! i))"
    using assms(1) unfolding eq w by auto
qed

lemma task_free_ok:
  assumes inv: "tasks_inv s ts" and lb: "linked_back s ts" and i: "i < length ts"
  obtains s' where "task_free (ts ! i) s = Inr (0, s')" "tasks_inv s' (without i ts)"
    "kheap_allocs s' = kheap_allocs s - (\<lambda>p. (p, 1)) ` set (task_blocks s (ts ! i))"
    "kheap_vacant s' = kheap_vacant s + 1027"
    "\<And>u v. u \<in> set (without i ts) \<Longrightarrow> page_aligned v \<Longrightarrow>
       space_view (mem s') (get s' u PAGE_DIRECTORY) v = space_view (mem s) (get s u PAGE_DIRECTORY) v"
    "\<And>u f. u \<in> set (without i ts) \<Longrightarrow> f < 1024 \<Longrightarrow> get s' u f =
       (if 0 < i \<and> u = ts ! (i - 1) \<and> f = T_NEXT then get s (ts ! i) T_NEXT else get s u f)"
proof -
  let ?t = "ts ! i"
  note hi = tasks_inv_heap [OF inv] and q = tasks_inv_queue [OF inv]
  have t_in: "?t \<in> set ts" using i by simp
  note tk = tasks_inv_task [OF inv]
  obtain h where f: "paging_free_4gb (get s ?t PAGE_DIRECTORY) s = Inr (s\<lparr>kernel_heap := h\<rparr>)"
    "kheap_inv (s\<lparr>kernel_heap := h\<rparr>)" "kheap_allocs (s\<lparr>kernel_heap := h\<rparr>) =
       kheap_allocs s - (\<lambda>p. (p, 1)) ` set (space_blocks (mem s) (get s ?t PAGE_DIRECTORY))"
    "kheap_vacant (s\<lparr>kernel_heap := h\<rparr>) = kheap_vacant s + 1026"
    by (rule paging_free_4gb_ok [OF hi tk(1) [OF t_in]], rule that)
  define s2 where "s2 = task_list_remove ?t (s\<lparr>kernel_heap := h\<rparr>)"
  have q1: "queue (s\<lparr>kernel_heap := h\<rparr>) ts" and b1: "linked_back (s\<lparr>kernel_heap := h\<rparr>) ts"
    using q lb by (simp_all add: queue_heap)
  have inv2: "kheap_inv s2" and live: "(?t, 1) \<in> kheap_allocs s2"
    using f(2,3) tk(2,5) [OF t_in] t_in by (auto simp: s2_def)
  obtain h' where k: "kfree ?t s2 = Inr (s2\<lparr>kernel_heap := h'\<rparr>)" "kheap_inv (s2\<lparr>kernel_heap := h'\<rparr>)"
    "kheap_allocs (s2\<lparr>kernel_heap := h'\<rparr>) = kheap_allocs s2 - {(?t, 1)}"
    "kheap_vacant (s2\<lparr>kernel_heap := h'\<rparr>) = kheap_vacant s2 + 1"
    by (rule kfree_alloc [OF inv2 live], rule that)
  define s' where "s' = s2\<lparr>kernel_heap := h'\<rparr>"
  have run: "task_free ?t s = Inr (0, s')"
    using f(1) k(1) by (simp add: task_free_def s2_def s'_def)
  have d: "distinct ts" using q by (simp add: queue_def)
  have sub: "u \<in> set ts" "u \<noteq> ?t" if "u \<in> set (without i ts)" for u
    using that set_without [OF d i] by auto
  have fields: "get s' u f =
      (if 0 < i \<and> u = ts ! (i - 1) \<and> f = T_NEXT then get s ?t T_NEXT else get s u f)"
    if "u \<in> set ts" "f < 1024" for u f
    using task_list_remove_gets [OF q1 b1 i that] by (simp add: s'_def s2_def)
  then have gets: "get s' u PAGE_DIRECTORY = get s u PAGE_DIRECTORY" if "u \<in> set ts" for u
    using that by (simp add: task_fields)
  have keep: "mem s' a = mem s a"
    if "u \<in> set ts" "p \<in> set (space_blocks (mem s) (get s u PAGE_DIRECTORY))" "in_page p a" for u p a
  proof -
    have "\<not> in_page w a" if w: "w \<in> set ts" for w
      using in_page_unique [OF tk(3) [OF w] space_ok_pages(1) [OF hi tk(1) [OF \<open>u \<in> set ts\<close>] \<open>p \<in> _\<close>] _ \<open>in_page p a\<close>]
        tk(5) [OF \<open>u \<in> set ts\<close> w] \<open>p \<in> _\<close> by blast
    then show ?thesis using task_list_remove_frame [OF q1 b1 i] by (simp add: s'_def s2_def)
  qed
  have sp: "space_blocks (mem s') (get s u PAGE_DIRECTORY) = space_blocks (mem s) (get s u PAGE_DIRECTORY)"
    "page_aligned v \<Longrightarrow> space_view (mem s') (get s u PAGE_DIRECTORY) v = space_view (mem s) (get s u PAGE_DIRECTORY) v"
    "space_present (mem s') (get s u PAGE_DIRECTORY) = space_present (mem s) (get s u PAGE_DIRECTORY)"
    if "u \<in> set ts" for u v
    by (rule space_kept [OF hi tk(1) [OF that]], rule keep [OF that], assumption+)+
  have tb: "task_blocks s' u = task_blocks s u" if "u \<in> set ts" for u
    by (simp add: task_blocks_def gets [OF that] sp(1) [OF that])
  have blocks: "all_blocks s' (without i ts) = all_blocks s (without i ts)"
    using tb sub by (simp add: all_blocks_def cong: map_cong)
  have allocs: "kheap_allocs s' = kheap_allocs s - (\<lambda>p. (p, 1)) ` set (task_blocks s ?t)"
    using f(3) k(3) by (auto simp: s'_def s2_def task_blocks_def)
  have inv_parts: "distinct (all_blocks s ts)" "\<forall>p \<in> set (all_blocks s ts). (p, 1) \<in> kheap_allocs s"
    using inv by (simp_all add: tasks_inv_def)
  note w = all_blocks_without [OF inv_parts(1) d i]
  have "tasks_inv s' (without i ts)"
    unfolding tasks_inv_def blocks
  proof (intro conjI)
    show "kheap_inv s'" using k(2) by (simp add: s'_def)
    show "queue s' (without i ts)"
      using task_list_remove_queue [OF q1 b1 i] by (simp add: s'_def s2_def queue_heap)
    show "distinct (all_blocks s (without i ts))" by (rule w(1))
    show "\<forall>p \<in> set (all_blocks s (without i ts)). (p, 1) \<in> kheap_allocs s'"
      unfolding w(2) allocs using inv_parts(2) by auto
    show "\<forall>u \<in> set (without i ts). space_present (mem s') (get s' u PAGE_DIRECTORY)"
      using sub gets sp(3) tk(4) by simp
  qed
  then show thesis
    using that [OF run _ allocs] f(4) k(4) sub gets sp(2) fields by (simp add: s'_def s2_def)
qed

end
