(* ===== verification/Disk.thy ===== *)
theory Disk
  imports Task
begin

text \<open>
  Port input and output (\<^verbatim>\<open>src/io/io.asm\<close>), the ATA driver \<^verbatim>\<open>src/disk/disk.c\<close> and the byte
  streams of \<^verbatim>\<open>src/disk/streamer.c\<close>. The device behind the ports is no code of the repository: it
  is the function \<open>device\<close> of the state, which maps the port accesses made so far to the next value
  read from a port. \<open>ata_disk\<close> is what the driver relies on: the documented behaviour of an ATA
  drive in PIO mode. An out-parameter that a function fills byte by byte is returned as the list of
  these bytes, in the order of the stores.
\<close>

section \<open>Ports\<close>

datatype io_event = Out8 u16 u8 | In8 u16 u8 | In16 u16 u16

record iostate = tstate +
  ports :: "io_event list"
  device :: "io_event list \<Rightarrow> u16 \<Rightarrow> u16"

definition outb :: "u16 \<Rightarrow> u8 \<Rightarrow> 'a iostate_scheme \<Rightarrow> 'a iostate_scheme" where
  "outb port v s = s\<lparr>ports := ports s @ [Out8 port v]\<rparr>"

definition insb :: "u16 \<Rightarrow> 'a iostate_scheme \<Rightarrow> u8 \<times> 'a iostate_scheme" where
  "insb port s = (let v = ucast (device s (ports s) port) in (v, s\<lparr>ports := ports s @ [In8 port v]\<rparr>))"

definition insw :: "u16 \<Rightarrow> 'a iostate_scheme \<Rightarrow> u16 \<times> 'a iostate_scheme" where
  "insw port s = (let v = device s (ports s) port in (v, s\<lparr>ports := ports s @ [In16 port v]\<rparr>))"

section \<open>disk.c\<close>

text \<open>
  The global \<^verbatim>\<open>disk\<close>: its address (given by the linker) and its fields; \<open>sector_size\<close> and \<open>id\<close> are
  C \<^verbatim>\<open>int\<close>s, the two pointers are addresses.
\<close>

record dstate = iostate +
  disk_at :: u32
  disk_type :: u32
  sector_size :: int
  disk_id :: int
  disk_filesystem :: u32
  fs_private :: u32

definition GUAVAOS_DISK_TYPE_REAL :: u32 where "GUAVAOS_DISK_TYPE_REAL = 0"
definition GUAVAOS_SECTOR_SIZE :: int where "GUAVAOS_SECTOR_SIZE = 512"

text \<open>The loop that waits until the status byte shows a ready buffer.\<close>

partial_function (option) ata_wait :: "'a iostate_scheme \<Rightarrow> 'a iostate_scheme option" where
  "ata_wait s = (case insb 0x1F7 s of (c, s1) \<Rightarrow> if c AND 0x08 \<noteq> 0 then Some s1 else ata_wait s1)"

fun ata_words :: "nat \<Rightarrow> 'a iostate_scheme \<Rightarrow> u16 list \<times> 'a iostate_scheme" where
  "ata_words 0 s = ([], s)"
| "ata_words (Suc j) s =
     (let (w, s1) = insw 0x1F0 s; (ws, s2) = ata_words j s1 in (w # ws, s2))"

fun ata_blocks :: "nat \<Rightarrow> 'a iostate_scheme \<Rightarrow> (u16 list \<times> 'a iostate_scheme) outcome" where
  "ata_blocks 0 s = Inr ([], s)"
| "ata_blocks (Suc i) s =
     (case ata_wait s of None \<Rightarrow> Inl Halted
      | Some s1 \<Rightarrow> let (ws, s2) = ata_words 256 s1
                  in bnd (ata_blocks i s2) (\<lambda>(rest, s3). Inr (ws @ rest, s3)))"

definition word_bytes :: "u16 \<Rightarrow> u8 list" where
  "word_bytes w = [ucast w, ucast (drop_bit 8 w)]"

text \<open>
  \<^verbatim>\<open>int disk_read_sector(int lba, int total, void* buffer)\<close>: the bytes stored from \<open>buffer\<close> on are
  the second component.
\<close>

definition disk_read_sector ::
  "u32 \<Rightarrow> int \<Rightarrow> 'a iostate_scheme \<Rightarrow> (int \<times> u8 list \<times> 'a iostate_scheme) outcome" where
  "disk_read_sector lba tot s =
     (let s1 = outb 0x1F6 (ucast (signed_drop_bit 24 lba OR 0xE0)) s;
          s2 = outb 0x1F2 (word_of_int tot) s1;
          s3 = outb 0x1F3 (ucast (lba AND 0xFF)) s2;
          s4 = outb 0x1F4 (ucast (signed_drop_bit 8 lba)) s3;
          s5 = outb 0x1F5 (ucast (signed_drop_bit 16 lba)) s4;
          s6 = outb 0x1F7 0x20 s5
      in bnd (ata_blocks (nat tot) s6) (\<lambda>(ws, s7).
           Inr (0, concat (map word_bytes ws), s7)))"

definition disk_get :: "int \<Rightarrow> 'a dstate_scheme \<Rightarrow> u32" where
  "disk_get index s = (if index \<noteq> 0 then 0 else disk_at s)"

definition disk_read_block ::
  "u32 \<Rightarrow> u32 \<Rightarrow> int \<Rightarrow> 'a dstate_scheme \<Rightarrow> (int \<times> u8 list \<times> 'a dstate_scheme) outcome" where
  "disk_read_block idisk lba tot s =
     (if idisk \<noteq> disk_at s then Inr (- EIO, [], s) else disk_read_sector lba tot s)"

section \<open>streamer.c\<close>

text \<open>\<^verbatim>\<open>struct disk_stream\<close> lives in a heap block: \<open>pos\<close> at offset 0, \<open>disk\<close> at offset 4.\<close>

definition diskstreamer_new :: "int \<Rightarrow> 'a dstate_scheme \<Rightarrow> (u32 \<times> 'a dstate_scheme) outcome" where
  "diskstreamer_new index s =
     (if disk_get index s = 0 then Inr (0, s)
      else bnd (kzalloc 8 s) (\<lambda>(streamer, s1).
        Inr (streamer, st32 (streamer + 4) (disk_get index s1) (st32 streamer 0 s1))))"

definition diskstreamer_seek :: "u32 \<Rightarrow> u32 \<Rightarrow> 'a kstate_scheme \<Rightarrow> int \<times> 'a kstate_scheme" where
  "diskstreamer_seek stream pos s = (0, st32 stream pos s)"

text \<open>
  The copy out of the 512-byte local \<open>buff\<close>: an index past it is \<open>Inl Undefined\<close>.
\<close>

fun copy_from :: "u8 list \<Rightarrow> int \<Rightarrow> nat \<Rightarrow> u8 list outcome" where
  "copy_from buff i 0 = Inr []"
| "copy_from buff i (Suc k) =
     bnd (arr_get buff i) (\<lambda>c. bnd (copy_from buff (i + 1) k) (\<lambda>cs. Inr (c # cs)))"

function diskstreamer_read ::
  "u32 \<Rightarrow> int \<Rightarrow> 'a dstate_scheme \<Rightarrow> (int \<times> u8 list \<times> 'a dstate_scheme) outcome" where
  "diskstreamer_read stream tot s =
     (let pos = sint (load32 (mem s) stream);
          sector = pos sdiv GUAVAOS_SECTOR_SIZE;
          offset = pos smod GUAVAOS_SECTOR_SIZE
      in bnd (disk_read_block (load32 (mem s) (stream + 4)) (word_of_int sector) 1 s) (\<lambda>(res, buff, s1).
        if res < 0 then Inr (res, [], s1)
        else
          let total_to_read = (if GUAVAOS_SECTOR_SIZE < tot then GUAVAOS_SECTOR_SIZE else tot)
          in bnd (copy_from buff offset (nat total_to_read)) (\<lambda>out.
            let s2 = st32 stream (load32 (mem s1) stream + word_of_int total_to_read) s1
            in if GUAVAOS_SECTOR_SIZE < tot
               then bnd (diskstreamer_read stream (tot - GUAVAOS_SECTOR_SIZE) s2) (\<lambda>(res', out', s3).
                      Inr (res', out @ out', s3))
               else Inr (res, out, s2))))"
  by pat_completeness auto
termination
  by (relation "measure (\<lambda>(stream, tot, s). nat tot)") (auto simp: GUAVAOS_SECTOR_SIZE_def)

declare diskstreamer_read.simps [simp del]

definition diskstreamer_close :: "u32 \<Rightarrow> 'a kstate_scheme \<Rightarrow> 'a kstate_scheme outcome" where
  "diskstreamer_close stream s = kfree stream s"

section \<open>A disk behind the ports\<close>

text \<open>
  What the driver assumes of the drive. After the six register writes that ask for one sector, the
  drive sets the ready bit of the status register after finitely many reads of it, and then gives
  the 256 words of the sector to as many reads of the data register.
\<close>

definition status_reads :: "io_event list \<Rightarrow> bool" where
  "status_reads es \<longleftrightarrow> (\<forall>e \<in> set es. \<exists>v. e = In8 0x1F7 v)"

definition data_reads :: "io_event list \<Rightarrow> bool" where
  "data_reads es \<longleftrightarrow> (\<forall>e \<in> set es. \<exists>v. e = In16 0x1F0 v)"

definition ata_command :: "u32 \<Rightarrow> io_event list" where
  "ata_command lba =
     [Out8 0x1F6 (ucast (signed_drop_bit 24 lba OR 0xE0)), Out8 0x1F2 1, Out8 0x1F3 (ucast (lba AND 0xFF)),
      Out8 0x1F4 (ucast (signed_drop_bit 8 lba)), Out8 0x1F5 (ucast (signed_drop_bit 16 lba)), Out8 0x1F7 0x20]"

definition ata_disk :: "(io_event list \<Rightarrow> u16 \<Rightarrow> u16) \<Rightarrow> (nat \<Rightarrow> u16 list) \<Rightarrow> bool" where
  "ata_disk dev img \<longleftrightarrow>
     (\<forall>k. length (img k) = 256)
     \<and> (\<forall>h lba. unat lba < 2 ^ 28 \<longrightarrow> (\<exists>n. \<forall>es. status_reads es \<longrightarrow> n \<le> length es \<longrightarrow>
          (ucast (dev (h @ ata_command lba @ es) 0x1F7) :: u8) AND 8 \<noteq> 0))
     \<and> (\<forall>h lba es ws. unat lba < 2 ^ 28 \<longrightarrow> status_reads es \<longrightarrow> data_reads ws \<longrightarrow> length ws < 256 \<longrightarrow>
          dev (h @ ata_command lba @ es @ ws) 0x1F0 = img (unat lba) ! length ws)"

definition sector_bytes :: "(nat \<Rightarrow> u16 list) \<Rightarrow> nat \<Rightarrow> u8 list" where
  "sector_bytes img k = concat (map word_bytes (img k))"

text \<open>The byte at a position of the disk.\<close>

definition disk_byte :: "(nat \<Rightarrow> u16 list) \<Rightarrow> nat \<Rightarrow> u8" where
  "disk_byte img p = sector_bytes img (p div 512) ! (p mod 512)"

lemma length_concat_word_bytes: "length (concat (map word_bytes ws)) = 2 * length ws"
  by (induction ws) (simp_all add: word_bytes_def)

lemma length_sector_bytes: "ata_disk dev img \<Longrightarrow> length (sector_bytes img k) = 512"
  by (simp add: sector_bytes_def length_concat_word_bytes ata_disk_def)

lemma status_reads_snoc: "status_reads es \<Longrightarrow> status_reads (es @ [In8 0x1F7 v])"
  and status_reads_Nil [simp]: "status_reads []"
  and data_reads_snoc: "data_reads ws \<Longrightarrow> data_reads (ws @ [In16 0x1F0 w])"
  and data_reads_Nil [simp]: "data_reads []"
  by (auto simp: status_reads_def data_reads_def)

lemma ata_wait_ready:
  assumes "\<And>es. status_reads es \<Longrightarrow> n \<le> length es \<Longrightarrow>
      (ucast (device s (ports s @ es) 0x1F7) :: u8) AND 8 \<noteq> 0"
  shows "\<exists>es. status_reads es \<and> ata_wait s = Some (s\<lparr>ports := ports s @ es\<rparr>)"
  using assms
proof (induction n arbitrary: s)
  case 0
  from 0 [of "[]"] have "(ucast (device s (ports s) 0x1F7) :: u8) AND 8 \<noteq> 0" by simp
  then show ?case
    by (subst ata_wait.simps, intro exI [of _ "[In8 0x1F7 (ucast (device s (ports s) 0x1F7))]"])
      (simp add: insb_def status_reads_def Let_def)
next
  case (Suc n)
  define v :: u8 where "v = ucast (device s (ports s) 0x1F7)"
  define s1 where "s1 = s\<lparr>ports := ports s @ [In8 0x1F7 v]\<rparr>"
  have step: "ata_wait s = (if v AND 8 \<noteq> 0 then Some s1 else ata_wait s1)"
    by (subst ata_wait.simps) (simp add: insb_def v_def s1_def Let_def)
  have one: "status_reads [In8 0x1F7 v]" by (simp add: status_reads_def)
  show ?case
  proof (cases "v AND 8 = 0")
    case False
    then show ?thesis using step one by (intro exI [of _ "[In8 0x1F7 v]"]) (simp add: s1_def)
  next
    case True
    have "(ucast (device s1 (ports s1 @ es) 0x1F7) :: u8) AND 8 \<noteq> 0"
      if "status_reads es" "n \<le> length es" for es
    proof -
      have "status_reads (In8 0x1F7 v # es)" using that(1) by (simp add: status_reads_def)
      from Suc.prems [OF this] that(2) show ?thesis by (simp add: s1_def)
    qed
    from Suc.IH [OF this] obtain es where "status_reads es" "ata_wait s1 = Some (s1\<lparr>ports := ports s1 @ es\<rparr>)"
      by blast
    then show ?thesis using step True
      by (intro exI [of _ "In8 0x1F7 v # es"]) (simp add: s1_def status_reads_def)
  qed
qed

lemma ata_words_list:
  assumes "\<And>ws. data_reads ws \<Longrightarrow> length ws < length xs \<Longrightarrow>
      device s (ports s @ ws) 0x1F0 = xs ! length ws"
  shows "\<exists>es. ata_words (length xs) s = (xs, s\<lparr>ports := ports s @ es\<rparr>)"
  using assms
proof (induction xs arbitrary: s)
  case (Cons x xs)
  define s1 where "s1 = s\<lparr>ports := ports s @ [In16 0x1F0 x]\<rparr>"
  have rd: "insw 0x1F0 s = (x, s1)"
    using Cons.prems [of "[]"] by (simp add: insw_def s1_def Let_def)
  have "device s1 (ports s1 @ ws) 0x1F0 = xs ! length ws" if "data_reads ws" "length ws < length xs" for ws
  proof -
    have "data_reads (In16 0x1F0 x # ws)" using that(1) by (simp add: data_reads_def)
    from Cons.prems [OF this] that(2) show ?thesis by (simp add: s1_def)
  qed
  from Cons.IH [OF this] obtain es where "ata_words (length xs) s1 = (xs, s1\<lparr>ports := ports s1 @ es\<rparr>)"
    by blast
  then show ?case using rd by (intro exI [of _ "In16 0x1F0 x # es"]) (simp add: s1_def)
qed (intro exI [of _ "[]"], simp)

lemma disk_read_sector_ok:
  assumes "ata_disk (device s) img" "unat lba < 2 ^ 28"
  shows "\<exists>es. disk_read_sector lba 1 s = Inr (0, sector_bytes img (unat lba), s\<lparr>ports := ports s @ es\<rparr>)"
proof -
  define s6 where "s6 = s\<lparr>ports := ports s @ ata_command lba\<rparr>"
  have run: "disk_read_sector lba 1 s = bnd (ata_blocks 1 s6) (\<lambda>(ws, s7). Inr (0, concat (map word_bytes ws), s7))"
    by (simp add: disk_read_sector_def outb_def s6_def ata_command_def Let_def)
  obtain n where n: "\<And>es. status_reads es \<Longrightarrow> n \<le> length es \<Longrightarrow>
      (ucast (device s (ports s @ ata_command lba @ es) 0x1F7) :: u8) AND 8 \<noteq> 0"
    using assms unfolding ata_disk_def by metis
  have "(ucast (device s6 (ports s6 @ es) 0x1F7) :: u8) AND 8 \<noteq> 0" if "status_reads es" "n \<le> length es" for es
    using n [OF that] by (simp add: s6_def)
  from ata_wait_ready [of n s6, OF this] obtain es where
    es: "status_reads es" "ata_wait s6 = Some (s6\<lparr>ports := ports s6 @ es\<rparr>)" by blast
  define s7 where "s7 = s6\<lparr>ports := ports s6 @ es\<rparr>"
  have "device s7 (ports s7 @ ws) 0x1F0 = img (unat lba) ! length ws" if "data_reads ws" "length ws < 256" for ws
    using assms es(1) that unfolding ata_disk_def by (simp add: s7_def s6_def)
  moreover have len: "length (img (unat lba)) = 256" using assms(1) by (simp add: ata_disk_def)
  ultimately obtain ds where "ata_words 256 s7 = (img (unat lba), s7\<lparr>ports := ports s7 @ ds\<rparr>)"
    using ata_words_list [of "img (unat lba)" s7] by (metis (no_types, lifting))
  then have "ata_blocks 1 s6 = Inr (img (unat lba), s7\<lparr>ports := ports s7 @ ds\<rparr>)"
    using es(2) by (simp add: s7_def [symmetric])
  then show ?thesis
    by (intro exI [of _ "ata_command lba @ es @ ds"])
      (simp add: run sector_bytes_def s7_def s6_def)
qed

text \<open>
  Every image has such a drive: it decodes the last value written to each register and counts the
  words read since the last command. This shows that \<open>ata_disk\<close> can hold, and serves the witnesses.
\<close>

fun last_out :: "u16 \<Rightarrow> io_event list \<Rightarrow> u8" where
  "last_out p [] = 0"
| "last_out p (Out8 q v # es) = (if p = q then v else last_out p es)"
| "last_out p (In8 q v # es) = last_out p es"
| "last_out p (In16 q w # es) = last_out p es"

fun data_count :: "io_event list \<Rightarrow> nat" where
  "data_count (In16 q w # es) = Suc (data_count es)"
| "data_count es = 0"

definition ata_lba :: "io_event list \<Rightarrow> u32" where
  "ata_lba es = ucast (last_out 0x1F3 es) OR push_bit 8 (ucast (last_out 0x1F4 es))
     OR push_bit 16 (ucast (last_out 0x1F5 es)) OR push_bit 24 (ucast (last_out 0x1F6 es AND 0xF))"

definition ata_of :: "(nat \<Rightarrow> u16 list) \<Rightarrow> io_event list \<Rightarrow> u16 \<Rightarrow> u16" where
  "ata_of img h port =
     (if port = 0x1F7 then 8
      else let es = rev h in img (unat (ata_lba es)) ! data_count es)"

lemma last_out_reads: "status_reads es \<Longrightarrow> last_out p (es @ h) = last_out p h"
  "data_reads es \<Longrightarrow> last_out p (es @ h) = last_out p h"
  by (induction es) (auto simp: status_reads_def data_reads_def)

lemma data_count_reads: "data_reads ws \<Longrightarrow> data_count (ws @ es) = length ws + data_count es"
  by (induction ws) (auto simp: data_reads_def)

lemma data_count_status: "status_reads es \<Longrightarrow> data_count (es @ Out8 q v # h) = 0"
  by (cases es) (auto simp: status_reads_def)

lemma high_bits_clear:
  assumes "unat (x :: u32) < 2 ^ 28" "28 \<le> n"
  shows "\<not> bit x n"
proof -
  have "unat (take_bit 28 x) = unat x"
    using assms(1) by (simp add: unsigned_take_bit_eq take_bit_nat_eq_self)
  then have "take_bit 28 x = x" by (simp only: word_unat_eq_iff)
  then show ?thesis using assms(2) by (metis bit_take_bit_iff not_less)
qed

lemma signed_drop_bit_small:
  assumes "unat (x :: u32) < 2 ^ 28"
  shows "signed_drop_bit k x = drop_bit k x"
proof (rule bit_word_eqI)
  fix n
  assume "n < LENGTH(32)"
  then show "bit (signed_drop_bit k x) n = bit (drop_bit k x) n"
    using high_bits_clear [OF assms, of 31] bit_imp_le_length [of x "k + n"]
    by (auto simp: bit_signed_drop_bit_iff bit_drop_bit_eq)
qed

lemma nibble: "((x :: u8) OR 0xE0) AND 0xF = x AND 0xF"
proof -
  have "((x :: u8) OR 0xE0) AND 0xF = (x AND 0xF) OR (0xE0 AND 0xF)" by (rule bit.conj_disj_distrib2)
  then show ?thesis by simp
qed

lemma ata_lba_command:
  assumes "unat lba < 2 ^ 28"
  shows "ata_lba (rev (ata_command lba) @ h) = lba"
proof (rule bit_word_eqI)
  fix n
  assume "n < LENGTH(32)"
  then consider "n < 8" | "8 \<le> n" "n < 16" | "16 \<le> n" "n < 24" | "24 \<le> n" "n < 28" | "28 \<le> n"
    by (simp, linarith)
  moreover have F: "(0xF :: u8) = mask 4" "(0xFF :: u32) = mask 8" by (simp_all add: mask_eq_exp_minus_1)
  have six: "(ucast (drop_bit 24 lba OR 0xE0) :: u8) AND 0xF = ucast (drop_bit 24 lba) AND mask 4"
  proof -
    have "(ucast (drop_bit 24 lba OR 0xE0) :: u8) = ucast (drop_bit 24 lba) OR 0xE0"
      by (simp add: unsigned_or_eq)
    then have "(ucast (drop_bit 24 lba OR 0xE0) :: u8) AND 0xF = ucast (drop_bit 24 lba) AND 0xF"
      by (simp only: nibble)
    also have "\<dots> = ucast (drop_bit 24 lba) AND mask 4" by (simp only: F(1))
    finally show ?thesis .
  qed
  ultimately show "bit (ata_lba (rev (ata_command lba) @ h)) n = bit lba n"
    using high_bits_clear [OF assms, of n]
    unfolding ata_lba_def ata_command_def signed_drop_bit_small [OF assms]
    by cases (auto simp: six F(2) bit_simps simp del: mask_numeral)
qed

lemma ata_of_disk:
  assumes "\<And>k. length (img k) = 256"
  shows "ata_disk (ata_of img) img"
proof -
  have regs: "ata_lba (rev (h @ ata_command lba @ es @ ws)) = lba"
    if "unat lba < 2 ^ 28" "status_reads es" "data_reads ws" for h lba es ws
  proof -
    have "status_reads (rev es)" "data_reads (rev ws)" using that by (simp_all add: status_reads_def data_reads_def)
    then have "last_out p (rev (h @ ata_command lba @ es @ ws)) = last_out p (rev (ata_command lba) @ rev h)" for p
      by (simp add: last_out_reads)
    then show ?thesis using ata_lba_command [OF that(1), of "rev h"] by (simp add: ata_lba_def)
  qed
  have cnt: "data_count (rev (h @ ata_command lba @ es @ ws)) = length ws"
    if "status_reads es" "data_reads ws" for h lba es ws
  proof -
    have "status_reads (rev es)" "data_reads (rev ws)" using that by (simp_all add: status_reads_def data_reads_def)
    then show ?thesis by (simp add: data_count_reads ata_command_def data_count_status)
  qed
  show ?thesis
    unfolding ata_disk_def
  proof (intro conjI allI impI)
    show "length (img k) = 256" for k by (rule assms)
    show "\<exists>n. \<forall>es. status_reads es \<longrightarrow> n \<le> length es \<longrightarrow>
        (ucast (ata_of img (h @ ata_command lba @ es) 0x1F7) :: u8) AND 8 \<noteq> 0" for h lba
      by (simp add: ata_of_def)
    show "ata_of img (h @ ata_command lba @ es @ ws) 0x1F0 = img (unat lba) ! length ws"
      if "unat lba < 2 ^ 28" "status_reads es" "data_reads ws" for h lba es ws
      using regs [OF that] cnt [OF that(2,3)] by (simp add: ata_of_def Let_def)
  qed
qed

section \<open>Streams read slices of the disk\<close>

lemma copy_from_in:
  "off + n \<le> length buff \<Longrightarrow> copy_from buff (int off) n = Inr (take n (drop off buff))"
proof (induction n arbitrary: off)
  case (Suc n)
  then have "copy_from buff (int (Suc off)) n = Inr (take n (drop (Suc off) buff))"
    by (intro Suc.IH) simp
  moreover have "take (Suc n) (drop off buff) = buff ! off # take n (drop (Suc off) buff)"
    using Suc.prems by (simp add: Cons_nth_drop_Suc [symmetric])
  ultimately show ?case using Suc.prems by (simp add: add.commute)
qed simp

lemma copy_from_out:
  "0 < n \<Longrightarrow> length buff < off + n \<Longrightarrow> copy_from buff (int off) n = Inl Undefined"
proof (induction n arbitrary: off)
  case (Suc n)
  show ?case
  proof (cases "off < length buff")
    case True
    then have "copy_from buff (int (Suc off)) n = Inl Undefined"
      using Suc.prems by (intro Suc.IH) auto
    then show ?thesis using True by (simp add: add.commute)
  qed simp
qed simp

lemma take_drop_sector:
  assumes "length (sector_bytes img (p div 512)) = 512" "p mod 512 + n \<le> 512"
  shows "take n (drop (p mod 512) (sector_bytes img (p div 512))) = map (disk_byte img) [p..<p + n]"
proof (rule nth_equalityI)
  fix i
  assume "i < length (take n (drop (p mod 512) (sector_bytes img (p div 512))))"
  then have i: "i < n" by simp
  define q r where "q = p div 512" and "r = p mod 512"
  have eq: "p + i = r + i + 512 * q" by (simp add: q_def r_def)
  have "r + i < 512" using assms(2) i by (simp add: r_def)
  then have "(r + i + 512 * q) div 512 = q" "(r + i + 512 * q) mod 512 = r + i" by simp_all
  then have "(p + i) div 512 = p div 512" "(p + i) mod 512 = p mod 512 + i"
    unfolding eq by (simp_all only: q_def r_def)
  then show "take n (drop (p mod 512) (sector_bytes img (p div 512))) ! i = map (disk_byte img) [p..<p + n] ! i"
    using assms i by (simp add: disk_byte_def)
qed (use assms in simp)

lemma store32_twice [simp]: "store32 (store32 m a v) a w = store32 m a w"
  by (rule ext) (simp add: store32_def)

definition stream_at :: "u32 \<Rightarrow> nat \<Rightarrow> 'a dstate_scheme \<Rightarrow> bool" where
  "stream_at st p s \<longleftrightarrow> load32 (mem s) st = word_of_nat p \<and> load32 (mem s) (st + 4) = disk_at s"

lemma nat_divs: "int p sdiv 512 = int (p div 512)" "int p smod 512 = int (p mod 512)"
  by (cases "p = 0"; simp add: signed_divide_int_def signed_modulo_int_def zdiv_int zmod_int minus_div_mult_eq_mod)+

lemma stream_sector:
  assumes "ata_disk (device s) img" "stream_at st p s" "p < 2 ^ 31"
  shows "sint (load32 (mem s) st) = int p"
    "\<exists>es. disk_read_block (load32 (mem s) (st + 4)) (word_of_int (int p sdiv GUAVAOS_SECTOR_SIZE)) 1 s =
       Inr (0, sector_bytes img (p div 512), s\<lparr>ports := ports s @ es\<rparr>)"
proof -
  have "unat (word_of_nat p :: u32) = p" using assms(3) by (intro unat_of_nat32) simp
  then show "sint (load32 (mem s) st) = int p"
    using sint_small [of "word_of_nat p"] assms(2,3) by (simp add: stream_at_def)
  have u: "unat (word_of_nat (p div 512) :: u32) = p div 512" using assms(3) by (intro unat_of_nat32) simp
  then show "\<exists>es. disk_read_block (load32 (mem s) (st + 4)) (word_of_int (int p sdiv GUAVAOS_SECTOR_SIZE)) 1 s =
       Inr (0, sector_bytes img (p div 512), s\<lparr>ports := ports s @ es\<rparr>)"
    using disk_read_sector_ok [OF assms(1), of "word_of_nat (p div 512)"] assms(2,3)
    by (simp add: disk_read_block_def stream_at_def nat_divs GUAVAOS_SECTOR_SIZE_def)
qed

lemma load32_store32_next: "load32 (store32 m a w) (a + 4) = load32 m (a + 4)"
  by (simp add: load32_def store32_def)

lemma ports_mem [simp]: "s\<lparr>ports := p, mem := m\<rparr> = (s\<lparr>mem := m, ports := p\<rparr> :: 'a iostate_scheme)"
  by (cases s) simp

text \<open>One round of the stream reader on a working disk.\<close>

lemma diskstreamer_read_step:
  assumes "ata_disk (device s) img" "stream_at st p s" "p < 2 ^ 31"
  obtains es where "diskstreamer_read st (int n) s =
    bnd (copy_from (sector_bytes img (p div 512)) (int (p mod 512)) (min n 512)) (\<lambda>out.
      let s2 = s\<lparr>mem := store32 (mem s) st (word_of_nat (p + min n 512)), ports := ports s @ es\<rparr>
      in if 512 < n then bnd (diskstreamer_read st (int (n - 512)) s2) (\<lambda>(res', out', s3). Inr (res', out @ out', s3))
         else Inr (0, out, s2))"
proof -
  obtain es where rd: "disk_read_block (load32 (mem s) (st + 4)) (word_of_int (int p sdiv GUAVAOS_SECTOR_SIZE)) 1 s =
       Inr (0, sector_bytes img (p div 512), s\<lparr>ports := ports s @ es\<rparr>)"
    using stream_sector(2) [OF assms] by blast
  have w: "load32 (mem s) st = word_of_nat p" using assms(2) by (simp add: stream_at_def)
  have pos: "sint (word_of_nat p :: u32) = int p" using stream_sector(1) [OF assms] by (simp add: w)
  show thesis
  proof (rule that)
    show "diskstreamer_read st (int n) s =
      bnd (copy_from (sector_bytes img (p div 512)) (int (p mod 512)) (min n 512)) (\<lambda>out.
        let s2 = s\<lparr>mem := store32 (mem s) st (word_of_nat (p + min n 512)), ports := ports s @ es\<rparr>
        in if 512 < n then bnd (diskstreamer_read st (int (n - 512)) s2) (\<lambda>(res', out', s3). Inr (res', out @ out', s3))
           else Inr (0, out, s2))"
    proof (cases "512 < n")
      case True
      then have "int n - 512 = int (n - 512)" by simp
      with True rd show ?thesis
        by (subst diskstreamer_read.simps) (simp add: w pos nat_divs GUAVAOS_SECTOR_SIZE_def st32_def Let_def)
    next
      case False
      with rd show ?thesis
        by (subst diskstreamer_read.simps) (simp add: w pos nat_divs GUAVAOS_SECTOR_SIZE_def st32_def Let_def)
    qed
  qed
qed

lemma diskstreamer_read_ok:
  assumes "ata_disk (device s) img" "stream_at st p s" "p + n < 2 ^ 31"
    "p mod 512 = 0 \<or> p mod 512 + n \<le> 512"
  shows "\<exists>es. diskstreamer_read st (int n) s = Inr (0, map (disk_byte img) [p..<p + n],
    s\<lparr>mem := store32 (mem s) st (word_of_nat (p + n)), ports := ports s @ es\<rparr>)"
  using assms
proof (induction n arbitrary: s p rule: less_induct)
  case (less n)
  have p31: "p < 2 ^ 31" using less.prems(3) by simp
  have len: "length (sector_bytes img k) = 512" for k by (rule length_sector_bytes [OF less.prems(1)])
  obtain es where step: "diskstreamer_read st (int n) s =
    bnd (copy_from (sector_bytes img (p div 512)) (int (p mod 512)) (min n 512)) (\<lambda>out.
      let s2 = s\<lparr>mem := store32 (mem s) st (word_of_nat (p + min n 512)), ports := ports s @ es\<rparr>
      in if 512 < n then bnd (diskstreamer_read st (int (n - 512)) s2) (\<lambda>(res', out', s3). Inr (res', out @ out', s3))
         else Inr (0, out, s2))"
    by (rule diskstreamer_read_step [OF less.prems(1,2) p31])
  have b: "p mod 512 + min n 512 \<le> 512" using less.prems(4) by auto
  have c: "copy_from (sector_bytes img (p div 512)) (int (p mod 512)) (min n 512) =
      Inr (map (disk_byte img) [p..<p + min n 512])"
    using copy_from_in [of "p mod 512" "min n 512" "sector_bytes img (p div 512)"] take_drop_sector [OF len b] b len
    by simp
  show ?case
  proof (cases "512 < n")
    case False
    then have m: "min n 512 = n" by simp
    show ?thesis unfolding step m c [unfolded m] bnd.simps Let_def if_not_P [OF False] by (rule exI, rule refl)
  next
    case True
    then have al: "p mod 512 = 0" "min n 512 = 512" using less.prems(4) by auto
    define s2 where "s2 = s\<lparr>mem := store32 (mem s) st (word_of_nat (p + 512)), ports := ports s @ es\<rparr>"
    have st2: "stream_at st (p + 512) s2" and d2: "ata_disk (device s2) img"
      using less.prems(1,2) by (simp_all add: stream_at_def s2_def load32_store32_next)
    have e: "p + 512 + (n - 512) = p + n" using True by simp
    have "(p + 512) mod 512 = 0" using al(1) by simp
    then obtain es' where ih: "diskstreamer_read st (int (n - 512)) s2 =
        Inr (0, map (disk_byte img) [p + 512..<p + n],
          s2\<lparr>mem := store32 (mem s2) st (word_of_nat (p + n)), ports := ports s2 @ es'\<rparr>)"
      using less.IH [OF _ d2 st2, of "n - 512"] True less.prems(3) unfolding e by auto
    have split: "[p..<p + n] = [p..<p + 512] @ [p + 512..<p + n]"
      using upt_add_eq_append [of p "p + 512" "n - 512"] e by (simp del: upt_Suc)
    have "diskstreamer_read st (int n) s = bnd (diskstreamer_read st (int (n - 512)) s2)
        (\<lambda>(res', out', s3). Inr (res', map (disk_byte img) [p..<p + 512] @ out', s3))"
      unfolding step al(2) c [unfolded al(2)] s2_def using True by (simp only: bnd.simps Let_def if_True)
    then show ?thesis
      unfolding ih split by (intro exI [of _ "es @ es'"]) (simp add: s2_def)
  qed
qed

text \<open>A read that starts inside a sector and crosses its end leaves the local buffer.\<close>

lemma diskstreamer_read_crossing:
  assumes "ata_disk (device s) img" "stream_at st p s" "p < 2 ^ 31" "p mod 512 \<noteq> 0" "512 < p mod 512 + n"
  shows "diskstreamer_read st (int n) s = Inl Undefined"
proof -
  have len: "length (sector_bytes img k) = 512" for k by (rule length_sector_bytes [OF assms(1)])
  have "p mod 512 < 512" by simp
  then have "0 < min n 512" "512 < p mod 512 + min n 512" using assms(4,5) by auto
  then have c: "copy_from (sector_bytes img (p div 512)) (int (p mod 512)) (min n 512) = Inl Undefined"
    using copy_from_out len by metis
  show ?thesis by (rule diskstreamer_read_step [OF assms(1-3), of n]) (simp add: c)
qed

lemma stream_at_intro:
  "stream_at st p s \<Longrightarrow> stream_at st q (s\<lparr>mem := store32 (mem s) st (word_of_nat q), ports := es\<rparr>)"
  by (simp add: stream_at_def load32_store32_next)

section \<open>Properties: disk.c, streamer.c\<close>

text \<open>A state with a stream at address \<^verbatim>\<open>0x2000\<close> on a disk whose sector \<open>k\<close> holds words equal to \<open>k\<close>.\<close>

definition sample_img :: "nat \<Rightarrow> u16 list" where
  "sample_img k = replicate 256 (word_of_nat k)"

definition disk_sample :: "nat \<Rightarrow> dstate" where
  "disk_sample p = \<lparr>mem = store32 (store32 (\<lambda>_. 0) 0x2000 (word_of_nat p)) 0x2004 0x9000, video_mem = 0xB8000,
     terminal_row = 0, terminal_col = 0, kernel_heap = fresh_heap, cr3 = 0, paging_enabled = False,
     current_directory = 0, kernel_chunk = 0, current_task = 0, task_tail = 0, task_head = 0,
     data_segment = 0x10, ports = [], device = ata_of sample_img, disk_at = 0x9000, disk_type = 0,
     sector_size = 512, disk_id = 0, disk_filesystem = 0, fs_private = 0\<rparr>"

lemma disk_sample_ok:
  "ata_disk (device (disk_sample p)) sample_img" "stream_at 0x2000 p (disk_sample p)"
proof -
  show "ata_disk (device (disk_sample p)) sample_img"
    using ata_of_disk [of sample_img] by (simp add: disk_sample_def sample_img_def)
  have "load32 (store32 m 0x2004 w) 0x2000 = load32 m 0x2000" for m w
    by (simp add: load32_def store32_def)
  then show "stream_at 0x2000 p (disk_sample p)" by (simp add: stream_at_def disk_sample_def)
qed



text \<open>C21: \<open>diskstreamer_read\<close> of n bytes at position p reads exactly the bytes p to p + n - 1 of the disk and
  advances the stream by n, provided p is on a sector boundary or the bytes lie in one sector. When
  the read starts inside a sector and crosses its end it reads past the 512-byte local buffer.\<close>

theorem stream_read_slice:
  fixes s :: "'a dstate_scheme"
  assumes "ata_disk (device s) img" "stream_at st p s" "p + n < 2 ^ 31"
  shows "if p mod 512 = 0 \<or> p mod 512 + n \<le> 512
    then \<exists>s'. diskstreamer_read st (int n) s = Inr (0, map (disk_byte img) [p..<p + n], s')
      \<and> stream_at st (p + n) s'
    else diskstreamer_read st (int n) s = Inl Undefined"
proof (cases "p mod 512 = 0 \<or> p mod 512 + n \<le> 512")
  case True
  show ?thesis unfolding if_P [OF True]
    using diskstreamer_read_ok [OF assms True] stream_at_intro [OF assms(2), of "p + n"] by blast
next
  case False
  then have "p mod 512 \<noteq> 0" "512 < p mod 512 + n" "p < 2 ^ 31" using assms(3) by auto
  with diskstreamer_read_crossing [OF assms(1,2)] False show ?thesis by simp
qed

theorem stream_read_slice_witness:
  "(\<exists>s'. diskstreamer_read 0x2000 600 (disk_sample 512) = Inr (0, map (disk_byte sample_img) [512..<1112], s'))
   \<and> diskstreamer_read 0x2000 600 (disk_sample 10) = Inl Undefined"
  using stream_read_slice [OF disk_sample_ok, of 512 600] stream_read_slice [OF disk_sample_ok, of 10 600]
  by (simp del: upt_rec_numeral) blast

end
