(* ===== verification/TaskCopy.thy ===== *)
theory TaskCopy
  imports Task
begin

text \<open>
  Reading a task's memory from the kernel: the correctness of \<^verbatim>\<open>copy_string_from_task\<close>. The routine
  allocates a scratch page, maps it to itself in the task's space, copies the string while the
  task's directory is loaded, puts the old entry back and copies again to the kernel's buffer.
  \<open>vstrncpy_loop_sim\<close> relates the copy through the page tables to the flat copy of string.c,
  \<open>copy_setup\<close>, \<open>ready_copy\<close>, \<open>ready_kernel\<close> and \<open>copy_back\<close> are the stages of the routine, and
  \<open>copy_string_from_task_ok\<close> puts them together.
\<close>

section \<open>Copying a string out of a task\<close>

lemma vstore8_tr:
  "paging_enabled s \<Longrightarrow> mmu_walk (mem s) (cr3 s) v = Some a \<Longrightarrow> vstore8 v c s = Inr (s\<lparr>mem := (mem s)(a := c)\<rparr>)"
  by (simp add: vstore8_def virt_to_phys_def)

lemma vload8_tr:
  "paging_enabled s \<Longrightarrow> mmu_walk (mem s) (cr3 s) v = Some a \<Longrightarrow> vload8 s v = Inr (mem s a)"
  by (simp add: vload8_def virt_to_phys_def)

text \<open>
  The loop through the tables does on the page \<open>tmp\<close> what the flat loop does on a memory that
  shows the source characters at their virtual addresses.
\<close>

lemma vstrncpy_loop_sim:
  assumes pe: "paging_enabled s" and tmp: "page_aligned tmp" and ik: "i + k < 4096"
    and W: "\<And>m' v. (\<And>a. \<not> in_page tmp a \<Longrightarrow> m' a = mem s a) \<Longrightarrow>
      mmu_walk m' (cr3 s) v = mmu_walk (mem s) (cr3 s) v"
    and I: "\<And>j. j < 4096 \<Longrightarrow> mmu_walk (mem s) (cr3 s) (tmp + word_of_nat j) = Some (tmp + word_of_nat j)"
    and S: "\<And>j. i \<le> j \<Longrightarrow> j < i + k \<Longrightarrow> \<exists>a. mmu_walk (mem s) (cr3 s) (virt + word_of_nat j) = Some a
      \<and> \<not> in_page tmp a \<and> m (virt + word_of_nat j) = mem s a \<and> \<not> in_page tmp (virt + word_of_nat j)"
    and T: "\<And>j. j < 4096 \<Longrightarrow> m (tmp + word_of_nat j) = mem s (tmp + word_of_nat j)"
  shows "\<exists>m'. vstrncpy_loop tmp virt i k s = Inr (s\<lparr>mem := m'\<rparr>)
    \<and> (\<forall>a. \<not> in_page tmp a \<longrightarrow> m' a = mem s a)
    \<and> (\<forall>j < 4096. m' (tmp + word_of_nat j) = strncpy_loop tmp virt i k m (tmp + word_of_nat j))"
  using assms
proof (induction k arbitrary: i s m)
  case 0
  have st: "vstore8 (tmp + word_of_nat i) 0 s = Inr (s\<lparr>mem := (mem s)(tmp + word_of_nat i := 0)\<rparr>)"
    using vstore8_tr [OF 0(1) 0(5)] 0(3) by simp
  have "in_page tmp (tmp + word_of_nat i)" using in_page_offset [OF 0(2)] 0(3) by simp
  then show ?case using st 0(7) by (intro exI [of _ "(mem s)(tmp + word_of_nat i := 0)"]) (auto simp: fun_upd_def)
next
  case (Suc k)
  note pe = Suc.prems(1) and tmp = Suc.prems(2) and ik = Suc.prems(3) and W = Suc.prems(4)
    and I = Suc.prems(5) and S = Suc.prems(6) and T = Suc.prems(7)
  obtain a where a: "mmu_walk (mem s) (cr3 s) (virt + word_of_nat i) = Some a" "\<not> in_page tmp a"
    "m (virt + word_of_nat i) = mem s a" "\<not> in_page tmp (virt + word_of_nat i)"
    using S [of i] by auto
  have ld: "vload8 s (virt + word_of_nat i) = Inr (mem s a)" by (rule vload8_tr [OF pe a(1)])
  have st: "vstore8 (tmp + word_of_nat i) c s = Inr (s\<lparr>mem := (mem s)(tmp + word_of_nat i := c)\<rparr>)" for c
    using vstore8_tr [OF pe I] ik by simp
  have ip: "in_page tmp (tmp + word_of_nat i)" using in_page_offset [OF tmp] ik by simp
  show ?case
  proof (cases "mem s a = 0")
    case True
    then show ?thesis using ld st ip T a(3)
      by (intro exI [of _ "(mem s)(tmp + word_of_nat i := 0)"]) (auto simp: fun_upd_def)
  next
    case False
    define s1 where "s1 = s\<lparr>mem := (mem s)(tmp + word_of_nat i := mem s a)\<rparr>"
    define m1 where "m1 = m(tmp + word_of_nat i := mem s a)"
    have same: "mem s1 b = mem s b" if "\<not> in_page tmp b" for b using that ip by (auto simp: s1_def)
    have walk: "mmu_walk (mem s1) (cr3 s1) v = mmu_walk (mem s) (cr3 s) v" for v
      using W [of "mem s1"] same by (simp add: s1_def fun_upd_def)
    have W1: "mmu_walk m' (cr3 s1) v = mmu_walk (mem s1) (cr3 s1) v"
      if "\<And>b. \<not> in_page tmp b \<Longrightarrow> m' b = mem s1 b" for m' v
      unfolding walk using W [of m' v] that same by (simp add: s1_def)
    have S1: "\<exists>b. mmu_walk (mem s1) (cr3 s1) (virt + word_of_nat j) = Some b \<and> \<not> in_page tmp b
        \<and> m1 (virt + word_of_nat j) = mem s1 b \<and> \<not> in_page tmp (virt + word_of_nat j)"
      if j: "Suc i \<le> j" "j < Suc i + k" for j
    proof -
      obtain b where b: "mmu_walk (mem s) (cr3 s) (virt + word_of_nat j) = Some b" "\<not> in_page tmp b"
        "m (virt + word_of_nat j) = mem s b" "\<not> in_page tmp (virt + word_of_nat j)"
        using S [of j] Suc_leD [OF j(1)] j(2) by auto
      then show ?thesis using walk same [of b] ip by (auto simp: m1_def)
    qed
    have T1: "m1 (tmp + word_of_nat j) = mem s1 (tmp + word_of_nat j)" if "j < 4096" for j
      using T [OF that] by (simp add: m1_def s1_def)
    have "paging_enabled s1" "Suc i + k < 4096" using pe ik by (simp_all add: s1_def)
    from Suc.IH [OF this(1) tmp this(2) W1 _ S1 T1] I walk obtain m' where
      "vstrncpy_loop tmp virt (Suc i) k s1 = Inr (s1\<lparr>mem := m'\<rparr>)"
      "\<forall>b. \<not> in_page tmp b \<longrightarrow> m' b = mem s1 b"
      "\<forall>j < 4096. m' (tmp + word_of_nat j) = strncpy_loop tmp virt (Suc i) k m1 (tmp + word_of_nat j)"
      by auto
    then show ?thesis using ld st False a(3) same by (intro exI [of _ m']) (auto simp: s1_def m1_def)
  qed
qed

text \<open>What a task's memory looks like through its directory.\<close>

definition user_mem :: "memory \<Rightarrow> u32 \<Rightarrow> memory" where
  "user_mem m dir v = (case mmu_walk m dir v of None \<Rightarrow> 0 | Some a \<Rightarrow> m a)"

lemma cstr_upto_mem_cong:
  "(\<And>j. j < n \<Longrightarrow> m (p + word_of_nat j) = m' (q + word_of_nat j)) \<Longrightarrow> cstr_upto m p n = cstr_upto m' q n"
proof (induction n arbitrary: p q)
  case (Suc n)
  from Suc.prems [of 0] have "m p = m' q" by simp
  moreover have "cstr_upto m (p + 1) n = cstr_upto m' (q + 1) n"
    using Suc.prems [of "Suc j" for j] by (intro Suc.IH) (simp add: ac_simps)
  ultimately show ?case by simp
qed simp

lemma cstr_upto_take:
  "cstr_at m p s \<Longrightarrow> length s \<le> n \<Longrightarrow> cstr_upto m p n = s"
  by (simp add: cstr_upto_cstr)

lemma vstrncpy_page:
  assumes pe: "paging_enabled s" and tmp: "page_aligned tmp" and mx: "0 < mx" "mx < 4096"
    and W: "\<And>m' v. (\<And>a. \<not> in_page tmp a \<Longrightarrow> m' a = mem s a) \<Longrightarrow>
      mmu_walk m' (cr3 s) v = mmu_walk (mem s) (cr3 s) v"
    and I: "\<And>j. j < 4096 \<Longrightarrow> mmu_walk (mem s) (cr3 s) (tmp + word_of_nat j) = Some (tmp + word_of_nat j)"
    and S: "\<And>j. j < nat mx \<Longrightarrow> \<exists>a. mmu_walk (mem s) (cr3 s) (virt + word_of_nat j) = Some a
      \<and> \<not> in_page tmp a \<and> \<not> in_page tmp (virt + word_of_nat j)"
  shows "\<exists>m'. vstrncpy tmp virt mx s = Inr (s\<lparr>mem := m'\<rparr>)
    \<and> (\<forall>a. \<not> in_page tmp a \<longrightarrow> m' a = mem s a)
    \<and> cstr_at m' tmp (cstr_upto (user_mem (mem s) (cr3 s)) virt (nat (mx - 1)))"
proof -
  define m where "m = (\<lambda>a. if in_page tmp a then mem s a else user_mem (mem s) (cr3 s) a)"
  have mv: "m (virt + word_of_nat j) = user_mem (mem s) (cr3 s) (virt + word_of_nat j)" if "j < nat mx" for j
    using S [OF that] by (auto simp: m_def)
  have "0 + nat (mx - 1) < 4096" using mx by simp
  moreover have "\<exists>a. mmu_walk (mem s) (cr3 s) (virt + word_of_nat j) = Some a \<and> \<not> in_page tmp a
      \<and> m (virt + word_of_nat j) = mem s a \<and> \<not> in_page tmp (virt + word_of_nat j)"
    if "j < 0 + nat (mx - 1)" for j
  proof -
    have j: "j < nat mx" using that by linarith
    show ?thesis using S [OF j] mv [OF j] by (auto simp: user_mem_def)
  qed
  moreover have "m (tmp + word_of_nat j) = mem s (tmp + word_of_nat j)" if "j < 4096" for j
    using in_page_offset [OF tmp that] by (simp add: m_def)
  ultimately obtain m' where m': "vstrncpy_loop tmp virt 0 (nat (mx - 1)) s = Inr (s\<lparr>mem := m'\<rparr>)"
    "\<forall>a. \<not> in_page tmp a \<longrightarrow> m' a = mem s a"
    "\<forall>j < 4096. m' (tmp + word_of_nat j) = strncpy_loop tmp virt 0 (nat (mx - 1)) m (tmp + word_of_nat j)"
    using vstrncpy_loop_sim [OF pe tmp _ W I, of 0 "nat (mx - 1)" virt m] by blast
  have apart: "nat (mx - 1) \<le> unat (tmp - virt)"
  proof (rule ccontr)
    assume "\<not> nat (mx - 1) \<le> unat (tmp - virt)"
    then have "unat (tmp - virt) < nat mx" by linarith
    from S [OF this] have "\<not> in_page tmp (virt + word_of_nat (unat (tmp - virt)))" by blast
    then show False by simp
  qed
  have "mx < 2 ^ 31" using mx by simp
  note flat = strncpy_result(1) [OF apart this, of m]
  let ?s = "cstr_upto m virt (nat (mx - 1))"
  have len: "length ?s < 4096" using length_cstr_upto [of m virt "nat (mx - 1)"] mx by linarith
  have "cstr_at m' tmp ?s"
    using flat len m'(3) unfolding cstr_at_def strncpy_def by (auto simp: list_eq_iff_nth_eq)
  moreover have "?s = cstr_upto (user_mem (mem s) (cr3 s)) virt (nat (mx - 1))"
    by (rule cstr_upto_mem_cong) (use mv in simp)
  ultimately show ?thesis using m'(1,2) by (auto simp: vstrncpy_def)
qed

lemma kzalloc_frames_tmp:
  assumes "kheap_inv s" "0 < sz" "sz \<le> 4096" "kzalloc sz s = Inr (tmp, s1)" "tmp \<noteq> 0"
  shows "kheap_inv s1" "kheap_allocs s1 = insert (tmp, 1) (kheap_allocs s)" "page_aligned tmp"
    "\<And>q k. (q, k) \<in> kheap_allocs s \<Longrightarrow> q \<noteq> tmp" "\<And>a. \<not> in_page tmp a \<Longrightarrow> mem s1 a = mem s a"
    "heap_step s s1" "kheap_vacant s = Suc (kheap_vacant s1)"
proof -
  note v = valid_size_page [OF assms(2,3)] and b = blocks_of_page [OF assms(2,3)]
  note l = kz.alloc_law [OF assms(1) v assms(4,5), unfolded b]
  show "kheap_inv s1" "kheap_allocs s1 = insert (tmp, 1) (kheap_allocs s)"
    "kheap_vacant s = Suc (kheap_vacant s1)" using l by simp_all
  then have "(tmp, 1) \<in> kheap_allocs s1" by simp
  then show tal: "page_aligned tmp" using live_page_aligned l by blast
  show "q \<noteq> tmp" if "(q, k) \<in> kheap_allocs s" for q k
    using kz.alloc_base_new [OF assms(1) v assms(4,5) that] .
  show "mem s1 a = mem s a" if "\<not> in_page tmp a" for a
    using kz.alloc_frame [OF assms(1) v assms(4,5), of a] that tal by (simp add: b in_block_page)
  show "heap_step s s1" using assms(4,5) by (auto simp: kzalloc_Inr kmalloc_Inr heap_step_def)
qed

lemma walk_view_cong:
  assumes "page_aligned (load32 m chunk)" "space_present m chunk"
    "load32 m' chunk = load32 m chunk" "space_present m' chunk"
    "space_view m' chunk (page_base v) = space_view m chunk (page_base v)"
  shows "mmu_walk m' (load32 m chunk) v = mmu_walk m (load32 m chunk) v"
  using mmu_walk_view [OF assms(1,2)] mmu_walk_view [of m' chunk v] assms by simp

lemma page_base_page: "page_aligned p \<Longrightarrow> j < 4096 \<Longrightarrow> page_base (p + word_of_nat j) = p"
proof -
  assume p: "page_aligned p" and j: "j < 4096"
  have "unat (page_base (p + word_of_nat j)) div 4096 = unat p div 4096"
    unfolding page_base_div using in_page_offset [OF p j] by (simp add: in_page_def)
  then show ?thesis
    using in_page_unique [OF p page_base_aligned, of p "p + word_of_nat j"] by (simp add: in_page_def)
qed

lemma in_page_base: "page_aligned p \<Longrightarrow> in_page p v \<longleftrightarrow> page_base v = p"
  using in_page_unique [OF _ page_base_aligned, of p v v] page_base_div [of v]
  by (auto simp: in_page_def)

lemma space_frame_present:
  assumes "kheap_inv s" "space_ok chunk s" "space_frame s s' chunk"
  shows "space_present (mem s') chunk = space_present (mem s) chunk"
    "load32 (mem s') chunk = load32 (mem s) chunk"
proof -
  have al: "page_aligned (load32 (mem s) chunk)"
    using space_ok_pages(1) [OF assms(1,2)] by (simp add: space_blocks_def)
  show l: "load32 (mem s') chunk = load32 (mem s) chunk"
    using space_frame_keeps(3) [OF assms] by (simp add: space_blocks_def)
  have "ldw (mem s') (load32 (mem s) chunk) i = ldw (mem s) (load32 (mem s) chunk) i" if "i < 1024" for i
    by (rule ldw_cong [OF al that]) (use space_frame_dir [OF assms] in blast)
  then show "space_present (mem s') chunk = space_present (mem s) chunk"
    by (simp add: space_present_def l)
qed

lemma space_kept_load:
  assumes "kheap_inv s" "space_ok chunk s"
    and same: "\<And>p a. p \<in> set (space_blocks (mem s) chunk) \<Longrightarrow> in_page p a \<Longrightarrow> m' a = mem s a"
    and pr: "space_present (mem s) chunk"
  shows "load32 m' chunk = load32 (mem s) chunk" "page_aligned (load32 (mem s) chunk)"
    "mmu_walk m' (load32 (mem s) chunk) v = mmu_walk (mem s) (load32 (mem s) chunk) v"
proof -
  have b: "space_blocks m' chunk = space_blocks (mem s) chunk"
    by (rule space_kept(1) [OF assms(1,2)], rule same)
  then show l: "load32 m' chunk = load32 (mem s) chunk" by (simp add: space_blocks_def)
  show al: "page_aligned (load32 (mem s) chunk)"
    using space_ok_pages(1) [OF assms(1,2)] by (simp add: space_blocks_def)
  have "space_present m' chunk" using space_kept(3) [OF assms(1,2), of m'] same pr by blast
  moreover have "space_view m' chunk (page_base v) = space_view (mem s) chunk (page_base v)"
    by (rule space_kept(2) [OF assms(1,2)], rule same, assumption+, simp)
  ultimately show "mmu_walk m' (load32 (mem s) chunk) v = mmu_walk (mem s) (load32 (mem s) chunk) v"
    using walk_view_cong [OF al pr l] by blast
qed

text \<open>
  Up to the first copy: with the scratch page mapped to itself in the task's space, the copy
  through the tables brings the task's string to that page and changes nothing outside it.
\<close>

lemma copy_through_tables:
  assumes inv: "kheap_inv s" and ok: "space_ok c s" and pr: "space_present (mem s) c"
    and pe: "paging_enabled s" and cr: "cr3 s = load32 (mem s) c"
    and tmp: "page_aligned tmp" "tmp \<notin> set (space_blocks (mem s) c)"
    and id: "space_view (mem s) c tmp = tmp OR 7" and mx: "0 < mx" "mx < 4096"
    and src: "\<And>j. j < nat mx \<Longrightarrow> page_base (virt + word_of_nat j) \<noteq> tmp \<and>
      (\<exists>a. mmu_walk (mem s) (cr3 s) (virt + word_of_nat j) = Some a \<and> \<not> in_page tmp a)"
  shows "\<exists>m'. vstrncpy tmp virt mx s = Inr (s\<lparr>mem := m'\<rparr>)
    \<and> (\<forall>a. \<not> in_page tmp a \<longrightarrow> m' a = mem s a)
    \<and> cstr_at m' tmp (cstr_upto (user_mem (mem s) (cr3 s)) virt (nat (mx - 1)))"
proof (rule vstrncpy_page [OF pe tmp(1) mx])
  have dal: "page_aligned (load32 (mem s) c)"
    using space_ok_pages(1) [OF inv ok] by (simp add: space_blocks_def)
  show "mmu_walk m' (cr3 s) v = mmu_walk (mem s) (cr3 s) v"
    if "\<And>a. \<not> in_page tmp a \<Longrightarrow> m' a = mem s a" for m' v
    unfolding cr
  proof (rule space_kept_load(3) [OF inv ok _ pr])
    fix p a
    assume p: "p \<in> set (space_blocks (mem s) c)" "in_page p a"
    then have "\<not> in_page tmp a"
      using in_page_unique [OF tmp(1) space_ok_pages(1) [OF inv ok p(1)] _ p(2)] tmp(2) by blast
    then show "m' a = mem s a" by (rule that)
  qed
  show "mmu_walk (mem s) (cr3 s) (tmp + word_of_nat j) = Some (tmp + word_of_nat j)" if "j < 4096" for j
    unfolding cr
    by (rule mmu_walk_identity [OF dal pr, of _ 7])
       (simp_all add: page_base_page [OF tmp(1) that] id)
  show "\<exists>a. mmu_walk (mem s) (cr3 s) (virt + word_of_nat j) = Some a
      \<and> \<not> in_page tmp a \<and> \<not> in_page tmp (virt + word_of_nat j)" if "j < nat mx" for j
    using src [OF that] by (simp add: in_page_base [OF tmp(1)])
qed

text \<open>
  From the first copy on: the old entry is put back, the second copy moves the string to the
  buffer, and the scratch page is freed.
\<close>

lemma copy_back:
  assumes inv: "kheap_inv s" and ok: "space_ok c s" and tmp: "page_aligned tmp" "(tmp, 1) \<in> kheap_allocs s"
    "tmp \<notin> set (space_blocks (mem s) c)" "space_present (mem s) c"
    and str: "cstr_at (mem s) tmp cs" "length cs \<le> nat (mx - 1)" and mx: "0 < mx" "mx < 4096"
    and buf: "\<And>j p. j < nat mx \<Longrightarrow> p \<in> insert tmp (set (space_blocks (mem s) c)) \<Longrightarrow> \<not> in_page p (phys + word_of_nat j)"
  obtains s1 h m' where "paging_set (load32 (mem s) c) tmp e s = (0, s1)"
    "kfree tmp (s1\<lparr>mem := strncpy phys tmp mx (mem s1)\<rparr>) = Inr (s\<lparr>mem := m', kernel_heap := h\<rparr>)"
    "space_blocks m' c = space_blocks (mem s) c" "space_present m' c"
    "heap_area (s\<lparr>mem := m', kernel_heap := h\<rparr>) = heap_area s"
    "\<And>a. (\<forall>p \<in> set (space_blocks (mem s) c). \<not> in_page p a) \<Longrightarrow> (\<forall>j < nat mx. a \<noteq> phys + word_of_nat j) \<Longrightarrow> m' a = mem s a"
    "cstr_at m' phys cs" "heap_inv h" "heap_allocs h = kheap_allocs s - {(tmp, 1)}"
    "\<And>v. page_aligned v \<Longrightarrow> space_view m' c v = (if v = tmp then e else space_view (mem s) c v)"
proof -
  obtain s1 where s1: "paging_set (load32 (mem s) c) tmp e s = (0, s1)" "space_frame s s1 c"
    and v1: "\<And>w. page_aligned w \<Longrightarrow> space_view (mem s1) c w = (if w = tmp then e else space_view (mem s) c w)"
    by (rule paging_set_ok [OF inv ok tmp(1), of e], rule that)
  note keep = space_frame_keeps [OF inv ok s1(2)]
  obtain m1 where m1: "s1 = s\<lparr>mem := m1\<rparr>" using s1(2) by (auto simp: space_frame_def)
  have out1: "mem s1 a = mem s a" if "\<And>p. p \<in> set (space_blocks (mem s) c) \<Longrightarrow> \<not> in_page p a" for a
    using s1(2) that by (auto simp: space_frame_def space_blocks_def)
  have in_tmp: "mem s1 a = mem s a" if "in_page tmp a" for a
    by (rule out1) (use in_page_unique [OF space_ok_pages(1) [OF inv ok] tmp(1) _ that] tmp(3) in blast)
  have len: "length cs < 4096" using str(2) mx by linarith
  have s1cs: "cstr_at (mem s1) tmp cs"
  proof -
    have "mem s1 (tmp + word_of_nat j) = mem s (tmp + word_of_nat j)" if "j \<le> length cs" for j
      by (rule in_tmp, rule in_page_offset [OF tmp(1)]) (use that len in simp)
    then show ?thesis using str(1) unfolding cstr_at_def by (auto simp: list_eq_iff_nth_eq)
  qed
  then have upto: "cstr_upto (mem s1) tmp (nat (mx - 1)) = cs" using str(2) by (rule cstr_upto_take)
  have apart: "nat (mx - 1) \<le> unat (phys - tmp)"
  proof (rule ccontr)
    assume "\<not> nat (mx - 1) \<le> unat (phys - tmp)"
    then have "unat (phys - tmp) < 4096" using mx by linarith
    from in_page_offset [OF tmp(1) this] have "in_page tmp phys" by simp
    then show False using buf [of 0 tmp] mx by simp
  qed
  have "mx < 2 ^ 31" using mx by simp
  note cp = strncpy_result [OF apart this, of "mem s1", unfolded upto]
  define m2 where "m2 = strncpy phys tmp mx (mem s1)"
  have out2: "m2 a = mem s1 a" if "\<And>j. j < nat mx \<Longrightarrow> a \<noteq> phys + word_of_nat j" for a
  proof -
    have "\<not> unat (a - phys) < nat mx"
    proof
      assume "unat (a - phys) < nat mx"
      from that [OF this] show False by simp
    qed
    then have "length cs < unat (a - phys)" using str(2) mx by linarith
    then show ?thesis unfolding m2_def by (rule cp(2))
  qed
  have live: "kheap_inv (s1\<lparr>mem := m2\<rparr>)" "(tmp, 1) \<in> kheap_allocs (s1\<lparr>mem := m2\<rparr>)"
    using keep(1) tmp(2) by (simp_all add: m1)
  obtain h where h: "kfree tmp (s1\<lparr>mem := m2\<rparr>) = Inr (s1\<lparr>mem := m2\<rparr>\<lparr>kernel_heap := h\<rparr>)"
    "kheap_inv (s1\<lparr>mem := m2\<rparr>\<lparr>kernel_heap := h\<rparr>)"
    "kheap_allocs (s1\<lparr>mem := m2\<rparr>\<lparr>kernel_heap := h\<rparr>) = kheap_allocs (s1\<lparr>mem := m2\<rparr>) - {(tmp, 1)}"
    by (rule kfree_alloc [OF live], rule that)
  have same2: "m2 a = mem s1 a" if "p \<in> set (space_blocks (mem s1) c)" "in_page p a" for p a
  proof (rule out2)
    have "p \<in> insert tmp (set (space_blocks (mem s) c))" using that(1) keep(3) by simp
    then show "a \<noteq> phys + word_of_nat j" if "j < nat mx" for j
      using buf [OF that] \<open>in_page p a\<close> by blast
  qed
  have shape: "space_blocks m2 c = space_blocks (mem s) c" "space_present m2 c"
    using space_kept(1) [OF keep(1,2) same2] space_kept(3) [OF keep(1,2) same2] keep(3) space_frame_present(1) [OF inv ok s1(2)] tmp(4)
    by simp_all
  have view: "space_view m2 c v = (if v = tmp then e else space_view (mem s) c v)" if "page_aligned v" for v
    using space_kept(2) [OF keep(1,2), of m2 v] same2 that v1 by simp
  have heap: "heap_inv h" "heap_allocs h = kheap_allocs s - {(tmp, 1)}"
    using h(2,3) by (simp_all add: kheap_view_defs m1)
  have ar: "heap_area (s\<lparr>mem := m2, kernel_heap := h\<rparr>) = heap_area s"
    using kfree_area [OF live h(1)] by (simp add: heap_area_def m1)
  have final: "s1\<lparr>mem := m2\<rparr>\<lparr>kernel_heap := h\<rparr> = s\<lparr>mem := m2, kernel_heap := h\<rparr>" by (simp add: m1)
  have rest: "m2 a = mem s a" if "\<forall>p \<in> set (space_blocks (mem s) c). \<not> in_page p a"
    "\<forall>j < nat mx. a \<noteq> phys + word_of_nat j" for a
    using out2 [of a] out1 [of a] that by simp
  show thesis
  proof (rule that)
    show "kfree tmp (s1\<lparr>mem := strncpy phys tmp mx (mem s1)\<rparr>) = Inr (s\<lparr>mem := m2, kernel_heap := h\<rparr>)"
      using h(1) by (simp add: m1 m2_def)
    show "cstr_at m2 phys cs" unfolding m2_def by (rule cp(1))
  qed (fact s1(1) shape ar heap | erule (1) rest view | erule rest, assumption | erule view)+
qed

text \<open>With the scratch page allocated and mapped, and the task's directory loaded.\<close>

definition copy_ready :: "u32 \<Rightarrow> u32 \<Rightarrow> 'a tstate_scheme \<Rightarrow> 'a tstate_scheme \<Rightarrow> 'a tstate_scheme \<Rightarrow> bool" where
  "copy_ready c tmp s s1 s3 \<longleftrightarrow>
     kheap_inv s3 \<and> space_ok c s3 \<and> space_blocks (mem s3) c = space_blocks (mem s) c
     \<and> space_present (mem s3) c \<and> load32 (mem s3) c = load32 (mem s) c \<and> cr3 s3 = load32 (mem s) c
     \<and> paging_enabled s3 = paging_enabled s \<and> kernel_chunk s3 = kernel_chunk s
     \<and> (\<forall>v. page_aligned v \<longrightarrow>
          space_view (mem s3) c v = (if v = tmp then tmp OR 7 else space_view (mem s) c v))
     \<and> (\<forall>a. (\<forall>p \<in> insert tmp (set (space_blocks (mem s) c)). \<not> in_page p a) \<longrightarrow> mem s3 a = mem s a)
     \<and> kheap_allocs s3 = insert (tmp, 1) (kheap_allocs s)
     \<and> page_aligned tmp \<and> tmp \<notin> set (space_blocks (mem s) c) \<and> (\<forall>k. (tmp, k) \<notin> kheap_allocs s)
     \<and> load32 (mem s1) c = load32 (mem s) c \<and> space_view (mem s1) c tmp = space_view (mem s) c tmp"

lemma flags_rwp: "PAGING_IS_WRITABLE OR PAGING_IS_PRESENT OR PAGING_ACCESS_FROM_ALL = 7"
  by (simp add: PAGING_IS_WRITABLE_def PAGING_IS_PRESENT_def PAGING_ACCESS_FROM_ALL_def)

lemma copy_setup:
  assumes inv: "kheap_inv s" and ok: "space_ok c s" and pr: "space_present (mem s) c"
    and live: "\<And>p. p \<in> set (space_blocks (mem s) c) \<Longrightarrow> (p, 1) \<in> kheap_allocs s"
    and kz: "kzalloc sz s = Inr (tmp, s1)" "tmp \<noteq> 0" and sz: "0 < sz" "sz \<le> 4096"
  obtains s2 where "paging_map c tmp tmp 7 s1 = (0, s2)" "copy_ready c tmp s s1 (paging_switch c s2)"
    "heap_step s s1" "\<exists>m. s2 = s1\<lparr>mem := m\<rparr>"
proof -
  note z = kzalloc_frames_tmp [OF inv sz kz]
  have tmp: "tmp \<notin> set (space_blocks (mem s) c)" using live z(4) by blast
  have same: "mem s1 a = mem s a" if "p \<in> set (space_blocks (mem s) c)" "in_page p a" for p a
    using z(5) in_page_unique [OF z(3) space_ok_pages(1) [OF inv ok that(1)] _ that(2)] tmp that(1) by blast
  have b1: "space_blocks (mem s1) c = space_blocks (mem s) c"
    by (rule space_kept(1) [OF inv ok], rule same)
  have v1: "space_view (mem s1) c v = space_view (mem s) c v" if "page_aligned v" for v
    by (rule space_kept(2) [OF inv ok], rule same) (use that in simp_all)
  have p1: "space_present (mem s1) c" using space_kept(3) [OF inv ok, of "mem s1"] same pr by blast
  have l1: "load32 (mem s1) c = load32 (mem s) c" using b1 by (simp add: space_blocks_def)
  have ok1: "space_ok c s1" using ok z(2) unfolding space_ok_def b1 by auto
  obtain s2 where s2: "paging_map c tmp tmp 7 s1 = (0, s2)" "space_frame s1 s2 c"
    and v2: "\<And>w. page_aligned w \<Longrightarrow> space_view (mem s2) c w = (if w = tmp then tmp OR 7 else space_view (mem s1) c w)"
    by (rule paging_map_ok [OF z(1) ok1 z(3) z(3), of 7], rule that)
  note k2 = space_frame_keeps [OF z(1) ok1 s2(2)] and pr2 = space_frame_present [OF z(1) ok1 s2(2)]
  obtain m where m: "s2 = s1\<lparr>mem := m\<rparr>" using s2(2) by (auto simp: space_frame_def)
  have out: "mem s2 a = mem s a" if a: "\<forall>p \<in> insert tmp (set (space_blocks (mem s) c)). \<not> in_page p a" for a
  proof -
    have "\<forall>t \<in> set (space_tables (mem s1) (load32 (mem s1) c)). \<not> in_page t a"
      using a unfolding b1 [symmetric] by (simp add: space_blocks_def)
    then have "mem s2 a = mem s1 a" using s2(2) by (simp add: space_frame_def)
    then show ?thesis using z(5) a by simp
  qed
  have "kheap_allocs s2 = kheap_allocs s1" by (simp add: m kheap_view_defs)
  moreover have "(tmp, k) \<notin> kheap_allocs s" for k using z(4) by blast
  moreover note heap_step_globals [OF z(6)]
  ultimately have "copy_ready c tmp s s1 (paging_switch c s2)"
    using k2 pr2 p1 l1 b1 z(2,3) v1 v2 out tmp
    unfolding copy_ready_def paging_switch_def
    by (auto simp: space_ok_def kheap_view_defs m)
  then show thesis using that s2(1) z(6) m by blast
qed

lemma ready_walk:
  assumes inv: "kheap_inv s" and ok: "space_ok c s" and pr: "space_present (mem s) c"
    and r: "copy_ready c tmp s s1 s3" and v: "page_base v \<noteq> tmp"
  shows "mmu_walk (mem s3) (load32 (mem s) c) v = mmu_walk (mem s) (load32 (mem s) c) v"
proof (rule walk_view_cong)
  show "page_aligned (load32 (mem s) c)"
    using space_ok_pages(1) [OF inv ok] by (simp add: space_blocks_def)
qed (use r pr v in \<open>simp_all add: copy_ready_def\<close>)

text \<open>The first copy reads what the task sees.\<close>

lemma ready_copy:
  assumes inv: "kheap_inv s" and ok: "space_ok c s" and pr: "space_present (mem s) c"
    and pe: "paging_enabled s" and r: "copy_ready c tmp s s1 s3" and mx: "0 < mx" "mx < 4096"
    and src: "\<And>j. j < nat mx \<Longrightarrow> page_base (virt + word_of_nat j) \<noteq> tmp \<and>
      (\<exists>a. mmu_walk (mem s) (load32 (mem s) c) (virt + word_of_nat j) = Some a
         \<and> (\<forall>p \<in> insert tmp (set (space_blocks (mem s) c)). \<not> in_page p a))"
  shows "\<exists>m'. vstrncpy tmp virt mx s3 = Inr (s3\<lparr>mem := m'\<rparr>)
    \<and> (\<forall>a. \<not> in_page tmp a \<longrightarrow> m' a = mem s3 a)
    \<and> cstr_at m' tmp (cstr_upto (user_mem (mem s) (load32 (mem s) c)) virt (nat (mx - 1)))"
proof -
  note rr = r [unfolded copy_ready_def]
  have cr: "cr3 s3 = load32 (mem s3) c" and dir: "load32 (mem s3) c = load32 (mem s) c" using rr by simp_all
  have w: "mmu_walk (mem s3) (cr3 s3) v = mmu_walk (mem s) (load32 (mem s) c) v" if "page_base v \<noteq> tmp" for v
    using ready_walk [OF inv ok pr r that] cr dir by simp
  have "\<exists>m'. vstrncpy tmp virt mx s3 = Inr (s3\<lparr>mem := m'\<rparr>)
    \<and> (\<forall>a. \<not> in_page tmp a \<longrightarrow> m' a = mem s3 a)
    \<and> cstr_at m' tmp (cstr_upto (user_mem (mem s3) (cr3 s3)) virt (nat (mx - 1)))"
  proof (rule copy_through_tables)
    show "paging_enabled s3" "cr3 s3 = load32 (mem s3) c" "kheap_inv s3" "space_ok c s3"
      "space_present (mem s3) c" using rr pe cr by simp_all
    show "page_aligned tmp" "tmp \<notin> set (space_blocks (mem s3) c)" "space_view (mem s3) c tmp = tmp OR 7"
      using rr by simp_all
    show "0 < mx" "mx < 4096" by (rule mx)+
    show "page_base (virt + word_of_nat j) \<noteq> tmp \<and>
        (\<exists>a. mmu_walk (mem s3) (cr3 s3) (virt + word_of_nat j) = Some a \<and> \<not> in_page tmp a)"
      if "j < nat mx" for j using src [OF that] w by auto
  qed
  moreover have "cstr_upto (user_mem (mem s3) (cr3 s3)) virt (nat (mx - 1)) =
      cstr_upto (user_mem (mem s) (load32 (mem s) c)) virt (nat (mx - 1))"
  proof (rule cstr_upto_mem_cong)
    fix j
    assume "j < nat (mx - 1)"
    then have "j < nat mx" by linarith
    from src [OF this] obtain a where a: "page_base (virt + word_of_nat j) \<noteq> tmp"
      "mmu_walk (mem s) (load32 (mem s) c) (virt + word_of_nat j) = Some a"
      "\<forall>p \<in> insert tmp (set (space_blocks (mem s) c)). \<not> in_page p a" by blast
    then have "mem s3 a = mem s a" using rr by blast
    then show "user_mem (mem s3) (cr3 s3) (virt + word_of_nat j) =
        user_mem (mem s) (load32 (mem s) c) (virt + word_of_nat j)"
      using a w by (simp add: user_mem_def)
  qed
  ultimately show ?thesis by simp
qed

text \<open>The kernel's directory is loaded again, and the kernel's own chunk was not disturbed.\<close>

lemma ready_kernel:
  assumes inv: "kheap_inv s" and ok: "space_ok c s" and r: "copy_ready c tmp s s1 s3"
    and out: "\<And>a. \<not> in_page tmp a \<Longrightarrow> m4 a = mem s3 a"
    and kc: "page_aligned (kernel_chunk s)" "kernel_chunk s \<noteq> tmp" "kernel_chunk s \<notin> set (space_blocks (mem s) c)"
  defines "s5 \<equiv> kernel_page (s3\<lparr>mem := m4\<rparr>)"
  shows "cr3 s5 = load32 (mem s) (kernel_chunk s)" "data_segment s5 = 0x10" "mem s5 = m4"
    "kheap_inv s5" "space_ok c s5" "kheap_allocs s5 = kheap_allocs s3"
    "space_blocks m4 c = space_blocks (mem s) c" "load32 m4 c = load32 (mem s) c"
    "\<And>v. page_aligned v \<Longrightarrow> space_view m4 c v = space_view (mem s3) c v" "space_present m4 c"
proof -
  note rr = r [unfolded copy_ready_def]
  have same: "m4 a = mem s3 a" if "p \<in> set (space_blocks (mem s3) c)" "in_page p a" for p a
  proof (rule out)
    have "page_aligned p" using space_ok_pages(1) [OF inv ok, of p] that rr by simp
    then show "\<not> in_page tmp a" using in_page_unique [of tmp p a] rr that by metis
  qed
  have i3: "kheap_inv s3" "space_ok c s3" using rr by simp_all
  show b: "space_blocks m4 c = space_blocks (mem s) c" using space_kept(1) [OF i3, of m4] same rr by metis
  then show "load32 m4 c = load32 (mem s) c" by (simp add: space_blocks_def)
  show "space_view m4 c v = space_view (mem s3) c v" if "page_aligned v" for v
    using space_kept(2) [OF i3, of m4 v] same that by blast
  show "space_present m4 c" using space_kept(3) [OF i3, of m4] same rr by blast
  show m5: "mem s5 = m4" "data_segment s5 = 0x10"
    by (simp_all add: s5_def kernel_page_def paging_switch_def kernel_registers_def Let_def)
  show al: "kheap_allocs s5 = kheap_allocs s3" "kheap_inv s5" using i3(1)
    by (simp_all add: s5_def kernel_page_def paging_switch_def kernel_registers_def Let_def kheap_view_defs)
  show "space_ok c s5" using i3(2) rr b by (simp add: space_ok_def m5 al)
  have "m4 a = mem s a" if a: "in_page (kernel_chunk s) a" for a
  proof -
    have no: "\<not> in_page p a" if "p \<in> insert tmp (set (space_blocks (mem s) c))" for p
      using in_page_unique [OF kc(1) _ a, of p] that kc(2,3) rr space_ok_pages(1) [OF inv ok, of p] by blast
    have "m4 a = mem s3 a" by (rule out) (use no in simp)
    also have "\<dots> = mem s a" using no rr by blast
    finally show ?thesis .
  qed
  then have "ldw m4 (kernel_chunk s) 0 = ldw (mem s) (kernel_chunk s) 0"
    by (intro ldw_cong [OF kc(1)]) simp_all
  then show "cr3 s5 = load32 (mem s) (kernel_chunk s)"
    using rr by (simp add: s5_def kernel_page_def paging_switch_def kernel_registers_def Let_def ldw_def)
qed

text \<open>The whole copy.\<close>

definition copy_result :: "u32 \<Rightarrow> u32 \<Rightarrow> u8 list \<Rightarrow> 'a tstate_scheme \<Rightarrow> 'a tstate_scheme \<Rightarrow> bool" where
  "copy_result t phys cs s s' \<longleftrightarrow>
     cstr_at (mem s') phys cs \<and> kheap_inv s' \<and> kheap_allocs s' = kheap_allocs s
     \<and> cr3 s' = load32 (mem s) (kernel_chunk s) \<and> data_segment s' = 0x10
     \<and> (\<forall>v. page_aligned v \<longrightarrow>
         space_view (mem s') (get s t PAGE_DIRECTORY) v = space_view (mem s) (get s t PAGE_DIRECTORY) v)"

text \<open>What the copy leaves alone: the globals but for the heap and the loaded directory and segment, and the memory
  outside the scratch page, the task's own tables and the buffer.\<close>

definition copy_frame :: "u32 \<Rightarrow> u32 \<Rightarrow> u32 \<Rightarrow> nat \<Rightarrow> 'a tstate_scheme \<Rightarrow> 'a tstate_scheme \<Rightarrow> bool" where
  "copy_frame c tmp phys n s s' \<longleftrightarrow>
     (\<exists>m h d. s' = s\<lparr>mem := m, kernel_heap := h, cr3 := d, current_directory := d, data_segment := 0x10\<rparr>)
     \<and> heap_area s' = heap_area s \<and> space_blocks (mem s') c = space_blocks (mem s) c \<and> space_present (mem s') c
     \<and> (\<forall>a. (\<forall>p \<in> insert tmp (set (space_blocks (mem s) c)). \<not> in_page p a) \<longrightarrow>
          (\<forall>j < n. a \<noteq> phys + word_of_nat j) \<longrightarrow> mem s' a = mem s a)"

lemma copy_string_from_task_ok:
  fixes s :: "'a tstate_scheme"
  assumes inv: "tasks_inv s ts" and t: "t \<in> set ts" and pe: "paging_enabled s"
    and kc: "(kernel_chunk s, 1) \<in> kheap_allocs s" "kernel_chunk s \<notin> set (task_blocks s t)"
    and mx: "0 < mx" "mx < 4096" and kz: "kzalloc (word_of_int mx) s = Inr (tmp, s1)" "tmp \<noteq> 0"
  defines "c \<equiv> get s t PAGE_DIRECTORY" and "mine \<equiv> insert tmp (set (task_blocks s t))"
  assumes src: "\<And>j. j < nat mx \<Longrightarrow> page_base (virt + word_of_nat j) \<noteq> tmp \<and>
      (\<exists>a. mmu_walk (mem s) (load32 (mem s) c) (virt + word_of_nat j) = Some a \<and> (\<forall>p \<in> mine. \<not> in_page p a))"
    and buf: "\<And>j. j < nat mx \<Longrightarrow> \<forall>p \<in> mine. \<not> in_page p (phys + word_of_nat j)"
  shows "\<exists>s'. copy_string_from_task t virt phys mx s = Inr (0, s') \<and>
    copy_result t phys (cstr_upto (user_mem (mem s) (load32 (mem s) c)) virt (nat (mx - 1))) s s' \<and> copy_frame c tmp phys (nat mx) s s'"
proof -
  note ti = tasks_inv_task [OF inv t, folded c_def] and kinv = tasks_inv_heap [OF inv]
  have sz: "0 < (word_of_int mx :: u32)" "(word_of_int mx :: u32) \<le> 4096"
  proof -
    have "unat (word_of_int mx :: u32) = nat mx"
      using mx unat_of_nat32 [of "nat mx"] by simp
    then show "0 < (word_of_int mx :: u32)" "(word_of_int mx :: u32) \<le> 4096"
      using mx by (simp_all add: word_less_nat_alt word_le_nat_alt)
  qed
  have live: "(p, 1) \<in> kheap_allocs s" if "p \<in> set (space_blocks (mem s) c)" for p
    using ti(1) that by (simp add: space_ok_def)
  obtain s2 where s2: "paging_map c tmp tmp 7 s1 = (0, s2)" "copy_ready c tmp s s1 (paging_switch c s2)"
    "heap_step s s1" "\<exists>m. s2 = s1\<lparr>mem := m\<rparr>"
    by (rule copy_setup [OF kinv ti(1,4) live kz sz], assumption, rule that)
  define s3 where "s3 = paging_switch c s2"
  define cs where "cs = cstr_upto (user_mem (mem s) (load32 (mem s) c)) virt (nat (mx - 1))"
  have ready: "copy_ready c tmp s s1 s3" using s2(2) by (simp add: s3_def)
  note r = ready [unfolded copy_ready_def]
  have blk: "set (space_blocks (mem s) c) \<subseteq> mine" by (auto simp: mine_def task_blocks_def c_def)
  have dal: "page_aligned (load32 (mem s) c)"
    using space_ok_pages(1) [OF kinv ti(1)] by (simp add: space_blocks_def)
  obtain m4 where m4: "vstrncpy tmp virt mx s3 = Inr (s3\<lparr>mem := m4\<rparr>)"
    "\<And>a. \<not> in_page tmp a \<Longrightarrow> m4 a = mem s3 a" "cstr_at m4 tmp cs"
  proof -
    have "\<exists>a. mmu_walk (mem s) (load32 (mem s) c) (virt + word_of_nat j) = Some a
        \<and> (\<forall>p \<in> insert tmp (set (space_blocks (mem s) c)). \<not> in_page p a)" if "j < nat mx" for j
      using src [OF that] blk unfolding mine_def by blast
    then show thesis using ready_copy [OF kinv ti(1,4) pe ready mx, of virt] src that
      unfolding cs_def by blast
  qed
  define s5 where "s5 = kernel_page (s3\<lparr>mem := m4\<rparr>)"
  have kal: "page_aligned (kernel_chunk s)" "kernel_chunk s \<noteq> tmp" "kernel_chunk s \<notin> set (space_blocks (mem s) c)"
    using live_page_aligned [OF kinv kc(1)] kc r blk by (auto simp: task_blocks_def c_def)
  note k = ready_kernel [OF kinv ti(1) ready m4(2) kal, folded s5_def]
  define e where "e = space_view (mem s) c tmp"
  obtain s6 h m6 where s6: "paging_set (load32 (mem s5) c) tmp e s5 = (0, s6)"
    and fr: "kfree tmp (s6\<lparr>mem := strncpy phys tmp mx (mem s6)\<rparr>) = Inr (s5\<lparr>mem := m6, kernel_heap := h\<rparr>)"
    and shape: "space_blocks m6 c = space_blocks (mem s5) c" "space_present m6 c"
      "heap_area (s5\<lparr>mem := m6, kernel_heap := h\<rparr>) = heap_area s5"
      "\<And>a. (\<forall>p \<in> set (space_blocks (mem s5) c). \<not> in_page p a) \<Longrightarrow> (\<forall>j < nat mx. a \<noteq> phys + word_of_nat j) \<Longrightarrow> m6 a = mem s5 a"
    and res: "cstr_at m6 phys cs" "heap_inv h" "heap_allocs h = kheap_allocs s5 - {(tmp, 1)}"
      "\<And>v. page_aligned v \<Longrightarrow> space_view m6 c v = (if v = tmp then e else space_view (mem s5) c v)"
  proof -
    have len: "length cs \<le> nat (mx - 1)" unfolding cs_def by (rule length_cstr_upto)
    have tp: "page_aligned tmp" "(tmp, 1) \<in> kheap_allocs s5" "tmp \<notin> set (space_blocks (mem s5) c)" "space_present (mem s5) c"
      using r k by simp_all
    have apart: "\<not> in_page p (phys + word_of_nat j)"
      if "j < nat mx" "p \<in> insert tmp (set (space_blocks (mem s5) c))" for j p
      using buf [OF that(1)] that(2) blk k(3,7) by (auto simp: mine_def)
    have str: "cstr_at (mem s5) tmp cs" and k5: "kheap_inv s5" "space_ok c s5" using m4(3) k(3-5) by simp_all
    show thesis by (rule copy_back [OF k5 tp str len mx, where e = e and phys = phys], erule (1) apart, rule that)
  qed
  have tp: "page_aligned t" "t \<noteq> tmp" using ti(2,3) r by blast+
  have c1: "get s1 t PAGE_DIRECTORY = c"
  proof -
    have "get s1 t PAGE_DIRECTORY = get s t PAGE_DIRECTORY"
      unfolding get_def
      by (rule ldw_cong [OF tp(1)])
        (use kzalloc_frames_tmp(3,5) [OF kinv sz kz] in_page_unique [OF _ tp(1)] tp(2) in \<open>simp, metis\<close>)
    then show ?thesis by (simp add: c_def)
  qed
  have c2: "get s2 t PAGE_DIRECTORY = c"
  proof -
    have "mem s2 a = mem s a" if "in_page t a" for a
    proof -
      have "\<not> in_page p a" if "p \<in> insert tmp (set (space_blocks (mem s) c))" for p
        using in_page_unique [OF _ tp(1) _ \<open>in_page t a\<close>, of p] that tp(2) ti(5) [OF t] r
          space_ok_pages(1) [OF kinv ti(1), of p] by blast
      then have "mem s3 a = mem s a" using r by blast
      then show ?thesis by (simp add: s3_def paging_switch_def)
    qed
    then have "get s2 t PAGE_DIRECTORY = get s t PAGE_DIRECTORY"
      unfolding get_def by (intro ldw_cong [OF tp(1)]) simp_all
    then show ?thesis by (simp add: c_def)
  qed
  have run: "copy_string_from_task t virt phys mx s = Inr (0, s5\<lparr>mem := m6, kernel_heap := h\<rparr>)"
  proof -
    have "load32 (mem s1) c = load32 (mem s5) c" using r k(3,8) by simp
    moreover have "paging_get (mem s1) (load32 (mem s1) c) tmp = e"
      using r unfolding e_def space_view_def [of "mem s1", symmetric] by blast
    moreover have "\<not> sint PAGING_PAGE_SIZE \<le> mx" using mx by (simp add: PAGING_PAGE_SIZE_def)
    ultimately show ?thesis
      using kz s2(1) m4(1) s6 fr c1 c2 unfolding s3_def [symmetric]
      by (simp add: copy_string_from_task_def flags_rwp s5_def [symmetric] s3_def [symmetric])
  qed
  have "kheap_allocs s5 - {(tmp, 1)} = kheap_allocs s" using k(6) r by auto
  then have "copy_result t phys cs s (s5\<lparr>mem := m6, kernel_heap := h\<rparr>)"
    using res k(1,2,3,9) r unfolding copy_result_def c_def [symmetric]
    by (simp add: kheap_view_defs e_def)
  moreover have "copy_frame c tmp phys (nat mx) s (s5\<lparr>mem := m6, kernel_heap := h\<rparr>)"
  proof -
    have "m6 a = mem s a" if a: "\<forall>p \<in> insert tmp (set (space_blocks (mem s) c)). \<not> in_page p a" "\<forall>j < nat mx. a \<noteq> phys + word_of_nat j" for a
    proof -
      have "mem s3 a = mem s a" using a(1) r by blast
      moreover have "\<not> in_page tmp a" using a(1) by simp
      moreover have "m6 a = mem s5 a" by (rule shape(4)) (use a k(3,7) in simp_all)
      ultimately show ?thesis using m4(2) k(3) by simp
    qed
    moreover obtain h1 m1 where "s1 = s\<lparr>kernel_heap := h1, mem := m1\<rparr>" using s2(3) by (auto simp: heap_step_def)
    then have "\<exists>m h d. s5\<lparr>mem := m6, kernel_heap := h'\<rparr> = s\<lparr>mem := m, kernel_heap := h, cr3 := d, current_directory := d, data_segment := 0x10\<rparr>" for h'
      using s2(4) unfolding s5_def s3_def kernel_page_def paging_switch_def kernel_registers_def Let_def
      by (cases s) auto
    moreover have ar5: "heap_area s5 = heap_area s"
    proof -
      have "kernel_heap s5 = kernel_heap s1"
        using s2(4) by (elim exE) (simp add: s5_def s3_def kernel_page_def paging_switch_def kernel_registers_def Let_def)
      then show ?thesis using kzalloc_area [OF kz(1)] by (simp add: heap_area_def)
    qed
    ultimately show ?thesis using shape(1-3) k(3,7) ar5 unfolding copy_frame_def by simp
  qed
  ultimately show ?thesis using run unfolding cs_def by blast
qed

end
