(* ===== verification/PathParser.thy ===== *)
theory PathParser
  imports TaskCopy
begin

text \<open>
  \<^verbatim>\<open>src/fs/pparser.c\<close>: paths \<^verbatim>\<open>0:/dir/file\<close> become a \<^verbatim>\<open>struct path_root\<close> (drive number at offset 0, first
  part at offset 4) and a chain of \<^verbatim>\<open>struct path_part\<close> (string at offset 0, next at offset 4), all in
  heap blocks of the flat memory. The loops that follow a string or a chain in memory are partial
  functions; a loop that does not end is \<open>Inl Halted\<close>.
\<close>

definition GUAVAOS_MAX_PATH :: nat where "GUAVAOS_MAX_PATH = 108"

text \<open>\<^verbatim>\<open>memcmp\<close> against a string literal.\<close>

fun memcmp_literal :: "memory \<Rightarrow> u32 \<Rightarrow> u8 list \<Rightarrow> int" where
  "memcmp_literal m p [] = 0"
| "memcmp_literal m p (c # cs) =
     (if m p \<noteq> c then (if sint (m p) < sint c then -1 else 1) else memcmp_literal m (p + 1) cs)"

definition pathparser_path_valid_format :: "memory \<Rightarrow> u32 \<Rightarrow> bool" where
  "pathparser_path_valid_format m filename \<longleftrightarrow>
     3 \<le> strnlen m filename (int GUAVAOS_MAX_PATH) \<and> is_digit (m filename)
     \<and> memcmp_literal m (filename + 1) (lit '':/'') = 0"

text \<open>The result and the advanced path.\<close>

definition pathparser_get_drive_by_path :: "memory \<Rightarrow> u32 \<Rightarrow> int \<times> u32" where
  "pathparser_get_drive_by_path m path =
     (if \<not> pathparser_path_valid_format m path then (- EBADPATH, path)
      else (to_numeric_digit (m path), path + 3))"

definition pathparser_create_root :: "int \<Rightarrow> 'a kstate_scheme \<Rightarrow> (u32 \<times> 'a kstate_scheme) outcome" where
  "pathparser_create_root drive_number s =
     bnd (kzalloc 8 s) (\<lambda>(path_r, s1).
       Inr (path_r, st32 (path_r + 4) 0 (st32 path_r (word_of_int drive_number) s1)))"

partial_function (option) path_part_loop :: "u32 \<Rightarrow> u32 \<Rightarrow> nat \<Rightarrow> memory \<Rightarrow> (u32 \<times> nat \<times> memory) option" where
  "path_part_loop result_path_part path i m =
     (if m path \<noteq> 47 \<and> m path \<noteq> 0
      then path_part_loop result_path_part (path + 1) (Suc i) (m(result_path_part + word_of_nat i := m path))
      else Some (path, i, m))"

definition pathparser_get_path_part ::
  "u32 \<Rightarrow> 'a kstate_scheme \<Rightarrow> (u32 \<times> u32 \<times> 'a kstate_scheme) outcome" where
  "pathparser_get_path_part path s =
     bnd (kzalloc (word_of_nat GUAVAOS_MAX_PATH) s) (\<lambda>(result_path_part, s1).
       case path_part_loop result_path_part path 0 (mem s1) of None \<Rightarrow> Inl Halted
       | Some (path1, i, m) \<Rightarrow>
           let s2 = s1\<lparr>mem := m\<rparr>;
               path2 = (if mem s2 path1 = 47 then path1 + 1 else path1)
           in if i = 0 then bnd (kfree result_path_part s2) (\<lambda>s3. Inr (0, path2, s3))
              else Inr (result_path_part, path2, s2))"

definition pathparser_parse_path_part ::
  "u32 \<Rightarrow> u32 \<Rightarrow> 'a kstate_scheme \<Rightarrow> (u32 \<times> u32 \<times> 'a kstate_scheme) outcome" where
  "pathparser_parse_path_part last_part path s =
     bnd (pathparser_get_path_part path s) (\<lambda>(path_part_str, path1, s1).
       if path_part_str = 0 then Inr (0, path1, s1)
       else bnd (kzalloc 8 s1) (\<lambda>(part, s2).
         let s3 = st32 (part + 4) 0 (st32 part path_part_str s2);
             s4 = (if last_part \<noteq> 0 then st32 (last_part + 4) part s3 else s3)
         in Inr (part, path1, s4)))"

partial_function (option) pathparser_parse_loop ::
  "u32 \<Rightarrow> u32 \<Rightarrow> 'a kstate_scheme \<Rightarrow> 'a kstate_scheme outcome option" where
  "pathparser_parse_loop part tmp_path s =
     (if part = 0 then Some (Inr s)
      else case pathparser_parse_path_part part tmp_path s of
        Inl e \<Rightarrow> Some (Inl e)
      | Inr r \<Rightarrow> pathparser_parse_loop (fst r) (fst (snd r)) (snd (snd r)))"

definition pathparser_parse :: "u32 \<Rightarrow> 'a kstate_scheme \<Rightarrow> (u32 \<times> 'a kstate_scheme) outcome" where
  "pathparser_parse path s =
     (case strlen (mem s) path of None \<Rightarrow> Inl Halted
      | Some len \<Rightarrow>
        if int GUAVAOS_MAX_PATH < len then Inr (0, s)
        else
          let (res, tmp_path) = pathparser_get_drive_by_path (mem s) path
          in if res < 0 then Inr (0, s)
             else bnd (pathparser_create_root res s) (\<lambda>(path_root, s1).
               if path_root = 0 then Inr (0, s1)
               else bnd (pathparser_parse_path_part 0 tmp_path s1) (\<lambda>(first_part, tmp_path1, s2).
                 if first_part = 0 then Inr (path_root, s2)
                 else bnd (pathparser_parse_path_part first_part tmp_path1 (st32 (path_root + 4) first_part s2))
                   (\<lambda>(part, tmp_path2, s3).
                      bnd (ends (pathparser_parse_loop part tmp_path2 s3)) (\<lambda>s4. Inr (path_root, s4))))))"

partial_function (option) pathparser_free_loop :: "u32 \<Rightarrow> 'a kstate_scheme \<Rightarrow> 'a kstate_scheme outcome option" where
  "pathparser_free_loop part s =
     (if part = 0 then Some (Inr s)
      else case bnd (kfree (load32 (mem s) part) s) (kfree part) of
        Inl e \<Rightarrow> Some (Inl e)
      | Inr s' \<Rightarrow> pathparser_free_loop (load32 (mem s) (part + 4)) s')"

definition pathparser_free :: "u32 \<Rightarrow> 'a kstate_scheme \<Rightarrow> 'a kstate_scheme outcome" where
  "pathparser_free root s =
     bnd (ends (pathparser_free_loop (load32 (mem s) (root + 4)) s)) (kfree root)"

section \<open>What a path says\<close>

text \<open>The parts of the text after the drive: the pieces between slashes up to the first empty one.\<close>

function path_parts :: "u8 list \<Rightarrow> u8 list list" where
  "path_parts cs =
     (if takeWhile (\<lambda>c. c \<noteq> 47) cs = [] then []
      else takeWhile (\<lambda>c. c \<noteq> 47) cs # path_parts (drop 1 (dropWhile (\<lambda>c. c \<noteq> 47) cs)))"
  by pat_completeness auto
termination
proof (relation "measure length")
  fix cs :: "u8 list"
  assume "takeWhile (\<lambda>c. c \<noteq> 47) cs \<noteq> []"
  then have "0 < length (takeWhile (\<lambda>c. c \<noteq> 47) cs)" by simp
  moreover have "length (takeWhile (\<lambda>c. c \<noteq> 47) cs) + length (dropWhile (\<lambda>c. c \<noteq> 47) cs) = length cs"
    by (metis length_append takeWhile_dropWhile_id)
  ultimately have "length (drop 1 (dropWhile (\<lambda>c. c \<noteq> 47) cs)) < length cs" by (simp only: length_drop)
  then show "(drop 1 (dropWhile (\<lambda>c. c \<noteq> 47) cs), cs) \<in> measure length" by simp
qed simp

declare path_parts.simps [simp del]

text \<open>Each node is a part, its string and the text of the string.\<close>

type_synonym part_node = "u32 \<times> u32 \<times> u8 list"

definition node_pages :: "part_node list \<Rightarrow> u32 list" where
  "node_pages xs = concat (map (\<lambda>(p, q, cs). [q, p]) xs)"

fun chain :: "memory \<Rightarrow> u32 \<Rightarrow> part_node list \<Rightarrow> bool" where
  "chain m p [] \<longleftrightarrow> p = 0"
| "chain m p ((x, q, cs) # xs) \<longleftrightarrow>
     p = x \<and> load32 m x = q \<and> cstr_at m q cs \<and> cs \<noteq> [] \<and> chain m (load32 m (x + 4)) xs"

definition chain_ok :: "'a kstate_scheme \<Rightarrow> part_node list \<Rightarrow> bool" where
  "chain_ok s xs \<longleftrightarrow> distinct (node_pages xs) \<and> (\<forall>p \<in> set (node_pages xs). (p, 1) \<in> kheap_allocs s)
     \<and> (\<forall>(p, q, cs) \<in> set xs. length cs < 4096)"

section \<open>One part\<close>

text \<open>Addresses that no allocation can touch: outside the heap, or in a live block.\<close>

definition kept :: "'a kstate_scheme \<Rightarrow> u32 \<Rightarrow> bool" where
  "kept s a \<longleftrightarrow> a \<notin> heap_area s \<or> (\<exists>p k. (p, k) \<in> kheap_allocs s \<and> in_block p k a)"

lemma kept_mono: "kept s a \<Longrightarrow> heap_area s' = heap_area s \<Longrightarrow> kheap_allocs s \<subseteq> kheap_allocs s' \<Longrightarrow> kept s' a"
  by (auto simp: kept_def)

lemma kept_not_new:
  assumes "kheap_inv s'" "(p, n) \<in> kheap_allocs s'" "heap_area s' = heap_area s"
    "kheap_allocs s \<subseteq> kheap_allocs s'" "\<And>k. (p, k) \<notin> kheap_allocs s" "kept s a"
  shows "\<not> in_block p n a"
proof
  assume b: "in_block p n a"
  then have "a \<in> heap_area s" using live_in_area [OF assms(1,2) b] assms(3) by simp
  then obtain q k where q: "(q, k) \<in> kheap_allocs s" "in_block q k a" using assms(6) by (auto simp: kept_def)
  then have "p = q" using km.allocs_apart [OF assms(1,2) _ b q(2)] assms(4) by blast
  then show False using assms(5) q(1) by blast
qed

lemma cstr_at_mem_cong:
  assumes "cstr_at m p cs" "\<And>j. j \<le> length cs \<Longrightarrow> m' (p + word_of_nat j) = m (p + word_of_nat j)"
  shows "cstr_at m' p cs"
proof -
  have "bytes_at m' p (length cs) = bytes_at m p (length cs)"
    unfolding bytes_at_eq_iff using assms(2) by simp
  then show ?thesis using assms(1) assms(2) [of "length cs"] by (simp add: cstr_at_def)
qed

lemma path_part_loop_copies:
  fixes q :: u32
  assumes "cstr_at m path cs" "i + length (takeWhile (\<lambda>c. c \<noteq> 47) cs) < 4096"
    and "\<And>j k. j \<le> length cs \<Longrightarrow> k < 4096 \<Longrightarrow> path + word_of_nat j \<noteq> q + word_of_nat k"
  defines "w \<equiv> takeWhile (\<lambda>c. c \<noteq> 47) cs"
  shows "\<exists>m'. path_part_loop q path i m = Some (path + word_of_nat (length w), i + length w, m')
    \<and> (\<forall>j < length w. m' (q + word_of_nat (i + j)) = w ! j)
    \<and> (\<forall>a. (\<forall>j < length w. a \<noteq> q + word_of_nat (i + j)) \<longrightarrow> m' a = m a)"
  using assms(1-3) unfolding w_def
proof (induction cs arbitrary: path i m)
  case Nil
  then show ?case by (simp add: path_part_loop.simps)
next
  case (Cons c cs)
  show ?case
  proof (cases "c = 47")
    case True
    with Cons.prems(1) show ?thesis by (simp add: path_part_loop.simps)
  next
    case False
    let ?w = "takeWhile (\<lambda>c. c \<noteq> 47) cs"
    define m1 where "m1 = m(q + word_of_nat i := c)"
    have step: "path_part_loop q path i m = path_part_loop q (path + 1) (Suc i) m1"
      using Cons.prems(1) False by (subst path_part_loop.simps) (simp add: m1_def)
    have len: "Suc i + length ?w < 4096" using Cons.prems(2) False by simp
    have ne: "path + 1 + word_of_nat j \<noteq> q + word_of_nat k" if "j \<le> length cs" "k < 4096" for j k
      using Cons.prems(3) [of "Suc j" k] that by (simp add: add.assoc)
    have "i < 4096" using len by simp
    then have "m1 (path + 1 + word_of_nat j) = m (path + 1 + word_of_nat j)" if "j \<le> length cs" for j
      using ne [OF that] by (simp add: m1_def)
    moreover have "cstr_at m (path + 1) cs" using Cons.prems(1) by simp
    ultimately have "cstr_at m1 (path + 1) cs" by (rule cstr_at_mem_cong [rotated])
    from Cons.IH [OF this len ne] obtain m' where m':
      "path_part_loop q (path + 1) (Suc i) m1 = Some (path + 1 + word_of_nat (length ?w), Suc i + length ?w, m')"
      "\<forall>j < length ?w. m' (q + word_of_nat (Suc i + j)) = ?w ! j"
      "\<forall>a. (\<forall>j < length ?w. a \<noteq> q + word_of_nat (Suc i + j)) \<longrightarrow> m' a = m1 a" by blast
    have "q + word_of_nat i \<noteq> q + word_of_nat (Suc i + j)" if "j < length ?w" for j
    proof -
      have "unat (word_of_nat (Suc i + j) :: u32) = Suc i + j" "unat (word_of_nat i :: u32) = i"
        using that len by (simp_all add: unat_of_nat32 del: of_nat_Suc of_nat_add)
      then show ?thesis by (metis add_left_cancel less_add_Suc1 less_irrefl)
    qed
    then have hd: "m' (q + word_of_nat i) = c" using m'(3) by (simp add: m1_def)
    show ?thesis
    proof (intro exI conjI allI impI)
      show "path_part_loop q path i m =
          Some (path + word_of_nat (length (takeWhile (\<lambda>c. c \<noteq> 47) (c # cs))),
            i + length (takeWhile (\<lambda>c. c \<noteq> 47) (c # cs)), m')"
        using False m'(1) by (simp add: step ac_simps)
      show "m' (q + word_of_nat (i + j)) = takeWhile (\<lambda>c. c \<noteq> 47) (c # cs) ! j"
        if "j < length (takeWhile (\<lambda>c. c \<noteq> 47) (c # cs))" for j
        using that False hd m'(2) by (cases j) auto
      show "m' a = m a"
        if a: "\<forall>j < length (takeWhile (\<lambda>c. c \<noteq> 47) (c # cs)). a \<noteq> q + word_of_nat (i + j)" for a
      proof -
        have "a \<noteq> q + word_of_nat i" using a [rule_format, of 0] False by simp
        moreover have "a \<noteq> q + word_of_nat (Suc i + j)" if "j < length ?w" for j
          using a [rule_format, of "Suc j"] that False by simp
        ultimately show ?thesis using m'(3) by (simp add: m1_def)
      qed
    qed
  qed
qed

text \<open>A fresh zeroed page, with what it keeps.\<close>

lemma kzalloc_kept:
  assumes "kheap_inv s" "0 < kheap_vacant s" "0 < sz" "sz \<le> 4096"
  obtains t s1 where "kzalloc sz s = Inr (t, s1)" "t \<noteq> 0" "kheap_inv s1"
    "kheap_allocs s1 = insert (t, 1) (kheap_allocs s)" "kheap_vacant s = Suc (kheap_vacant s1)"
    "\<And>k. (t, k) \<notin> kheap_allocs s" "page_aligned t" "heap_area s1 = heap_area s"
    "\<And>a. \<not> in_page t a \<Longrightarrow> mem s1 a = mem s a" "\<And>a. kept s a \<Longrightarrow> \<not> in_page t a"
    "\<And>j. j < unat sz \<Longrightarrow> mem s1 (t + word_of_nat j) = 0" "heap_step s s1"
proof -
  obtain t s1 where t: "kzalloc sz s = Inr (t, s1)" "t \<noteq> 0" "kheap_inv s1"
    "kheap_allocs s1 = insert (t, 1) (kheap_allocs s)" "kheap_vacant s = Suc (kheap_vacant s1)"
    "\<And>q k. (q, k) \<in> kheap_allocs s \<Longrightarrow> q \<noteq> t" "page_aligned t"
    "\<And>a. \<not> in_page t a \<Longrightarrow> mem s1 a = mem s a" "heap_step s s1"
    by (rule kzalloc_page [OF assms], rule that)
  have ar: "heap_area s1 = heap_area s"
    by (rule kzalloc_area [OF t(1)])
  have new: "(t, k) \<notin> kheap_allocs s" for k using t(6) by blast
  have "\<not> in_page t a" if "kept s a" for a
    using kept_not_new [OF t(3) _ ar _ new that, of 1] t(4,7) by (auto simp: in_block_page)
  moreover have "mem s1 (t + word_of_nat j) = 0" if "j < unat sz" for j
  proof -
    have "j < 2 ^ 32" using less_trans [OF that unat32_less] by simp
    then show ?thesis using t(1,2) that by (auto simp: kzalloc_Inr memset_apply unat_of_nat32)
  qed
  ultimately show thesis using that t ar new by blast
qed

lemma takeWhile_rest:
  fixes cs :: "u8 list"
  defines "w \<equiv> takeWhile (\<lambda>c. c \<noteq> 47) cs" and "rest \<equiv> drop 1 (dropWhile (\<lambda>c. c \<noteq> 47) cs)"
  assumes "cstr_at m path cs"
  shows "length w \<le> length cs" "m (path + word_of_nat (length w)) = 47 \<longleftrightarrow> length w < length cs"
    "cstr_at m (path + word_of_nat (length cs - length rest)) rest"
    "length cs - length rest = (if length w < length cs then length w + 1 else length w)"
    "length rest \<le> length cs"
  using assms(3) unfolding w_def rest_def
proof (induction cs arbitrary: path)
  case (Cons c cs)
  {
    case 1
    then show ?case using Cons(1)[of "path + 1"] by auto
  next
    case 2
    then show ?case using Cons(2)[of "path + 1"] by (auto simp: ac_simps)
  next
    case 3
    then show ?case using Cons(3)[of "path + 1"] Cons(5) [of "path + 1"]
      by (auto simp: ac_simps Suc_diff_le)
  next
    case 4
    then show ?case using Cons(4)[of "path + 1"] Cons(5) [of "path + 1"]
      by (auto simp: Suc_diff_le split: if_splits)
  next
    case 5
    then show ?case using Cons(5)[of "path + 1"] by auto
  }
qed simp_all

text \<open>What a step of the parser leaves alone.\<close>

definition word_at :: "u32 \<Rightarrow> u32 set" where
  "word_at a = {a, a + 1, a + 2, a + 3}"

definition parse_frame :: "u32 set \<Rightarrow> 'a pstate_scheme \<Rightarrow> 'a pstate_scheme \<Rightarrow> bool" where
  "parse_frame X s s' \<longleftrightarrow> kheap_inv s' \<and> heap_area s' = heap_area s \<and> kheap_allocs s \<subseteq> kheap_allocs s'
     \<and> (\<forall>a. kept s a \<longrightarrow> a \<notin> X \<longrightarrow> mem s' a = mem s a) \<and> heap_step s s'"

lemma parse_frame_trans:
  assumes "parse_frame X s s1" "parse_frame Y s1 s2" "\<And>a. kept s a \<Longrightarrow> a \<in> Y \<Longrightarrow> a \<in> X"
  shows "parse_frame X s s2"
proof -
  have "kept s1 a" if "kept s a" for a
    by (rule kept_mono [OF that]) (use assms(1) in \<open>simp_all add: parse_frame_def\<close>)
  then have "\<forall>a. kept s a \<longrightarrow> a \<notin> X \<longrightarrow> mem s2 a = mem s a"
    using assms unfolding parse_frame_def by metis
  then show ?thesis using assms(1,2) heap_step_trans unfolding parse_frame_def by blast
qed

lemma heap_step_st32: "heap_step s s1 \<Longrightarrow> heap_step s (st32 a w s1)"
  unfolding st32_def by (rule heap_step_trans [OF _ heap_step_mem])

lemma kept_live: "(p, 1) \<in> kheap_allocs s \<Longrightarrow> page_aligned p \<Longrightarrow> in_page p a \<Longrightarrow> kept s a"
  unfolding kept_def using in_block_page [of p a] by (metis One_nat_def)

lemma page_words:
  assumes "page_aligned p" "a \<in> word_at p \<union> word_at (p + 4)"
  shows "in_page p a"
proof -
  have "\<exists>k < 8. a = p + word_of_nat k"
  proof -
    have "a \<in> (\<lambda>k. p + word_of_nat k) ` {0, 1, 2, 3, 4, 5, 6, 7}"
      using assms(2) by (auto simp: word_at_def add.assoc)
    then obtain k where "k \<in> {0, 1, 2, 3, 4, 5, 6, 7}" "a = p + word_of_nat k" by blast
    moreover have "k < 8" using calculation(1) by auto
    ultimately show ?thesis by blast
  qed
  then show ?thesis using in_page_offset [OF assms(1)] by fastforce
qed

lemma load32_kept:
  assumes "\<And>b. b \<in> word_at a \<Longrightarrow> m' b = m b"
  shows "load32 m' a = load32 m a"
  by (rule load32_cong) (use assms in \<open>simp_all add: word_at_def\<close>)

lemma store32_outside: "b \<notin> word_at a \<Longrightarrow> store32 m a w b = m b"
  by (simp add: store32_other word_at_def)

lemma words_apart: "word_at a \<inter> word_at (a + 4) = {}"
  by (auto simp: word_at_def add.assoc)

lemma get_path_part_ok:
  fixes s :: "'a pstate_scheme"
  assumes inv: "kheap_inv s" "0 < kheap_vacant s" and cs: "cstr_at (mem s) path cs" "length cs < 108"
    and kp: "\<And>j. j \<le> length cs \<Longrightarrow> kept s (path + word_of_nat j)"
  defines "w \<equiv> takeWhile (\<lambda>c. c \<noteq> 47) cs" and "rest \<equiv> drop 1 (dropWhile (\<lambda>c. c \<noteq> 47) cs)"
  obtains q s' where
    "pathparser_get_path_part path s = Inr (q, path + word_of_nat (length cs - length rest), s')"
    "parse_frame {} s s'"
    "w = [] \<Longrightarrow> q = 0 \<and> kheap_allocs s' = kheap_allocs s \<and> kheap_vacant s' = kheap_vacant s"
    "w \<noteq> [] \<Longrightarrow> q \<noteq> 0 \<and> page_aligned q \<and> (\<forall>k. (q, k) \<notin> kheap_allocs s) \<and> cstr_at (mem s') q w
       \<and> kheap_allocs s' = insert (q, 1) (kheap_allocs s) \<and> kheap_vacant s = Suc (kheap_vacant s')"
proof -
  have sz: "0 < (word_of_nat GUAVAOS_MAX_PATH :: u32)" "(word_of_nat GUAVAOS_MAX_PATH :: u32) \<le> 4096"
    "unat (word_of_nat GUAVAOS_MAX_PATH :: u32) = 108"
    by (simp_all add: GUAVAOS_MAX_PATH_def)
  obtain q s1 where q: "kzalloc (word_of_nat GUAVAOS_MAX_PATH) s = Inr (q, s1)" "q \<noteq> 0" "kheap_inv s1"
    "kheap_allocs s1 = insert (q, 1) (kheap_allocs s)" "kheap_vacant s = Suc (kheap_vacant s1)"
    "\<And>k. (q, k) \<notin> kheap_allocs s" "page_aligned q" "heap_area s1 = heap_area s"
    "\<And>a. \<not> in_page q a \<Longrightarrow> mem s1 a = mem s a" "\<And>a. kept s a \<Longrightarrow> \<not> in_page q a"
    "\<And>j. j < unat (word_of_nat GUAVAOS_MAX_PATH :: u32) \<Longrightarrow> mem s1 (q + word_of_nat j) = 0" "heap_step s s1"
    by (rule kzalloc_kept [OF inv sz(1,2)], rule that)
  note tw = takeWhile_rest [OF cs(1), folded w_def rest_def]
  have cs1: "cstr_at (mem s1) path cs"
    by (rule cstr_at_mem_cong [OF cs(1)]) (use q(9,10) kp in blast)
  have ne: "path + word_of_nat j \<noteq> q + word_of_nat k" if "j \<le> length cs" "k < 4096" for j k
    using q(10) [OF kp [OF that(1)]] in_page_offset [OF q(7) that(2)] by metis
  have wl: "length w < 108" using tw(1) cs(2) by linarith
  then have "0 + length (takeWhile (\<lambda>c. c \<noteq> 47) cs) < 4096" by (simp add: w_def)
  from path_part_loop_copies [OF cs1 this ne, folded w_def] obtain m' where
    m': "path_part_loop q path 0 (mem s1) = Some (path + word_of_nat (length w), length w, m')"
    "\<forall>j < length w. m' (q + word_of_nat j) = w ! j"
    "\<forall>a. (\<forall>j < length w. a \<noteq> q + word_of_nat j) \<longrightarrow> m' a = mem s1 a" by auto
  have out: "m' a = mem s1 a" if "\<not> in_page q a" for a
  proof (rule m'(3) [rule_format])
    fix j
    assume "j < length w"
    then show "a \<noteq> q + word_of_nat j" using in_page_offset [OF q(7), of j] that wl by auto
  qed
  have kept': "m' a = mem s a" if "kept s a" for a
    using out [OF q(10) [OF that]] q(9) [OF q(10) [OF that]] by simp
  have slash: "m' (path + word_of_nat (length w)) = 47 \<longleftrightarrow> length w < length cs"
    using kept' [OF kp [OF tw(1)]] tw(2) by simp
  have path2: "(if m' (path + word_of_nat (length w)) = 47 then path + word_of_nat (length w) + 1
      else path + word_of_nat (length w)) = path + word_of_nat (length cs - length rest)"
    unfolding slash tw(4) by (simp add: ac_simps)
  define s2 where "s2 = s1\<lparr>mem := m'\<rparr>"
  have s2: "kheap_inv s2" "kheap_allocs s2 = kheap_allocs s1" "kheap_vacant s2 = kheap_vacant s1"
    "heap_area s2 = heap_area s" "mem s2 = m'" "heap_step s s2"
    using q(3,8,12) heap_step_mem [of s1 m'] heap_step_trans by (auto simp: s2_def kheap_view_defs)
  have run: "pathparser_get_path_part path s =
      (if length w = 0 then bnd (kfree q s2) (\<lambda>s3. Inr (0, path + word_of_nat (length cs - length rest), s3))
       else Inr (q, path + word_of_nat (length cs - length rest), s2))"
    unfolding pathparser_get_path_part_def q(1) bnd.simps prod.case m'(1) option.case Let_def
      s2_def [symmetric] s2(5) path2 ..
  show thesis
  proof (cases "w = []")
    case True
    have live: "(q, 1) \<in> kheap_allocs s2" using q(4) s2(2) by simp
    obtain h where h: "kfree q s2 = Inr (s2\<lparr>kernel_heap := h\<rparr>)" "kheap_inv (s2\<lparr>kernel_heap := h\<rparr>)"
      "kheap_allocs (s2\<lparr>kernel_heap := h\<rparr>) = kheap_allocs s2 - {(q, 1)}"
      "kheap_vacant (s2\<lparr>kernel_heap := h\<rparr>) = kheap_vacant s2 + 1"
      by (rule kfree_alloc [OF s2(1) live], rule that)
    define s3 where "s3 = s2\<lparr>kernel_heap := h\<rparr>"
    have al: "kheap_allocs s3 = kheap_allocs s" using h(3) q(4,6) s2(2) by (auto simp: s3_def)
    have frame: "parse_frame {} s s3"
      using h(2) al kfree_area [OF s2(1) live h(1)] s2(4-6) kept' heap_step_trans [OF s2(6) heap_step_heap [of s2 h]]
      unfolding parse_frame_def s3_def by simp
    have vac: "kheap_vacant s3 = kheap_vacant s" using h(4) q(5) s2(3) by (simp add: s3_def)
    have out: "pathparser_get_path_part path s = Inr (0, path + word_of_nat (length cs - length rest), s3)"
      unfolding run using True h(1) by (simp add: s3_def)
    show thesis by (rule that [OF out frame]) (use al vac True in blast)+
  next
    case False
    have str: "cstr_at m' q w"
      unfolding cstr_at_def
    proof (intro conjI)
      show "bytes_at m' q (length w) = w" by (rule nth_equalityI) (use m'(2) in simp_all)
      show "0 \<notin> set w" using cs(1) by (auto simp: w_def cstr_at_def dest: set_takeWhileD)
      have "q + word_of_nat (length w) \<noteq> q + word_of_nat j" if "j < length w" for j
      proof -
        have "unat (word_of_nat (length w) :: u32) = length w" "unat (word_of_nat j :: u32) = j"
          using that wl by (simp_all add: unat_of_nat32)
        then show ?thesis using that by (metis add_left_cancel less_irrefl)
      qed
      then have "m' (q + word_of_nat (length w)) = mem s1 (q + word_of_nat (length w))" using m'(3) by blast
      also have "\<dots> = 0" using q(11) wl sz(3) by simp
      finally show "m' (q + word_of_nat (length w)) = 0" .
    qed
    have frame: "parse_frame {} s s2"
      using s2 q(4) kept' unfolding parse_frame_def by auto
    have out: "pathparser_get_path_part path s = Inr (q, path + word_of_nat (length cs - length rest), s2)"
      unfolding run using False by simp
    show thesis
    proof (rule that [OF out frame])
      show "q \<noteq> 0 \<and> page_aligned q \<and> (\<forall>k. (q, k) \<notin> kheap_allocs s) \<and> cstr_at (mem s2) q w
         \<and> kheap_allocs s2 = insert (q, 1) (kheap_allocs s) \<and> kheap_vacant s = Suc (kheap_vacant s2)"
        using q(2,4,5,6,7) str unfolding s2(2,3,5) by blast
    qed (use False in blast)
  qed
qed

definition link_of :: "u32 \<Rightarrow> u32 set" where
  "link_of last_part = (if last_part = 0 then {} else word_at (last_part + 4))"

lemma parse_path_part_ok:
  fixes s :: "'a pstate_scheme"
  assumes inv: "kheap_inv s" and cs: "cstr_at (mem s) path cs" "length cs < 108"
    and kp: "\<And>j. j \<le> length cs \<Longrightarrow> kept s (path + word_of_nat j)"
    and lp: "last_part \<noteq> 0 \<Longrightarrow> (last_part, 1) \<in> kheap_allocs s"
  defines "w \<equiv> takeWhile (\<lambda>c. c \<noteq> 47) cs" and "rest \<equiv> drop 1 (dropWhile (\<lambda>c. c \<noteq> 47) cs)"
  assumes room: "(if w = [] then 1 else 2) \<le> kheap_vacant s"
  obtains p q s' where
    "pathparser_parse_path_part last_part path s = Inr (p, path + word_of_nat (length cs - length rest), s')"
    "parse_frame (if w = [] then {} else link_of last_part) s s'"
    "w = [] \<Longrightarrow> p = 0 \<and> kheap_allocs s' = kheap_allocs s \<and> kheap_vacant s' = kheap_vacant s"
    "w \<noteq> [] \<Longrightarrow> p \<noteq> 0 \<and> p \<noteq> q \<and> page_aligned p \<and> page_aligned q
       \<and> (\<forall>k. (p, k) \<notin> kheap_allocs s \<and> (q, k) \<notin> kheap_allocs s)
       \<and> cstr_at (mem s') q w \<and> load32 (mem s') p = q \<and> load32 (mem s') (p + 4) = 0
       \<and> (last_part \<noteq> 0 \<longrightarrow> load32 (mem s') (last_part + 4) = p)
       \<and> kheap_allocs s' = insert (p, 1) (insert (q, 1) (kheap_allocs s)) \<and> kheap_vacant s = kheap_vacant s' + 2"
proof -
  have "0 < kheap_vacant s" using room by (simp split: if_splits)
  then obtain q s1 where
    q: "pathparser_get_path_part path s = Inr (q, path + word_of_nat (length cs - length rest), s1)"
    "parse_frame {} s s1"
    "w = [] \<Longrightarrow> q = 0 \<and> kheap_allocs s1 = kheap_allocs s \<and> kheap_vacant s1 = kheap_vacant s"
    "w \<noteq> [] \<Longrightarrow> q \<noteq> 0 \<and> page_aligned q \<and> (\<forall>k. (q, k) \<notin> kheap_allocs s) \<and> cstr_at (mem s1) q w
       \<and> kheap_allocs s1 = insert (q, 1) (kheap_allocs s) \<and> kheap_vacant s = Suc (kheap_vacant s1)"
    using get_path_part_ok [OF inv _ cs kp, folded w_def rest_def] by metis
  show thesis
  proof (cases "w = []")
    case True
    with q(3) have "pathparser_parse_path_part last_part path s = Inr (0, path + word_of_nat (length cs - length rest), s1)"
      by (simp add: pathparser_parse_path_part_def q(1))
    then show thesis by (rule that) (use q(2,3) True in simp_all)
  next
    case False
    note q4 = q(4) [OF False]
    have fr: "kheap_inv s1" "heap_area s1 = heap_area s" using q(2) by (simp_all add: parse_frame_def)
    have "0 < kheap_vacant s1" "(0 :: u32) < 8" "(8 :: u32) \<le> 4096" using q4 room False by simp_all
    then obtain p s2 where p: "kzalloc 8 s1 = Inr (p, s2)" "p \<noteq> 0" "kheap_inv s2"
      "kheap_allocs s2 = insert (p, 1) (kheap_allocs s1)" "kheap_vacant s1 = Suc (kheap_vacant s2)"
      "\<And>k. (p, k) \<notin> kheap_allocs s1" "page_aligned p" "heap_area s2 = heap_area s1"
      "\<And>a. \<not> in_page p a \<Longrightarrow> mem s2 a = mem s1 a" "\<And>a. kept s1 a \<Longrightarrow> \<not> in_page p a"
      "\<And>j. j < unat (8 :: u32) \<Longrightarrow> mem s2 (p + word_of_nat j) = 0" "heap_step s1 s2"
      using kzalloc_kept [OF fr(1)] by metis
    have pq: "p \<noteq> q" "(q, 1) \<in> kheap_allocs s1" using p(6) q4 by blast+
    define s3 where "s3 = st32 (p + 4) 0 (st32 p q s2)"
    define s4 where "s4 = (if last_part \<noteq> 0 then st32 (last_part + 4) p s3 else s3)"
    have run: "pathparser_parse_path_part last_part path s = Inr (p, path + word_of_nat (length cs - length rest), s4)"
      using q4 by (simp add: pathparser_parse_path_part_def q(1) p(1) s3_def s4_def Let_def)
    have new_page: "\<not> in_page p a" if "kept s1 a" for a by (rule p(10) [OF that])
    have m3: "mem s3 a = mem s1 a" if "\<not> in_page p a" for a
    proof -
      have "a \<notin> word_at p" "a \<notin> word_at (p + 4)" using page_words [OF p(7)] that by blast+
      then show ?thesis using p(9) [OF that] by (simp add: s3_def store32_outside)
    qed
    have m4: "mem s4 a = mem s3 a" if "a \<notin> link_of last_part" for a
      using that by (simp add: s4_def link_of_def store32_outside split: if_splits)
    have link_out: "\<not> in_page p a \<and> \<not> in_page q a" if "a \<in> link_of last_part" for a
    proof -
      have l: "last_part \<noteq> 0" "a \<in> word_at (last_part + 4)" using that by (simp_all add: link_of_def split: if_splits)
      have "page_aligned last_part" by (rule live_page_aligned [OF inv lp [OF l(1)]])
      then have "in_page last_part a" "last_part \<noteq> p" "last_part \<noteq> q"
        using page_words [of last_part a] l(2) lp [OF l(1)] p(6) q4 by blast+
      then show ?thesis
        using in_page_unique [OF \<open>page_aligned last_part\<close>, of p a] in_page_unique [OF \<open>page_aligned last_part\<close>, of q a]
          p(7) q4 by blast
    qed
    have heap: "kheap_inv s4" "kheap_allocs s4 = insert (p, 1) (insert (q, 1) (kheap_allocs s))"
      "heap_area s4 = heap_area s" "kheap_vacant s = kheap_vacant s4 + 2"
      using p(3,4,5,8) q4 fr by (simp_all add: s4_def s3_def)
    have frame: "parse_frame (if w = [] then {} else link_of last_part) s s4"
    proof -
      have "mem s4 a = mem s a" if "kept s a" "a \<notin> link_of last_part" for a
      proof -
        have "kept s1 a"
          by (rule kept_mono [OF that(1) fr(2)]) (use q(2) in \<open>simp add: parse_frame_def\<close>)
        then have "mem s4 a = mem s1 a" using m4 [OF that(2)] m3 [OF new_page] by simp
        then show ?thesis using q(2) that(1) by (simp add: parse_frame_def)
      qed
      moreover have "heap_step s s4"
        using q(2) heap_step_trans [OF _ p(12), of s] unfolding parse_frame_def s4_def s3_def
        by (auto intro!: heap_step_st32)
      ultimately show ?thesis using heap False unfolding parse_frame_def by auto
    qed
    have "cstr_at (mem s4) q w"
    proof (rule cstr_at_mem_cong)
      show "cstr_at (mem s1) q w" using q4 by blast
      fix j
      assume "j \<le> length w"
      then have "j < 4096" using takeWhile_rest(1) [OF cs(1), folded w_def] cs(2) by linarith
      then have "in_page q (q + word_of_nat j)" using in_page_offset q4 by blast
      then show "mem s4 (q + word_of_nat j) = mem s1 (q + word_of_nat j)"
        using m4 m3 link_out new_page kept_live [OF pq(2)] q4 by metis
    qed
    moreover have "load32 (mem s4) p = q" "load32 (mem s4) (p + 4) = 0"
    proof -
      have "mem s4 b = mem s3 b" if "b \<in> word_at p \<union> word_at (p + 4)" for b
        using m4 link_out page_words [OF p(7) that] by blast
      then have e: "load32 (mem s4) p = load32 (mem s3) p" "load32 (mem s4) (p + 4) = load32 (mem s3) (p + 4)"
        by (auto intro!: load32_kept)
      have "load32 (mem s3) p = load32 (store32 (mem s2) p q) p"
      proof (rule load32_kept)
        fix b
        assume "b \<in> word_at p"
        then have "b \<notin> word_at (p + 4)" using words_apart [of p] by blast
        then show "mem s3 b = store32 (mem s2) p q b" by (simp add: s3_def store32_outside)
      qed
      then show "load32 (mem s4) p = q" "load32 (mem s4) (p + 4) = 0" using e by (simp_all add: s3_def)
    qed
    moreover have "last_part \<noteq> 0 \<longrightarrow> load32 (mem s4) (last_part + 4) = p" by (simp add: s4_def)
    ultimately show thesis
      by (intro that [OF run frame]) (use False p(2,6,7) pq q4 heap(2,4) in blast)+
  qed
qed

section \<open>The whole chain\<close>

lemma node_pages_Cons [simp]: "node_pages ((p, q, cs) # xs) = q # p # node_pages xs"
  and node_pages_Nil [simp]: "node_pages [] = []"
  by (simp_all add: node_pages_def)

definition page_allocs :: "u32 list \<Rightarrow> (u32 \<times> nat) set" where
  "page_allocs ps = (\<lambda>p. (p, 1)) ` set ps"

lemma page_allocs_simps [simp]: "page_allocs [] = {}" "page_allocs (p # ps) = insert (p, 1) (page_allocs ps)"
  by (simp_all add: page_allocs_def)

lemma parse_loop_ok:
  fixes s :: "'a pstate_scheme"
  assumes "kheap_inv s" "cstr_at (mem s) path cs" "length cs < 108"
    and "\<And>j. j \<le> length cs \<Longrightarrow> path + word_of_nat j \<notin> heap_area s"
    and "part \<noteq> 0" "(part, 1) \<in> kheap_allocs s" "load32 (mem s) (part + 4) = 0"
    and "2 * length (path_parts cs) + 1 \<le> kheap_vacant s"
  shows "\<exists>xs s'. pathparser_parse_loop part path s = Some (Inr s')
    \<and> chain (mem s') (load32 (mem s') (part + 4)) xs \<and> map (\<lambda>(p, q, cs). cs) xs = path_parts cs
    \<and> parse_frame (word_at (part + 4)) s s' \<and> distinct (node_pages xs)
    \<and> (\<forall>p \<in> set (node_pages xs). page_aligned p \<and> (\<forall>k. (p, k) \<notin> kheap_allocs s))
    \<and> kheap_allocs s' = kheap_allocs s \<union> page_allocs (node_pages xs)
    \<and> kheap_vacant s = kheap_vacant s' + 2 * length xs"
  using assms
proof (induction cs arbitrary: path part s rule: path_parts.induct)
  case (1 cs)
  note inv = 1(2) and str = 1(3,4) and outside = 1(5) and part = 1(6-8) and room = 1(9)
  define w where "w = takeWhile (\<lambda>c. c \<noteq> 47) cs"
  define rest where "rest = drop 1 (dropWhile (\<lambda>c. c \<noteq> 47) cs)"
  have parts: "path_parts cs = (if w = [] then [] else w # path_parts rest)"
    by (subst path_parts.simps) (simp add: w_def rest_def)
  have kp: "kept s (path + word_of_nat j)" if "j \<le> length cs" for j
    using outside [OF that] by (simp add: kept_def)
  have pal: "page_aligned part" by (rule live_page_aligned [OF inv part(2)])
  have room1: "(if w = [] then 1 else 2) \<le> kheap_vacant s" using room by (simp add: parts split: if_splits)
  have lp: "(part, 1) \<in> kheap_allocs s" if "part \<noteq> 0" by (rule part(2))
  obtain p q s1 where r:
    "pathparser_parse_path_part part path s = Inr (p, path + word_of_nat (length cs - length rest), s1)"
    "parse_frame (if w = [] then {} else link_of part) s s1"
    "w = [] \<Longrightarrow> p = 0 \<and> kheap_allocs s1 = kheap_allocs s \<and> kheap_vacant s1 = kheap_vacant s"
    "w \<noteq> [] \<Longrightarrow> p \<noteq> 0 \<and> p \<noteq> q \<and> page_aligned p \<and> page_aligned q
       \<and> (\<forall>k. (p, k) \<notin> kheap_allocs s \<and> (q, k) \<notin> kheap_allocs s)
       \<and> cstr_at (mem s1) q w \<and> load32 (mem s1) p = q \<and> load32 (mem s1) (p + 4) = 0
       \<and> (part \<noteq> 0 \<longrightarrow> load32 (mem s1) (part + 4) = p)
       \<and> kheap_allocs s1 = insert (p, 1) (insert (q, 1) (kheap_allocs s)) \<and> kheap_vacant s = kheap_vacant s1 + 2"
    by (rule parse_path_part_ok [OF inv str kp lp room1 [unfolded w_def], folded w_def rest_def], assumption, assumption, rule that)
  have step: "pathparser_parse_loop part path s =
      pathparser_parse_loop p (path + word_of_nat (length cs - length rest)) s1"
    using part(1) r(1) by (subst pathparser_parse_loop.simps) simp
  have part_kept: "kept s b" if "b \<in> word_at (part + 4)" for b
    using kept_live [OF part(2) pal] page_words [OF pal] that by blast
  show ?case
  proof (cases "w = []")
    case True
    have "pathparser_parse_loop part path s = Some (Inr s1)"
      unfolding step using r(3) True by (subst pathparser_parse_loop.simps) simp
    moreover have "load32 (mem s1) (part + 4) = 0"
      using load32_kept [of "part + 4" "mem s1" "mem s"] part_kept r(2) True part(3)
      by (simp add: parse_frame_def)
    moreover have "parse_frame (word_at (part + 4)) s s1" using r(2) True by (auto simp: parse_frame_def)
    ultimately show ?thesis using r(3) True parts by (intro exI [of _ "[]"] exI [of _ s1]) simp
  next
    case False
    note r4 = r(4) [OF False]
    have f1: "kheap_inv s1" "heap_area s1 = heap_area s" "kheap_allocs s \<subseteq> kheap_allocs s1"
      "\<And>a. kept s a \<Longrightarrow> a \<notin> word_at (part + 4) \<Longrightarrow> mem s1 a = mem s a"
      using r(2) False part(1) by (simp_all add: parse_frame_def link_of_def)
    have kept1: "kept s1 a" if "kept s a" for a by (rule kept_mono [OF that f1(2,3)])
    note tw = takeWhile_rest [OF str(1), folded w_def rest_def]
    define path1 where "path1 = path + word_of_nat (length cs - length rest)"
    have area_part: "in_page part a \<Longrightarrow> a \<in> heap_area s" for a
      using live_in_area [OF inv part(2)] in_block_page [OF pal] by simp
    have shift: "path1 + word_of_nat j = path + word_of_nat (length cs - length rest + j)" for j
      by (simp add: path1_def add.assoc)
    have out1: "path1 + word_of_nat j \<notin> heap_area s" if "j \<le> length rest" for j
      unfolding shift by (rule outside) (use that tw(5) in simp)
    have "mem s1 (path1 + word_of_nat j) = mem s (path1 + word_of_nat j)" if "j \<le> length rest" for j
    proof (rule f1(4))
      show "kept s (path1 + word_of_nat j)" using out1 [OF that] by (simp add: kept_def)
      show "path1 + word_of_nat j \<notin> word_at (part + 4)" using out1 [OF that] area_part page_words [OF pal] by blast
    qed
    then have str1: "cstr_at (mem s1) path1 rest"
      using cstr_at_mem_cong [OF tw(3)] by (simp add: path1_def)
    have p1: "p \<noteq> 0" "(p, 1) \<in> kheap_allocs s1" "load32 (mem s1) (p + 4) = 0" "page_aligned p" "page_aligned q"
      "(q, 1) \<in> kheap_allocs s1" "p \<noteq> q" using r4 by simp_all
    have rl: "length rest < 108" "2 * length (path_parts rest) + 1 \<le> kheap_vacant s1"
      using tw(5) str(2) room r4 False by (simp_all add: parts)
    have out1': "path1 + word_of_nat j \<notin> heap_area s1" if "j \<le> length rest" for j
      using out1 [OF that] f1(2) by simp
    have "takeWhile (\<lambda>c. c \<noteq> 47) cs \<noteq> []" using False by (simp add: w_def)
    from 1(1) [OF this, folded rest_def, OF f1(1) str1 rl(1) out1' p1(1-3) rl(2)] obtain xs s' where ih:
      "pathparser_parse_loop p path1 s1 = Some (Inr s')" "chain (mem s') (load32 (mem s') (p + 4)) xs"
      "map (\<lambda>(p, q, cs). cs) xs = path_parts rest" "parse_frame (word_at (p + 4)) s1 s'" "distinct (node_pages xs)"
      "\<forall>p \<in> set (node_pages xs). page_aligned p \<and> (\<forall>k. (p, k) \<notin> kheap_allocs s1)"
      "kheap_allocs s' = kheap_allocs s1 \<union> page_allocs (node_pages xs)"
      "kheap_vacant s1 = kheap_vacant s' + 2 * length xs" by blast
    have f2: "mem s' a = mem s1 a" if "kept s1 a" "a \<notin> word_at (p + 4)" for a
      using ih(4) that by (simp add: parse_frame_def)
    have in_p: "in_page p b" if "b \<in> word_at p \<union> word_at (p + 4)" for b by (rule page_words [OF p1(4) that])
    have link: "load32 (mem s') (part + 4) = p"
    proof -
      have "part \<noteq> p" using part(2) r4 by blast
      then have "b \<notin> word_at (p + 4)" if "b \<in> word_at (part + 4)" for b
        using in_page_unique [OF pal p1(4), of b] page_words [OF pal, of b] in_p [of b] that by blast
      then have "load32 (mem s') (part + 4) = load32 (mem s1) (part + 4)"
        by (intro load32_kept f2 kept1 part_kept)
      then show ?thesis using r4 part(1) by simp
    qed
    have strp: "load32 (mem s') p = q"
    proof -
      have "load32 (mem s') p = load32 (mem s1) p"
        by (intro load32_kept f2) (use kept_live [OF p1(2,4)] in_p words_apart [of p] in blast)+
      then show ?thesis using r4 by simp
    qed
    have text_q: "cstr_at (mem s') q w"
    proof (rule cstr_at_mem_cong)
      show "cstr_at (mem s1) q w" using r4 by blast
      fix j
      assume "j \<le> length w"
      then have "j < 4096" using tw(1) str(2) by linarith
      then have iq: "in_page q (q + word_of_nat j)" by (rule in_page_offset [OF p1(5)])
      show "mem s' (q + word_of_nat j) = mem s1 (q + word_of_nat j)"
        by (intro f2 kept_live [OF p1(6,5) iq])
          (use in_page_unique [OF p1(4,5) in_p iq] p1(7) in blast)
    qed
    have ch: "chain (mem s') (load32 (mem s') (part + 4)) ((p, q, w) # xs)"
      using link strp text_q False ih(2) by simp
    have frame: "parse_frame (word_at (part + 4)) s s'"
    proof (rule parse_frame_trans [OF _ ih(4)])
      show "parse_frame (word_at (part + 4)) s s1" using r(2) False part(1) by (simp add: link_of_def)
      fix a
      assume k: "kept s a" and "a \<in> word_at (p + 4)"
      then have "in_page p a" using in_p by blast
      moreover have "\<not> in_page p a"
        using kept_not_new [OF f1(1) p1(2) f1(2,3) _ k] r4 in_block_page [OF p1(4)] by simp
      ultimately show "a \<in> word_at (part + 4)" by blast
    qed
    have "q \<notin> set (node_pages xs)" "p \<notin> set (node_pages xs)" using ih(6) p1(2,6) by blast+
    then have "distinct (node_pages ((p, q, w) # xs))" using ih(5) p1(7) by simp
    moreover have "\<forall>x \<in> set (node_pages ((p, q, w) # xs)). page_aligned x \<and> (\<forall>k. (x, k) \<notin> kheap_allocs s)"
      using ih(6) f1(3) p1(4,5) r4 by auto
    moreover have "kheap_allocs s' = kheap_allocs s \<union> page_allocs (node_pages ((p, q, w) # xs))"
      using ih(7) r4 by auto
    moreover have "kheap_vacant s = kheap_vacant s' + 2 * length ((p, q, w) # xs)" using ih(8) r4 by simp
    moreover have "map (\<lambda>(p, q, cs). cs) ((p, q, w) # xs) = path_parts cs" using ih(3) False by (simp add: parts)
    moreover have "pathparser_parse_loop part path s = Some (Inr s')" using step ih(1) by (simp add: path1_def)
    ultimately show ?thesis using ch frame by blast
  qed
qed

section \<open>Freeing a path\<close>

lemma free_loop_ok:
  fixes s :: "'a pstate_scheme"
  assumes "kheap_inv s" "chain (mem s) p xs" "distinct (node_pages xs)" "0 \<notin> set (node_pages xs)"
    "page_allocs (node_pages xs) \<subseteq> kheap_allocs s"
  shows "\<exists>h. pathparser_free_loop p s = Some (Inr (s\<lparr>kernel_heap := h\<rparr>)) \<and> kheap_inv (s\<lparr>kernel_heap := h\<rparr>)
    \<and> kheap_allocs (s\<lparr>kernel_heap := h\<rparr>) = kheap_allocs s - page_allocs (node_pages xs)
    \<and> kheap_vacant (s\<lparr>kernel_heap := h\<rparr>) = kheap_vacant s + 2 * length xs"
  using assms
proof (induction xs arbitrary: p s)
  case Nil
  then show ?case by (intro exI [of _ "kernel_heap s"]) (simp add: pathparser_free_loop.simps)
next
  case (Cons x xs)
  obtain x' q cs where x: "x = (x', q, cs)" by (cases x)
  have c: "p = x'" "load32 (mem s) p = q" "chain (mem s) (load32 (mem s) (p + 4)) xs" "p \<noteq> 0" "p \<noteq> q"
    "p \<notin> set (node_pages xs)" "q \<notin> set (node_pages xs)"
    using Cons.prems(2-4) by (auto simp: x)
  have live: "(q, 1) \<in> kheap_allocs s" using Cons.prems(5) by (simp add: x)
  obtain h where h: "kfree q s = Inr (s\<lparr>kernel_heap := h\<rparr>)" "kheap_inv (s\<lparr>kernel_heap := h\<rparr>)"
    "kheap_allocs (s\<lparr>kernel_heap := h\<rparr>) = kheap_allocs s - {(q, 1)}"
    "kheap_vacant (s\<lparr>kernel_heap := h\<rparr>) = kheap_vacant s + 1"
    by (rule kfree_alloc [OF Cons.prems(1) live], rule that)
  have live2: "(p, 1) \<in> kheap_allocs (s\<lparr>kernel_heap := h\<rparr>)" using Cons.prems(5) c(1,5) h(3) by (auto simp: x)
  obtain h' where h': "kfree p (s\<lparr>kernel_heap := h\<rparr>) = Inr (s\<lparr>kernel_heap := h\<rparr>\<lparr>kernel_heap := h'\<rparr>)"
    "kheap_inv (s\<lparr>kernel_heap := h\<rparr>\<lparr>kernel_heap := h'\<rparr>)"
    "kheap_allocs (s\<lparr>kernel_heap := h\<rparr>\<lparr>kernel_heap := h'\<rparr>) = kheap_allocs (s\<lparr>kernel_heap := h\<rparr>) - {(p, 1)}"
    "kheap_vacant (s\<lparr>kernel_heap := h\<rparr>\<lparr>kernel_heap := h'\<rparr>) = kheap_vacant (s\<lparr>kernel_heap := h\<rparr>) + 1"
    by (rule kfree_alloc [OF h(2) live2], rule that)
  define s1 where "s1 = s\<lparr>kernel_heap := h'\<rparr>"
  have step: "pathparser_free_loop p s = pathparser_free_loop (load32 (mem s) (p + 4)) s1"
    using c(2,4) h(1) h'(1) by (subst pathparser_free_loop.simps) (simp add: s1_def)
  have s1: "kheap_inv s1" "kheap_allocs s1 = kheap_allocs s - {(q, 1), (p, 1)}"
    "kheap_vacant s1 = kheap_vacant s + 2" "mem s1 = mem s"
    using h'(2-4) h(3,4) by (auto simp: s1_def)
  have "page_allocs (node_pages xs) \<subseteq> kheap_allocs s1"
    using Cons.prems(5) c(6,7) s1(2) by (auto simp: x page_allocs_def)
  moreover have "distinct (node_pages xs)" "0 \<notin> set (node_pages xs)" using Cons.prems(3,4) by (simp_all add: x)
  ultimately obtain g where g: "pathparser_free_loop (load32 (mem s) (p + 4)) s1 = Some (Inr (s1\<lparr>kernel_heap := g\<rparr>))"
    "kheap_inv (s1\<lparr>kernel_heap := g\<rparr>)"
    "kheap_allocs (s1\<lparr>kernel_heap := g\<rparr>) = kheap_allocs s1 - page_allocs (node_pages xs)"
    "kheap_vacant (s1\<lparr>kernel_heap := g\<rparr>) = kheap_vacant s1 + 2 * length xs"
    using Cons.IH [OF s1(1), of "load32 (mem s) (p + 4)"] c(3) s1(4) by auto
  have e: "s1\<lparr>kernel_heap := g\<rparr> = s\<lparr>kernel_heap := g\<rparr>" by (simp add: s1_def)
  have "kheap_allocs (s\<lparr>kernel_heap := g\<rparr>) = kheap_allocs s - page_allocs (node_pages (x # xs))"
    using g(3) s1(2) c(1) unfolding e by (auto simp: x)
  then show ?case using step g(1,2,4) s1(3) unfolding e by auto
qed

text \<open>A parsed path: the root, its drive and its chain, all in their own live blocks.\<close>

definition path_at :: "'a kstate_scheme \<Rightarrow> u32 \<Rightarrow> int \<Rightarrow> part_node list \<Rightarrow> bool" where
  "path_at s root drive xs \<longleftrightarrow> load32 (mem s) root = word_of_int drive \<and> chain (mem s) (load32 (mem s) (root + 4)) xs
     \<and> distinct (root # node_pages xs) \<and> 0 \<notin> set (root # node_pages xs)
     \<and> page_allocs (root # node_pages xs) \<subseteq> kheap_allocs s"

lemma pathparser_free_ok:
  fixes s :: "'a pstate_scheme"
  assumes "kheap_inv s" "path_at s root drive xs"
  shows "\<exists>h. pathparser_free root s = Inr (s\<lparr>kernel_heap := h\<rparr>) \<and> kheap_inv (s\<lparr>kernel_heap := h\<rparr>)
    \<and> kheap_allocs (s\<lparr>kernel_heap := h\<rparr>) = kheap_allocs s - page_allocs (root # node_pages xs)"
proof -
  have p: "chain (mem s) (load32 (mem s) (root + 4)) xs" "distinct (node_pages xs)" "0 \<notin> set (node_pages xs)"
    "page_allocs (node_pages xs) \<subseteq> kheap_allocs s" "(root, 1) \<in> kheap_allocs s" "root \<notin> set (node_pages xs)"
    using assms(2) by (auto simp: path_at_def)
  from free_loop_ok [OF assms(1) p(1-4)] obtain h where
    h: "pathparser_free_loop (load32 (mem s) (root + 4)) s = Some (Inr (s\<lparr>kernel_heap := h\<rparr>))"
    "kheap_inv (s\<lparr>kernel_heap := h\<rparr>)"
    "kheap_allocs (s\<lparr>kernel_heap := h\<rparr>) = kheap_allocs s - page_allocs (node_pages xs)" by blast
  have live: "(root, 1) \<in> kheap_allocs (s\<lparr>kernel_heap := h\<rparr>)" using h(3) p(5,6) by (auto simp: page_allocs_def)
  obtain h' where h': "kfree root (s\<lparr>kernel_heap := h\<rparr>) = Inr (s\<lparr>kernel_heap := h\<rparr>\<lparr>kernel_heap := h'\<rparr>)"
    "kheap_inv (s\<lparr>kernel_heap := h\<rparr>\<lparr>kernel_heap := h'\<rparr>)"
    "kheap_allocs (s\<lparr>kernel_heap := h\<rparr>\<lparr>kernel_heap := h'\<rparr>) = kheap_allocs (s\<lparr>kernel_heap := h\<rparr>) - {(root, 1)}"
    by (rule kfree_alloc [OF h(2) live], rule that)
  then show ?thesis using h by (intro exI [of _ h']) (auto simp: pathparser_free_def ends_def)
qed

section \<open>The parser\<close>

text \<open>The first part is linked by \<^verbatim>\<open>pathparser_parse\<close> itself, at the offset of a node's next field.\<close>

lemma parse_path_part_unlinked:
  assumes "pathparser_parse_path_part root path s = Inr (p, path1, s')" "root \<noteq> 0" "p \<noteq> 0"
  obtains s2 where "pathparser_parse_path_part 0 path s = Inr (p, path1, s2)" "s' = st32 (root + 4) p s2"
proof -
  obtain q s1 where q: "pathparser_get_path_part path s = Inr (q, path1, s1)" "q \<noteq> 0"
    using assms(1,3) by (auto simp: pathparser_parse_path_part_def bnd_Inr_iff Let_def split: if_splits)
  then obtain s2 where z: "kzalloc 8 s1 = Inr (p, s2)"
    "s' = st32 (root + 4) p (st32 (p + 4) 0 (st32 p q s2))"
    using assms(1,2) by (auto simp: pathparser_parse_path_part_def bnd_Inr_iff Let_def)
  show thesis
    by (rule that [of "st32 (p + 4) 0 (st32 p q s2)"])
      (simp_all add: pathparser_parse_path_part_def q z)
qed

lemma parse_loop_step:
  "part \<noteq> 0 \<Longrightarrow> ends (pathparser_parse_loop part path s) =
     bnd (pathparser_parse_path_part part path s) (\<lambda>(p, path1, s1). ends (pathparser_parse_loop p path1 s1))"
  by (subst pathparser_parse_loop.simps) (auto simp: ends_def split: sum.splits)

lemma length_cstr_upto_cstr: "cstr_at m p s \<Longrightarrow> length s \<le> n \<Longrightarrow> length (cstr_upto m p n) = length s"
  by (simp add: cstr_upto_cstr)

lemma valid_format:
  assumes "cstr_at m path (d # 58 # 47 # cs)" "is_digit d" "length cs \<le> 105"
  shows "pathparser_get_drive_by_path m path = (to_numeric_digit d, path + 3)" "0 \<le> to_numeric_digit d"
    "strlen m path = Some (int (length cs) + 3)" "cstr_at m (path + 3) cs"
proof -
  have len: "length (d # 58 # 47 # cs) \<le> 108" using assms(3) by simp
  have "strnlen m path 108 = int (length cs) + 3"
    using length_cstr_upto_cstr [OF assms(1) len] by (simp add: strnlen_eq)
  moreover have "m path = d" "m (path + 1) = 58" "m (path + 1 + 1) = 47"
    using assms(1) by simp_all
  moreover have "lit '':/'' = [58, 47]" by (simp add: lit_def)
  ultimately show "pathparser_get_drive_by_path m path = (to_numeric_digit d, path + 3)"
    using assms(2) by (simp add: pathparser_get_drive_by_path_def pathparser_path_valid_format_def GUAVAOS_MAX_PATH_def)
  show "0 \<le> to_numeric_digit d" using assms(2) by (simp add: to_numeric_digit_def is_digit_def)
  show "strlen m path = Some (int (length cs) + 3)" using strlen_cstr [OF assms(1)] by simp
  show "cstr_at m (path + 3) cs" using assms(1) by (simp add: add.assoc)
qed

lemma pathparser_parse_ok:
  fixes s :: "'a pstate_scheme"
  assumes inv: "kheap_inv s" and str: "cstr_at (mem s) path (d # 58 # 47 # cs)" "is_digit d" "length cs \<le> 105"
    and outside: "\<And>j. j \<le> length cs + 3 \<Longrightarrow> path + word_of_nat j \<notin> heap_area s"
    and room: "2 * length (path_parts cs) + 2 \<le> kheap_vacant s"
  obtains root xs s' where "pathparser_parse path s = Inr (root, s')" "path_at s' root (to_numeric_digit d) xs"
    "map (\<lambda>(p, q, cs). cs) xs = path_parts cs" "parse_frame {} s s'"
    "\<And>p k. p \<in> set (root # node_pages xs) \<Longrightarrow> (p, k) \<notin> kheap_allocs s"
    "kheap_allocs s' = kheap_allocs s \<union> page_allocs (root # node_pages xs)"
proof -
  note result = that
  note v = valid_format [OF str]
  have "0 < kheap_vacant s" "(0 :: u32) < 8" "(8 :: u32) \<le> 4096" using room by simp_all
  then obtain root s0 where r: "kzalloc 8 s = Inr (root, s0)" "root \<noteq> 0" "kheap_inv s0"
    "kheap_allocs s0 = insert (root, 1) (kheap_allocs s)" "kheap_vacant s = Suc (kheap_vacant s0)"
    "\<And>k. (root, k) \<notin> kheap_allocs s" "page_aligned root" "heap_area s0 = heap_area s"
    "\<And>a. \<not> in_page root a \<Longrightarrow> mem s0 a = mem s a" "\<And>a. kept s a \<Longrightarrow> \<not> in_page root a" "heap_step s s0"
    using kzalloc_kept [OF inv] by metis
  define s1 where "s1 = st32 (root + 4) 0 (st32 root (word_of_int (to_numeric_digit d)) s0)"
  have root1: "pathparser_create_root (to_numeric_digit d) s = Inr (root, s1)"
    by (simp add: pathparser_create_root_def r(1) s1_def)
  have s1: "kheap_inv s1" "kheap_allocs s1 = insert (root, 1) (kheap_allocs s)" "heap_area s1 = heap_area s"
    "kheap_vacant s = Suc (kheap_vacant s1)" "load32 (mem s1) (root + 4) = 0" "(root, 1) \<in> kheap_allocs s1"
    using r(3,4,5,8) by (simp_all add: s1_def)
  have m1: "mem s1 a = mem s a" if "\<not> in_page root a" for a
  proof -
    have "a \<notin> word_at root" "a \<notin> word_at (root + 4)" using page_words [OF r(7)] that by blast+
    then show ?thesis using r(9) [OF that] by (simp add: s1_def store32_outside)
  qed
  have fr1: "parse_frame {} s s1"
    using s1 r(10) m1 heap_step_st32 [OF heap_step_st32 [OF r(11)]] by (auto simp: parse_frame_def s1_def)
  have drive: "load32 (mem s1) root = word_of_int (to_numeric_digit d)"
  proof -
    have "load32 (mem s1) root = load32 (store32 (mem s0) root (word_of_int (to_numeric_digit d))) root"
    proof (rule load32_kept)
      fix b
      assume "b \<in> word_at root"
      then have "b \<notin> word_at (root + 4)" using words_apart [of root] by blast
      then show "mem s1 b = store32 (mem s0) root (word_of_int (to_numeric_digit d)) b"
        by (simp add: s1_def store32_outside)
    qed
    then show ?thesis by simp
  qed
  have shift: "path + 3 + word_of_nat j = path + word_of_nat (j + 3)" for j by (simp add: add.assoc)
  have out3: "path + 3 + word_of_nat j \<notin> heap_area s1" if "j \<le> length cs" for j
    unfolding s1(3) shift by (rule outside) (use that in simp)
  have str1: "cstr_at (mem s1) (path + 3) cs"
  proof (rule cstr_at_mem_cong [OF v(4)])
    fix j
    assume "j \<le> length cs"
    then have "kept s (path + 3 + word_of_nat j)" using out3 s1(3) by (simp add: kept_def)
    then show "mem s1 (path + 3 + word_of_nat j) = mem s (path + 3 + word_of_nat j)" using m1 r(10) by blast
  qed
  have lens: "length cs < 108" "2 * length (path_parts cs) + 1 \<le> kheap_vacant s1" using str(3) room s1(4) by simp_all
  from parse_loop_ok [OF s1(1) str1 lens(1) out3 r(2) s1(6,5) lens(2)] obtain xs s' where l:
    "pathparser_parse_loop root (path + 3) s1 = Some (Inr s')" "chain (mem s') (load32 (mem s') (root + 4)) xs"
    "map (\<lambda>(p, q, cs). cs) xs = path_parts cs" "parse_frame (word_at (root + 4)) s1 s'" "distinct (node_pages xs)"
    "\<forall>p \<in> set (node_pages xs). page_aligned p \<and> (\<forall>k. (p, k) \<notin> kheap_allocs s1)"
    "kheap_allocs s' = kheap_allocs s1 \<union> page_allocs (node_pages xs)" by blast
  have pal: "b \<in> word_at root \<union> word_at (root + 4) \<Longrightarrow> in_page root b" for b by (rule page_words [OF r(7)])
  have parse: "pathparser_parse path s =
      bnd (pathparser_parse_path_part 0 (path + 3) s1) (\<lambda>(first_part, tmp_path1, s2).
        if first_part = 0 then Inr (root, s2)
        else bnd (pathparser_parse_path_part first_part tmp_path1 (st32 (root + 4) first_part s2))
          (\<lambda>(part, tmp_path2, s3). bnd (ends (pathparser_parse_loop part tmp_path2 s3)) (\<lambda>s4. Inr (root, s4))))"
    using v r(2) str(3) by (simp add: pathparser_parse_def GUAVAOS_MAX_PATH_def root1)
  let ?w = "takeWhile (\<lambda>c. c \<noteq> 47) cs"
  have kp: "kept s1 (path + 3 + word_of_nat j)" if "j \<le> length cs" for j
    using out3 [OF that] by (simp add: kept_def)
  have room1: "(if ?w = [] then 1 else 2) \<le> kheap_vacant s1"
    using lens(2) by (subst (asm) path_parts.simps) (simp split: if_splits)
  have finish: thesis if fin: "pathparser_parse path s = Inr (root, t)" "path_at t root (to_numeric_digit d) xs"
    "parse_frame {} s t" "kheap_allocs t = kheap_allocs s \<union> page_allocs (root # node_pages xs)" for t
  proof (rule result [OF fin(1,2) l(3) fin(3) _ fin(4)])
    show "(p, k) \<notin> kheap_allocs s" if "p \<in> set (root # node_pages xs)" for p k
      using that r(6) l(6) s1(2) by auto
  qed
  have own: "distinct (root # node_pages xs)" "0 \<notin> set (root # node_pages xs)"
  proof -
    have n: "root \<notin> set (node_pages xs)" using l(6) s1(6) by blast
    then show "distinct (root # node_pages xs)" using l(5) by simp
    have "kheap_inv s'" using l(4) by (simp add: parse_frame_def)
    then have "p \<noteq> 0" if "p \<in> set (node_pages xs)" for p
      using km.allocs_shape [of s' p 1] l(7) that by (auto simp: page_allocs_def)
    then show "0 \<notin> set (root # node_pages xs)" using r(2) by auto
  qed
  show thesis
  proof (cases "?w = []")
    case True
    then have xs: "xs = []" using l(3) by (subst (asm) path_parts.simps) simp
    obtain p q s2 where z: "pathparser_parse_path_part 0 (path + 3) s1 =
        Inr (p, path + 3 + word_of_nat (length cs - length (drop 1 (dropWhile (\<lambda>c. c \<noteq> 47) cs))), s2)"
      "parse_frame (if ?w = [] then {} else link_of 0) s1 s2"
      "?w = [] \<Longrightarrow> p = 0 \<and> kheap_allocs s2 = kheap_allocs s1 \<and> kheap_vacant s2 = kheap_vacant s1"
      by (rule parse_path_part_ok [OF s1(1) str1 lens(1) kp _ room1, of 0], assumption, simp, rule that)
    note z3 = z(3) [OF True]
    have kept_root: "mem s2 b = mem s1 b" if "b \<in> word_at root \<union> word_at (root + 4)" for b
      using z(2) kept_live [OF s1(6) r(7) pal [OF that]] True by (simp add: parse_frame_def)
    have "load32 (mem s2) root = word_of_int (to_numeric_digit d)" "load32 (mem s2) (root + 4) = 0"
      using load32_kept [of root "mem s2" "mem s1"] load32_kept [of "root + 4" "mem s2" "mem s1"] kept_root drive s1(5)
      by simp_all
    then have "path_at s2 root (to_numeric_digit d) xs"
      using own z3 s1(6) by (simp add: path_at_def xs)
    moreover have "parse_frame {} s s2" using parse_frame_trans [OF fr1 z(2)] True by simp
    moreover have "pathparser_parse path s = Inr (root, s2)" unfolding parse using z(1) z3 by simp
    ultimately show thesis using finish z3 s1(2) by (simp add: xs)
  next
    case False
    have lp: "(root, 1) \<in> kheap_allocs s1" if "root \<noteq> 0" by (rule s1(6))
    obtain p q s2' where z: "pathparser_parse_path_part root (path + 3) s1 =
        Inr (p, path + 3 + word_of_nat (length cs - length (drop 1 (dropWhile (\<lambda>c. c \<noteq> 47) cs))), s2')" "p \<noteq> 0"
      by (rule parse_path_part_ok [OF s1(1) str1 lens(1) kp lp room1], assumption, assumption)
        (use False in blast)
    obtain s2 where u: "pathparser_parse_path_part 0 (path + 3) s1 =
        Inr (p, path + 3 + word_of_nat (length cs - length (drop 1 (dropWhile (\<lambda>c. c \<noteq> 47) cs))), s2)"
      "s2' = st32 (root + 4) p s2"
      by (rule parse_path_part_unlinked [OF z(1) r(2) z(2)], rule that)
    have "pathparser_parse path s = bnd (ends (pathparser_parse_loop root (path + 3) s1)) (\<lambda>s4. Inr (root, s4))"
      unfolding parse u(1) parse_loop_step [OF r(2)] z(1) bnd.simps prod.case if_not_P [OF z(2)] u(2) [symmetric]
      by (simp add: parse_loop_step [OF z(2)] bnd_assoc split_def)
    then have run: "pathparser_parse path s = Inr (root, s')" by (simp add: l(1) ends_def)
    have "load32 (mem s') root = load32 (mem s1) root"
    proof (rule load32_kept)
      fix b
      assume b: "b \<in> word_at root"
      then have "b \<notin> word_at (root + 4)" using words_apart [of root] by blast
      then show "mem s' b = mem s1 b"
        using l(4) kept_live [OF s1(6) r(7) pal] b by (simp add: parse_frame_def)
    qed
    then have "path_at s' root (to_numeric_digit d) xs"
      using own drive l(2,7) s1(2) by (auto simp: path_at_def)
    moreover have "parse_frame {} s s'"
    proof (rule parse_frame_trans [OF fr1 l(4)])
      show "a \<in> {}" if "kept s a" "a \<in> word_at (root + 4)" for a using r(10) [OF that(1)] pal that(2) by blast
    qed
    ultimately show thesis using finish [OF run] l(7) s1(2) by simp
  qed
qed

section \<open>Properties: pparser.c\<close>

text \<open>The text of a list of parts.\<close>

fun path_text :: "u8 list list \<Rightarrow> u8 list" where
  "path_text [] = []"
| "path_text [p] = p"
| "path_text (p # q # ps) = p @ 47 # path_text (q # ps)"

definition part_names :: "u8 list list \<Rightarrow> bool" where
  "part_names ps \<longleftrightarrow> (\<forall>p \<in> set ps. p \<noteq> [] \<and> 47 \<notin> set p)"

lemma path_parts_Cons:
  assumes "takeWhile (\<lambda>c. c \<noteq> 47) cs = p" "p \<noteq> []" "path_parts (drop 1 (dropWhile (\<lambda>c. c \<noteq> 47) cs)) = ps"
  shows "path_parts cs = p # ps"
  by (subst path_parts.simps, unfold assms(1,3)) (simp add: assms(2))

lemma path_parts_text: "part_names ps \<Longrightarrow> path_parts (path_text ps) = ps"
proof (induction ps rule: path_text.induct)
  case 1
  then show ?case by (subst path_parts.simps) simp
next
  case (2 p)
  then have p: "p \<noteq> []" "\<forall>c \<in> set p. c \<noteq> 47" by (auto simp: part_names_def)
  have "path_parts [] = []" by (subst path_parts.simps) simp
  moreover have "dropWhile (\<lambda>c. c \<noteq> 47) p = []" using p(2) unfolding dropWhile_eq_Nil_conv .
  ultimately have "path_parts (drop 1 (dropWhile (\<lambda>c. c \<noteq> 47) p)) = []" by (simp only: drop_Nil)
  moreover have "takeWhile (\<lambda>c. c \<noteq> 47) p = p" using p(2) unfolding takeWhile_eq_all_conv .
  ultimately have "path_parts p = [p]" using p(1) by (intro path_parts_Cons)
  then show ?case by simp
next
  case (3 p q ps)
  then have p: "p \<noteq> []" "\<And>c. c \<in> set p \<Longrightarrow> c \<noteq> 47" by (auto simp: part_names_def)
  have "takeWhile (\<lambda>c. c \<noteq> 47) (p @ 47 # path_text (q # ps)) = p"
    "dropWhile (\<lambda>c. c \<noteq> 47) (p @ 47 # path_text (q # ps)) = 47 # path_text (q # ps)"
    using takeWhile_append2 [of p "\<lambda>c. c \<noteq> 47"] dropWhile_append2 [of p "\<lambda>c. c \<noteq> 47"] p(2) by auto
  moreover have "path_parts (path_text (q # ps)) = q # ps" using 3 by (simp add: part_names_def)
  ultimately have "path_parts (p @ 47 # path_text (q # ps)) = p # q # ps"
    using p(1) by (intro path_parts_Cons [where ps = "q # ps"]) simp_all
  then show ?case by simp
qed

text \<open>C20: Parsing recovers what was written. For a drive digit and nonempty part names joined by slashes, at
  most 105 characters outside the heap, with two free blocks per part and two more, \<open>pathparser_parse\<close>
  returns a root whose drive is the digit and whose chain holds exactly these names, all in blocks that
  were free; nothing that was live changes, and \<open>pathparser_free\<close> gives all of them back.\<close>

theorem parse_recovers_parts:
  fixes s :: "'a pstate_scheme"
  assumes "kheap_inv s" "part_names ps" "is_digit d" "length (path_text ps) \<le> 105"
    and "cstr_at (mem s) path (d # 58 # 47 # path_text ps)"
    and "\<forall>j \<le> length (path_text ps) + 3. path + word_of_nat j \<notin> heap_area s"
    and "2 * length ps + 2 \<le> kheap_vacant s"
  shows "\<exists>root xs s' s''. pathparser_parse path s = Inr (root, s') \<and> root \<noteq> 0
    \<and> load32 (mem s') root = word_of_int (to_numeric_digit d)
    \<and> chain (mem s') (load32 (mem s') (root + 4)) xs \<and> map (\<lambda>(p, q, cs). cs) xs = ps
    \<and> (\<forall>p \<in> set (root # node_pages xs). \<forall>k. (p, k) \<notin> kheap_allocs s)
    \<and> (\<forall>a. kept s a \<longrightarrow> mem s' a = mem s a)
    \<and> pathparser_free root s' = Inr s'' \<and> kheap_inv s'' \<and> kheap_allocs s'' = kheap_allocs s"
proof -
  have room: "2 * length (path_parts (path_text ps)) + 2 \<le> kheap_vacant s"
    using assms(7) path_parts_text [OF assms(2)] by simp
  obtain root xs s' where r: "pathparser_parse path s = Inr (root, s')" "path_at s' root (to_numeric_digit d) xs"
    "map (\<lambda>(p, q, cs). cs) xs = path_parts (path_text ps)" "parse_frame {} s s'"
    "\<And>p k. p \<in> set (root # node_pages xs) \<Longrightarrow> (p, k) \<notin> kheap_allocs s"
    "kheap_allocs s' = kheap_allocs s \<union> page_allocs (root # node_pages xs)"
    by (rule pathparser_parse_ok [OF assms(1,5,3,4) assms(6) [rule_format] room], assumption, rule that)
  have inv: "kheap_inv s'" using r(4) by (simp add: parse_frame_def)
  obtain h where h: "pathparser_free root s' = Inr (s'\<lparr>kernel_heap := h\<rparr>)" "kheap_inv (s'\<lparr>kernel_heap := h\<rparr>)"
    "kheap_allocs (s'\<lparr>kernel_heap := h\<rparr>) = kheap_allocs s' - page_allocs (root # node_pages xs)"
    using pathparser_free_ok [OF inv r(2)] by blast
  have "kheap_allocs (s'\<lparr>kernel_heap := h\<rparr>) = kheap_allocs s"
    unfolding h(3) r(6) using r(5) by (auto simp: page_allocs_def)
  moreover have "root \<noteq> 0" "load32 (mem s') root = word_of_int (to_numeric_digit d)"
    "chain (mem s') (load32 (mem s') (root + 4)) xs" using r(2) by (simp_all add: path_at_def)
  moreover have "map (\<lambda>(p, q, cs). cs) xs = ps" using r(3) path_parts_text [OF assms(2)] by simp
  moreover have "\<forall>a. kept s a \<longrightarrow> mem s' a = mem s a" using r(4) by (simp add: parse_frame_def)
  ultimately show ?thesis using r(1,5) h(1,2) by blast
qed

text \<open>The boot state with the text \<^verbatim>\<open>0:/A/B\<close> at address \<^verbatim>\<open>0x500\<close>.\<close>

definition path_sample :: pstate where
  "path_sample = boot_state\<lparr>mem := (\<lambda>_. 0)(0x500 := 48, 0x501 := 58, 0x502 := 47, 0x503 := 65, 0x504 := 47, 0x505 := 66)\<rparr>"

theorem parse_recovers_parts_witness:
  "\<exists>root xs s'. pathparser_parse 0x500 path_sample = Inr (root, s') \<and> load32 (mem s') root = 0
     \<and> map (\<lambda>(p, q, cs). cs) xs = [[65], [66]] \<and> chain (mem s') (load32 (mem s') (root + 4)) xs"
proof -
  have inv: "kheap_inv path_sample" "2 * length [[65], [66 :: u8]] + 2 \<le> kheap_vacant path_sample"
    using boot_state_inv by (simp_all add: path_sample_def kheap_view_defs)
  have names: "part_names [[65], [66]]" "is_digit 48" "length (path_text [[65], [66]]) \<le> 105"
    by (simp_all add: part_names_def is_digit_def)
  have str: "cstr_at (mem path_sample) 0x500 (48 # 58 # 47 # path_text [[65], [66]])"
    by (simp add: path_sample_def)
  have out: "\<forall>j \<le> length (path_text [[65], [66 :: u8]]) + 3. 0x500 + word_of_nat j \<notin> heap_area path_sample"
  proof (intro allI impI)
    fix j assume that: "j \<le> length (path_text [[65], [66 :: u8]]) + 3"
    have "unat (word_of_nat (1280 + j) :: u32) = 1280 + j" using that by (intro unat_of_nat32) simp
    then show "0x500 + word_of_nat j \<notin> heap_area path_sample"
      using that by (simp add: heap_area_def path_sample_def boot_state_def fresh_heap_def)
  qed
  obtain root xs s' where r: "pathparser_parse 0x500 path_sample = Inr (root, s')"
    "load32 (mem s') root = word_of_int (to_numeric_digit 48)"
    "chain (mem s') (load32 (mem s') (root + 4)) xs" "map (\<lambda>(p, q, cs). cs) xs = [[65], [66]]"
    using parse_recovers_parts [OF inv(1) names str out inv(2)] by (elim exE conjE) (rule that)
  have "load32 (mem s') root = 0" unfolding r(2) by (simp add: to_numeric_digit_def)
  from r(1) this r(4,3) show ?thesis by (intro exI conjI)
qed

text \<open>C31: A path that does not start with a digit and \<open>:/\<close>, or is shorter than three or longer than 108
  characters, is rejected: \<open>pathparser_parse\<close> returns the null pointer and changes nothing.\<close>

theorem parse_rejects_malformed:
  assumes "cstr_at (mem s) path cs"
    and "\<not> (\<exists>d rest. is_digit d \<and> cs = d # 58 # 47 # rest) \<or> 108 < length cs"
  shows "pathparser_parse path s = Inr (0, s)"
proof (cases "108 < length cs")
  case True
  then show ?thesis using strlen_cstr [OF assms(1)] by (simp add: pathparser_parse_def GUAVAOS_MAX_PATH_def)
next
  case False
  then have no: "\<not> (\<exists>d rest. is_digit d \<and> cs = d # 58 # 47 # rest)" using assms(2) by blast
  have len: "strnlen (mem s) path 108 = int (length cs)"
    using length_cstr_upto_cstr [OF assms(1), of 108] False by (simp add: strnlen_eq)
  have "\<not> pathparser_path_valid_format (mem s) path"
  proof
    assume v: "pathparser_path_valid_format (mem s) path"
    then have "3 \<le> length cs" using len by (simp add: pathparser_path_valid_format_def GUAVAOS_MAX_PATH_def)
    then obtain d a b rest where cs: "cs = d # a # b # rest"
      by (metis (no_types, opaque_lifting) length_Cons list.exhaust list.size(3) not_less_eq_eq numeral_3_eq_3 le0 Suc_le_mono)
    then have m: "mem s path = d" "mem s (path + 1) = a" "mem s (path + 1 + 1) = b" using assms(1) by simp_all
    moreover have "lit '':/'' = [58, 47]" by (simp add: lit_def)
    ultimately have "is_digit d" "a = 58" "b = 47"
      using v by (simp_all add: pathparser_path_valid_format_def split: if_splits)
    with no cs show False by blast
  qed
  then show ?thesis using strlen_cstr [OF assms(1)] False
    by (simp add: pathparser_parse_def pathparser_get_drive_by_path_def GUAVAOS_MAX_PATH_def EBADPATH_def)
qed

theorem parse_rejects_malformed_witness: "pathparser_parse 0x503 path_sample = Inr (0, path_sample)"
proof (rule parse_rejects_malformed)
  show "cstr_at (mem path_sample) 0x503 [65, 47, 66]" by (simp add: path_sample_def)
qed simp

end
