(* ===== verification/Fat16.thy ===== *)
theory Fat16
  imports Disk PathParser
begin

text \<open>
  \<^verbatim>\<open>src/fs/fat/fat16.c\<close>: the FAT16 file system driver. Its structures are in heap blocks of the flat
  memory, at the offsets the compiler gives them on i686: \<^verbatim>\<open>struct fat_private\<close> (92 bytes: the 62
  packed header bytes of sector 0, the root directory at 64, the three streams at 80, 84 and 88),
  \<^verbatim>\<open>struct fat_directory\<close> (16 bytes), \<^verbatim>\<open>struct fat_directory_item\<close> (32 packed bytes, as on disk),
  \<^verbatim>\<open>struct fat_item\<close> (8 bytes: the union, the type) and \<^verbatim>\<open>struct fat_file_descriptor\<close> (8 bytes).

  The only \<^verbatim>\<open>struct disk\<close> of the program is the global one, so the parameter \<^verbatim>\<open>disk\<close> of these
  functions is the disk part of the state. A local array is a list of bytes, and an index past it is
  \<open>Inl Undefined\<close>, as are a division by zero and a signed product outside the range of \<^verbatim>\<open>int\<close>.
\<close>

section \<open>Layout (fat16.h)\<close>

definition GUAVAOS_FAT16_ENTRY_SIZE :: int where "GUAVAOS_FAT16_ENTRY_SIZE = 0x02"
definition GUAVAOS_FAT16_BAD_SECTOR :: int where "GUAVAOS_FAT16_BAD_SECTOR = 0xFF7"
definition FAT_ITEM_TYPE_DIRECTORY :: u32 where "FAT_ITEM_TYPE_DIRECTORY = 0"
definition FAT_ITEM_TYPE_FILE :: u32 where "FAT_ITEM_TYPE_FILE = 1"
definition FAT_FILE_READ_ONLY :: u8 where "FAT_FILE_READ_ONLY = 0x01"
definition FAT_FILE_SUBDIRECTORY :: u8 where "FAT_FILE_SUBDIRECTORY = 0x10"
definition FILE_MODE_READ :: u32 where "FILE_MODE_READ = 0"
definition FILE_MODE_WRITE :: u32 where "FILE_MODE_WRITE = 1"
definition FILE_MODE_APPEND :: u32 where "FILE_MODE_APPEND = 2"
definition FILE_MODE_INVALID :: u32 where "FILE_MODE_INVALID = 3"
definition SEEK_SET :: u32 where "SEEK_SET = 0"
definition SEEK_CUR :: u32 where "SEEK_CUR = 1"
definition SEEK_END :: u32 where "SEEK_END = 2"
definition FILE_STAT_READ_ONLY :: u32 where "FILE_STAT_READ_ONLY = 1"

lemmas fat_consts = GUAVAOS_FAT16_ENTRY_SIZE_def GUAVAOS_FAT16_BAD_SECTOR_def
  FAT_ITEM_TYPE_DIRECTORY_def FAT_ITEM_TYPE_FILE_def FAT_FILE_READ_ONLY_def FAT_FILE_SUBDIRECTORY_def
  FILE_MODE_READ_def FILE_MODE_WRITE_def FILE_MODE_APPEND_def FILE_MODE_INVALID_def
  SEEK_SET_def SEEK_CUR_def SEEK_END_def FILE_STAT_READ_ONLY_def

text \<open>Fields of the header (at the start of the private data).\<close>

definition sectors_per_cluster :: "memory \<Rightarrow> u32 \<Rightarrow> u8" where "sectors_per_cluster m private = m (private + 13)"
definition reserved_sectors :: "memory \<Rightarrow> u32 \<Rightarrow> u16" where "reserved_sectors m private = load16 m (private + 14)"
definition fat_copies :: "memory \<Rightarrow> u32 \<Rightarrow> u8" where "fat_copies m private = m (private + 16)"
definition root_dir_entries :: "memory \<Rightarrow> u32 \<Rightarrow> u16" where "root_dir_entries m private = load16 m (private + 17)"
definition sectors_per_fat :: "memory \<Rightarrow> u32 \<Rightarrow> u16" where "sectors_per_fat m private = load16 m (private + 22)"
definition fat_signature :: "memory \<Rightarrow> u32 \<Rightarrow> u8" where "fat_signature m private = m (private + 38)"

text \<open>Offsets of the other fields.\<close>

definition ROOT_DIRECTORY :: u32 where "ROOT_DIRECTORY = 64"
definition CLUSTER_READ_STREAM :: u32 where "CLUSTER_READ_STREAM = 80"
definition FAT_READ_STREAM :: u32 where "FAT_READ_STREAM = 84"
definition DIRECTORY_STREAM :: u32 where "DIRECTORY_STREAM = 88"
definition fat_private_sizeof :: u32 where "fat_private_sizeof = 92"
definition D_ITEM :: u32 where "D_ITEM = 0"
definition D_TOTAL :: u32 where "D_TOTAL = 4"
definition D_SECTOR_POS :: u32 where "D_SECTOR_POS = 8"
definition D_ENDING_SECTOR_POS :: u32 where "D_ENDING_SECTOR_POS = 12"
definition fat_directory_sizeof :: u32 where "fat_directory_sizeof = 16"
definition I_EXT :: u32 where "I_EXT = 8"
definition I_ATTRIBUTE :: u32 where "I_ATTRIBUTE = 11"
definition I_HIGH_CLUSTER :: u32 where "I_HIGH_CLUSTER = 20"
definition I_LOW_CLUSTER :: u32 where "I_LOW_CLUSTER = 26"
definition I_FILESIZE :: u32 where "I_FILESIZE = 28"
definition fat_directory_item_sizeof :: u32 where "fat_directory_item_sizeof = 32"
definition F_ITEM :: u32 where "F_ITEM = 0"
definition F_TYPE :: u32 where "F_TYPE = 4"
definition FD_ITEM :: u32 where "FD_ITEM = 0"
definition FD_POS :: u32 where "FD_POS = 4"

lemmas fat_layout = sectors_per_cluster_def reserved_sectors_def fat_copies_def root_dir_entries_def
  sectors_per_fat_def fat_signature_def ROOT_DIRECTORY_def CLUSTER_READ_STREAM_def FAT_READ_STREAM_def
  DIRECTORY_STREAM_def fat_private_sizeof_def D_ITEM_def D_TOTAL_def D_SECTOR_POS_def
  D_ENDING_SECTOR_POS_def fat_directory_sizeof_def I_EXT_def I_ATTRIBUTE_def I_HIGH_CLUSTER_def
  I_LOW_CLUSTER_def I_FILESIZE_def fat_directory_item_sizeof_def F_ITEM_def F_TYPE_def FD_ITEM_def FD_POS_def

text \<open>The address of the global \<^verbatim>\<open>fat16_fs\<close>; its name field is at offset 24, after the six operations.\<close>

record fatstate = dstate +
  fat16_fs :: u32

record file_stat =
  stat_flags :: u32
  stat_filesize :: u32

section \<open>Signed arithmetic\<close>

definition c_int :: "int \<Rightarrow> int outcome" where
  "c_int i = (if - (2 ^ 31) \<le> i \<and> i < 2 ^ 31 then Inr i else Inl Undefined)"

definition c_div :: "int \<Rightarrow> int \<Rightarrow> int outcome" where
  "c_div a b = (if b = 0 then Inl Undefined else c_int (a sdiv b))"

definition c_mod :: "int \<Rightarrow> int \<Rightarrow> int outcome" where
  "c_mod a b = (if b = 0 then Inl Undefined else Inr (a smod b))"

section \<open>Mounting\<close>

definition fat16_init :: "'a fatstate_scheme \<Rightarrow> u32 \<times> 'a fatstate_scheme" where
  "fat16_init s = (fat16_fs s, s\<lparr>mem := store_bytes (fat16_fs s + 24) (lit ''FAT16'' @ [0]) (mem s)\<rparr>)"

definition fat16_init_private :: "u32 \<Rightarrow> 'a dstate_scheme \<Rightarrow> 'a dstate_scheme outcome" where
  "fat16_init_private private s =
     (let s0 = s\<lparr>mem := memset private 0 fat_private_sizeof (mem s)\<rparr>
      in bnd (diskstreamer_new (disk_id s0) s0) (\<lambda>(c, s1).
         bnd (diskstreamer_new (disk_id s1) (st32 (private + CLUSTER_READ_STREAM) c s1)) (\<lambda>(f, s2).
         bnd (diskstreamer_new (disk_id s2) (st32 (private + FAT_READ_STREAM) f s2)) (\<lambda>(d, s3).
           Inr (st32 (private + DIRECTORY_STREAM) d s3)))))"

definition fat16_sector_to_absolute :: "int \<Rightarrow> 'a dstate_scheme \<Rightarrow> int outcome" where
  "fat16_sector_to_absolute sector s = c_int (sector * sector_size s)"

text \<open>A read into memory: the bytes are stored from \<open>out\<close> on.\<close>

definition diskstreamer_read_into ::
  "u32 \<Rightarrow> u32 \<Rightarrow> int \<Rightarrow> 'a dstate_scheme \<Rightarrow> (int \<times> 'a dstate_scheme) outcome" where
  "diskstreamer_read_into stream out tot s =
     bnd (diskstreamer_read stream tot s) (\<lambda>(res, bs, s1). Inr (res, s1\<lparr>mem := store_bytes out bs (mem s1)\<rparr>))"

text \<open>The loop over the directory entries on disk: \<open>0\<close> ends it, \<open>0xE5\<close> marks an unused entry.\<close>

partial_function (option) total_items_loop ::
  "u32 \<Rightarrow> int \<Rightarrow> 'a dstate_scheme \<Rightarrow> (int \<times> 'a dstate_scheme) outcome option" where
  "total_items_loop stream i s =
     (case diskstreamer_read stream (sint fat_directory_item_sizeof) s of
        Inl e \<Rightarrow> Some (Inl e)
      | Inr r \<Rightarrow>
          if fst r \<noteq> GUAVAOS_ALL_OK then Some (Inr (- EIO, snd (snd r)))
          else if fst (snd r) ! 0 = 0x00 then Some (Inr (i, snd (snd r)))
          else if fst (snd r) ! 0 = 0xE5 then total_items_loop stream i (snd (snd r))
          else total_items_loop stream (i + 1) (snd (snd r)))"

definition fat16_get_total_items_for_directory ::
  "u32 \<Rightarrow> 'a dstate_scheme \<Rightarrow> (int \<times> 'a dstate_scheme) outcome" where
  "fat16_get_total_items_for_directory directory_start_sector s =
     (let directory_start_pos = directory_start_sector * word_of_int (sector_size s);
          stream = load32 (mem s) (fs_private s + DIRECTORY_STREAM);
          (res, s1) = diskstreamer_seek stream directory_start_pos s
      in if res \<noteq> GUAVAOS_ALL_OK then Inr (- EIO, s1)
         else ends (total_items_loop stream 0 s1))"

text \<open>The local \<^verbatim>\<open>total_sectors\<close> is computed and not used; its division can fault.\<close>

definition fat16_get_root_directory ::
  "u32 \<Rightarrow> u32 \<Rightarrow> 'a dstate_scheme \<Rightarrow> (int \<times> 'a dstate_scheme) outcome" where
  "fat16_get_root_directory fat_private directory s =
     (let root_dir_sector_pos = uint (fat_copies (mem s) fat_private) * uint (sectors_per_fat (mem s) fat_private)
            + uint (reserved_sectors (mem s) fat_private);
          root_dir_size = uint (root_dir_entries (mem s) fat_private) * sint fat_directory_item_sizeof
      in bnd (c_div root_dir_size (sector_size s)) (\<lambda>total_sectors.
         bnd (fat16_get_total_items_for_directory (word_of_int root_dir_sector_pos) s) (\<lambda>(total_items, s1).
         bnd (kzalloc (word_of_int root_dir_size) s1) (\<lambda>(dir, s2).
           if dir = 0 then Inr (- ENOMEM, s2)
           else
             let stream = load32 (mem s2) (fat_private + DIRECTORY_STREAM)
             in bnd (fat16_sector_to_absolute root_dir_sector_pos s2) (\<lambda>pos.
                  let (res, s3) = diskstreamer_seek stream (word_of_int pos) s2
                  in if res \<noteq> GUAVAOS_ALL_OK then Inr (- EIO, s3)
                     else bnd (diskstreamer_read_into stream dir root_dir_size s3) (\<lambda>(res, s4).
                       if res \<noteq> GUAVAOS_ALL_OK then Inr (- EIO, s4)
                       else
                         let s5 = st32 (directory + D_ITEM) dir s4;
                             s6 = st32 (directory + D_TOTAL) (word_of_int total_items) s5;
                             s7 = st32 (directory + D_SECTOR_POS) (word_of_int root_dir_sector_pos) s6
                         in Inr (0, st32 (directory + D_ENDING_SECTOR_POS)
                              (word_of_int (root_dir_sector_pos + root_dir_size sdiv sector_size s7)) s7)))))))"

definition fat16_resolve :: "'a fatstate_scheme \<Rightarrow> (int \<times> 'a fatstate_scheme) outcome" where
  "fat16_resolve s =
     bnd (kzalloc fat_private_sizeof s) (\<lambda>(fat_private, s1).
     bnd (fat16_init_private fat_private s1) (\<lambda>s2.
       let s3 = s2\<lparr>fs_private := fat_private, disk_filesystem := fat16_fs s2\<rparr>;
           out = (\<lambda>stream (res, s).
             bnd (if stream \<noteq> 0 then diskstreamer_close stream s else Inr s) (\<lambda>s.
               if res < 0 then bnd (kfree fat_private s) (\<lambda>s. Inr (res, s\<lparr>fs_private := 0\<rparr>))
               else Inr (res, s)))
       in bnd (diskstreamer_new (disk_id s3) s3) (\<lambda>(stream, s4).
            if stream = 0 then out stream (- ENOMEM, s4)
            else bnd (diskstreamer_read_into stream fat_private 62 s4) (\<lambda>(res, s5).
              if res \<noteq> GUAVAOS_ALL_OK then out stream (- EIO, s5)
              else if fat_signature (mem s5) fat_private \<noteq> 0x29 then out stream (- EFSNOTUS, s5)
              else bnd (fat16_get_root_directory fat_private (fat_private + ROOT_DIRECTORY) s5) (\<lambda>(res, s6).
                if res \<noteq> GUAVAOS_ALL_OK then out stream (- EIO, s6) else out stream (0, s6))))))"

section \<open>File names\<close>

text \<open>
  \<^verbatim>\<open>fat16_to_proper_string\<close>: the buffer, the index \<^verbatim>\<open>*out\<close> points at, and the input. The loop ends
  because the buffer does: a store past its end is undefined.
\<close>

function proper_string_loop :: "memory \<Rightarrow> u8 list \<Rightarrow> nat \<Rightarrow> u32 \<Rightarrow> (u8 list \<times> nat \<times> u32) outcome" where
  "proper_string_loop m out k inp =
     (if m inp \<noteq> 0x00 \<and> m inp \<noteq> 0x20
      then bnd (arr_set out (int k) (m inp)) (\<lambda>out'. proper_string_loop m out' (Suc k) (inp + 1))
      else Inr (out, k, inp))"
  by pat_completeness auto
termination
  by (relation "measure (\<lambda>(m, out, k, inp). length out - k)") (auto simp: arr_set_def split: if_splits)

declare proper_string_loop.simps [simp del]

definition fat16_to_proper_string :: "memory \<Rightarrow> u8 list \<Rightarrow> nat \<Rightarrow> u32 \<Rightarrow> (u8 list \<times> nat) outcome" where
  "fat16_to_proper_string m out k inp =
     bnd (proper_string_loop m out k inp) (\<lambda>(out', k', inp').
       if m inp' = 0x20 then bnd (arr_set out' (int k') 0) (\<lambda>out''. Inr (out'', k'))
       else Inr (out', k'))"

definition fat16_get_full_relative_filename :: "memory \<Rightarrow> u32 \<Rightarrow> nat \<Rightarrow> u8 list outcome" where
  "fat16_get_full_relative_filename m item max_len =
     bnd (fat16_to_proper_string m (replicate max_len 0) 0 item) (\<lambda>(out, k).
       if m (item + I_EXT) \<noteq> 0x00 \<and> m (item + I_EXT) \<noteq> 0x20
       then bnd (arr_set out (int k) 46) (\<lambda>out'.
            bnd (fat16_to_proper_string m out' (Suc k) (item + I_EXT)) (\<lambda>(out'', _). Inr out''))
       else Inr out)"

text \<open>\<^verbatim>\<open>istrncmp\<close> of a local array and a string in memory.\<close>

fun istrncmp_local :: "u8 list \<Rightarrow> memory \<Rightarrow> u32 \<Rightarrow> nat \<Rightarrow> int outcome" where
  "istrncmp_local xs m s2 0 = Inr 0"
| "istrncmp_local [] m s2 (Suc n) = Inl Undefined"
| "istrncmp_local (u1 # xs) m s2 (Suc n) =
     (let u2 = m s2
      in if u1 \<noteq> u2 \<and> tolower u1 \<noteq> tolower u2 then Inr (uint u1 - uint u2)
         else if u1 = 0 then Inr 0
         else istrncmp_local xs m (s2 + 1) n)"

section \<open>Clusters\<close>

definition fat16_clone_directory_item :: "u32 \<Rightarrow> u32 \<Rightarrow> 'a kstate_scheme \<Rightarrow> (u32 \<times> 'a kstate_scheme) outcome" where
  "fat16_clone_directory_item item sz s =
     (if sz < fat_directory_item_sizeof then Inr (0, s)
      else bnd (kzalloc sz s) (\<lambda>(item_copy, s1).
        if item_copy = 0 then Inr (0, s1)
        else Inr (item_copy, s1\<lparr>mem := memcpy item_copy item sz (mem s1)\<rparr>)))"

definition fat16_get_first_cluster :: "memory \<Rightarrow> u32 \<Rightarrow> u32" where
  "fat16_get_first_cluster m item =
     ucast (load16 m (item + I_HIGH_CLUSTER)) OR ucast (load16 m (item + I_LOW_CLUSTER))"

definition fat16_cluster_to_sector :: "memory \<Rightarrow> u32 \<Rightarrow> int \<Rightarrow> int" where
  "fat16_cluster_to_sector m private cluster =
     sint (load32 m (private + ROOT_DIRECTORY + D_ENDING_SECTOR_POS))
       + (cluster - 2) * uint (sectors_per_cluster m private)"

definition fat16_get_first_fat_sector :: "memory \<Rightarrow> u32 \<Rightarrow> u32" where
  "fat16_get_first_fat_sector m private = ucast (reserved_sectors m private)"

definition fat16_get_fat_entry :: "int \<Rightarrow> 'a dstate_scheme \<Rightarrow> (int \<times> 'a dstate_scheme) outcome" where
  "fat16_get_fat_entry cluster s =
     (let private = fs_private s;
          stream = load32 (mem s) (private + FAT_READ_STREAM)
      in if stream = 0 then Inr (-1, s)
         else
           let fat_table_position = fat16_get_first_fat_sector (mem s) private * word_of_int (sector_size s);
               (res, s1) = diskstreamer_seek stream
                 (fat_table_position * word_of_int (cluster * GUAVAOS_FAT16_ENTRY_SIZE)) s
           in if res < 0 then Inr (res, s1)
              else bnd (diskstreamer_read stream 2 s1) (\<lambda>(res, bs, s2).
                if res < 0 then Inr (res, s2)
                else Inr (uint (ucast (bs ! 0) OR push_bit 8 (ucast (bs ! 1)) :: u16), s2)))"

fun cluster_chain_loop :: "nat \<Rightarrow> int \<Rightarrow> 'a dstate_scheme \<Rightarrow> (int \<times> 'a dstate_scheme) outcome" where
  "cluster_chain_loop 0 cluster_to_use s = Inr (cluster_to_use, s)"
| "cluster_chain_loop (Suc n) cluster_to_use s =
     bnd (fat16_get_fat_entry cluster_to_use s) (\<lambda>(entry, s1).
       if entry = 0xFF8 \<or> entry = 0xFFF then Inr (- EIO, s1)
       else if entry = GUAVAOS_FAT16_BAD_SECTOR then Inr (- EIO, s1)
       else if entry = 0xFF0 \<or> entry = 0xFF6 then Inr (- EIO, s1)
       else if entry = 0x00 then Inr (- EIO, s1)
       else cluster_chain_loop n entry s1)"

definition size_of_cluster_bytes :: "'a dstate_scheme \<Rightarrow> int" where
  "size_of_cluster_bytes s = uint (sectors_per_cluster (mem s) (fs_private s)) * sector_size s"

definition fat16_get_cluster_for_offset ::
  "int \<Rightarrow> int \<Rightarrow> 'a dstate_scheme \<Rightarrow> (int \<times> 'a dstate_scheme) outcome" where
  "fat16_get_cluster_for_offset starting_cluster offset s =
     bnd (c_div offset (size_of_cluster_bytes s)) (\<lambda>clusters_ahead.
       cluster_chain_loop (nat clusters_ahead) starting_cluster s)"

text \<open>
  \<^verbatim>\<open>fat16_read_internal_from_stream\<close>: first the part up to its recursive call, with the result, the
  length read and the state; then the recursion, which need not end in general.
\<close>

definition fat16_read_chunk ::
  "u32 \<Rightarrow> int \<Rightarrow> int \<Rightarrow> int \<Rightarrow> u32 \<Rightarrow> 'a dstate_scheme \<Rightarrow> (int \<times> int \<times> 'a dstate_scheme) outcome" where
  "fat16_read_chunk stream cluster offset tot out s =
     (let private = fs_private s; cluster_bytes = size_of_cluster_bytes s
      in bnd (fat16_get_cluster_for_offset cluster offset s) (\<lambda>(cluster_to_use, s1).
           if cluster_to_use < 0 then Inr (cluster_to_use, 0, s1)
           else bnd (c_mod offset cluster_bytes) (\<lambda>offset_from_cluster.
             let starting_sector = fat16_cluster_to_sector (mem s1) private cluster_to_use
             in bnd (c_int (starting_sector * sector_size s1)) (\<lambda>start.
                bnd (c_int (start + offset_from_cluster)) (\<lambda>starting_pos.
                  let total_to_read = (if cluster_bytes < tot then cluster_bytes else tot);
                      (res, s2) = diskstreamer_seek stream (word_of_int starting_pos) s1
                  in if res \<noteq> GUAVAOS_ALL_OK then Inr (res, total_to_read, s2)
                     else bnd (diskstreamer_read_into stream out total_to_read s2) (\<lambda>(res, s3).
                       Inr (res, total_to_read, s3)))))))"

partial_function (option) fat16_read_internal_from_stream ::
  "u32 \<Rightarrow> int \<Rightarrow> int \<Rightarrow> int \<Rightarrow> u32 \<Rightarrow> 'a dstate_scheme \<Rightarrow> (int \<times> 'a dstate_scheme) outcome option" where
  "fat16_read_internal_from_stream stream cluster offset tot out s =
     (case fat16_read_chunk stream cluster offset tot out s of
        Inl e \<Rightarrow> Some (Inl e)
      | Inr r \<Rightarrow>
          if fst r \<noteq> GUAVAOS_ALL_OK then Some (Inr (fst r, snd (snd r)))
          else if tot - fst (snd r) > 0
          then fat16_read_internal_from_stream stream cluster (offset + fst (snd r)) (tot - fst (snd r))
                 (out + word_of_int (fst (snd r))) (snd (snd r))
          else Some (Inr (fst r, snd (snd r))))"

definition fat16_read_internal ::
  "int \<Rightarrow> int \<Rightarrow> int \<Rightarrow> u32 \<Rightarrow> 'a dstate_scheme \<Rightarrow> (int \<times> 'a dstate_scheme) outcome" where
  "fat16_read_internal starting_cluster offset tot out s =
     (let stream = load32 (mem s) (fs_private s + CLUSTER_READ_STREAM)
      in ends (fat16_read_internal_from_stream stream starting_cluster offset tot out s))"

section \<open>Directories and items\<close>

definition fat16_free_directory :: "u32 \<Rightarrow> 'a kstate_scheme \<Rightarrow> 'a kstate_scheme outcome" where
  "fat16_free_directory directory s =
     (if directory = 0 then Inr s
      else bnd (if load32 (mem s) (directory + D_ITEM) \<noteq> 0 then kfree (load32 (mem s) (directory + D_ITEM)) s
                else Inr s) (kfree directory))"

definition fat16_fat_item_free :: "u32 \<Rightarrow> 'a kstate_scheme \<Rightarrow> 'a kstate_scheme outcome" where
  "fat16_fat_item_free item s =
     bnd (if load32 (mem s) (item + F_TYPE) = FAT_ITEM_TYPE_DIRECTORY
          then fat16_free_directory (load32 (mem s) (item + F_ITEM)) s
          else if load32 (mem s) (item + F_TYPE) = FAT_ITEM_TYPE_FILE
          then kfree (load32 (mem s) (item + F_ITEM)) s
          else Inr s) (kfree item)"

text \<open>After an error the directory is freed and its pointer returned all the same, as in the code.\<close>

definition fat16_load_fat_directory :: "u32 \<Rightarrow> 'a dstate_scheme \<Rightarrow> (u32 \<times> 'a dstate_scheme) outcome" where
  "fat16_load_fat_directory item s =
     (let fat_private = fs_private s;
          out = (\<lambda>directory (res, s).
            if res \<noteq> GUAVAOS_ALL_OK then bnd (fat16_free_directory directory s) (\<lambda>s'. Inr (directory, s'))
            else Inr (directory, s))
      in if mem s (item + I_ATTRIBUTE) AND FAT_FILE_SUBDIRECTORY = 0 then out 0 (- EINVARG, s)
         else bnd (kzalloc fat_directory_sizeof s) (\<lambda>(directory, s1).
           if directory = 0 then out 0 (- ENOMEM, s1)
           else
             let cluster = sint (fat16_get_first_cluster (mem s1) item);
                 cluster_sector = fat16_cluster_to_sector (mem s1) fat_private cluster
             in bnd (fat16_get_total_items_for_directory (word_of_int cluster_sector) s1) (\<lambda>(total_items, s2).
                  let s3 = st32 (directory + D_TOTAL) (word_of_int total_items) s2;
                      directory_size = load32 (mem s3) (directory + D_TOTAL) * fat_directory_item_sizeof
                  in bnd (kzalloc directory_size s3) (\<lambda>(items, s4).
                       let s5 = st32 (directory + D_ITEM) items s4
                       in if items = 0 then out directory (- ENOMEM, s5)
                          else bnd (fat16_read_internal cluster 0 (sint directory_size) items s5) (out directory)))))"

definition fat16_new_fat_item_for_directory_item ::
  "u32 \<Rightarrow> 'a dstate_scheme \<Rightarrow> (u32 \<times> 'a dstate_scheme) outcome" where
  "fat16_new_fat_item_for_directory_item item s =
     bnd (kzalloc 8 s) (\<lambda>(f_item, s1).
       if f_item = 0 then Inr (0, s1)
       else bnd (if mem s1 (item + I_ATTRIBUTE) AND FAT_FILE_SUBDIRECTORY \<noteq> 0
                 then bnd (fat16_load_fat_directory item s1) (\<lambda>(directory, s2).
                   Inr (st32 (f_item + F_TYPE) FAT_ITEM_TYPE_DIRECTORY (st32 (f_item + F_ITEM) directory s2)))
                 else Inr s1) (\<lambda>s3.
            bnd (fat16_clone_directory_item item fat_directory_item_sizeof
                   (st32 (f_item + F_TYPE) FAT_ITEM_TYPE_FILE s3)) (\<lambda>(copy, s4).
              Inr (f_item, st32 (f_item + F_ITEM) copy s4))))"

definition find_item_step ::
  "u32 \<Rightarrow> u32 \<Rightarrow> int \<Rightarrow> u32 \<Rightarrow> 'a dstate_scheme \<Rightarrow> (u32 \<times> 'a dstate_scheme) outcome" where
  "find_item_step directory name i f_item s =
     (let item = load32 (mem s) (directory + D_ITEM) + word_of_int i * fat_directory_item_sizeof
      in bnd (fat16_get_full_relative_filename (mem s) item GUAVAOS_MAX_PATH) (\<lambda>tmp_filename.
         bnd (istrncmp_local tmp_filename (mem s) name GUAVAOS_MAX_PATH) (\<lambda>c.
           if c = 0 then fat16_new_fat_item_for_directory_item item s else Inr (f_item, s))))"

partial_function (option) find_item_loop ::
  "u32 \<Rightarrow> u32 \<Rightarrow> int \<Rightarrow> u32 \<Rightarrow> 'a dstate_scheme \<Rightarrow> (u32 \<times> 'a dstate_scheme) outcome option" where
  "find_item_loop directory name i f_item s =
     (if i < sint (load32 (mem s) (directory + D_TOTAL)) then
        case find_item_step directory name i f_item s of
          Inl e \<Rightarrow> Some (Inl e)
        | Inr r \<Rightarrow> find_item_loop directory name (i + 1) (fst r) (snd r)
      else Some (Inr (f_item, s)))"

definition fat16_find_item_in_directory ::
  "u32 \<Rightarrow> u32 \<Rightarrow> 'a dstate_scheme \<Rightarrow> (u32 \<times> 'a dstate_scheme) outcome" where
  "fat16_find_item_in_directory directory name s = ends (find_item_loop directory name 0 0 s)"

partial_function (option) directory_entry_loop ::
  "u32 \<Rightarrow> u32 \<Rightarrow> 'a dstate_scheme \<Rightarrow> (u32 \<times> 'a dstate_scheme) outcome option" where
  "directory_entry_loop next_part current_item s =
     (if next_part = 0 then Some (Inr (current_item, s))
      else if load32 (mem s) (current_item + F_TYPE) \<noteq> FAT_ITEM_TYPE_DIRECTORY then Some (Inr (0, s))
      else
        case bnd (fat16_find_item_in_directory (load32 (mem s) (current_item + F_ITEM))
                    (load32 (mem s) next_part) s) (\<lambda>(tmp_item, s1).
               bnd (fat16_fat_item_free current_item s1) (\<lambda>s2. Inr (tmp_item, s2))) of
          Inl e \<Rightarrow> Some (Inl e)
        | Inr r \<Rightarrow> directory_entry_loop (load32 (mem (snd r)) (next_part + 4)) (fst r) (snd r))"

definition fat16_get_directory_entry :: "u32 \<Rightarrow> 'a dstate_scheme \<Rightarrow> (u32 \<times> 'a dstate_scheme) outcome" where
  "fat16_get_directory_entry path s =
     bnd (fat16_find_item_in_directory (fs_private s + ROOT_DIRECTORY) (load32 (mem s) path) s) (\<lambda>(root_item, s1).
       if root_item = 0 then Inr (0, s1)
       else ends (directory_entry_loop (load32 (mem s1) (path + 4)) root_item s1))"

section \<open>Operations of the driver\<close>

text \<open>\<^verbatim>\<open>ERROR\<close>, \<^verbatim>\<open>ERROR_I\<close> and \<^verbatim>\<open>ISERR\<close> of \<^verbatim>\<open>kernel.h\<close> on a word that holds a pointer or an error.\<close>

definition ERROR :: "int \<Rightarrow> u32" where "ERROR v = word_of_int v"
definition ERROR_I :: "u32 \<Rightarrow> int" where "ERROR_I v = sint v"
definition ISERR :: "u32 \<Rightarrow> bool" where "ISERR v \<longleftrightarrow> sint v < 0"

definition fat16_open :: "u32 \<Rightarrow> u32 \<Rightarrow> 'a dstate_scheme \<Rightarrow> (u32 \<times> 'a dstate_scheme) outcome" where
  "fat16_open path mode s =
     (if mode \<noteq> FILE_MODE_READ then Inr (ERROR (- ERDONLY), s)
      else bnd (kzalloc 8 s) (\<lambda>(descriptor, s1).
        if descriptor = 0 then Inr (ERROR (- ENOMEM), s1)
        else bnd (fat16_get_directory_entry path s1) (\<lambda>(item, s2).
          let s3 = st32 (descriptor + FD_ITEM) item s2
          in if item = 0 then Inr (ERROR (- EIO), s3)
             else Inr (descriptor, st32 (descriptor + FD_POS) 0 s3))))"

definition fat16_free_file_descriptor :: "u32 \<Rightarrow> 'a kstate_scheme \<Rightarrow> 'a kstate_scheme outcome" where
  "fat16_free_file_descriptor desc s =
     bnd (fat16_fat_item_free (load32 (mem s) (desc + FD_ITEM)) s) (kfree desc)"

definition fat16_close :: "u32 \<Rightarrow> 'a kstate_scheme \<Rightarrow> (int \<times> 'a kstate_scheme) outcome" where
  "fat16_close private s = bnd (fat16_free_file_descriptor private s) (\<lambda>s'. Inr (0, s'))"

text \<open>\<^verbatim>\<open>fat16_stat\<close> gives the result and the caller's \<^verbatim>\<open>struct file_stat\<close>.\<close>

definition fat16_stat :: "u32 \<Rightarrow> file_stat \<Rightarrow> 'a kstate_scheme \<Rightarrow> int \<times> file_stat" where
  "fat16_stat private stat s =
     (let desc_item = load32 (mem s) (private + FD_ITEM)
      in if load32 (mem s) (desc_item + F_TYPE) \<noteq> FAT_ITEM_TYPE_FILE then (- EINVARG, stat)
         else
           let ritem = load32 (mem s) (desc_item + F_ITEM);
               stat1 = stat\<lparr>stat_filesize := load32 (mem s) (ritem + I_FILESIZE), stat_flags := 0\<rparr>
           in (0, if mem s (ritem + I_ATTRIBUTE) AND FAT_FILE_READ_ONLY \<noteq> 0
                  then stat1\<lparr>stat_flags := stat_flags stat1 OR FILE_STAT_READ_ONLY\<rparr> else stat1))"

fun fat16_read_loop ::
  "u32 \<Rightarrow> u32 \<Rightarrow> u32 \<Rightarrow> u32 \<Rightarrow> nat \<Rightarrow> 'a dstate_scheme \<Rightarrow> (int \<times> 'a dstate_scheme) outcome" where
  "fat16_read_loop item sz offset out_ptr 0 s = Inr (0, s)"
| "fat16_read_loop item sz offset out_ptr (Suc n) s =
     bnd (fat16_read_internal (sint (fat16_get_first_cluster (mem s) item)) (sint offset) (sint sz) out_ptr s)
       (\<lambda>(res, s1). if res < 0 then Inr (res, s1)
                   else fat16_read_loop item sz (offset + sz) (out_ptr + sz) n s1)"

definition fat16_read ::
  "u32 \<Rightarrow> u32 \<Rightarrow> u32 \<Rightarrow> u32 \<Rightarrow> 'a dstate_scheme \<Rightarrow> (int \<times> 'a dstate_scheme) outcome" where
  "fat16_read descriptor sz nmemb out_ptr s =
     (let item = load32 (mem s) (load32 (mem s) (descriptor + FD_ITEM) + F_ITEM);
          offset = load32 (mem s) (descriptor + FD_POS)
      in bnd (fat16_read_loop item sz offset out_ptr (unat nmemb) s) (\<lambda>(res, s1).
           Inr (if res < 0 then res else sint nmemb, s1)))"

definition fat16_seek :: "u32 \<Rightarrow> u32 \<Rightarrow> u32 \<Rightarrow> 'a kstate_scheme \<Rightarrow> int \<times> 'a kstate_scheme" where
  "fat16_seek private offset seek_mode s =
     (let desc_item = load32 (mem s) (private + FD_ITEM)
      in if load32 (mem s) (desc_item + F_TYPE) \<noteq> FAT_ITEM_TYPE_FILE then (- EINVARG, s)
         else
           let ritem = load32 (mem s) (desc_item + F_ITEM)
           in if load32 (mem s) (ritem + I_FILESIZE) \<le> offset then (- EIO, s)
              else if seek_mode = SEEK_SET then (0, st32 (private + FD_POS) offset s)
              else if seek_mode = SEEK_END then (- EUNIMP, s)
              else if seek_mode = SEEK_CUR
              then (0, st32 (private + FD_POS) (load32 (mem s) (private + FD_POS) + offset) s)
              else (- EINVARG, s))"

end
