(* ===== verification/File.thy ===== *)
theory File
  imports Fat16
begin

text \<open>
  \<^verbatim>\<open>src/fs/file.c\<close>: the table of file systems, the table of open files and the operations on them. A
  \<^verbatim>\<open>struct filesystem\<close> is a record of functions; a pointer to one is resolved by the argument \<open>vt\<close> of
  the definitions (the objects that exist, by address), so that this part of the code is modelled
  for every driver. \<open>fat16_objects\<close> is the table of this program, whose one driver is \<^verbatim>\<open>fat16_fs\<close>.
  \<^verbatim>\<open>struct file_descriptor\<close> is a heap block: index at 0, file system at 4, private data at 8, disk at 12.
\<close>

section \<open>Data (file.h, config.h)\<close>

definition GUAVAOS_MAX_FILESYSTEMS :: nat where "GUAVAOS_MAX_FILESYSTEMS = 12"
definition GUAVAOS_MAX_FILE_DESCRIPTORS :: nat where "GUAVAOS_MAX_FILE_DESCRIPTORS = 512"

definition D_INDEX :: u32 where "D_INDEX = 0"
definition D_FILESYSTEM :: u32 where "D_FILESYSTEM = 4"
definition D_PRIVATE :: u32 where "D_PRIVATE = 8"
definition D_DISK :: u32 where "D_DISK = 12"
definition file_descriptor_sizeof :: u32 where "file_descriptor_sizeof = 16"

lemmas descriptor_layout = D_INDEX_def D_FILESYSTEM_def D_PRIVATE_def D_DISK_def file_descriptor_sizeof_def

record 's filesystem =
  fs_op_resolve :: "u32 \<Rightarrow> 's \<Rightarrow> (int \<times> 's) outcome"
  fs_op_open :: "u32 \<Rightarrow> u32 \<Rightarrow> u32 \<Rightarrow> 's \<Rightarrow> (u32 \<times> 's) outcome"
  fs_op_read :: "u32 \<Rightarrow> u32 \<Rightarrow> u32 \<Rightarrow> u32 \<Rightarrow> u32 \<Rightarrow> 's \<Rightarrow> (int \<times> 's) outcome"
  fs_op_seek :: "u32 \<Rightarrow> u32 \<Rightarrow> u32 \<Rightarrow> 's \<Rightarrow> (int \<times> 's) outcome"
  fs_op_stat :: "u32 \<Rightarrow> u32 \<Rightarrow> file_stat \<Rightarrow> 's \<Rightarrow> (int \<times> file_stat \<times> 's) outcome"
  fs_op_close :: "u32 \<Rightarrow> 's \<Rightarrow> (int \<times> 's) outcome"

type_synonym 's fs_objects = "u32 \<Rightarrow> 's \<Rightarrow> 's filesystem outcome"

record filestate = fatstate +
  filesystems :: "u32 list"
  file_descriptors :: "u32 list"

section \<open>The table of file systems\<close>

definition fs_get_free_filesystem :: "'a filestate_scheme \<Rightarrow> nat option" where
  "fs_get_free_filesystem s = first_zero (filesystems s)"

text \<open>With a full table the kernel prints a message and stops.\<close>

definition fs_insert_filesystem :: "u32 \<Rightarrow> 'a filestate_scheme \<Rightarrow> 'a filestate_scheme outcome" where
  "fs_insert_filesystem fs s =
     (case fs_get_free_filesystem s of None \<Rightarrow> Inl Halted
      | Some i \<Rightarrow> Inr (s\<lparr>filesystems := (filesystems s)[i := fs]\<rparr>))"

definition fs_static_load :: "'a filestate_scheme \<Rightarrow> 'a filestate_scheme outcome" where
  "fs_static_load s = (let (fs, s1) = fat16_init s in fs_insert_filesystem fs s1)"

definition fs_load :: "'a filestate_scheme \<Rightarrow> 'a filestate_scheme outcome" where
  "fs_load s = fs_static_load (s\<lparr>filesystems := replicate GUAVAOS_MAX_FILESYSTEMS 0\<rparr>)"

definition fs_init :: "'a filestate_scheme \<Rightarrow> 'a filestate_scheme outcome" where
  "fs_init s = fs_load (s\<lparr>file_descriptors := replicate GUAVAOS_MAX_FILE_DESCRIPTORS 0\<rparr>)"

fun fs_resolve_loop ::
  "'a filestate_scheme fs_objects \<Rightarrow> u32 \<Rightarrow> nat list \<Rightarrow> 'a filestate_scheme \<Rightarrow> (u32 \<times> 'a filestate_scheme) outcome" where
  "fs_resolve_loop vt disk [] s = Inr (0, s)"
| "fs_resolve_loop vt disk (i # is) s =
     (let fs = filesystems s ! i
      in if fs = 0 then fs_resolve_loop vt disk is s
         else bnd (vt fs s) (\<lambda>ops. bnd (fs_op_resolve ops disk s) (\<lambda>(res, s1).
           if res = 0 then Inr (filesystems s1 ! i, s1) else fs_resolve_loop vt disk is s1)))"

definition fs_resolve ::
  "'a filestate_scheme fs_objects \<Rightarrow> u32 \<Rightarrow> 'a filestate_scheme \<Rightarrow> (u32 \<times> 'a filestate_scheme) outcome" where
  "fs_resolve vt disk s = fs_resolve_loop vt disk [0..<length (filesystems s)] s"

text \<open>\<^verbatim>\<open>disk_search_and_init\<close> of \<^verbatim>\<open>src/disk/disk.c\<close>.\<close>

definition disk_search_and_init ::
  "'a filestate_scheme fs_objects \<Rightarrow> 'a filestate_scheme \<Rightarrow> 'a filestate_scheme outcome" where
  "disk_search_and_init vt s =
     (let s1 = s\<lparr>disk_type := 0, sector_size := 0, disk_id := 0, disk_filesystem := 0, fs_private := 0\<rparr>;
          s2 = s1\<lparr>disk_type := GUAVAOS_DISK_TYPE_REAL, sector_size := GUAVAOS_SECTOR_SIZE, disk_id := 0\<rparr>
      in bnd (fs_resolve vt (disk_at s2) s2) (\<lambda>(fs, s3). Inr (s3\<lparr>disk_filesystem := fs\<rparr>)))"

section \<open>The table of open files\<close>

definition file_free_descriptor :: "u32 \<Rightarrow> 'a filestate_scheme \<Rightarrow> 'a filestate_scheme outcome" where
  "file_free_descriptor desc s =
     bnd (arr_set (file_descriptors s) (sint (load32 (mem s) (desc + D_INDEX)) - 1) 0) (\<lambda>ds.
       kfree desc (s\<lparr>file_descriptors := ds\<rparr>))"

text \<open>The result and the descriptor; the block is used without a check for null, as in the code.\<close>

definition file_new_descriptor :: "'a filestate_scheme \<Rightarrow> (int \<times> u32 \<times> 'a filestate_scheme) outcome" where
  "file_new_descriptor s =
     (case first_zero (file_descriptors s) of None \<Rightarrow> Inr (- ENOMEM, 0, s)
      | Some i \<Rightarrow> bnd (kzalloc file_descriptor_sizeof s) (\<lambda>(desc, s1).
          let s2 = st32 (desc + D_INDEX) (word_of_nat (i + 1)) s1
          in Inr (0, desc, s2\<lparr>file_descriptors := (file_descriptors s2)[i := desc]\<rparr>)))"

definition file_get_descriptor :: "int \<Rightarrow> 'a filestate_scheme \<Rightarrow> u32 outcome" where
  "file_get_descriptor fd s =
     (if fd \<le> 0 \<or> int GUAVAOS_MAX_FILE_DESCRIPTORS \<le> fd then Inr 0
      else arr_get (file_descriptors s) (fd - 1))"

text \<open>\<^verbatim>\<open>strncmp\<close> of a string in memory and a literal (its terminator included).\<close>

fun strncmp_literal :: "memory \<Rightarrow> u32 \<Rightarrow> u8 list \<Rightarrow> nat \<Rightarrow> int" where
  "strncmp_literal m str1 str2 0 = 0"
| "strncmp_literal m str1 [] (Suc n) = 0"
| "strncmp_literal m str1 (u2 # str2) (Suc n) =
     (let u1 = m str1
      in if u1 \<noteq> u2 then uint u1 - uint u2
         else if u1 = 0 then 0
         else strncmp_literal m (str1 + 1) str2 n)"

definition file_get_mode_by_string :: "memory \<Rightarrow> u32 \<Rightarrow> u32" where
  "file_get_mode_by_string m str =
     (if strncmp_literal m str (lit ''r'' @ [0]) 1 = 0 then FILE_MODE_READ
      else if strncmp_literal m str (lit ''w'' @ [0]) 1 = 0 then FILE_MODE_WRITE
      else if strncmp_literal m str (lit ''a'' @ [0]) 1 = 0 then FILE_MODE_APPEND
      else FILE_MODE_INVALID)"

definition fopen ::
  "'a filestate_scheme fs_objects \<Rightarrow> u32 \<Rightarrow> u32 \<Rightarrow> 'a filestate_scheme \<Rightarrow> (int \<times> 'a filestate_scheme) outcome" where
  "fopen vt filename mode_str s =
     (let out = (\<lambda>(res, s). Inr (if res < 0 then 0 else res, s))
      in bnd (pathparser_parse filename s) (\<lambda>(root_path, s1).
           if root_path = 0 then out (- EINVARG, s1)
           else if load32 (mem s1) (root_path + 4) = 0 then out (- EINVARG, s1)
           else
             let disk = disk_get (sint (load32 (mem s1) root_path)) s1
             in if disk = 0 then out (- EIO, s1)
                else if disk_filesystem s1 = 0 then out (- EIO, s1)
                else
                  let mode = file_get_mode_by_string (mem s1) mode_str
                  in if mode = FILE_MODE_INVALID then out (- EINVARG, s1)
                     else bnd (vt (disk_filesystem s1) s1) (\<lambda>ops.
                          bnd (fs_op_open ops disk (load32 (mem s1) (root_path + 4)) mode s1) (\<lambda>(priv, s2).
                            if ISERR priv then out (ERROR_I priv, s2)
                            else bnd (file_new_descriptor s2) (\<lambda>(res, desc, s3).
                              if res < 0 then out (res, s3)
                              else
                                let s4 = st32 (desc + D_FILESYSTEM) (disk_filesystem s3) s3;
                                    s5 = st32 (desc + D_PRIVATE) priv s4;
                                    s6 = st32 (desc + D_DISK) disk s5
                                in out (sint (load32 (mem s6) (desc + D_INDEX)), s6))))))"

definition fstat ::
  "'a filestate_scheme fs_objects \<Rightarrow> int \<Rightarrow> file_stat \<Rightarrow> 'a filestate_scheme
     \<Rightarrow> (int \<times> file_stat \<times> 'a filestate_scheme) outcome" where
  "fstat vt fd stat s =
     bnd (file_get_descriptor fd s) (\<lambda>desc.
       if desc = 0 then Inr (- EIO, stat, s)
       else bnd (vt (load32 (mem s) (desc + D_FILESYSTEM)) s) (\<lambda>ops.
         fs_op_stat ops (load32 (mem s) (desc + D_DISK)) (load32 (mem s) (desc + D_PRIVATE)) stat s))"

definition fclose ::
  "'a filestate_scheme fs_objects \<Rightarrow> int \<Rightarrow> 'a filestate_scheme \<Rightarrow> (int \<times> 'a filestate_scheme) outcome" where
  "fclose vt fd s =
     bnd (file_get_descriptor fd s) (\<lambda>desc.
       if desc = 0 then Inr (- EIO, s)
       else bnd (vt (load32 (mem s) (desc + D_FILESYSTEM)) s) (\<lambda>ops.
         bnd (fs_op_close ops (load32 (mem s) (desc + D_PRIVATE)) s) (\<lambda>(res, s1).
           if res = GUAVAOS_ALL_OK then bnd (file_free_descriptor desc s1) (\<lambda>s2. Inr (res, s2))
           else Inr (res, s1))))"

definition fseek ::
  "'a filestate_scheme fs_objects \<Rightarrow> int \<Rightarrow> int \<Rightarrow> u32 \<Rightarrow> 'a filestate_scheme \<Rightarrow> (int \<times> 'a filestate_scheme) outcome" where
  "fseek vt fd offset whence s =
     bnd (file_get_descriptor fd s) (\<lambda>desc.
       if desc = 0 then Inr (- EIO, s)
       else bnd (vt (load32 (mem s) (desc + D_FILESYSTEM)) s) (\<lambda>ops.
         fs_op_seek ops (load32 (mem s) (desc + D_PRIVATE)) (word_of_int offset) whence s))"

definition fread ::
  "'a filestate_scheme fs_objects \<Rightarrow> u32 \<Rightarrow> u32 \<Rightarrow> u32 \<Rightarrow> int \<Rightarrow> 'a filestate_scheme \<Rightarrow> (int \<times> 'a filestate_scheme) outcome" where
  "fread vt ptr sz nmemb fd s =
     (if sz = 0 \<or> nmemb = 0 \<or> fd < 1 then Inr (- EINVARG, s)
      else bnd (file_get_descriptor fd s) (\<lambda>desc.
        if desc = 0 then Inr (- EINVARG, s)
        else bnd (vt (load32 (mem s) (desc + D_FILESYSTEM)) s) (\<lambda>ops.
          fs_op_read ops (load32 (mem s) (desc + D_DISK)) (load32 (mem s) (desc + D_PRIVATE)) sz nmemb ptr s)))"

section \<open>The driver of this program\<close>

text \<open>
  The initialiser of \<^verbatim>\<open>fat16_fs\<close>. The operations that take a disk follow the pointer; only the global
  disk exists.
\<close>

definition fat16_ops :: "'a fatstate_scheme filesystem" where
  "fat16_ops = \<lparr>
     fs_op_resolve = (\<lambda>disk s. if disk \<noteq> disk_at s then Inl Undefined else fat16_resolve s),
     fs_op_open = (\<lambda>disk path mode s. if disk \<noteq> disk_at s then Inl Undefined else fat16_open path mode s),
     fs_op_read = (\<lambda>disk descriptor sz nmemb out_ptr s.
       if disk \<noteq> disk_at s then Inl Undefined else fat16_read descriptor sz nmemb out_ptr s),
     fs_op_seek = (\<lambda>private offset seek_mode s. Inr (fat16_seek private offset seek_mode s)),
     fs_op_stat = (\<lambda>disk private stat s. case fat16_stat private stat s of (res, stat') \<Rightarrow> Inr (res, stat', s)),
     fs_op_close = fat16_close\<rparr>"

definition fat16_objects :: "'a fatstate_scheme fs_objects" where
  "fat16_objects a s = (if a = fat16_fs s then Inr fat16_ops else Inl Undefined)"

end
