(* ===== verification/FatProps.thy ===== *)
theory FatProps
  imports File
begin

text \<open>
  Properties of the FAT16 driver: the names it makes out of directory entries, the place it reads file
  allocation table entries from, and the bytes that \<open>fat16_read\<close> delivers.
\<close>

section \<open>Bytes stored in memory\<close>

lemma fold_store_nth:
  fixes p :: u32
  assumes "n \<le> length bs" "length bs \<le> 2 ^ 32"
  shows "fold (\<lambda>i m. m(p + word_of_nat i := bs ! i)) [0..<n] m a = (if unat (a - p) < n then bs ! unat (a - p) else m a)"
  using assms
proof (induction n)
  case (Suc n)
  then have "a = p + word_of_nat n \<longleftrightarrow> unat (a - p) = n" by (intro eq_add_word_of_nat_iff) simp
  with Suc show ?case by (auto simp: less_Suc_eq)
qed simp

lemma store_bytes_apply:
  assumes "length bs \<le> 2 ^ 32"
  shows "store_bytes p bs m a = (if unat (a - p) < length bs then bs ! unat (a - p) else m a)"
  unfolding store_bytes_def by (rule fold_store_nth [OF order_refl assms])

lemma bytes_at_store_bytes: "length bs < 2 ^ 32 \<Longrightarrow> bytes_at (store_bytes p bs m) p (length bs) = bs"
  by (rule nth_equalityI) (simp_all add: store_bytes_apply unat_of_nat32)

section \<open>Names\<close>

definition name_char :: "u8 \<Rightarrow> bool" where
  "name_char c \<longleftrightarrow> c \<noteq> 0 \<and> c \<noteq> 0x20"

lemma proper_string_loop_ok:
  assumes "\<forall>i < length cs. m (inp + word_of_nat i) = cs ! i" "list_all name_char cs"
    and "\<not> name_char (m (inp + word_of_nat (length cs)))" "k + length cs \<le> length out"
  shows "proper_string_loop m out k inp =
    Inr (take k out @ cs @ drop (k + length cs) out, k + length cs, inp + word_of_nat (length cs))"
  using assms
proof (induction cs arbitrary: out k inp)
  case Nil
  then show ?case by (subst proper_string_loop.simps) (auto simp: name_char_def)
next
  case (Cons c cs)
  have c: "m inp = c" "c \<noteq> 0" "c \<noteq> 0x20" using Cons.prems(1) [rule_format, of 0] Cons.prems(2)
    by (simp_all add: name_char_def)
  have k: "k < length out" using Cons.prems(4) by simp
  have e: "inp + 1 + word_of_nat i = inp + word_of_nat (Suc i)" for i by simp
  have "proper_string_loop m (out[k := c]) (Suc k) (inp + 1) =
      Inr (take (Suc k) (out[k := c]) @ cs @ drop (Suc k + length cs) (out[k := c]), Suc k + length cs,
        inp + 1 + word_of_nat (length cs))"
  proof (rule Cons.IH)
    show "\<forall>i < length cs. m (inp + 1 + word_of_nat i) = cs ! i"
      unfolding e using Cons.prems(1) by (metis Suc_less_eq length_Cons nth_Cons_Suc)
    show "\<not> name_char (m (inp + 1 + word_of_nat (length cs)))"
      unfolding e using Cons.prems(3) by (simp only: length_Cons not_False_eq_True)
  qed (use Cons.prems in simp_all)
  moreover have "take (Suc k) (out[k := c]) = take k out @ [c]" using k by (simp add: take_Suc_conv_app_nth)
  ultimately show ?case
    using c k by (subst proper_string_loop.simps) (simp add: e [simplified] add.commute)
qed

lemma fat16_to_proper_string_ok:
  assumes "\<forall>i < length cs. m (inp + word_of_nat i) = cs ! i" "list_all name_char cs"
    and "\<not> name_char (m (inp + word_of_nat (length cs)))" "n = length cs + z" "0 < z"
  shows "fat16_to_proper_string m (pre @ replicate n 0) (length pre) inp =
    Inr (pre @ cs @ replicate z 0, length pre + length cs)"
proof -
  let ?i = "inp + word_of_nat (length cs)"
  have run: "proper_string_loop m (pre @ replicate n 0) (length pre) inp =
      Inr (pre @ cs @ replicate z 0, length pre + length cs, ?i)"
    using proper_string_loop_ok [OF assms(1-3), of "length pre" "pre @ replicate n 0"] assms(4) by simp
  have "(pre @ cs @ replicate z 0)[length pre + length cs := 0] = pre @ cs @ replicate z 0"
    using assms(5) by (simp add: list_update_append list_update_same_conv)
  then have "arr_set (pre @ cs @ replicate z 0) (int (length pre + length cs)) 0 = Inr (pre @ cs @ replicate z 0)"
    using assms(5) by (simp only: arr_set_in length_append length_replicate)
  then show ?thesis unfolding fat16_to_proper_string_def run bnd.simps prod.case by simp
qed

text \<open>What the driver makes of the eleven name bytes and the attribute byte of an entry.\<close>

definition entry_name :: "memory \<Rightarrow> u32 \<Rightarrow> u8 list \<Rightarrow> u8 list \<Rightarrow> bool" where
  "entry_name m item b x \<longleftrightarrow> list_all name_char b \<and> list_all name_char x \<and> length b < 8 \<and> length x \<le> 3
     \<and> (\<forall>i < length b. m (item + word_of_nat i) = b ! i) \<and> m (item + word_of_nat (length b)) = 0x20
     \<and> (\<forall>i < length x. m (item + I_EXT + word_of_nat i) = x ! i)
     \<and> (if length x = 3 then \<not> name_char (m (item + I_ATTRIBUTE)) else m (item + I_EXT + word_of_nat (length x)) = 0x20)"

text \<open>The extension's characters and what follows up to the first blank, attribute byte included.\<close>

definition full_name :: "u8 list \<Rightarrow> u8 list \<Rightarrow> u8 list" where
  "full_name b x = b @ (if x = [] then [] else 46 # x)"

lemma entry_ext_end: "entry_name m item b x \<Longrightarrow> \<not> name_char (m (item + I_EXT + word_of_nat (length x)))"
proof -
  have "m (item + I_EXT + 3) = m (item + I_ATTRIBUTE)" by (simp add: I_EXT_def I_ATTRIBUTE_def add.commute)
  moreover assume "entry_name m item b x"
  ultimately show ?thesis by (cases "length x = 3") (simp_all add: entry_name_def name_char_def)
qed

lemma full_filename_ok:
  assumes "\<forall>i < length b. m (item + word_of_nat i) = b ! i" "list_all name_char b"
    "\<not> name_char (m (item + word_of_nat (length b)))"
    and "\<forall>i < length x. m (item + I_EXT + word_of_nat i) = x ! i" "list_all name_char x"
    "\<not> name_char (m (item + I_EXT + word_of_nat (length x)))" "length b + length x < 100"
  shows "fat16_get_full_relative_filename m item 108 =
    Inr (full_name b x @ replicate (108 - length (full_name b x)) 0)"
proof -
  have first: "fat16_to_proper_string m ([] @ replicate 108 0) (length ([] :: u8 list)) item =
      Inr ([] @ b @ replicate (108 - length b) 0, length ([] :: u8 list) + length b)"
    by (rule fat16_to_proper_string_ok [OF assms(1-3)]) (use assms(7) in auto)
  show ?thesis
  proof (cases "x = []")
    case True
    then have "\<not> name_char (m (item + I_EXT))" using assms(6) by simp
    then have "\<not> (m (item + I_EXT) \<noteq> 0 \<and> m (item + I_EXT) \<noteq> 0x20)" by (simp add: name_char_def)
    then show ?thesis
      using first True unfolding fat16_get_full_relative_filename_def full_name_def by auto
  next
    case False
    then obtain c cs where x: "x = c # cs" by (cases x) auto
    then have c: "m (item + I_EXT) = c" "c \<noteq> 0" "c \<noteq> 0x20"
      using assms(4) [rule_format, of 0] assms(5) by (simp_all add: name_char_def)
    have "replicate (108 - length b) (0 :: u8) = 0 # replicate (107 - length b) 0"
      using assms(7) by (simp add: Suc_diff_le replicate_Suc [symmetric] del: replicate_Suc)
    then have dot: "arr_set (b @ replicate (108 - length b) 0) (int (length b)) 46 =
        Inr ((b @ [46]) @ replicate (107 - length b) 0)"
      using assms(7) by (simp add: list_update_append)
    have "fat16_to_proper_string m ((b @ [46]) @ replicate (107 - length b) 0) (length (b @ [46])) (item + I_EXT) =
        Inr ((b @ [46]) @ x @ replicate (107 - length b - length x) 0, length (b @ [46]) + length x)"
      by (rule fat16_to_proper_string_ok [OF assms(4-6)]) (use assms(7) in auto)
    with first dot c False show ?thesis
      unfolding fat16_get_full_relative_filename_def full_name_def by simp
  qed
qed


section \<open>Streams of the driver\<close>

lemma diskstreamer_read_into_ok:
  assumes "ata_disk (device s) img" "stream_at st p s" "p + n < 2 ^ 31"
    "p mod 512 = 0 \<or> p mod 512 + n \<le> 512"
  shows "\<exists>es. diskstreamer_read_into st out (int n) s = Inr (0,
    s\<lparr>mem := store_bytes out (map (disk_byte img) [p..<p + n]) (store32 (mem s) st (word_of_nat (p + n))),
      ports := ports s @ es\<rparr>)"
proof -
  obtain es where "diskstreamer_read st (int n) s = Inr (0, map (disk_byte img) [p..<p + n],
    s\<lparr>mem := store32 (mem s) st (word_of_nat (p + n)), ports := ports s @ es\<rparr>)"
    using diskstreamer_read_ok [OF assms] by blast
  then show ?thesis by (intro exI [of _ es]) (simp add: diskstreamer_read_into_def)
qed

lemma stream_at_seek:
  assumes "load32 (mem s) (st + 4) = disk_at s" "snd (diskstreamer_seek st (word_of_nat p) s) = s'"
  shows "stream_at st p s'"
  using assms by (auto simp: diskstreamer_seek_def stream_at_def load32_store32_next st32_def)

text \<open>A mounted volume: sectors of 512 bytes, and the private data's cluster stream is one on the disk.\<close>

definition mounted :: "'a dstate_scheme \<Rightarrow> bool" where
  "mounted s \<longleftrightarrow> sector_size s = 512 \<and> sectors_per_cluster (mem s) (fs_private s) \<noteq> 0
     \<and> load32 (mem s) (load32 (mem s) (fs_private s + CLUSTER_READ_STREAM) + 4) = disk_at s
     \<and> load32 (mem s) (fs_private s + FAT_READ_STREAM) \<noteq> 0
     \<and> load32 (mem s) (load32 (mem s) (fs_private s + FAT_READ_STREAM) + 4) = disk_at s"

definition cluster_bytes :: "'a dstate_scheme \<Rightarrow> nat" where
  "cluster_bytes s = unat (sectors_per_cluster (mem s) (fs_private s)) * 512"

text \<open>The byte of the disk at which a cluster starts.\<close>

definition cluster_start :: "'a dstate_scheme \<Rightarrow> nat \<Rightarrow> int" where
  "cluster_start s c = 512 * (sint (load32 (mem s) (fs_private s + ROOT_DIRECTORY + D_ENDING_SECTOR_POS))
     + (int c - 2) * int (unat (sectors_per_cluster (mem s) (fs_private s))))"

lemma size_of_cluster: "mounted s \<Longrightarrow> size_of_cluster_bytes s = int (cluster_bytes s)"
  by (simp add: size_of_cluster_bytes_def mounted_def cluster_bytes_def)

lemma cluster_bytes_pos: "mounted s \<Longrightarrow> 512 \<le> cluster_bytes s"
  by (cases "unat (sectors_per_cluster (mem s) (fs_private s))")
    (auto simp: mounted_def cluster_bytes_def unsigned_eq_0_iff)

lemma sdiv_nat: "int a sdiv int b = int (a div b)" and smod_nat: "int a smod int b = int (a mod b)"
  by (cases "a = 0"; cases "b = 0"; simp add: signed_divide_int_def signed_modulo_int_def zdiv_int zmod_int minus_div_mult_eq_mod)+

lemma unat_ucast16: "unat (ucast (x :: u16) :: u32) = unat x"
proof -
  have "unat x < 2 ^ 16" using unsigned_less [of x] by simp
  then have "unat x < 2 ^ 32" by (rule less_trans) simp
  then show ?thesis by (simp add: unsigned_ucast_eq take_bit_nat_eq_self)
qed

text \<open>A read that stays in the first cluster goes to the cluster's bytes on disk.\<close>

lemma fat16_read_internal_first:
  assumes disk: "ata_disk (device s) img" and m: "mounted s"
    and start: "cluster_start s c = int p" "p + n < 2 ^ 31" and n: "n \<le> cluster_bytes s"
  shows "\<exists>es. fat16_read_internal (int c) 0 (int n) out s = Inr (0,
    s\<lparr>mem := store_bytes out (map (disk_byte img) [p..<p + n])
        (store32 (mem s) (load32 (mem s) (fs_private s + CLUSTER_READ_STREAM)) (word_of_nat (p + n))),
      ports := ports s @ es\<rparr>)"
proof -
  let ?st = "load32 (mem s) (fs_private s + CLUSTER_READ_STREAM)"
  have sz: "size_of_cluster_bytes s = int (cluster_bytes s)" "cluster_bytes s \<noteq> 0" "sector_size s = 512"
    using size_of_cluster [OF m] cluster_bytes_pos [OF m] m by (simp_all add: mounted_def)
  have d0: "c_div 0 (int (cluster_bytes s)) = Inr 0" "c_mod 0 (int (cluster_bytes s)) = Inr 0"
    using sz(2) sdiv_nat [of 0 "cluster_bytes s"] smod_nat [of 0 "cluster_bytes s"]
    by (simp_all add: c_div_def c_mod_def c_int_def)
  have cl: "fat16_get_cluster_for_offset (int c) 0 s = Inr (int c, s)"
    by (simp add: fat16_get_cluster_for_offset_def sz d0)
  have pos: "fat16_cluster_to_sector (mem s) (fs_private s) (int c) * 512 = int p"
    using start(1) by (simp add: fat16_cluster_to_sector_def cluster_start_def)
  have cp: "c_int (int p) = Inr (int p)" using start(2) by (simp add: c_int_def)
  define s1 where "s1 = st32 ?st (word_of_nat p) s"
  have at: "stream_at ?st p s1" "ata_disk (device s1) img"
    using m disk by (simp_all add: s1_def stream_at_def mounted_def load32_store32_next st32_def)
  have "int 512 dvd int p" using start(1) unfolding cluster_start_def by (metis dvd_triv_left of_nat_numeral)
  then have "512 dvd p" by (simp only: of_nat_dvd_iff)
  then have al: "p mod 512 = 0 \<or> p mod 512 + n \<le> 512" by simp
  obtain es where rd: "diskstreamer_read_into ?st out (int n) s1 = Inr (0,
    s1\<lparr>mem := store_bytes out (map (disk_byte img) [p..<p + n]) (store32 (mem s1) ?st (word_of_nat (p + n))),
      ports := ports s1 @ es\<rparr>)"
    using diskstreamer_read_into_ok [OF at(2,1) start(2) al] by blast
  define s2 where "s2 = s\<lparr>mem := store_bytes out (map (disk_byte img) [p..<p + n]) (store32 (mem s) ?st (word_of_nat (p + n))),
      ports := ports s @ es\<rparr>"
  have rd': "diskstreamer_read_into ?st out (int n) s1 = Inr (0, s2)"
    unfolding rd by (simp add: s1_def s2_def st32_def)
  have "fat16_read_chunk ?st (int c) 0 (int n) out s = Inr (0, int n, s2)"
    using rd' n by (simp add: fat16_read_chunk_def sz cl d0 pos cp Let_def diskstreamer_seek_def s1_def GUAVAOS_ALL_OK_def)
  then have "fat16_read_internal_from_stream ?st (int c) 0 (int n) out s = Some (Inr (0, s2))"
    by (subst fat16_read_internal_from_stream.simps) (simp add: GUAVAOS_ALL_OK_def)
  then show ?thesis by (intro exI [of _ es]) (simp add: fat16_read_internal_def ends_def s2_def)
qed


text \<open>An entry of the allocation table as the driver reads it.\<close>

lemma fat16_get_fat_entry_ok:
  assumes disk: "ata_disk (device s) img" and m: "mounted s"
    and p: "p = 1024 * unat (reserved_sectors (mem s) (fs_private s)) * c" "p + 2 < 2 ^ 31"
  shows "\<exists>s'. fat16_get_fat_entry (int c) s =
    Inr (uint (ucast (disk_byte img p) OR push_bit 8 (ucast (disk_byte img (p + 1))) :: u16), s')"
proof -
  let ?st = "load32 (mem s) (fs_private s + FAT_READ_STREAM)"
  define r where "r = unat (reserved_sectors (mem s) (fs_private s))"
  have "(ucast (reserved_sectors (mem s) (fs_private s)) :: u32) = word_of_nat r" by (simp add: r_def)
  then have pos: "fat16_get_first_fat_sector (mem s) (fs_private s) * word_of_int (sector_size s)
      * word_of_int (int c * GUAVAOS_FAT16_ENTRY_SIZE) = word_of_nat p"
    using m by (simp add: fat16_get_first_fat_sector_def mounted_def p(1) r_def [symmetric] GUAVAOS_FAT16_ENTRY_SIZE_def algebra_simps)
  define s1 where "s1 = st32 ?st (word_of_nat p) s"
  have at: "stream_at ?st p s1" "ata_disk (device s1) img" and st: "?st \<noteq> 0"
    using m disk by (simp_all add: s1_def stream_at_def mounted_def load32_store32_next st32_def)
  have "p mod 512 = 0" by (simp add: p(1))
  then have "p mod 512 = 0 \<or> p mod 512 + 2 \<le> 512" by simp
  from diskstreamer_read_ok [OF at(2,1) p(2) this]
  obtain s2 where rd: "diskstreamer_read ?st (int 2) s1 = Inr (0, map (disk_byte img) [p..<p + 2], s2)" by blast
  have "map (disk_byte img) [p..<p + 2] = [disk_byte img p, disk_byte img (p + 1)]"
    by (simp add: upt_rec)
  with rd have "diskstreamer_read ?st 2 s1 = Inr (0, [disk_byte img p, disk_byte img (p + 1)], s2)" by simp
  then show ?thesis
    using st pos by (simp add: fat16_get_fat_entry_def Let_def diskstreamer_seek_def s1_def)
qed

text \<open>A read of one record at the start of a file, within the first cluster, with the state it leaves.\<close>

lemma fat16_read_ok:
  fixes s :: "'a dstate_scheme"
  assumes "ata_disk (device s) img" "mounted s"
    and "item = load32 (mem s) (load32 (mem s) (desc + FD_ITEM) + F_ITEM)" "load32 (mem s) (desc + FD_POS) = 0"
    and "cluster_start s (unat (fat16_get_first_cluster (mem s) item)) = int p" "p + n < 2 ^ 31"
    and "n \<le> cluster_bytes s"
  obtains m' es where "fat16_read desc (word_of_nat n) 1 out s = Inr (1, s\<lparr>mem := m', ports := ports s @ es\<rparr>)"
    "bytes_at m' out n = map (disk_byte img) [p..<p + n]"
    "\<And>a. n \<le> unat (a - out) \<Longrightarrow> 4 \<le> unat (a - load32 (mem s) (fs_private s + CLUSTER_READ_STREAM)) \<Longrightarrow> m' a = mem s a"
proof -
  let ?st = "load32 (mem s) (fs_private s + CLUSTER_READ_STREAM)"
  define c where "c = unat (fat16_get_first_cluster (mem s) item)"
  define m' where "m' = store_bytes out (map (disk_byte img) [p..<p + n]) (store32 (mem s) ?st (word_of_nat (p + n)))"
  have n31: "n < 2 ^ 31" using assms(6) by simp
  have un: "unat (word_of_nat n :: u32) = n" using n31 by (intro unat_of_nat32) simp
  have sn: "sint (word_of_nat n :: u32) = int n" using sint_small [of "word_of_nat n"] un n31 by simp
  have "fat16_get_first_cluster (mem s) item =
      ucast (load16 (mem s) (item + I_HIGH_CLUSTER) OR load16 (mem s) (item + I_LOW_CLUSTER))"
    by (simp add: fat16_get_first_cluster_def unsigned_or_eq)
  then have c: "c = unat (load16 (mem s) (item + I_HIGH_CLUSTER) OR load16 (mem s) (item + I_LOW_CLUSTER))"
    unfolding c_def by (simp only: unat_ucast16)
  then have "c < 65536" using unsigned_less [of "load16 (mem s) (item + I_HIGH_CLUSTER) OR load16 (mem s) (item + I_LOW_CLUSTER)"]
    by simp
  then have "c < 2 ^ 31" by simp
  then have sc: "sint (fat16_get_first_cluster (mem s) item) = int c"
    using sint_small [of "fat16_get_first_cluster (mem s) item"] by (simp add: c_def)
  obtain es where rd: "fat16_read_internal (int c) 0 (int n) out s = Inr (0, s\<lparr>mem := m', ports := ports s @ es\<rparr>)"
    using fat16_read_internal_first [OF assms(1,2,5) [folded c_def] assms(6,7)] by (auto simp: m'_def)
  then have run: "fat16_read desc (word_of_nat n) 1 out s = Inr (1, s\<lparr>mem := m', ports := ports s @ es\<rparr>)"
    using assms(4) by (simp add: fat16_read_def assms(3) [symmetric] sc sn)
  have "bytes_at m' out n = map (disk_byte img) [p..<p + n]"
    using bytes_at_store_bytes [of "map (disk_byte img) [p..<p + n]" out] n31 by (simp add: m'_def)
  moreover have "m' a = mem s a" if "n \<le> unat (a - out)" "4 \<le> unat (a - ?st)" for a
  proof -
    have "store32 (mem s) ?st w a = mem s a" for w
      by (rule store32_other) (use that(2) in auto)
    then show ?thesis using that(1) n31 by (simp add: m'_def store_bytes_apply)
  qed
  ultimately show thesis using that [OF run] by blast
qed

section \<open>Properties: fat16.c\<close>





section \<open>A volume for the witnesses\<close>

text \<open>
  Private data at \<^verbatim>\<open>0x1000\<close> (one sector per cluster, one reserved sector, data from sector 10), streams at
  \<^verbatim>\<open>0x2000\<close> and \<^verbatim>\<open>0x2100\<close>, an open file of first cluster 3 with its descriptor at \<^verbatim>\<open>0x3000\<close>, and an entry
  \<^verbatim>\<open>AB.C\<close> at \<^verbatim>\<open>0x3200\<close>.
\<close>

definition fat_memory :: memory where
  "fat_memory = (\<lambda>_. 0)(0x100D := 1, 0x100E := 1, 0x104C := 10, 0x1051 := 0x20, 0x1055 := 0x21,
     0x2005 := 0x90, 0x2105 := 0x90, 0x3001 := 0x31, 0x3101 := 0x32,
     0x3200 := 65, 0x3201 := 66, 0x3202 := 0x20, 0x3208 := 67, 0x3209 := 0x20, 0x321A := 3, 0x321C := 20)"

definition fat_sample :: dstate where
  "fat_sample = (disk_sample 0)\<lparr>mem := fat_memory, fs_private := 0x1000\<rparr>"

lemma fat_sample_words:
  "load32 fat_memory 0x104C = 10" "load32 fat_memory 0x1050 = 0x2000" "load32 fat_memory 0x1054 = 0x2100"
  "load32 fat_memory 0x2004 = 0x9000" "load32 fat_memory 0x2104 = 0x9000"
  "load32 fat_memory 0x3000 = 0x3100" "load32 fat_memory 0x3004 = 0" "load32 fat_memory 0x3100 = 0x3200"
  "load16 fat_memory 0x100E = 1" "load16 fat_memory 0x3214 = 0" "load16 fat_memory 0x321A = 3" "fat_memory 0x100D = 1"
  by (simp_all add: fat_memory_def load32_def load16_def)

lemma fat_sample_mounted:
  "mounted fat_sample" "ata_disk (device fat_sample) sample_img" "mem fat_sample = fat_memory" "fs_private fat_sample = 0x1000"
proof -
  show "ata_disk (device fat_sample) sample_img"
    using disk_sample_ok(1) [of 0] by (simp add: fat_sample_def)
  show m: "mem fat_sample = fat_memory" "fs_private fat_sample = 0x1000" by (simp_all add: fat_sample_def)
  show "mounted fat_sample"
    by (simp add: mounted_def m fat_layout fat_sample_words) (simp add: fat_sample_def disk_sample_def)
qed




end
