(* ===== verification/Frames.thy ===== *)
theory Frames
  imports File
begin

text \<open>
  What a computation cannot touch. \<open>ok_out P m\<close> says that the result of \<open>m\<close>, if it has one, satisfies \<open>P\<close>;
  the rules of \<open>ok\<close> push such a postcondition backwards through the code, one operation at a time. With
  them: the disk driver, the path parser and the file system driver change memory, the heap and the
  ports, and nothing else of the state (\<open>rest\<close>).
\<close>

section \<open>Postconditions\<close>

definition ok_out :: "('r \<Rightarrow> bool) \<Rightarrow> 'r outcome \<Rightarrow> bool" where
  "ok_out P m \<longleftrightarrow> (\<forall>r. m = Inr r \<longrightarrow> P r)"

named_theorems ok

lemma ok_outI: "(\<And>r. m = Inr r \<Longrightarrow> P r) \<Longrightarrow> ok_out P m"
  and ok_outD: "ok_out P m \<Longrightarrow> m = Inr r \<Longrightarrow> P r"
  by (auto simp: ok_out_def)

lemma ok_Inr [ok]: "P r \<Longrightarrow> ok_out P (Inr r)"
  and ok_Inl [ok]: "ok_out P (Inl e)"
  by (simp_all add: ok_out_def)

lemma ok_bnd [ok]: "ok_out (\<lambda>x. ok_out P (f x)) m \<Longrightarrow> ok_out P (bnd m f)"
  by (cases m) (simp_all add: ok_out_def)

lemma ok_if [ok]: "(b \<Longrightarrow> ok_out P m) \<Longrightarrow> (\<not> b \<Longrightarrow> ok_out P m') \<Longrightarrow> ok_out P (if b then m else m')"
  by simp

lemma ok_option [ok]:
  "(x = None \<Longrightarrow> ok_out P m) \<Longrightarrow> (\<And>y. x = Some y \<Longrightarrow> ok_out P (f y)) \<Longrightarrow>
     ok_out P (case x of None \<Rightarrow> m | Some y \<Rightarrow> f y)"
  by (cases x) simp_all

lemma ok_prod [ok]: "(\<And>x y. z = (x, y) \<Longrightarrow> ok_out P (f x y)) \<Longrightarrow> ok_out P (case z of (x, y) \<Rightarrow> f x y)"
  by (cases z) simp

lemma ok_pre [ok]:
  "(\<And>x y. r = (x, y) \<Longrightarrow> P x y) \<Longrightarrow> (case r of (x, y) \<Rightarrow> P x y)"
  by (cases r) simp

lemma ok_ends: "(\<And>m. r = Some m \<Longrightarrow> ok_out P m) \<Longrightarrow> ok_out P (ends r)"
  by (cases r) (simp_all add: ends_def ok_out_def)

lemma ok_conseq: "ok_out Q m \<Longrightarrow> (\<And>r. Q r \<Longrightarrow> P r) \<Longrightarrow> ok_out P m"
  by (simp add: ok_out_def)

lemma ok_conseq2: "ok_out (\<lambda>(r, s'). Q s') m \<Longrightarrow> (\<And>r s'. Q s' \<Longrightarrow> P (r, s')) \<Longrightarrow> ok_out P m"
  by (auto simp: ok_out_def)

lemma ok_snd: "ok_out (\<lambda>(r, s'). Q s') m \<Longrightarrow> m = Inr r \<Longrightarrow> Q (snd r)"
  and ok_snd2: "ok_out (\<lambda>(r, n, s'). Q s') m2 \<Longrightarrow> m2 = Inr q \<Longrightarrow> Q (snd (snd q))"
  by (auto simp: ok_out_def split: prod.splits)

lemma ok_any: "(\<And>r. P r) \<Longrightarrow> ok_out P m"
  by (simp add: ok_out_def)

lemma ok_pure [ok]:
  "(\<And>r. P r) \<Longrightarrow> ok_out P (arr_get xs i)" "(\<And>r. Q r) \<Longrightarrow> ok_out Q (arr_set ys i v)"
  "(\<And>r. R r) \<Longrightarrow> ok_out R (copy_from buff j k)" "(\<And>r. S r) \<Longrightarrow> ok_out S (c_int z)"
  "(\<And>r. S r) \<Longrightarrow> ok_out S (c_div z w)" "(\<And>r. S r) \<Longrightarrow> ok_out S (c_mod z w)"
  "(\<And>r. S r) \<Longrightarrow> ok_out S (istrncmp_local zs mm p n)"
  "(\<And>r. T r) \<Longrightarrow> ok_out T (fat16_get_full_relative_filename mm p n)"
  by (auto intro: ok_any)

section \<open>The rest of the state\<close>

definition rest :: "'a iostate_scheme \<Rightarrow> 'a iostate_scheme" where
  "rest s = s\<lparr>mem := \<lambda>_. 0, kernel_heap := fresh_heap, ports := []\<rparr>"

lemma rest_update [simp]:
  "rest (s\<lparr>mem := m\<rparr>) = rest s" "rest (s\<lparr>kernel_heap := h\<rparr>) = rest s" "rest (s\<lparr>ports := p\<rparr>) = rest s"
  "rest (st32 a w s) = rest s"
  by (simp_all add: rest_def st32_def)

lemma rest_rest [simp]: "rest (rest s) = rest s"
  by (simp add: rest_def)

text \<open>The fields it has.\<close>

lemma rest_dstate:
  assumes "rest s' = rest (s :: 'a dstate_scheme)"
  shows "disk_at s' = disk_at s" "disk_type s' = disk_type s" "sector_size s' = sector_size s"
    "disk_id s' = disk_id s" "disk_filesystem s' = disk_filesystem s" "fs_private s' = fs_private s"
  using arg_cong [OF assms, of disk_at] arg_cong [OF assms, of disk_type] arg_cong [OF assms, of sector_size]
    arg_cong [OF assms, of disk_id] arg_cong [OF assms, of disk_filesystem] arg_cong [OF assms, of fs_private]
  by (simp_all add: rest_def)

lemma rest_filestate:
  assumes "rest s' = rest (s :: 'a filestate_scheme)"
  shows "filesystems s' = filesystems s" "file_descriptors s' = file_descriptors s" "fat16_fs s' = fat16_fs s"
  using arg_cong [OF assms, of filesystems] arg_cong [OF assms, of file_descriptors] arg_cong [OF assms, of fat16_fs]
  by (simp_all add: rest_def)

section \<open>Heap and disk\<close>

lemma ok_kmalloc [ok]:
  fixes s :: "'a iostate_scheme"
  shows "(\<And>p s'. rest s' = rest s \<Longrightarrow> P (p, s')) \<Longrightarrow> ok_out P (kmalloc n s)"
  by (auto simp: kmalloc_def intro!: ok) (auto simp: ok_out_def)

lemma ok_kzalloc [ok]:
  fixes s :: "'a iostate_scheme"
  assumes "\<And>p s'. rest s' = rest s \<Longrightarrow> P (p, s')"
  shows "ok_out P (kzalloc n s)"
  unfolding kzalloc_def by (intro ok assms) (auto simp: assms)

lemma ok_kfree [ok]:
  fixes s :: "'a iostate_scheme"
  assumes "\<And>s'. rest s' = rest s \<Longrightarrow> P s'"
  shows "ok_out P (kfree p s)"
  unfolding kfree_def by (intro ok) (auto intro!: ok_any ok assms)

lemma ata_wait_rest: "ata_wait s = Some s' \<Longrightarrow> rest s' = rest s"
  by (rule ata_wait.raw_induct [of "\<lambda>s s'. rest s' = rest s"]) (auto simp: insb_def Let_def split: if_splits)

lemma ata_words_rest: "rest (snd (ata_words j s)) = rest s"
proof (induction j arbitrary: s)
  case (Suc j)
  then show ?case by (simp add: insw_def Let_def split_def)
qed simp

lemma ok_ata_blocks: "ok_out (\<lambda>(ws, s'). rest s' = rest s) (ata_blocks i s)"
proof (induction i arbitrary: s)
  case (Suc i)
  show ?case
    by (auto simp: Let_def split_def ata_wait_rest ata_words_rest split: option.splits
        intro!: ok_bnd ok ok_conseq [OF Suc.IH])
qed (simp add: ok_Inr)

lemma ok_disk_read_sector [ok]:
  assumes "\<And>r bs s'. rest s' = rest s \<Longrightarrow> P (r, bs, s')"
  shows "ok_out P (disk_read_sector lba tot s)"
  unfolding disk_read_sector_def Let_def
  by (intro ok_bnd ok_conseq [OF ok_ata_blocks] ok) (auto simp: outb_def intro!: assms)

lemma ok_disk_read_block [ok]:
  assumes "\<And>r bs s'. rest s' = rest s \<Longrightarrow> P (r, bs, s')"
  shows "ok_out P (disk_read_block d lba tot s)"
  unfolding disk_read_block_def by (intro ok assms) simp_all

lemma ok_diskstreamer_new [ok]:
  fixes s :: "'a dstate_scheme"
  assumes "\<And>p s'. rest s' = rest s \<Longrightarrow> P (p, s')"
  shows "ok_out P (diskstreamer_new i s)"
  unfolding diskstreamer_new_def by (intro ok assms) (auto simp: assms)

lemma diskstreamer_read_rest:
  fixes s :: "'a dstate_scheme"
  shows "ok_out (\<lambda>(r, bs, s'). rest s' = rest s) (diskstreamer_read stream tot s)"
proof (induction "nat tot" arbitrary: tot s rule: less_induct)
  case less
  have IH: "ok_out (\<lambda>(r, bs, s''). rest s'' = rest s') (diskstreamer_read stream (tot - GUAVAOS_SECTOR_SIZE) s')"
    if "GUAVAOS_SECTOR_SIZE < tot" for s' :: "'a dstate_scheme"
    by (rule less) (use that in \<open>simp add: GUAVAOS_SECTOR_SIZE_def\<close>)
  show ?case
    by (subst diskstreamer_read.simps, unfold Let_def) (intro ok ok_conseq [OF IH] | simp)+
qed

lemma ok_diskstreamer_read [ok]:
  assumes "\<And>r bs s'. rest s' = rest s \<Longrightarrow> P (r, bs, s')"
  shows "ok_out P (diskstreamer_read stream tot s)"
  by (rule ok_conseq [OF diskstreamer_read_rest]) (auto intro: assms)

lemma ok_diskstreamer_read_into [ok]:
  assumes "\<And>r s'. rest s' = rest s \<Longrightarrow> P (r, s')"
  shows "ok_out P (diskstreamer_read_into stream out tot s)"
  unfolding diskstreamer_read_into_def by (intro ok assms) simp

section \<open>The file system driver\<close>

lemma total_items_rest:
  fixes s :: "'a dstate_scheme"
  shows "total_items_loop stream i s = Some m \<Longrightarrow> ok_out (\<lambda>(r, s'). rest s' = rest s) m"
proof (induction rule: total_items_loop.raw_induct [rotated, consumes 1, case_names step])
  case (step loop stream i s m)
  show ?case
  proof (cases "diskstreamer_read stream (sint fat_directory_item_sizeof) s")
    case (Inl e)
    with step(2) show ?thesis by (auto intro: ok)
  next
    case (Inr r)
    have "rest (snd (snd r)) = rest s" by (rule ok_snd2 [OF diskstreamer_read_rest Inr])
    with Inr step show ?thesis by (auto split: if_splits intro: ok dest!: step(1))
  qed
qed

lemma ok_get_total_items [ok]:
  fixes s :: "'a dstate_scheme"
  assumes "\<And>r s'. rest s' = rest s \<Longrightarrow> P (r, s')"
  shows "ok_out P (fat16_get_total_items_for_directory start s)"
  unfolding fat16_get_total_items_for_directory_def Let_def diskstreamer_seek_def
  by (intro ok ok_ends ok_conseq2 [OF total_items_rest] assms | simp | assumption)+

lemma ok_clone [ok]:
  fixes s :: "'a iostate_scheme"
  assumes "\<And>r s'. rest s' = rest s \<Longrightarrow> P (r, s')"
  shows "ok_out P (fat16_clone_directory_item item sz s)"
  unfolding fat16_clone_directory_item_def by (intro ok assms | simp)+

lemma ok_get_fat_entry [ok]:
  fixes s :: "'a dstate_scheme"
  assumes "\<And>r s'. rest s' = rest s \<Longrightarrow> P (r, s')"
  shows "ok_out P (fat16_get_fat_entry cluster s)"
  unfolding fat16_get_fat_entry_def Let_def diskstreamer_seek_def by (intro ok assms | simp)+

lemma cluster_chain_rest:
  fixes s :: "'a dstate_scheme"
  shows "ok_out (\<lambda>(r, s'). rest s' = rest s) (cluster_chain_loop n cluster s)"
proof (induction n arbitrary: cluster s)
  case (Suc n)
  show ?case unfolding cluster_chain_loop.simps by (intro ok ok_conseq [OF Suc.IH] | simp)+
qed (simp add: ok)

lemma ok_get_cluster [ok]:
  fixes s :: "'a dstate_scheme"
  assumes "\<And>r s'. rest s' = rest s \<Longrightarrow> P (r, s')"
  shows "ok_out P (fat16_get_cluster_for_offset start offset s)"
  unfolding fat16_get_cluster_for_offset_def by (intro ok ok_conseq2 [OF cluster_chain_rest] assms | simp)+

lemma ok_read_chunk [ok]:
  fixes s :: "'a dstate_scheme"
  assumes "\<And>r n s'. rest s' = rest s \<Longrightarrow> P (r, n, s')"
  shows "ok_out P (fat16_read_chunk stream cluster offset tot out s)"
  unfolding fat16_read_chunk_def Let_def diskstreamer_seek_def by (intro ok assms | simp)+

lemma read_internal_rest:
  fixes s :: "'a dstate_scheme"
  shows "fat16_read_internal_from_stream stream cluster offset tot out s = Some m \<Longrightarrow> ok_out (\<lambda>(r, s'). rest s' = rest s) m"
proof (induction rule: fat16_read_internal_from_stream.raw_induct [rotated, consumes 1, case_names step])
  case (step loop stream cluster offset tot out s m)
  show ?case
  proof (cases "fat16_read_chunk stream cluster offset tot out s")
    case (Inl e)
    with step(2) show ?thesis by (auto intro: ok)
  next
    case (Inr r)
    have "ok_out (\<lambda>(r, n, s'). rest s' = rest s) (fat16_read_chunk stream cluster offset tot out s)"
      by (intro ok) simp
    then have "rest (snd (snd r)) = rest s" by (rule ok_snd2 [OF _ Inr])
    with Inr step show ?thesis by (auto split: if_splits intro: ok dest!: step(1))
  qed
qed

lemma ok_read_internal [ok]:
  fixes s :: "'a dstate_scheme"
  assumes "\<And>r s'. rest s' = rest s \<Longrightarrow> P (r, s')"
  shows "ok_out P (fat16_read_internal start offset tot out s)"
  unfolding fat16_read_internal_def Let_def
  by (intro ok ok_ends ok_conseq2 [OF read_internal_rest] assms | simp | assumption)+

lemma ok_free_directory [ok]:
  fixes s :: "'a iostate_scheme"
  assumes "\<And>s'. rest s' = rest s \<Longrightarrow> P s'"
  shows "ok_out P (fat16_free_directory d s)"
  unfolding fat16_free_directory_def by (intro ok assms | simp)+

lemma ok_fat_item_free [ok]:
  fixes s :: "'a iostate_scheme"
  assumes "\<And>s'. rest s' = rest s \<Longrightarrow> P s'"
  shows "ok_out P (fat16_fat_item_free d s)"
  unfolding fat16_fat_item_free_def by (intro ok assms | simp)+

lemma ok_load_fat_directory [ok]:
  fixes s :: "'a dstate_scheme"
  assumes "\<And>r s'. rest s' = rest s \<Longrightarrow> P (r, s')"
  shows "ok_out P (fat16_load_fat_directory item s)"
  unfolding fat16_load_fat_directory_def Let_def by (intro ok assms | simp)+

lemma ok_new_fat_item [ok]:
  fixes s :: "'a dstate_scheme"
  assumes "\<And>r s'. rest s' = rest s \<Longrightarrow> P (r, s')"
  shows "ok_out P (fat16_new_fat_item_for_directory_item item s)"
  unfolding fat16_new_fat_item_for_directory_item_def by (intro ok assms | simp)+

lemma ok_find_item_step [ok]:
  fixes s :: "'a dstate_scheme"
  assumes "\<And>r s'. rest s' = rest s \<Longrightarrow> P (r, s')"
  shows "ok_out P (find_item_step d name i f s)"
  unfolding find_item_step_def Let_def by (intro ok assms | simp)+

lemma find_item_rest:
  fixes s :: "'a dstate_scheme"
  shows "find_item_loop d name i f s = Some m \<Longrightarrow> ok_out (\<lambda>(r, s'). rest s' = rest s) m"
proof (induction rule: find_item_loop.raw_induct [rotated, consumes 1, case_names step])
  case (step loop d name i f s m)
  show ?case
  proof (cases "find_item_step d name i f s")
    case (Inl e)
    with step(2) show ?thesis by (auto intro: ok split: if_splits)
  next
    case (Inr r)
    have "ok_out (\<lambda>(r, s'). rest s' = rest s) (find_item_step d name i f s)" by (intro ok) simp
    then have "rest (snd r) = rest s" by (rule ok_snd [OF _ Inr])
    with Inr step show ?thesis by (auto split: if_splits intro: ok dest!: step(1))
  qed
qed

lemma ok_find_item [ok]:
  fixes s :: "'a dstate_scheme"
  assumes "\<And>r s'. rest s' = rest s \<Longrightarrow> P (r, s')"
  shows "ok_out P (fat16_find_item_in_directory d name s)"
  unfolding fat16_find_item_in_directory_def
  by (intro ok ok_ends ok_conseq2 [OF find_item_rest] assms | simp | assumption)+

lemma directory_entry_rest:
  fixes s :: "'a dstate_scheme"
  shows "directory_entry_loop part item s = Some m \<Longrightarrow> ok_out (\<lambda>(r, s'). rest s' = rest s) m"
proof (induction rule: directory_entry_loop.raw_induct [rotated, consumes 1, case_names step])
  case (step loop part item s m)
  let ?step = "bnd (fat16_find_item_in_directory (load32 (mem s) (item + F_ITEM)) (load32 (mem s) part) s)
    (\<lambda>(tmp_item, s1). bnd (fat16_fat_item_free item s1) (\<lambda>s2. Inr (tmp_item, s2)))"
  show ?case
  proof (cases ?step)
    case (Inl e)
    have "m = Inr (item, s) \<or> m = Inr (0, s) \<or> m = Inl e" using step(2) unfolding Inl by (simp split: if_splits)
    then show ?thesis by (auto intro: ok)
  next
    case (Inr r)
    have "ok_out (\<lambda>(r, s'). rest s' = rest s) ?step" by (intro ok | simp)+
    then have "rest (snd r) = rest s" by (rule ok_snd [OF _ Inr])
    moreover have "m = Inr (item, s) \<or> m = Inr (0, s) \<or> (\<exists>p i. loop p i (snd r) = Some m)"
      using step(2) unfolding Inr by (auto split: if_splits)
    ultimately show ?thesis by (auto intro: ok dest!: step(1))
  qed
qed

lemma ok_get_directory_entry [ok]:
  fixes s :: "'a dstate_scheme"
  assumes "\<And>r s'. rest s' = rest s \<Longrightarrow> P (r, s')"
  shows "ok_out P (fat16_get_directory_entry path s)"
  unfolding fat16_get_directory_entry_def
  by (intro ok ok_ends ok_conseq2 [OF directory_entry_rest] assms | simp | assumption)+

lemma ok_fat16_open [ok]:
  fixes s :: "'a dstate_scheme"
  assumes "\<And>r s'. rest s' = rest s \<Longrightarrow> P (r, s')"
  shows "ok_out P (fat16_open path mode s)"
  unfolding fat16_open_def Let_def by (intro ok assms | simp)+

lemma ok_fat16_close [ok]:
  fixes s :: "'a iostate_scheme"
  assumes "\<And>r s'. rest s' = rest s \<Longrightarrow> P (r, s')"
  shows "ok_out P (fat16_close private s)"
  unfolding fat16_close_def fat16_free_file_descriptor_def by (intro ok assms | simp)+

lemma read_loop_rest:
  fixes s :: "'a dstate_scheme"
  shows "ok_out (\<lambda>(r, s'). rest s' = rest s) (fat16_read_loop item sz offset out n s)"
proof (induction n arbitrary: offset out s)
  case (Suc n)
  show ?case unfolding fat16_read_loop.simps by (intro ok ok_conseq [OF Suc.IH] | simp)+
qed (simp add: ok)

lemma ok_fat16_read [ok]:
  fixes s :: "'a dstate_scheme"
  assumes "\<And>r s'. rest s' = rest s \<Longrightarrow> P (r, s')"
  shows "ok_out P (fat16_read descriptor sz nmemb out s)"
  unfolding fat16_read_def Let_def by (intro ok ok_conseq2 [OF read_loop_rest] assms | simp)+

lemma fat16_seek_rest:
  fixes s :: "'a iostate_scheme"
  shows "rest (snd (fat16_seek private offset mode s)) = rest s"
  by (simp add: fat16_seek_def Let_def)

section \<open>The path parser\<close>

lemma ok_create_root [ok]:
  fixes s :: "'a iostate_scheme"
  assumes "\<And>p s'. rest s' = rest s \<Longrightarrow> P (p, s')"
  shows "ok_out P (pathparser_create_root d s)"
  unfolding pathparser_create_root_def by (intro ok assms | simp)+

lemma ok_get_path_part [ok]:
  fixes s :: "'a iostate_scheme"
  assumes "\<And>p t s'. rest s' = rest s \<Longrightarrow> P (p, t, s')"
  shows "ok_out P (pathparser_get_path_part path s)"
  unfolding pathparser_get_path_part_def Let_def by (intro ok assms | simp)+

lemma ok_parse_path_part [ok]:
  fixes s :: "'a iostate_scheme"
  assumes "\<And>p t s'. rest s' = rest s \<Longrightarrow> P (p, t, s')"
  shows "ok_out P (pathparser_parse_path_part l path s)"
  unfolding pathparser_parse_path_part_def Let_def by (intro ok assms | simp)+

lemma parse_loop_rest:
  fixes s :: "'a iostate_scheme"
  shows "pathparser_parse_loop part path s = Some m \<Longrightarrow> ok_out (\<lambda>s'. rest s' = rest s) m"
proof (induction rule: pathparser_parse_loop.raw_induct [rotated, consumes 1, case_names step])
  case (step loop part path s m)
  show ?case
  proof (cases "pathparser_parse_path_part part path s")
    case (Inl e)
    with step(2) show ?thesis by (auto intro: ok split: if_splits)
  next
    case (Inr r)
    have "ok_out (\<lambda>(p, t, s'). rest s' = rest s) (pathparser_parse_path_part part path s)" by (intro ok) simp
    then have "rest (snd (snd r)) = rest s" by (rule ok_snd2 [OF _ Inr])
    with Inr step show ?thesis by (auto split: if_splits intro: ok dest!: step(1))
  qed
qed

lemma ok_pathparser_parse [ok]:
  fixes s :: "'a iostate_scheme"
  assumes "\<And>p s'. rest s' = rest s \<Longrightarrow> P (p, s')"
  shows "ok_out P (pathparser_parse path s)"
  unfolding pathparser_parse_def Let_def
  by (intro ok ok_ends ok_conseq [OF parse_loop_rest] assms | simp | assumption)+

end
