(* ===== verification/FatOpen.thy ===== *)
theory FatOpen
  imports FatProps Frames
begin

text \<open>
  Opening a file in the FAT16 driver: comparing names, scanning a directory, the driver's structures for the
  entry that is found. \<open>parse_frame {}\<close> is the frame of all of it: memory that is in use keeps its contents,
  and live blocks stay live.
\<close>

section \<open>Comparing names\<close>

definition same_name :: "u8 list \<Rightarrow> u8 list \<Rightarrow> bool" where
  "same_name a b \<longleftrightarrow> map tolower a = map tolower b"

lemma istrncmp_local_ok:
  assumes "cstr_at m p cs" "0 \<notin> set xs" "length xs < n"
  shows "\<exists>v. istrncmp_local (xs @ 0 # ys) m p n = Inr v \<and> (v = 0 \<longleftrightarrow> same_name xs cs)"
  using assms
proof (induction xs arbitrary: p cs n)
  case Nil
  then obtain k where n: "n = Suc k" by (cases n) auto
  show ?case
  proof (cases "m p = 0")
    case True
    with Nil have "cs = []" by (cases cs) auto
    with True show ?thesis by (simp add: n same_name_def)
  next
    case False
    with Nil have "cs \<noteq> []" by auto
    moreover have "tolower 0 \<noteq> tolower (m p)" using False by (metis tolower_eq_0_iff)
    ultimately show ?thesis using False by (simp add: n same_name_def Let_def unsigned_eq_0_iff)
  qed
next
  case (Cons x xs)
  then obtain k where n: "n = Suc k" by (cases n) auto
  have x: "x \<noteq> 0" using Cons.prems(2) by auto
  show ?case
  proof (cases cs)
    case Nil
    then have "m p = 0" using Cons.prems(1) by simp
    moreover have "tolower x \<noteq> tolower 0" using x by (metis tolower_eq_0_iff)
    ultimately show ?thesis using x Nil by (simp add: n same_name_def Let_def unsigned_eq_0_iff)
  next
    case (Cons c cs')
    have c: "m p = c" "cstr_at m (p + 1) cs'" using Cons.prems(1) Cons by simp_all
    show ?thesis
    proof (cases "tolower x = tolower c")
      case True
      have "0 \<notin> set xs" "length xs < k" using Cons.prems n by simp_all
      then obtain v where "istrncmp_local (xs @ 0 # ys) m (p + 1) k = Inr v" "v = 0 \<longleftrightarrow> same_name xs cs'"
        using Cons.IH [OF c(2)] by blast
      then show ?thesis using True x Cons by (simp add: n c same_name_def Let_def)
    next
      case False
      then have "x \<noteq> c" by blast
      then have "uint x - uint c \<noteq> 0" by simp
      then show ?thesis using False \<open>x \<noteq> c\<close> Cons by (simp add: n c same_name_def Let_def)
    qed
  qed
qed

section \<open>Fresh blocks\<close>

text \<open>What a request does, and that a store into a fresh block is invisible to what was there before.\<close>

lemma kzalloc_fresh:
  fixes s :: "'a pstate_scheme"
  assumes "kheap_inv s" "0 < kheap_vacant s" "0 < sz" "sz \<le> 4096"
  obtains t s1 where "kzalloc sz s = Inr (t, s1)" "parse_frame {} s s1" "t \<noteq> 0" "page_aligned t"
    "kheap_allocs s1 = insert (t, 1) (kheap_allocs s)" "\<forall>k. (t, k) \<notin> kheap_allocs s"
    "kheap_vacant s = Suc (kheap_vacant s1)"
proof -
  obtain t s1 where t: "kzalloc sz s = Inr (t, s1)" "t \<noteq> 0" "kheap_inv s1"
    "kheap_allocs s1 = insert (t, 1) (kheap_allocs s)" "kheap_vacant s = Suc (kheap_vacant s1)"
    "\<And>k. (t, k) \<notin> kheap_allocs s" "page_aligned t" "heap_area s1 = heap_area s"
    "\<And>a. \<not> in_page t a \<Longrightarrow> mem s1 a = mem s a" "\<And>a. kept s a \<Longrightarrow> \<not> in_page t a"
    "\<And>j. j < unat sz \<Longrightarrow> mem s1 (t + word_of_nat j) = 0" "heap_step s s1"
    by (rule kzalloc_kept [OF assms], rule that)
  have "parse_frame {} s s1" using t by (auto simp: parse_frame_def)
  with that t show thesis by blast
qed

lemma frame_store:
  assumes "parse_frame {} s s1" "(p, 1) \<in> kheap_allocs s1" "\<forall>k. (p, k) \<notin> kheap_allocs s"
    "\<And>a. \<not> in_page p a \<Longrightarrow> m' a = mem s1 a"
  shows "parse_frame {} s (s1\<lparr>mem := m'\<rparr>)"
proof -
  have f: "kheap_inv s1" "heap_area s1 = heap_area s" "kheap_allocs s \<subseteq> kheap_allocs s1"
    "\<And>a. kept s a \<Longrightarrow> mem s1 a = mem s a" "heap_step s s1" using assms(1) by (simp_all add: parse_frame_def)
  have "page_aligned p" by (rule live_page_aligned [OF f(1) assms(2)])
  then have "\<not> in_page p a" if "kept s a" for a
    using kept_not_new [OF f(1) assms(2) f(2,3) _ that] assms(3) by (simp add: in_block_page)
  moreover have "heap_step s (s1\<lparr>mem := m'\<rparr>)" by (rule heap_step_trans [OF f(5) heap_step_mem])
  ultimately show ?thesis using f(1-4) assms(4) by (simp add: parse_frame_def)
qed

lemma frame_stw:
  assumes "parse_frame {} s s1" "(p, 1) \<in> kheap_allocs s1" "\<forall>k. (p, k) \<notin> kheap_allocs s" "f < 1024"
  shows "parse_frame {} s (s1\<lparr>mem := stw p f w (mem s1)\<rparr>)"
proof (rule frame_store [OF assms(1-3)])
  fix a
  assume "\<not> in_page p a"
  moreover have "page_aligned p" using live_page_aligned [OF _ assms(2)] assms(1) by (simp add: parse_frame_def)
  ultimately show "stw p f w (mem s1) a = mem s1 a" by (intro stw_frame assms(4))
qed

lemma frame_trans: "parse_frame {} s s1 \<Longrightarrow> parse_frame {} s1 s2 \<Longrightarrow> parse_frame {} s s2"
  by (rule parse_frame_trans) auto

lemma frame_refl: "kheap_inv s \<Longrightarrow> parse_frame {} s s"
  by (simp add: parse_frame_def)

lemma frame_kept: "parse_frame {} s s1 \<Longrightarrow> kept s a \<Longrightarrow> mem s1 a = mem s a \<and> kept s1 a"
  by (auto simp: parse_frame_def intro: kept_mono)

lemma live_kept: "kheap_inv s \<Longrightarrow> (p, 1) \<in> kheap_allocs s \<Longrightarrow> in_page p a \<Longrightarrow> kept s a"
  by (rule kept_live) (auto intro: live_page_aligned)

lemma frame_ldw: "parse_frame {} s s1 \<Longrightarrow> kheap_inv s \<Longrightarrow> (p, 1) \<in> kheap_allocs s \<Longrightarrow> f < 1024 \<Longrightarrow> ldw (mem s1) p f = ldw (mem s) p f"
  by (intro ldw_cong live_page_aligned [of s p]) (auto dest: live_kept frame_kept)

text \<open>The number of free blocks follows from the allocations.\<close>

lemma area_length:
  assumes "kheap_inv s" "kheap_inv s'" "heap_area s' = heap_area s"
  shows "length (entries (table (kernel_heap s'))) = length (entries (table (kernel_heap s)))"
proof -
  have card: "card (heap_area t) = 4096 * length (entries (table (kernel_heap t)))" if "kheap_inv t" for t :: "'x kstate_scheme"
  proof -
    let ?L = "unat (saddr (kernel_heap t))" and ?n = "4096 * length (entries (table (kernel_heap t)))"
    have b: "?L + ?n \<le> 2 ^ 32" using that by (simp add: kheap_view_defs heap_inv_def)
    have "heap_area t = word_of_nat ` {?L..<?L + ?n}"
    proof (intro set_eqI iffI)
      fix a
      assume "a \<in> heap_area t"
      then show "a \<in> word_of_nat ` {?L..<?L + ?n}" by (intro image_eqI [of _ _ "unat a"]) (auto simp: heap_area_def)
    next
      fix a :: u32
      assume "a \<in> word_of_nat ` {?L..<?L + ?n}"
      then obtain i where i: "a = word_of_nat i" "?L \<le> i" "i < ?L + ?n" by auto
      then have "unat a = i" using b by (simp add: unat_of_nat32)
      with i show "a \<in> heap_area t" by (simp add: heap_area_def)
    qed
    moreover have "inj_on (word_of_nat :: nat \<Rightarrow> u32) {?L..<?L + ?n}"
    proof (rule inj_onI)
      fix i j
      assume i: "i \<in> {?L..<?L + ?n}" and j: "j \<in> {?L..<?L + ?n}" and eq: "(word_of_nat i :: u32) = word_of_nat j"
      have "i < 2 ^ 32" "j < 2 ^ 32" using i j b unfolding atLeastLessThan_iff by linarith+
      then show "i = j" using arg_cong [OF eq, of unat] by (simp only: unat_of_nat32)
    qed
    ultimately show ?thesis by (simp add: card_image)
  qed
  from card [OF assms(1)] card [OF assms(2)] assms(3) show ?thesis by simp
qed

lemma frame_vacant:
  assumes "kheap_inv s" "parse_frame {} s s1" "kheap_allocs s1 = kheap_allocs s \<union> page_allocs ps" "distinct ps"
    "\<forall>p \<in> set ps. \<forall>k. (p, k) \<notin> kheap_allocs s"
  shows "kheap_vacant s = kheap_vacant s1 + length ps"
proof -
  have inv1: "kheap_inv s1" "heap_area s1 = heap_area s" using assms(2) by (simp_all add: parse_frame_def)
  have pages: "page_allocs ps = (\<lambda>p. (p, 1)) ` set ps" by (auto simp: page_allocs_def)
  have "(\<Sum>(p, n) \<in> page_allocs ps. n) = length ps"
    unfolding pages by (subst sum.reindex) (simp_all add: inj_on_def distinct_card [OF assms(4)])
  moreover have "(\<Sum>(p, n) \<in> kheap_allocs s1. n) = (\<Sum>(p, n) \<in> kheap_allocs s. n) + (\<Sum>(p, n) \<in> page_allocs ps. n)"
    unfolding assms(3)
    by (rule sum.union_disjoint) (use assms(5) finite_heap_allocs in \<open>auto simp: pages kheap_allocs_def\<close>)
  ultimately have sums: "(\<Sum>(p, n) \<in> kheap_allocs s1. n) = (\<Sum>(p, n) \<in> kheap_allocs s. n) + length ps" by simp
  have "kheap_vacant t + (\<Sum>(p, n) \<in> kheap_allocs t. n) = length (entries (table (kernel_heap t)))"
    if "kheap_inv t" for t :: "'x kstate_scheme"
    using heap_blocks_partition that by (simp add: kheap_view_defs)
  note part = this
  have "kheap_vacant s + (\<Sum>(p, n) \<in> kheap_allocs s. n) = length (entries (table (kernel_heap s)))"
    "kheap_vacant s1 + (\<Sum>(p, n) \<in> kheap_allocs s1. n) = length (entries (table (kernel_heap s1)))"
    using part [OF assms(1)] part [OF inv1(1)] by blast+
  then show ?thesis using sums area_length [OF assms(1) inv1] by linarith
qed

section \<open>The item made for an entry\<close>

lemma clone_ok:
  fixes s :: "'a pstate_scheme"
  assumes "kheap_inv s" "0 < kheap_vacant s" "\<forall>j < 32. kept s (item + word_of_nat j)"
  obtains c s1 where "fat16_clone_directory_item item fat_directory_item_sizeof s = Inr (c, s1)" "parse_frame {} s s1"
    "c \<noteq> 0" "kheap_allocs s1 = insert (c, 1) (kheap_allocs s)" "\<forall>k. (c, k) \<notin> kheap_allocs s"
    "kheap_vacant s = Suc (kheap_vacant s1)" "bytes_at (mem s1) c 32 = bytes_at (mem s) item 32"
proof -
  have sz: "0 < fat_directory_item_sizeof" "fat_directory_item_sizeof \<le> 4096" "unat fat_directory_item_sizeof = 32"
    by (simp_all add: fat_directory_item_sizeof_def)
  obtain c s1 where c: "kzalloc fat_directory_item_sizeof s = Inr (c, s1)" "parse_frame {} s s1" "c \<noteq> 0" "page_aligned c"
    "kheap_allocs s1 = insert (c, 1) (kheap_allocs s)" "\<forall>k. (c, k) \<notin> kheap_allocs s" "kheap_vacant s = Suc (kheap_vacant s1)"
    by (rule kzalloc_fresh [OF assms(1,2) sz(1,2)], rule that)
  have live: "(c, 1) \<in> kheap_allocs s1" and inv1: "kheap_inv s1" using c(2,5) by (simp_all add: parse_frame_def)
  have new: "\<not> in_page c a" if "kept s a" for a
    using kept_not_new [OF inv1 live _ _ _ that] c(2,4,6) by (auto simp: parse_frame_def in_block_page)
  have far: "32 \<le> unat (c - item)"
  proof (rule ccontr)
    assume "\<not> 32 \<le> unat (c - item)"
    then have "kept s (item + word_of_nat (unat (c - item)))" using assms(3) [rule_format, of "unat (c - item)"] by linarith
    then show False using new [of c] by (simp add: in_page_def)
  qed
  define m' where "m' = memcpy c item fat_directory_item_sizeof (mem s1)"
  have m': "m' a = (if unat (a - c) < 32 then mem s1 (item + (a - c)) else mem s1 a)" for a
    using memcpy_apply [of fat_directory_item_sizeof c item "mem s1" a] far by (simp add: m'_def sz(3))
  have out: "m' a = mem s1 a" if "\<not> in_page c a" for a
  proof -
    have "\<not> unat (a - c) < 32"
      using in_page_offset [OF c(4), of "unat (a - c)"] that by auto
    then show ?thesis by (simp add: m')
  qed
  have fr: "parse_frame {} s (s1\<lparr>mem := m'\<rparr>)" by (rule frame_store [OF c(2) live c(6) out])
  have "m' (c + word_of_nat j) = mem s (item + word_of_nat j)" if "j < 32" for j
  proof -
    have "unat (word_of_nat j :: u32) = j" using that by (intro unat_of_nat32) simp
    then have "m' (c + word_of_nat j) = mem s1 (item + word_of_nat j)" using that by (simp add: m')
    also have "\<dots> = mem s (item + word_of_nat j)" using frame_kept [OF c(2)] assms(3) that by blast
    finally show ?thesis .
  qed
  then have bytes: "bytes_at m' c 32 = bytes_at (mem s) item 32" by (simp add: bytes_at_eq_iff)
  have run: "fat16_clone_directory_item item fat_directory_item_sizeof s = Inr (c, s1\<lparr>mem := m'\<rparr>)"
    by (simp add: fat16_clone_directory_item_def c(1,3) m'_def)
  show thesis
    by (rule that [OF run fr c(3) _ c(6)]) (simp_all add: c bytes)
qed

lemma st32_item: "st32 (f + F_TYPE) w s = s\<lparr>mem := stw f 1 w (mem s)\<rparr>" "st32 (f + F_ITEM) w s = s\<lparr>mem := stw f 0 w (mem s)\<rparr>"
  by (simp_all add: st32_def stw_def fat_layout)

lemma new_item_ok:
  fixes s :: "'a dstate_scheme"
  assumes "kheap_inv s" "2 \<le> kheap_vacant s" "\<forall>j < 32. kept s (item + word_of_nat j)"
    and reg: "mem s (item + I_ATTRIBUTE) AND FAT_FILE_SUBDIRECTORY = 0"
  obtains f c s1 where "fat16_new_fat_item_for_directory_item item s = Inr (f, s1)" "parse_frame {} s s1" "f \<noteq> 0"
    "kheap_allocs s1 = insert (c, 1) (insert (f, 1) (kheap_allocs s))" "\<forall>k. (c, k) \<notin> kheap_allocs s" "\<forall>k. (f, k) \<notin> kheap_allocs s"
    "f \<noteq> c" "kheap_vacant s = kheap_vacant s1 + 2" "bytes_at (mem s1) c 32 = bytes_at (mem s) item 32"
    "ldw (mem s1) f 0 = c" "ldw (mem s1) f 1 = FAT_ITEM_TYPE_FILE"
proof -
  have sz: "(0 :: u32) < 8" "(8 :: u32) \<le> 4096" "0 < kheap_vacant s" using assms(2) by simp_all
  obtain f s1 where f: "kzalloc 8 s = Inr (f, s1)" "parse_frame {} s s1" "f \<noteq> 0" "page_aligned f"
    "kheap_allocs s1 = insert (f, 1) (kheap_allocs s)" "\<forall>k. (f, k) \<notin> kheap_allocs s" "kheap_vacant s = Suc (kheap_vacant s1)"
    by (rule kzalloc_fresh [OF assms(1) sz(3,1,2)], rule that)
  define s2 where "s2 = s1\<lparr>mem := stw f 1 FAT_ITEM_TYPE_FILE (mem s1)\<rparr>"
  have s2: "kheap_inv s2" "kheap_allocs s2 = kheap_allocs s1" "kheap_vacant s2 = kheap_vacant s1"
    using f(2) by (simp_all add: s2_def parse_frame_def)
  have live: "(f, 1) \<in> kheap_allocs s1" using f(5) by simp
  have fr2: "parse_frame {} s s2" unfolding s2_def by (rule frame_stw [OF f(2) live f(6)]) simp
  have room: "0 < kheap_vacant s2" using s2(3) f(7) assms(2) by simp
  have item: "\<forall>j < 32. kept s2 (item + word_of_nat j)" using frame_kept [OF fr2] assms(3) by blast
  obtain c s3 where c: "fat16_clone_directory_item item fat_directory_item_sizeof s2 = Inr (c, s3)" "parse_frame {} s2 s3"
    "c \<noteq> 0" "kheap_allocs s3 = insert (c, 1) (kheap_allocs s2)" "\<forall>k. (c, k) \<notin> kheap_allocs s2"
    "kheap_vacant s2 = Suc (kheap_vacant s3)" "bytes_at (mem s3) c 32 = bytes_at (mem s2) item 32"
    by (rule clone_ok [OF s2(1) room item], rule that)
  have f2: "(f, 1) \<in> kheap_allocs s2" using live s2(2) by simp
  have ne: "f \<noteq> c" using c(5) f2 by blast
  have ty: "ldw (mem s3) f 1 = FAT_ITEM_TYPE_FILE"
    using frame_ldw [OF c(2) s2(1) f2, of 1] by (simp add: s2_def)
  define s4 where "s4 = s3\<lparr>mem := stw f 0 c (mem s3)\<rparr>"
  have fr3: "parse_frame {} s s3" by (rule frame_trans [OF fr2 c(2)])
  have c3: "(f, 1) \<in> kheap_allocs s3" "(c, 1) \<in> kheap_allocs s3" using c(4) f2 by simp_all
  have fr4: "parse_frame {} s s4" unfolding s4_def by (rule frame_stw [OF fr3 c3(1) f(6)]) simp
  have inv3: "kheap_inv s3" using fr3 by (simp add: parse_frame_def)
  have al: "page_aligned c" by (rule live_page_aligned [OF inv3 c3(2)])
  have attr: "mem s1 (item + I_ATTRIBUTE) = mem s (item + I_ATTRIBUTE)"
  proof -
    have "kept s (item + word_of_nat 11)" using assms(3) [rule_format, of 11] by linarith
    then show ?thesis using frame_kept [OF f(2)] by (simp add: I_ATTRIBUTE_def)
  qed
  have run: "fat16_new_fat_item_for_directory_item item s = Inr (f, s4)"
    using f(1,3) attr reg c(1) by (simp add: fat16_new_fat_item_for_directory_item_def st32_item s2_def s4_def)
  have "bytes_at (mem s4) c 32 = bytes_at (mem s) item 32"
  proof -
    have "mem s4 (c + word_of_nat j) = mem s3 (c + word_of_nat j)" if "j < 32" for j
    proof -
      have "in_page c (c + word_of_nat j)" using in_page_offset [OF al] that by simp
      then have "\<not> in_page f (c + word_of_nat j)" using in_page_unique [OF f(4) al] ne by blast
      then show ?thesis using stw_frame [OF f(4)] by (simp add: s4_def)
    qed
    moreover have "mem s2 (item + word_of_nat j) = mem s (item + word_of_nat j)" if "j < 32" for j
      using frame_kept [OF fr2] assms(3) that by blast
    ultimately show ?thesis using c(7) by (simp add: bytes_at_eq_iff)
  qed
  moreover have "kheap_allocs s4 = insert (c, 1) (insert (f, 1) (kheap_allocs s))" "kheap_vacant s = kheap_vacant s4 + 2"
    using c(4,6) s2(2,3) f(5,7) by (simp_all add: s4_def)
  moreover have "\<forall>k. (c, k) \<notin> kheap_allocs s" using c(5) s2(2) f(5) by auto
  moreover have "ldw (mem s4) f 0 = c" "ldw (mem s4) f 1 = FAT_ITEM_TYPE_FILE"
    using ty by (simp_all add: s4_def ldw_stw [OF f(4) f(4)])
  ultimately show thesis using that [OF run fr4 f(3) _ _ f(6) ne] by blast
qed

section \<open>The scan of a directory\<close>

text \<open>The entries of a directory in memory, by base name and extension.\<close>

definition entry_at :: "u32 \<Rightarrow> nat \<Rightarrow> u32" where
  "entry_at items i = items + word_of_nat (32 * i)"

definition directory_at :: "memory \<Rightarrow> u32 \<Rightarrow> (u8 list \<times> u8 list) list \<Rightarrow> bool" where
  "directory_at m directory dir \<longleftrightarrow> length dir < 2 ^ 26
     \<and> load32 m (directory + D_TOTAL) = word_of_nat (length dir)
     \<and> (\<forall>i < length dir. entry_name m (entry_at (load32 m (directory + D_ITEM)) i) (fst (dir ! i)) (snd (dir ! i)))"

lemma find_step:
  assumes "directory_at (mem s) d dir" "i < length dir" "cstr_at (mem s) name cs"
  shows "find_item_step d name (int i) f s =
    (if same_name (full_name (fst (dir ! i)) (snd (dir ! i))) cs
     then fat16_new_fat_item_for_directory_item (entry_at (load32 (mem s) (d + D_ITEM)) i) s else Inr (f, s))"
proof -
  define b x where "b = fst (dir ! i)" and "x = snd (dir ! i)"
  have e: "entry_name (mem s) (entry_at (load32 (mem s) (d + D_ITEM)) i) b x"
    using assms(1,2) by (simp add: directory_at_def b_def x_def)
  have at: "load32 (mem s) (d + D_ITEM) + word_of_int (int i) * fat_directory_item_sizeof = entry_at (load32 (mem s) (d + D_ITEM)) i"
    by (simp add: entry_at_def fat_directory_item_sizeof_def mult.commute)
  have len: "length (full_name b x) < 12" "0 \<notin> set (full_name b x)"
    using e by (auto simp: entry_name_def full_name_def name_char_def list_all_iff)
  obtain k where k: "108 - length (full_name b x) = Suc k" using len(1) by (cases "108 - length (full_name b x)") auto
  have name: "fat16_get_full_relative_filename (mem s) (entry_at (load32 (mem s) (d + D_ITEM)) i) 108 =
      Inr (full_name b x @ 0 # replicate k 0)"
  proof -
    have "fat16_get_full_relative_filename (mem s) (entry_at (load32 (mem s) (d + D_ITEM)) i) 108 =
        Inr (full_name b x @ replicate (108 - length (full_name b x)) 0)"
      by (rule full_filename_ok [where b = b and x = x])
        (use e entry_ext_end [OF e] in \<open>simp_all add: entry_name_def name_char_def\<close>)
    then show ?thesis by (simp add: k)
  qed
  have "length (full_name b x) < 108" using len(1) by simp
  from istrncmp_local_ok [OF assms(3) len(2) this] obtain v where
    "istrncmp_local (full_name b x @ 0 # replicate k 0) (mem s) name 108 = Inr v" "v = 0 \<longleftrightarrow> same_name (full_name b x) cs" by blast
  with name show ?thesis
    unfolding find_item_step_def Let_def at GUAVAOS_MAX_PATH_def b_def [symmetric] x_def [symmetric] by simp
qed

lemma find_loop_rest:
  assumes "directory_at (mem s) d dir" "cstr_at (mem s) name cs" "k \<le> length dir"
    and "\<forall>j. k \<le> j \<and> j < length dir \<longrightarrow> \<not> same_name (full_name (fst (dir ! j)) (snd (dir ! j))) cs"
  shows "find_item_loop d name (int k) f s = Some (Inr (f, s))"
  using assms(3,4)
proof (induction "length dir - k" arbitrary: k)
  case 0
  have "sint (load32 (mem s) (d + D_TOTAL)) = int (length dir)"
    using assms(1) sint_small [of "word_of_nat (length dir)"] by (simp add: directory_at_def unat_of_nat32)
  with 0 show ?case by (subst find_item_loop.simps) simp
next
  case (Suc n)
  have k: "k < length dir" using Suc.hyps(2) by linarith
  have tot: "sint (load32 (mem s) (d + D_TOTAL)) = int (length dir)"
    using assms(1) sint_small [of "word_of_nat (length dir)"] by (simp add: directory_at_def unat_of_nat32)
  have "find_item_step d name (int k) f s = Inr (f, s)"
    using find_step [OF assms(1) k assms(2)] Suc.prems(2) k by simp
  moreover have "find_item_loop d name (int (Suc k)) f s = Some (Inr (f, s))"
    by (rule Suc.hyps(1)) (use Suc k in auto)
  ultimately show ?case using k tot by (subst find_item_loop.simps) (simp add: add.commute)
qed

lemma find_loop_skip:
  assumes "directory_at (mem s) d dir" "cstr_at (mem s) name cs" "i \<le> length dir"
    and "\<forall>j < i. \<not> same_name (full_name (fst (dir ! j)) (snd (dir ! j))) cs"
  shows "find_item_loop d name 0 f s = find_item_loop d name (int i) f s"
  using assms(3,4)
proof (induction i)
  case (Suc i)
  have i: "i < length dir" using Suc.prems(1) by simp
  have "sint (load32 (mem s) (d + D_TOTAL)) = int (length dir)"
    using assms(1) sint_small [of "word_of_nat (length dir)"] by (simp add: directory_at_def unat_of_nat32)
  moreover have "find_item_step d name (int i) f s = Inr (f, s)"
    using find_step [OF assms(1) i assms(2)] Suc.prems(2) by simp
  ultimately have "find_item_loop d name (int i) f s = find_item_loop d name (int (Suc i)) f s"
    using i by (subst find_item_loop.simps) (simp add: add.commute)
  with Suc show ?case by simp
qed simp

text \<open>The directory's structure and its entries are in memory that is in use.\<close>

definition directory_kept :: "'a kstate_scheme \<Rightarrow> u32 \<Rightarrow> nat \<Rightarrow> bool" where
  "directory_kept s d n \<longleftrightarrow> (\<forall>b \<in> word_at (d + D_ITEM) \<union> word_at (d + D_TOTAL). kept s b)
     \<and> (\<forall>j < 32 * n. kept s (load32 (mem s) (d + D_ITEM) + word_of_nat j))"

lemma entry_kept:
  assumes "directory_kept s d n" "i < n" "j < 32"
  shows "kept s (entry_at (load32 (mem s) (d + D_ITEM)) i + word_of_nat j)"
proof -
  have "32 * i + j < 32 * n" using assms(2,3) by linarith
  then have "kept s (load32 (mem s) (d + D_ITEM) + word_of_nat (32 * i + j))"
    using assms(1) unfolding directory_kept_def by blast
  then show ?thesis by (simp add: entry_at_def add.assoc)
qed

lemma directory_frame:
  assumes "parse_frame {} s s1" "directory_at (mem s) d dir" "directory_kept s d (length dir)"
  shows "load32 (mem s1) (d + D_ITEM) = load32 (mem s) (d + D_ITEM)" "directory_at (mem s1) d dir"
    "directory_kept s1 d (length dir)"
proof -
  note k = frame_kept [OF assms(1)]
  have w: "load32 (mem s1) (d + D_ITEM) = load32 (mem s) (d + D_ITEM)" "load32 (mem s1) (d + D_TOTAL) = load32 (mem s) (d + D_TOTAL)"
    using load32_kept [of "d + D_ITEM" "mem s1" "mem s"] load32_kept [of "d + D_TOTAL" "mem s1" "mem s"] k assms(3)
    by (simp_all add: directory_kept_def)
  have byte: "mem s1 (entry_at (load32 (mem s) (d + D_ITEM)) i + word_of_nat j) = mem s (entry_at (load32 (mem s) (d + D_ITEM)) i + word_of_nat j)"
    if "i < length dir" "j < 32" for i j
    using k entry_kept [OF assms(3) that] by blast
  have ext: "a + I_EXT + word_of_nat j = a + word_of_nat (8 + j)" "a + I_ATTRIBUTE = a + word_of_nat 11" for a j
    by (simp_all add: I_EXT_def I_ATTRIBUTE_def)
  show "load32 (mem s1) (d + D_ITEM) = load32 (mem s) (d + D_ITEM)" by (rule w(1))
  show "directory_at (mem s1) d dir"
    unfolding directory_at_def w
  proof (intro conjI allI impI)
    fix i
    assume i: "i < length dir"
    have e: "entry_name (mem s) (entry_at (load32 (mem s) (d + D_ITEM)) i) (fst (dir ! i)) (snd (dir ! i))"
      using assms(2) i by (simp add: directory_at_def)
    show "entry_name (mem s1) (entry_at (load32 (mem s) (d + D_ITEM)) i) (fst (dir ! i)) (snd (dir ! i))"
      using e unfolding entry_name_def ext by (simp add: byte [OF i] del: of_nat_add of_nat_numeral)
  qed (use assms(2) in \<open>simp_all add: directory_at_def\<close>)
  show "directory_kept s1 d (length dir)" using assms(3) k w(1) by (auto simp: directory_kept_def)
qed

lemma find_item_ok:
  fixes s :: "'a dstate_scheme"
  assumes "kheap_inv s" "2 \<le> kheap_vacant s" "directory_at (mem s) d dir" "directory_kept s d (length dir)"
    and name: "cstr_at (mem s) name cs" "\<forall>j \<le> length cs. kept s (name + word_of_nat j)"
    and i: "i < length dir" "\<forall>j < length dir. same_name (full_name (fst (dir ! j)) (snd (dir ! j))) cs \<longleftrightarrow> j = i"
    and reg: "mem s (entry_at (load32 (mem s) (d + D_ITEM)) i + I_ATTRIBUTE) AND FAT_FILE_SUBDIRECTORY = 0"
  obtains f c s1 where "fat16_find_item_in_directory d name s = Inr (f, s1)" "parse_frame {} s s1" "f \<noteq> 0"
    "kheap_allocs s1 = insert (c, 1) (insert (f, 1) (kheap_allocs s))" "\<forall>k. (c, k) \<notin> kheap_allocs s" "\<forall>k. (f, k) \<notin> kheap_allocs s"
    "f \<noteq> c" "kheap_vacant s = kheap_vacant s1 + 2"
    "bytes_at (mem s1) c 32 = bytes_at (mem s) (entry_at (load32 (mem s) (d + D_ITEM)) i) 32"
    "ldw (mem s1) f 0 = c" "ldw (mem s1) f 1 = FAT_ITEM_TYPE_FILE"
proof -
  let ?e = "entry_at (load32 (mem s) (d + D_ITEM)) i"
  have e: "\<forall>j < 32. kept s (?e + word_of_nat j)" using entry_kept [OF assms(4) i(1)] by blast
  obtain f c s1 where f: "fat16_new_fat_item_for_directory_item ?e s = Inr (f, s1)" "parse_frame {} s s1" "f \<noteq> 0"
    "kheap_allocs s1 = insert (c, 1) (insert (f, 1) (kheap_allocs s))" "\<forall>k. (c, k) \<notin> kheap_allocs s" "\<forall>k. (f, k) \<notin> kheap_allocs s"
    "f \<noteq> c" "kheap_vacant s = kheap_vacant s1 + 2" "bytes_at (mem s1) c 32 = bytes_at (mem s) ?e 32"
    "ldw (mem s1) f 0 = c" "ldw (mem s1) f 1 = FAT_ITEM_TYPE_FILE"
    by (rule new_item_ok [OF assms(1,2) e reg], rule that)
  have dir1: "directory_at (mem s1) d dir" by (rule directory_frame(2) [OF f(2) assms(3,4)])
  have name1: "cstr_at (mem s1) name cs"
    by (rule cstr_at_mem_cong [OF name(1)]) (use frame_kept [OF f(2)] name(2) in blast)
  have tot: "sint (load32 (mem s) (d + D_TOTAL)) = int (length dir)"
    using assms(3) sint_small [of "word_of_nat (length dir)"] by (simp add: directory_at_def unat_of_nat32)
  have step: "find_item_step d name (int i) 0 s = Inr (f, s1)"
    using find_step [OF assms(3) i(1) name(1)] i f(1) by simp
  have "find_item_loop d name 0 0 s = find_item_loop d name (int i) 0 s"
    by (rule find_loop_skip [OF assms(3) name(1)]) (use i in auto)
  also have "\<dots> = find_item_loop d name (int (Suc i)) f s1"
    using tot i(1) step by (subst find_item_loop.simps) (simp add: add.commute)
  also have "\<dots> = Some (Inr (f, s1))"
    by (rule find_loop_rest [OF dir1 name1]) (use i in auto)
  finally have "fat16_find_item_in_directory d name s = Inr (f, s1)"
    by (simp add: fat16_find_item_in_directory_def ends_def)
  then show thesis by (rule that) (fact f)+
qed

section \<open>Opening in the driver\<close>

lemma fat16_open_ok:
  fixes s :: "'a dstate_scheme"
  assumes "kheap_inv s" "3 \<le> kheap_vacant s" "directory_at (mem s) (fs_private s + ROOT_DIRECTORY) dir"
    "directory_kept s (fs_private s + ROOT_DIRECTORY) (length dir)"
    and path: "load32 (mem s) path = name" "load32 (mem s) (path + 4) = 0" "\<forall>b \<in> word_at path \<union> word_at (path + 4). kept s b"
    and name: "cstr_at (mem s) name cs" "\<forall>j \<le> length cs. kept s (name + word_of_nat j)"
    and i: "i < length dir" "\<forall>j < length dir. same_name (full_name (fst (dir ! j)) (snd (dir ! j))) cs \<longleftrightarrow> j = i"
    and e: "e = entry_at (load32 (mem s) (fs_private s + ROOT_DIRECTORY + D_ITEM)) i"
    and reg: "mem s (e + I_ATTRIBUTE) AND FAT_FILE_SUBDIRECTORY = 0"
  obtains p f c s1 where "fat16_open path FILE_MODE_READ s = Inr (p, s1)" "parse_frame {} s s1" "page_aligned p" "p \<noteq> 0"
    "kheap_allocs s1 = kheap_allocs s \<union> {(p, 1), (f, 1), (c, 1)}" "\<forall>k. (p, k) \<notin> kheap_allocs s" "\<forall>k. (f, k) \<notin> kheap_allocs s"
    "\<forall>k. (c, k) \<notin> kheap_allocs s" "distinct [p, f, c]" "kheap_vacant s = kheap_vacant s1 + 3"
    "bytes_at (mem s1) c 32 = bytes_at (mem s) e 32" "ldw (mem s1) p 0 = f" "ldw (mem s1) p 1 = 0"
    "ldw (mem s1) f 0 = c" "ldw (mem s1) f 1 = FAT_ITEM_TYPE_FILE"
proof -
  let ?d = "fs_private s + ROOT_DIRECTORY"
  have sz: "(0 :: u32) < 8" "(8 :: u32) \<le> 4096" "0 < kheap_vacant s" using assms(2) by simp_all
  obtain p s1 where p: "kzalloc 8 s = Inr (p, s1)" "parse_frame {} s s1" "p \<noteq> 0" "page_aligned p"
    "kheap_allocs s1 = insert (p, 1) (kheap_allocs s)" "\<forall>k. (p, k) \<notin> kheap_allocs s" "kheap_vacant s = Suc (kheap_vacant s1)"
    by (rule kzalloc_fresh [OF assms(1) sz(3,1,2)], rule that)
  note k = frame_kept [OF p(2)] and df = directory_frame [OF p(2) assms(3,4)]
  have inv1: "kheap_inv s1" "2 \<le> kheap_vacant s1" using p(2,7) assms(2) by (simp_all add: parse_frame_def)
  have priv: "fs_private s1 = fs_private s" using p(2) by (auto simp: parse_frame_def heap_step_def)
  have path1: "load32 (mem s1) path = name" "load32 (mem s1) (path + 4) = 0"
    "\<forall>b \<in> word_at (path + 4). kept s1 b"
    using load32_kept [of path "mem s1" "mem s"] load32_kept [of "path + 4" "mem s1" "mem s"] path k by auto
  have name1: "cstr_at (mem s1) name cs" "\<forall>j \<le> length cs. kept s1 (name + word_of_nat j)"
    using cstr_at_mem_cong [OF name(1), of "mem s1"] k name(2) by blast+
  have reg1: "mem s1 (entry_at (load32 (mem s1) (?d + D_ITEM)) i + I_ATTRIBUTE) AND FAT_FILE_SUBDIRECTORY = 0"
    using k entry_kept [OF assms(4) i(1), of 11] reg by (simp add: df(1) e I_ATTRIBUTE_def)
  obtain f c s2 where f: "fat16_find_item_in_directory ?d name s1 = Inr (f, s2)" "parse_frame {} s1 s2" "f \<noteq> 0"
    "kheap_allocs s2 = insert (c, 1) (insert (f, 1) (kheap_allocs s1))" "\<forall>k. (c, k) \<notin> kheap_allocs s1" "\<forall>k. (f, k) \<notin> kheap_allocs s1"
    "f \<noteq> c" "kheap_vacant s1 = kheap_vacant s2 + 2"
    "bytes_at (mem s2) c 32 = bytes_at (mem s1) (entry_at (load32 (mem s1) (?d + D_ITEM)) i) 32"
    "ldw (mem s2) f 0 = c" "ldw (mem s2) f 1 = FAT_ITEM_TYPE_FILE"
    by (rule find_item_ok [OF inv1 df(2,3) name1 i reg1], rule that)
  have "load32 (mem s2) (path + 4) = 0"
    using load32_kept [of "path + 4" "mem s2" "mem s1"] frame_kept [OF f(2)] path1 by auto
  then have entry: "fat16_get_directory_entry path s1 = Inr (f, s2)"
    using f(1,3) priv path1(1)
    by (simp add: fat16_get_directory_entry_def ends_def directory_entry_loop.simps [of 0])
  define s3 where "s3 = s2\<lparr>mem := stw p 0 f (mem s2)\<rparr>"
  define s4 where "s4 = s3\<lparr>mem := stw p 1 0 (mem s3)\<rparr>"
  have st: "st32 (p + FD_ITEM) f s2 = s3" "st32 (p + FD_POS) 0 s3 = s4"
    by (simp_all add: st32_def stw_def fat_layout s3_def s4_def)
  have run: "fat16_open path FILE_MODE_READ s = Inr (p, s4)"
    using p(1,3) entry f(3) by (simp add: fat16_open_def st [symmetric])
  have ne: "p \<noteq> f" "p \<noteq> c" using f(5,6) p(5) by auto
  have fr2: "parse_frame {} s s2" by (rule frame_trans [OF p(2) f(2)])
  have p2: "(p, 1) \<in> kheap_allocs s2" "(f, 1) \<in> kheap_allocs s2" "(c, 1) \<in> kheap_allocs s2" using f(4) p(5) by simp_all
  have inv2: "kheap_inv s2" using fr2 by (simp add: parse_frame_def)
  have al: "page_aligned f" "page_aligned c" using live_page_aligned [OF inv2] p2(2,3) by blast+
  have fr3: "parse_frame {} s s3" unfolding s3_def by (rule frame_stw [OF fr2 p2(1) p(6)]) simp
  have p3: "(p, 1) \<in> kheap_allocs s3" using p2(1) by (simp add: s3_def)
  have fr4: "parse_frame {} s s4" unfolding s4_def by (rule frame_stw [OF fr3 p3 p(6)]) simp
  have "mem s4 (c + word_of_nat j) = mem s2 (c + word_of_nat j)" if "j < 32" for j
  proof -
    have "\<not> in_page p (c + word_of_nat j)"
      using in_page_unique [OF p(4) al(2)] in_page_offset [OF al(2), of j] that ne by auto
    then show ?thesis using stw_frame [OF p(4)] by (simp add: s3_def s4_def)
  qed
  moreover have "mem s1 (e + word_of_nat j) = mem s (e + word_of_nat j)" if "j < 32" for j
    using k entry_kept [OF assms(4) i(1) that] by (simp add: e)
  ultimately have bytes: "bytes_at (mem s4) c 32 = bytes_at (mem s) e 32"
    using f(9) by (simp add: bytes_at_eq_iff df(1) e [symmetric])
  have words: "ldw (mem s4) p 0 = f" "ldw (mem s4) p 1 = 0" "ldw (mem s4) f 0 = c" "ldw (mem s4) f 1 = FAT_ITEM_TYPE_FILE"
    using f(10,11) ne by (simp_all add: s3_def s4_def ldw_stw [OF p(4) p(4)] ldw_stw [OF p(4) al(1)])
  have allocs: "kheap_allocs s4 = kheap_allocs s \<union> {(p, 1), (f, 1), (c, 1)}" "kheap_vacant s = kheap_vacant s4 + 3"
    using f(4,8) p(5,7) by (auto simp: s3_def s4_def)
  have new: "\<forall>k. (f, k) \<notin> kheap_allocs s" "\<forall>k. (c, k) \<notin> kheap_allocs s" using f(5,6) p(5) by auto
  show thesis
    by (rule that [OF run fr4 p(4,3) allocs(1) p(6) new _ allocs(2) bytes words]) (use ne f(7) in simp)
qed

end
