(* ===== verification/FileProps.thy ===== *)
theory FileProps
  imports Frames
begin

text \<open>
  The open-file table. Abstractly it is a finite map from slots to descriptors (\<open>open_files\<close>); \<open>files_ok\<close>
  is its invariant: a descriptor in use is a live heap block that holds its own slot number plus one.
  The contract between \<^verbatim>\<open>file.c\<close> and a driver is the locale \<open>file_driver\<close>; \<open>fat16_objects\<close> is its
  interpretation.
\<close>

section \<open>The table as a map\<close>

definition open_files :: "'a filestate_scheme \<Rightarrow> nat \<Rightarrow> u32 option" where
  "open_files s i = (if i < length (file_descriptors s) \<and> file_descriptors s ! i \<noteq> 0
     then Some (file_descriptors s ! i) else None)"

definition files_ok :: "'a filestate_scheme \<Rightarrow> bool" where
  "files_ok s \<longleftrightarrow> kheap_inv s \<and> length (file_descriptors s) = 512
     \<and> (\<forall>i d. open_files s i = Some d \<longrightarrow> (d, 1) \<in> kheap_allocs s \<and> ldw (mem s) d 0 = word_of_nat (i + 1))"

lemma open_files_Some: "open_files s i = Some d \<longleftrightarrow> i < length (file_descriptors s) \<and> file_descriptors s ! i = d \<and> d \<noteq> 0"
  by (auto simp: open_files_def)

lemma open_files_slot:
  "files_ok s \<Longrightarrow> open_files s i = Some d \<Longrightarrow> i < 512 \<and> d \<noteq> 0 \<and> page_aligned d \<and> (d, 1) \<in> kheap_allocs s
     \<and> ldw (mem s) d 0 = word_of_nat (i + 1)"
  using live_page_aligned [of s d] by (auto simp: files_ok_def open_files_Some)

lemma open_files_unique:
  assumes "files_ok s" "open_files s i = Some d" "open_files s j = Some d"
  shows "i = j"
proof -
  have "(word_of_nat (i + 1) :: u32) = word_of_nat (j + 1)" "i < 512" "j < 512"
    using open_files_slot [OF assms(1,2)] open_files_slot [OF assms(1,3)] by auto
  then have "unat (word_of_nat (i + 1) :: u32) = unat (word_of_nat (j + 1) :: u32)" "i + 1 < 2 ^ 32" "j + 1 < 2 ^ 32"
    by simp_all
  then show ?thesis using unat_of_nat32 [of "i + 1"] unat_of_nat32 [of "j + 1"] by simp
qed

lemma get_descriptor:
  assumes "length (file_descriptors s) = 512"
  shows "file_get_descriptor fd s =
    Inr (if 0 < fd \<and> fd < 512 then case open_files s (nat (fd - 1)) of None \<Rightarrow> 0 | Some d \<Rightarrow> d else 0)"
proof (cases "0 < fd \<and> fd < 512")
  case True
  then have "arr_get (file_descriptors s) (fd - 1) = Inr (file_descriptors s ! nat (fd - 1))" "nat (fd - 1) < 512"
    by (auto simp: arr_get_def assms)
  with True show ?thesis
    by (simp add: file_get_descriptor_def GUAVAOS_MAX_FILE_DESCRIPTORS_def open_files_def assms)
qed (auto simp: file_get_descriptor_def GUAVAOS_MAX_FILE_DESCRIPTORS_def)

lemma descriptor_word: "load32 m (d + D_INDEX) = ldw m d 0" "load32 m (d + D_FILESYSTEM) = ldw m d 1"
  "load32 m (d + D_PRIVATE) = ldw m d 2" "load32 m (d + D_DISK) = ldw m d 3"
  by (simp_all add: ldw_def descriptor_layout)

lemma st32_word: "st32 (d + D_INDEX) w s = s\<lparr>mem := stw d 0 w (mem s)\<rparr>" "st32 (d + D_FILESYSTEM) w s = s\<lparr>mem := stw d 1 w (mem s)\<rparr>"
  "st32 (d + D_PRIVATE) w s = s\<lparr>mem := stw d 2 w (mem s)\<rparr>" "st32 (d + D_DISK) w s = s\<lparr>mem := stw d 3 w (mem s)\<rparr>"
  by (simp_all add: st32_def stw_def descriptor_layout)

text \<open>Changes of memory outside the descriptors, and of the heap that keep their blocks, keep the invariant.\<close>

lemma files_ok_frame:
  assumes "files_ok s" "kheap_inv s'" "file_descriptors s' = file_descriptors s"
    and "\<And>i d. open_files s i = Some d \<Longrightarrow> (d, 1) \<in> kheap_allocs s'"
    and "\<And>i d a. open_files s i = Some d \<Longrightarrow> in_page d a \<Longrightarrow> mem s' a = mem s a"
  shows "files_ok s' \<and> open_files s' = open_files s"
proof -
  have o: "open_files s' = open_files s" by (rule ext) (simp add: open_files_def assms(3))
  have "ldw (mem s') d 0 = ldw (mem s) d 0" if "open_files s i = Some d" for i d
    by (rule ldw_cong) (use open_files_slot [OF assms(1) that] assms(5) [OF that] in auto)
  then show ?thesis using assms(1-4) o by (simp add: files_ok_def)
qed

lemma new_descriptor_ok:
  assumes "files_ok s" "0 < kheap_vacant s" "first_zero (file_descriptors s) = Some i"
  obtains d s' where "file_new_descriptor s = Inr (0, d, s')" "files_ok s'" "open_files s' = (open_files s)(i \<mapsto> d)"
    "kheap_allocs s' = insert (d, 1) (kheap_allocs s)" "\<And>k. (d, k) \<notin> kheap_allocs s" "ldw (mem s') d 0 = word_of_nat (i + 1)"
    "\<And>a. kept s a \<Longrightarrow> mem s' a = mem s a" "file_descriptors s' = (file_descriptors s)[i := d]" "page_aligned d"
proof -
  have inv: "kheap_inv s" and len: "length (file_descriptors s) = 512" using assms(1) by (simp_all add: files_ok_def)
  have i: "i < 512" "open_files s i = None" using first_zero_Some [OF assms(3)] len by (simp_all add: open_files_def)
  have sz: "0 < file_descriptor_sizeof" "file_descriptor_sizeof \<le> 4096" by (simp_all add: descriptor_layout)
  obtain d s1 where d: "kzalloc file_descriptor_sizeof s = Inr (d, s1)" "d \<noteq> 0" "kheap_inv s1"
    "kheap_allocs s1 = insert (d, 1) (kheap_allocs s)" "\<And>k. (d, k) \<notin> kheap_allocs s" "page_aligned d"
    "\<And>a. \<not> in_page d a \<Longrightarrow> mem s1 a = mem s a" "\<And>a. kept s a \<Longrightarrow> \<not> in_page d a" "heap_step s s1"
    using kzalloc_kept [OF inv assms(2) sz] by metis
  have fd: "file_descriptors s1 = file_descriptors s" using d(9) by (auto simp: heap_step_def)
  define s2 where "s2 = s1\<lparr>mem := stw d 0 (word_of_nat (i + 1)) (mem s1)\<rparr>"
  define s' where "s' = s2\<lparr>file_descriptors := (file_descriptors s)[i := d]\<rparr>"
  have m: "mem s' a = mem s a" if "kept s a" for a
    using d(7) [OF d(8) [OF that]] stw_frame [OF d(6) _ d(8) [OF that]] by (simp add: s'_def s2_def)
  have "open_files s' = (open_files s)(i \<mapsto> d)"
    by (rule ext) (use i d(2) len in \<open>auto simp: open_files_def s'_def nth_list_update\<close>)
  moreover have "kheap_inv s'" "kheap_allocs s' = insert (d, 1) (kheap_allocs s)"
    using d(3,4) by (simp_all add: s'_def s2_def kheap_view_defs)
  moreover have "ldw (mem s') e 0 = word_of_nat (j + 1)" if "open_files s j = Some e" for j e
  proof -
    note e = open_files_slot [OF assms(1) that]
    have "ldw (mem s') e 0 = ldw (mem s) e 0"
      by (rule ldw_cong) (use m kept_live [of e s] e in auto)
    then show ?thesis using e by simp
  qed
  moreover have "ldw (mem s') d 0 = word_of_nat (i + 1)" by (simp add: s'_def s2_def)
  moreover have "(e, 1) \<in> kheap_allocs s" if "open_files s j = Some e" for j e
    using open_files_slot [OF assms(1) that] by simp
  ultimately have ok: "files_ok s'" using len by (auto simp: files_ok_def s'_def s2_def)
  have run: "file_new_descriptor s = Inr (0, d, s')"
    by (simp add: file_new_descriptor_def assms(3) d(1) Let_def st32_word s'_def s2_def fd)
  show thesis
    by (rule that [OF run ok _ _ d(5) _ m _ d(6)]) (fact | simp add: s'_def s2_def)+
qed

lemma free_descriptor_ok:
  fixes s :: "'a filestate_scheme"
  assumes "files_ok s" "open_files s i = Some d"
  obtains s' where "file_free_descriptor d s = Inr s'" "files_ok s'" "open_files s' = (open_files s)(i := None)"
    "kheap_allocs s' = kheap_allocs s - {(d, 1)}" "mem s' = mem s" "kheap_vacant s' = kheap_vacant s + 1"
    "rest s' = rest (s\<lparr>file_descriptors := (file_descriptors s)[i := 0]\<rparr>)" "heap_area s' = heap_area s"
proof -
  note d = open_files_slot [OF assms]
  have inv: "kheap_inv s" and len: "length (file_descriptors s) = 512" using assms(1) by (simp_all add: files_ok_def)
  have u: "unat (word_of_nat (i + 1) :: u32) = i + 1" using d by (intro unat_of_nat32) simp
  have "sint (load32 (mem s) (d + D_INDEX)) - 1 = int i"
    using d u sint_small [of "word_of_nat (i + 1)"] by (simp add: descriptor_word)
  then have set: "arr_set (file_descriptors s) (sint (load32 (mem s) (d + D_INDEX)) - 1) 0 =
      Inr ((file_descriptors s)[i := 0])" using d len by simp
  define s1 where "s1 = s\<lparr>file_descriptors := (file_descriptors s)[i := 0]\<rparr>"
  have s1: "kheap_inv s1" "(d, 1) \<in> kheap_allocs s1" "kheap_allocs s1 = kheap_allocs s" "kheap_vacant s1 = kheap_vacant s"
    using inv d by (simp_all add: s1_def kheap_view_defs)
  obtain h where h: "kfree d s1 = Inr (s1\<lparr>kernel_heap := h\<rparr>)" "kheap_inv (s1\<lparr>kernel_heap := h\<rparr>)"
    "kheap_allocs (s1\<lparr>kernel_heap := h\<rparr>) = kheap_allocs s1 - {(d, 1)}"
    "kheap_vacant (s1\<lparr>kernel_heap := h\<rparr>) = kheap_vacant s1 + 1"
    by (rule kfree_alloc [OF s1(1,2)], rule that)
  let ?s = "s1\<lparr>kernel_heap := h\<rparr>"
  have run: "file_free_descriptor d s = Inr ?s" by (simp add: file_free_descriptor_def set h(1) s1_def [symmetric])
  have o: "open_files ?s = (open_files s)(i := None)"
    by (rule ext) (use d len in \<open>auto simp: open_files_def s1_def nth_list_update\<close>)
  have "(e, 1) \<in> kheap_allocs ?s \<and> ldw (mem ?s) e 0 = word_of_nat (j + 1)" if "open_files ?s j = Some e" for j e
  proof -
    have e: "open_files s j = Some e" "j \<noteq> i" using that by (simp_all add: o split: if_splits)
    then have "e \<noteq> d" using open_files_unique [OF assms(1) e(1)] assms(2) by blast
    then show ?thesis using open_files_slot [OF assms(1) e(1)] h(3) s1(3) by (simp add: s1_def)
  qed
  then have "files_ok ?s" using h(2) len by (simp add: files_ok_def s1_def)
  moreover have "heap_area ?s = heap_area s" using kfree_area [OF s1(1,2) h(1)] by (simp add: s1_def heap_area_def)
  ultimately show thesis by (intro that [OF run _ o]) (use h(3,4) s1(3,4) in \<open>simp_all add: s1_def\<close>)
qed

section \<open>The contract of a driver\<close>

lemma st32_file_descriptors [simp]: "file_descriptors (st32 a w s) = file_descriptors s"
  by (simp add: st32_def)

lemma rest_file_descriptors [simp]: "rest (s\<lparr>file_descriptors := ds\<rparr>) = (rest s)\<lparr>file_descriptors := ds\<rparr>"
  by (simp add: rest_def)

text \<open>Opening takes the lowest free slot and gives its number; closing clears at most one slot.\<close>

definition opened :: "int \<Rightarrow> 'a filestate_scheme \<Rightarrow> 'a filestate_scheme \<Rightarrow> bool" where
  "opened r s s' \<longleftrightarrow> r = 0 \<and> rest s' = rest s
     \<or> (\<exists>i d. r = int i + 1 \<and> first_zero (file_descriptors s) = Some i
          \<and> rest s' = rest (s\<lparr>file_descriptors := (file_descriptors s)[i := d]\<rparr>))"

definition closed :: "'a filestate_scheme \<Rightarrow> 'a filestate_scheme \<Rightarrow> bool" where
  "closed s s' \<longleftrightarrow> rest s' = rest s
     \<or> (\<exists>i < length (file_descriptors s). rest s' = rest (s\<lparr>file_descriptors := (file_descriptors s)[i := 0]\<rparr>))"

lemma opened_st32 [simp]: "opened r s (st32 a w s') = opened r s s'"
  by (simp add: opened_def)

lemma closed_same: "rest s' = rest s \<Longrightarrow> closed s s'"
  and closed_slot: "rest s1 = rest s \<Longrightarrow> i < length (file_descriptors s1) \<Longrightarrow>
    rest s' = rest (s1\<lparr>file_descriptors := (file_descriptors s1)[i := 0]\<rparr>) \<Longrightarrow> closed s s'"
  using rest_filestate(2) [of s1 s] by (auto simp: closed_def)

lemma load32_store32_apart: "word_at a \<inter> word_at b = {} \<Longrightarrow> load32 (store32 m b w) a = load32 m a"
  by (rule load32_kept) (auto intro: store32_outside)

lemma descriptor_index:
  "load32 (store32 (store32 (store32 m (d + D_FILESYSTEM) f) (d + D_PRIVATE) p) (d + D_DISK) k) (d + D_INDEX) =
     load32 m (d + D_INDEX)"
  by (simp add: load32_store32_apart word_at_def descriptor_layout add.assoc)

lemma opened_none: "rest s' = rest s \<Longrightarrow> opened 0 s s'"
  by (simp add: opened_def)

lemma opened_slot:
  assumes "length (file_descriptors s) = 512" "first_zero (file_descriptors s2) = Some i" "rest s2 = rest s"
    "rest s' = (rest s)\<lparr>file_descriptors := (file_descriptors s2)[i := d]\<rparr>"
  shows "sint (1 + word_of_nat i :: u32) = 1 + int i" "opened (1 + int i) s s'"
proof -
  have ds: "file_descriptors s2 = file_descriptors s" by (rule rest_filestate(2) [OF assms(3)])
  have i: "i < 512" using first_zero_Some [OF assms(2)] assms(1) ds by simp
  then have "unat (word_of_nat (i + 1) :: u32) = i + 1" by (intro unat_of_nat32) simp
  then show "sint (1 + word_of_nat i :: u32) = 1 + int i" using i sint_small [of "word_of_nat (i + 1)"] by simp
  show "opened (1 + int i) s s'" using assms ds by (auto simp: opened_def)
qed

lemma ok_arr_set: "(\<And>i. i < length xs \<Longrightarrow> P (xs[i := v])) \<Longrightarrow> ok_out P (arr_set xs j v)"
  by (auto simp: arr_set_def ok_out_def)

lemma ok_new_descriptor:
  fixes s :: "'a filestate_scheme"
  assumes "P (- ENOMEM, 0, s)"
    and "\<And>i d s'. first_zero (file_descriptors s) = Some i \<Longrightarrow> load32 (mem s') (d + D_INDEX) = word_of_nat (i + 1) \<Longrightarrow>
      rest s' = rest (s\<lparr>file_descriptors := (file_descriptors s)[i := d]\<rparr>) \<Longrightarrow> P (0, d, s')"
  shows "ok_out P (file_new_descriptor s)"
  unfolding file_new_descriptor_def Let_def
  by (intro ok assms) (auto dest: rest_filestate(2))

text \<open>
  What \<^verbatim>\<open>file.c\<close> needs of the drivers behind a table of file system objects: their operations change
  memory, the heap and the ports only.
\<close>

locale file_driver =
  fixes vt :: "'a filestate_scheme fs_objects"
  assumes open_rest: "vt a s0 = Inr ops \<Longrightarrow> ok_out (\<lambda>(r, s'). rest s' = rest s) (fs_op_open ops dsk path mode s)"
    and read_rest: "vt a s0 = Inr ops \<Longrightarrow> ok_out (\<lambda>(r, s'). rest s' = rest s) (fs_op_read ops dsk priv sz n out s)"
    and seek_rest: "vt a s0 = Inr ops \<Longrightarrow> ok_out (\<lambda>(r, s'). rest s' = rest s) (fs_op_seek ops priv offset whence s)"
    and stat_rest: "vt a s0 = Inr ops \<Longrightarrow> ok_out (\<lambda>(r, st, s'). rest s' = rest s) (fs_op_stat ops dsk priv stat s)"
    and close_rest: "vt a s0 = Inr ops \<Longrightarrow> ok_out (\<lambda>(r, s'). rest s' = rest s) (fs_op_close ops priv s)"
begin

lemma ok_vt: "(\<And>ops. vt a s = Inr ops \<Longrightarrow> P ops) \<Longrightarrow> ok_out P (vt a s)"
  by (auto simp: ok_out_def)

lemma fread_rest: "ok_out (\<lambda>(r, s'). rest s' = rest s) (fread vt out sz n fd s)"
  unfolding fread_def by (intro ok ok_any [of _ "file_get_descriptor fd s"] ok_vt) (auto intro: read_rest)

lemma fseek_rest: "ok_out (\<lambda>(r, s'). rest s' = rest s) (fseek vt fd offset whence s)"
  unfolding fseek_def by (intro ok ok_any [of _ "file_get_descriptor fd s"] ok_vt) (auto intro: seek_rest)

lemma fstat_rest: "ok_out (\<lambda>(r, st, s'). rest s' = rest s) (fstat vt fd stat s)"
  unfolding fstat_def by (intro ok ok_any [of _ "file_get_descriptor fd s"] ok_vt) (auto intro: stat_rest)

lemma fopen_rest:
  assumes "length (file_descriptors s) = 512"
  shows "ok_out (\<lambda>(r, s'). opened r s s') (fopen vt filename mode s)"
  unfolding fopen_def Let_def
  by (rule ok ok_vt ok_conseq2 [OF open_rest] ok_new_descriptor | assumption
    | (auto simp: status_defs ISERR_def ERROR_I_def intro!: opened_none dest: rest_filestate(2); fail)
    | (clarsimp simp: descriptor_index, frule (2) opened_slot(1) [OF assms], frule (2) opened_slot(2) [OF assms], simp))+

lemma fclose_rest: "ok_out (\<lambda>(r, s'). closed s s') (fclose vt fd s)"
  unfolding fclose_def file_free_descriptor_def
  by (rule ok_arr_set ok ok_any [of _ "file_get_descriptor fd s"] ok_vt ok_conseq2 [OF close_rest] | assumption
    | (auto intro: closed_same closed_slot; fail))+

end

lemma fat16_objects_Inr: "fat16_objects a s = Inr ops \<longleftrightarrow> a = fat16_fs s \<and> ops = fat16_ops"
  by (auto simp: fat16_objects_def)

interpretation fat: file_driver fat16_objects
proof
  fix a path mode :: u32 and s0 :: "'a filestate_scheme" and ops and dsk :: u32 and s :: "'a filestate_scheme"
    and priv sz n out offset whence :: u32 and stat :: file_stat
  assume "fat16_objects a s0 = Inr ops"
  then have ops: "ops = fat16_ops" by (simp add: fat16_objects_Inr)
  show "ok_out (\<lambda>(r, s'). rest s' = rest s) (fs_op_open ops dsk path mode s)"
    by (auto simp: ops fat16_ops_def intro!: ok)
  show "ok_out (\<lambda>(r, s'). rest s' = rest s) (fs_op_read ops dsk priv sz n out s)"
    by (auto simp: ops fat16_ops_def intro!: ok)
  show "ok_out (\<lambda>(r, s'). rest s' = rest s) (fs_op_seek ops priv offset whence s)"
    by (simp add: ops fat16_ops_def ok_out_def fat16_seek_rest split: prod.splits) (metis fat16_seek_rest snd_conv)
  show "ok_out (\<lambda>(r, st, s'). rest s' = rest s) (fs_op_stat ops dsk priv stat s)"
    by (auto simp: ops fat16_ops_def ok_out_def split: prod.splits)
  show "ok_out (\<lambda>(r, s'). rest s' = rest s) (fs_op_close ops priv s)"
    by (auto simp: ops fat16_ops_def intro!: ok)
qed

section \<open>An open file of the driver\<close>

text \<open>
  The four blocks behind a handle: the descriptor \<open>d\<close>, the driver's \<^verbatim>\<open>struct fat_file_descriptor\<close> \<open>p\<close>, its
  \<^verbatim>\<open>struct fat_item\<close> \<open>f\<close> and the copy \<open>c\<close> of the directory entry.
\<close>

definition fat_file :: "'a filestate_scheme \<Rightarrow> u32 \<Rightarrow> u32 \<Rightarrow> u32 \<Rightarrow> u32 \<Rightarrow> bool" where
  "fat_file s d p f c \<longleftrightarrow>
     ldw (mem s) d 1 = fat16_fs s \<and> ldw (mem s) d 2 = p \<and> ldw (mem s) d 3 = disk_at s
     \<and> ldw (mem s) p 0 = f \<and> ldw (mem s) f 0 = c \<and> ldw (mem s) f 1 = FAT_ITEM_TYPE_FILE
     \<and> distinct [p, f, c] \<and> {(p, 1), (f, 1), (c, 1)} \<subseteq> kheap_allocs s
     \<and> (\<forall>i e. open_files s i = Some e \<longrightarrow> e \<notin> {p, f, c})"

lemma fat_word: "load32 m (p + FD_ITEM) = ldw m p 0" "load32 m (p + FD_POS) = ldw m p 1"
  "load32 m (f + F_ITEM) = ldw m f 0" "load32 m (f + F_TYPE) = ldw m f 1" "load32 m (c + I_FILESIZE) = ldw m c 7"
  by (simp_all add: ldw_def fat_layout)

lemma st32_pos: "st32 (p + FD_POS) w s = s\<lparr>mem := stw p 1 w (mem s)\<rparr>"
  by (simp add: st32_def stw_def fat_layout)

lemma fat16_close_ok:
  fixes s :: "'a filestate_scheme"
  assumes "kheap_inv s" "fat_file s d p f c"
  obtains h where "fat16_close p s = Inr (0, s\<lparr>kernel_heap := h\<rparr>)" "kheap_inv (s\<lparr>kernel_heap := h\<rparr>)"
    "kheap_allocs (s\<lparr>kernel_heap := h\<rparr>) = kheap_allocs s - {(c, 1), (f, 1), (p, 1)}"
    "heap_area (s\<lparr>kernel_heap := h\<rparr>) = heap_area s"
proof -
  have w: "ldw (mem s) p 0 = f" "ldw (mem s) f 0 = c" "ldw (mem s) f 1 = 1"
    "p \<noteq> f" "p \<noteq> c" "f \<noteq> c" "(p, 1) \<in> kheap_allocs s" "(f, 1) \<in> kheap_allocs s" "(c, 1) \<in> kheap_allocs s"
    using assms(2) by (auto simp: fat_file_def fat_consts)
  obtain h1 where h1: "kfree c s = Inr (s\<lparr>kernel_heap := h1\<rparr>)" "kheap_inv (s\<lparr>kernel_heap := h1\<rparr>)"
    "kheap_allocs (s\<lparr>kernel_heap := h1\<rparr>) = kheap_allocs s - {(c, 1)}"
    by (rule kfree_alloc [OF assms(1) w(9)], rule that)
  have f1: "(f, 1) \<in> kheap_allocs (s\<lparr>kernel_heap := h1\<rparr>)" using w h1(3) by simp
  obtain h2 where h2: "kfree f (s\<lparr>kernel_heap := h1\<rparr>) = Inr (s\<lparr>kernel_heap := h2\<rparr>)" "kheap_inv (s\<lparr>kernel_heap := h2\<rparr>)"
    "kheap_allocs (s\<lparr>kernel_heap := h2\<rparr>) = kheap_allocs s - {(c, 1)} - {(f, 1)}"
    by (rule kfree_alloc [OF h1(2) f1]) (use that h1(3) in simp)
  have p1: "(p, 1) \<in> kheap_allocs (s\<lparr>kernel_heap := h2\<rparr>)" using w h2(3) by simp
  obtain h where h: "kfree p (s\<lparr>kernel_heap := h2\<rparr>) = Inr (s\<lparr>kernel_heap := h\<rparr>)" "kheap_inv (s\<lparr>kernel_heap := h\<rparr>)"
    "kheap_allocs (s\<lparr>kernel_heap := h\<rparr>) = kheap_allocs s - {(c, 1)} - {(f, 1)} - {(p, 1)}"
    by (rule kfree_alloc [OF h2(2) p1]) (use that h2(3) in simp)
  have "fat16_close p s = Inr (0, s\<lparr>kernel_heap := h\<rparr>)"
    using w h1(1) h2(1) h(1)
    by (simp add: fat16_close_def fat16_free_file_descriptor_def fat16_fat_item_free_def fat_word fat_consts)
  moreover have "heap_area (s\<lparr>kernel_heap := h\<rparr>) = heap_area s"
    using kfree_area [OF assms(1) w(9) h1(1)] kfree_area [OF h1(2) f1 h2(1)] kfree_area [OF h2(2) p1 h(1)] by simp
  ultimately show thesis using that h(2,3) by auto
qed

lemma fclose_ok:
  fixes s :: "'a filestate_scheme"
  assumes "files_ok s" "0 < fd" "fd < 512" "open_files s (nat (fd - 1)) = Some d" "fat_file s d p f c"
  obtains s' where "fclose fat16_objects fd s = Inr (0, s')" "files_ok s'" "open_files s' = (open_files s)(nat (fd - 1) := None)"
    "kheap_allocs s' = kheap_allocs s - {(d, 1), (p, 1), (f, 1), (c, 1)}" "mem s' = mem s"
    "rest s' = rest (s\<lparr>file_descriptors := (file_descriptors s)[nat (fd - 1) := 0]\<rparr>)" "heap_area s' = heap_area s"
proof -
  have inv: "kheap_inv s" and len: "length (file_descriptors s) = 512" using assms(1) by (simp_all add: files_ok_def)
  have w: "ldw (mem s) d 1 = fat16_fs s" "ldw (mem s) d 2 = p" "ldw (mem s) d 3 = disk_at s"
    "\<forall>i e. open_files s i = Some e \<longrightarrow> e \<notin> {p, f, c}" using assms(5) by (simp_all add: fat_file_def)
  obtain h where h: "fat16_close p s = Inr (0, s\<lparr>kernel_heap := h\<rparr>)" "kheap_inv (s\<lparr>kernel_heap := h\<rparr>)"
    "kheap_allocs (s\<lparr>kernel_heap := h\<rparr>) = kheap_allocs s - {(c, 1), (f, 1), (p, 1)}"
    "heap_area (s\<lparr>kernel_heap := h\<rparr>) = heap_area s"
    by (rule fat16_close_ok [OF inv assms(5)], rule that)
  let ?s = "s\<lparr>kernel_heap := h\<rparr>"
  have ok: "files_ok ?s \<and> open_files ?s = open_files s"
    by (rule files_ok_frame [OF assms(1) h(2)]) (use h(3) w(4) open_files_slot [OF assms(1)] in auto)
  then have at: "open_files ?s (nat (fd - 1)) = Some d" using assms(4) by simp
  obtain s' where s': "file_free_descriptor d ?s = Inr s'" "files_ok s'" "open_files s' = (open_files ?s)(nat (fd - 1) := None)"
    "kheap_allocs s' = kheap_allocs ?s - {(d, 1)}" "mem s' = mem ?s"
    "rest s' = rest (?s\<lparr>file_descriptors := (file_descriptors ?s)[nat (fd - 1) := 0]\<rparr>)" "heap_area s' = heap_area ?s"
    by (rule free_descriptor_ok [OF conjunct1 [OF ok] at], rule that)
  have get: "file_get_descriptor fd s = Inr d" using get_descriptor [OF len, of fd] assms(2-4) by simp
  have "d \<noteq> 0" using open_files_slot [OF assms(1,4)] by simp
  then have run: "fclose fat16_objects fd s = Inr (0, s')"
    using get w h(1) s'(1) by (simp add: fclose_def descriptor_word fat16_objects_def fat16_ops_def GUAVAOS_ALL_OK_def)
  from that [OF run s'(2)] s'(3-7) ok h(3,4) show thesis by auto
qed

section \<open>Properties: file.c\<close>


text \<open>A number that is no open handle (not positive, 512 or more, or of a free slot) is refused by every call,
  for any driver, before the driver is reached: fread gives -EINVARG, fseek, fstat and fclose give -EIO, and
  the state is unchanged.\<close>

theorem bad_handles_refused:
  fixes s :: "'a filestate_scheme"
  assumes "length (file_descriptors s) = 512" "fd \<le> 0 \<or> 512 \<le> fd \<or> open_files s (nat (fd - 1)) = None"
  shows "fread vt out sz n fd s = Inr (- EINVARG, s) \<and> fseek vt fd offset whence s = Inr (- EIO, s)
    \<and> fstat vt fd stat s = Inr (- EIO, stat, s) \<and> fclose vt fd s = Inr (- EIO, s)"
proof -
  have "file_get_descriptor fd s = Inr 0" using get_descriptor [OF assms(1)] assms(2) by auto
  then show ?thesis by (simp add: fread_def fseek_def fstat_def fclose_def)
qed


text \<open>C33: Closing an open FAT file succeeds, clears its handle, gives back exactly the four blocks behind it, leaves
  every other handle and all of memory as they were, and the handle is refused from then on.\<close>

theorem fclose_releases:
  fixes s :: "'a filestate_scheme"
  assumes "files_ok s" "0 < fd" "fd < 512" "open_files s (nat (fd - 1)) = Some d" "fat_file s d p f c"
  shows "\<exists>s'. fclose fat16_objects fd s = Inr (0, s') \<and> files_ok s' \<and> open_files s' = (open_files s)(nat (fd - 1) := None)
    \<and> kheap_allocs s' = kheap_allocs s - {(d, 1), (p, 1), (f, 1), (c, 1)} \<and> mem s' = mem s
    \<and> fclose fat16_objects fd s' = Inr (- EIO, s')"
proof -
  obtain s' where s': "fclose fat16_objects fd s = Inr (0, s')" "files_ok s'" "open_files s' = (open_files s)(nat (fd - 1) := None)"
    "kheap_allocs s' = kheap_allocs s - {(d, 1), (p, 1), (f, 1), (c, 1)}" "mem s' = mem s"
    by (rule fclose_ok [OF assms], rule that)
  have "length (file_descriptors s') = 512" using s'(2) by (simp add: files_ok_def)
  then have "file_get_descriptor fd s' = Inr 0" using get_descriptor [of s' fd] s'(3) by auto
  then have "fclose fat16_objects fd s' = Inr (- EIO, s')" by (simp add: fclose_def)
  with s' show ?thesis by blast
qed

text \<open>C34: Seeking in an open FAT file: SEEK_SET to a and then SEEK_CUR by b, each less than the file's size, put the
  position at a + b, also when that lies past the end; an offset of the size or more (so a negative one) is
  refused with -EIO whatever the mode; only the position word changes, and the table stays well formed.\<close>

theorem fseek_moves:
  fixes s :: "'a filestate_scheme"
  assumes "files_ok s" "0 < fd" "fd < 512" "open_files s (nat (fd - 1)) = Some d" "fat_file s d p f c"
    and "bytes = ldw (mem s) c 7" "word_of_int a < bytes" "word_of_int b < bytes"
  shows "\<exists>s1 s2. fseek fat16_objects fd a SEEK_SET s = Inr (0, s1) \<and> fseek fat16_objects fd b SEEK_CUR s1 = Inr (0, s2)
    \<and> ldw (mem s2) p 1 = word_of_int (a + b) \<and> (\<forall>x. x \<notin> word_at (p + FD_POS) \<longrightarrow> mem s2 x = mem s x)
    \<and> files_ok s2 \<and> open_files s2 = open_files s \<and> fat_file s2 d p f c
    \<and> (\<forall>k mode. bytes \<le> word_of_int k \<longrightarrow> fseek fat16_objects fd k mode s = Inr (- EIO, s))"
proof -
  have inv: "kheap_inv s" and len: "length (file_descriptors s) = 512" using assms(1) by (simp_all add: files_ok_def)
  note d = open_files_slot [OF assms(1,4)]
  have w: "ldw (mem s) d 1 = fat16_fs s" "ldw (mem s) d 2 = p" "ldw (mem s) d 3 = disk_at s"
    "ldw (mem s) p 0 = f" "ldw (mem s) f 0 = c" "ldw (mem s) f 1 = 1" "f \<noteq> p" "c \<noteq> p" "d \<noteq> p"
    "(p, 1) \<in> kheap_allocs s" "(f, 1) \<in> kheap_allocs s" "(c, 1) \<in> kheap_allocs s"
    "\<forall>i e. open_files s i = Some e \<longrightarrow> e \<notin> {p, f, c}"
    using assms(4,5) by (auto simp: fat_file_def fat_consts)
  have al: "page_aligned p" "page_aligned f" "page_aligned c" using live_page_aligned [OF inv] w(10-12) by blast+
  define at where "at = (\<lambda>k. s\<lparr>mem := stw p 1 k (mem s)\<rparr>)"
  have kp: "ldw (mem (at k)) q i = (if q = p \<and> i = 1 then k else ldw (mem s) q i)"
    if "page_aligned q" "i < 1024" for k q i
    using that al(1) by (simp add: at_def ldw_stw)
  have ok: "files_ok (at k) \<and> open_files (at k) = open_files s" for k
  proof (rule files_ok_frame [OF assms(1)])
    fix i e x
    assume e: "open_files s i = Some e" and x: "in_page e x"
    have "\<not> in_page p x"
      using in_page_unique [OF al(1), of e x] open_files_slot [OF assms(1) e] w(13) e x by blast
    then show "mem (at k) x = mem s x" using stw_frame [OF al(1), of 1 x] by (simp add: at_def)
  next
    fix i e
    assume "open_files s i = Some e"
    then show "(e, 1) \<in> kheap_allocs (at k)" using open_files_slot [OF assms(1)] by (simp add: at_def)
  qed (use inv in \<open>simp_all add: at_def\<close>)
  have ff: "fat_file (at k) d p f c" for k
  proof -
    have "fat16_fs (at k) = fat16_fs s" "disk_at (at k) = disk_at s" "kheap_allocs (at k) = kheap_allocs s"
      by (simp_all add: at_def)
    moreover have "ldw (mem (at k)) d 1 = fat16_fs s" "ldw (mem (at k)) d 2 = p" "ldw (mem (at k)) d 3 = disk_at s"
      "ldw (mem (at k)) p 0 = f" "ldw (mem (at k)) f 0 = c" "ldw (mem (at k)) f 1 = 1"
      using w d al by (simp_all add: kp)
    ultimately show ?thesis using assms(5) ok [of k] by (simp add: fat_file_def fat_consts)
  qed
  have get: "file_get_descriptor fd s = Inr d" using get_descriptor [OF len, of fd] assms(2-4) by simp
  have get2: "file_get_descriptor fd (at k) = Inr d" for k
    using get_descriptor [of "at k" fd] ok [of k] assms(2-4) by (simp add: files_ok_def)
  have seek: "fseek fat16_objects fd k mode s = Inr (fat16_seek p (word_of_int k) mode s)" for k mode
    using get d w by (simp add: fseek_def descriptor_word fat16_objects_def fat16_ops_def)
  have seek2: "fseek fat16_objects fd k mode (at j) = Inr (fat16_seek p (word_of_int k) mode (at j))" for j k mode
    using get2 d w kp [of d _ j] by (simp add: fseek_def descriptor_word fat16_objects_def fat16_ops_def at_def ldw_stw)
  have one: "fat16_seek p k SEEK_SET s = (0, at k)" if "k < bytes" for k
    using w that assms(6) by (simp add: fat16_seek_def fat_word st32_pos fat_consts at_def Let_def not_le [symmetric])
  have two: "fat16_seek p k SEEK_CUR (at j) = (0, at (j + k))" if "k < bytes" for j k
  proof -
    have "stw p 1 (j + k) (stw p 1 j (mem s)) = stw p 1 (j + k) (mem s)" by (simp add: stw_def store32_def fun_upd_twist)
    then show ?thesis
      using w that assms(6) al kp [of _ _ j]
      by (simp add: fat16_seek_def fat_word st32_pos fat_consts Let_def not_le [symmetric]) (simp add: at_def)
  qed
  have far: "fseek fat16_objects fd k mode s = Inr (- EIO, s)" if "bytes \<le> word_of_int k" for k mode
    unfolding seek using w that assms(6) by (simp add: fat16_seek_def fat_word fat_consts Let_def)
  have same: "mem (at k) x = mem s x" if "x \<notin> word_at (p + FD_POS)" for k x
    using that by (simp add: at_def stw_def fat_layout store32_outside)
  let ?a = "word_of_int a :: u32" and ?b = "word_of_int b :: u32"
  show ?thesis
  proof (intro exI conjI)
    show "fseek fat16_objects fd a SEEK_SET s = Inr (0, at ?a)" by (simp add: seek one assms(7))
    show "fseek fat16_objects fd b SEEK_CUR (at ?a) = Inr (0, at (?a + ?b))" by (simp add: seek2 two assms(8))
    show "ldw (mem (at (?a + ?b))) p 1 = word_of_int (a + b)" by (simp add: at_def)
    show "\<forall>x. x \<notin> word_at (p + FD_POS) \<longrightarrow> mem (at (?a + ?b)) x = mem s x" using same by blast
    show "files_ok (at (?a + ?b))" "open_files (at (?a + ?b)) = open_files s" "fat_file (at (?a + ?b)) d p f c"
      using ok ff by blast+
    show "\<forall>k mode. bytes \<le> word_of_int k \<longrightarrow> fseek fat16_objects fd k mode s = Inr (- EIO, s)" using far by blast
  qed
qed

section \<open>A table with one open file for the witnesses\<close>

lemma single_blocks:
  assumes "k \<le> 25600"
  defines "h \<equiv> \<lparr>table = \<lparr>entries = replicate k 0x41 @ replicate (25600 - k) 0, total = 25600\<rparr>, saddr = 0x01000000\<rparr>"
  shows "heap_inv h" "i < k \<Longrightarrow> (0x01000000 + word_of_nat (4096 * i), 1) \<in> heap_allocs h" "heap_vacant h = 25600 - k"
proof -
  have r: "run_at (replicate k 0x41 @ replicate (25600 - k) 0) i 1" if "i < k" for i
    using that by (simp add: run_at_def run_byte_def nth_append)
  have "wf_entries (replicate k 0x41 @ replicate (25600 - k) 0)"
    unfolding wf_entries_def
  proof (intro allI impI)
    fix i
    assume "i < length (replicate k 0x41 @ replicate (25600 - k) (0 :: u8))"
    then show "(replicate k 0x41 @ replicate (25600 - k) 0) ! i = (0 :: u8) \<or>
        (\<exists>a n. run_at (replicate k 0x41 @ replicate (25600 - k) 0) a n \<and> a \<le> i \<and> i < a + n)"
    proof (cases "i < k")
      case True
      with r [OF True] show ?thesis by (intro disjI2 exI [of _ i] exI [of _ 1]) simp
    qed (simp add: nth_append)
  qed
  then show "heap_inv h" using assms(1) by (simp add: heap_inv_def h_def)
  show "heap_vacant h = 25600 - k" by (simp add: heap_vacant_def h_def)
  show "(0x01000000 + word_of_nat (4096 * i), 1) \<in> heap_allocs h" if "i < k"
    using r [OF that] by (auto simp: heap_allocs_def h_def)
qed

text \<open>Handle 1: its descriptor at \<^verbatim>\<open>0x1000000\<close>, the driver's blocks in the three blocks after it, a file of 20 bytes.\<close>

definition file_memory :: memory where
  "file_memory = stw 0x1003000 7 20 (stw 0x1002000 1 1 (stw 0x1002000 0 0x1003000 (stw 0x1001000 0 0x1002000
     (stw 0x1000000 3 0x9000 (stw 0x1000000 2 0x1001000 (stw 0x1000000 1 0x7000 (stw 0x1000000 0 1 (\<lambda>_. 0))))))))"

definition file_sample :: filestate where
  "file_sample = \<lparr>mem = file_memory, video_mem = 0xB8000, terminal_row = 0, terminal_col = 0,
     kernel_heap = \<lparr>table = \<lparr>entries = replicate 4 0x41 @ replicate (25600 - 4) 0, total = 25600\<rparr>, saddr = 0x01000000\<rparr>,
     cr3 = 0, paging_enabled = False, current_directory = 0, kernel_chunk = 0, current_task = 0, task_tail = 0,
     task_head = 0, data_segment = 0x10, ports = [], device = ata_of sample_img, disk_at = 0x9000, disk_type = 0,
     sector_size = 512, disk_id = 0, disk_filesystem = 0x7000, fs_private = 0, fat16_fs = 0x7000,
     filesystems = 0x7000 # replicate 11 0, file_descriptors = 0x1000000 # replicate 511 0\<rparr>"

lemma file_sample_open:
  "open_files file_sample i = (if i = 0 then Some 0x1000000 else None)" "length (file_descriptors file_sample) = 512"
  by (auto simp: open_files_def file_sample_def nth_Cons split: nat.splits)

lemma file_sample_words:
  "ldw file_memory 0x1000000 0 = 1" "ldw file_memory 0x1000000 1 = 0x7000" "ldw file_memory 0x1000000 2 = 0x1001000"
  "ldw file_memory 0x1000000 3 = 0x9000" "ldw file_memory 0x1001000 0 = 0x1002000" "ldw file_memory 0x1002000 0 = 0x1003000"
  "ldw file_memory 0x1002000 1 = 1" "ldw file_memory 0x1003000 7 = 20"
  by (simp_all add: file_memory_def ldw_stw page_aligned_def)

lemma file_sample_ok:
  "files_ok file_sample" "fat_file file_sample 0x1000000 0x1001000 0x1002000 0x1003000" "0 < kheap_vacant file_sample"
proof -
  have fields: "mem file_sample = file_memory" "fat16_fs file_sample = 0x7000" "disk_at file_sample = 0x9000"
    by (simp_all add: file_sample_def)
  note h = single_blocks [of 4]
  have inv: "kheap_inv file_sample" "0 < kheap_vacant file_sample"
    using h(1,3) by (simp_all add: kheap_view_defs file_sample_def)
  have live: "(0x1000000 + word_of_nat (4096 * i), 1) \<in> kheap_allocs file_sample" if "i < 4" for i
    using h(2) [OF _ that] by (simp add: kheap_view_defs file_sample_def)
  then show "files_ok file_sample"
    using inv(1) live [of 0] by (simp add: files_ok_def file_sample_open fields file_sample_words)
  show "fat_file file_sample 0x1000000 0x1001000 0x1002000 0x1003000"
    using live [of 1] live [of 2] live [of 3]
    by (simp add: fat_file_def fields file_sample_words [unfolded One_nat_def] file_sample_open FAT_ITEM_TYPE_FILE_def)
  show "0 < kheap_vacant file_sample" by (rule inv(2))
qed




theorem fclose_releases_witness:
  "\<exists>s'. fclose fat16_objects 1 file_sample = Inr (0, s') \<and> open_files s' = (\<lambda>_. None) \<and> fclose fat16_objects 1 s' = Inr (- EIO, s')"
proof -
  have h: "(0 :: int) < 1" "(1 :: int) < 512" "open_files file_sample (nat (1 - 1)) = Some 0x1000000"
    by (simp_all add: file_sample_open)
  obtain s' where s': "fclose fat16_objects 1 file_sample = Inr (0, s')" "fclose fat16_objects 1 s' = Inr (- EIO, s')"
    "open_files s' = (open_files file_sample)(nat (1 - 1) := None)"
    using fclose_releases [OF file_sample_ok(1) h file_sample_ok(2)] by blast
  have "open_files s' = (\<lambda>_. None)" unfolding s'(3) by (rule ext) (simp add: file_sample_open)
  with s'(1,2) show ?thesis by blast
qed

theorem fseek_moves_witness:
  "\<exists>s1 s2. fseek fat16_objects 1 15 SEEK_SET file_sample = Inr (0, s1) \<and> fseek fat16_objects 1 10 SEEK_CUR s1 = Inr (0, s2)
     \<and> ldw (mem s2) 0x1001000 1 = 25"
proof -
  have h: "(0 :: int) < 1" "(1 :: int) < 512" "open_files file_sample (nat (1 - 1)) = Some 0x1000000"
    "20 = ldw (mem file_sample) 0x1003000 7" "word_of_int 15 < (20 :: u32)" "word_of_int 10 < (20 :: u32)"
    by (simp_all add: file_sample_open) (simp_all add: file_sample_def file_sample_words)
  have "word_of_int (15 + 10) = (25 :: u32)" by simp
  then show ?thesis using fseek_moves [OF file_sample_ok(1) h(1-3) file_sample_ok(2) h(4-6)] by auto
qed

end
