(* ===== verification/FileOpen.thy ===== *)
theory FileOpen
  imports FatOpen FileProps
begin

text \<open>
  \<^verbatim>\<open>fopen\<close> from end to end on a mounted volume: path parser, directory scan, the driver's structures and the
  open-file table; what it leaves allocated when the file is closed, and when the name is not found.
\<close>

section \<open>Opening a file\<close>

text \<open>A mounted volume with its root directory in memory that is in use.\<close>

definition volume :: "'a filestate_scheme \<Rightarrow> (u8 list \<times> u8 list) list \<Rightarrow> bool" where
  "volume s dir \<longleftrightarrow> directory_at (mem s) (fs_private s + ROOT_DIRECTORY) dir
     \<and> directory_kept s (fs_private s + ROOT_DIRECTORY) (length dir)
     \<and> disk_filesystem s = fat16_fs s \<and> fat16_fs s \<noteq> 0 \<and> disk_at s \<noteq> 0"

definition root_entry :: "'a filestate_scheme \<Rightarrow> nat \<Rightarrow> u32" where
  "root_entry s i = entry_at (load32 (mem s) (fs_private s + ROOT_DIRECTORY + D_ITEM)) i"

text \<open>The name matches entry \<open>i\<close> of the directory and no other.\<close>

definition only_match :: "(u8 list \<times> u8 list) list \<Rightarrow> u8 list \<Rightarrow> nat \<Rightarrow> bool" where
  "only_match dir cs i \<longleftrightarrow> i < length dir
     \<and> (\<forall>j < length dir. same_name (full_name (fst (dir ! j)) (snd (dir ! j))) cs \<longleftrightarrow> j = i)"

lemma volume_frame:
  assumes "parse_frame {} s s1" "volume s dir"
  shows "volume s1 dir" "root_entry s1 i = root_entry s i"
proof -
  have v: "directory_at (mem s) (fs_private s + ROOT_DIRECTORY) dir" "directory_kept s (fs_private s + ROOT_DIRECTORY) (length dir)"
    using assms(2) by (simp_all add: volume_def)
  have g: "fs_private s1 = fs_private s" "disk_filesystem s1 = disk_filesystem s" "fat16_fs s1 = fat16_fs s" "disk_at s1 = disk_at s"
    using assms(1) by (auto simp: parse_frame_def heap_step_def)
  show "volume s1 dir" using assms(2) directory_frame(2,3) [OF assms(1) v] by (simp add: volume_def g)
  show "root_entry s1 i = root_entry s i" using directory_frame(1) [OF assms(1) v] by (simp add: root_entry_def g)
qed

lemma files_ok_grow:
  assumes "parse_frame {} s s1" "files_ok s"
  shows "files_ok s1 \<and> open_files s1 = open_files s"
proof (rule files_ok_frame [OF assms(2)])
  have s: "kheap_inv s" using assms(2) by (simp add: files_ok_def)
  show "kheap_inv s1" "file_descriptors s1 = file_descriptors s"
    using assms(1) by (auto simp: parse_frame_def heap_step_def)
  fix i d
  assume d: "open_files s i = Some d"
  show "(d, 1) \<in> kheap_allocs s1" using open_files_slot [OF assms(2) d] assms(1) by (auto simp: parse_frame_def)
  show "mem s1 a = mem s a" if "in_page d a" for a
    using frame_kept [OF assms(1) live_kept [OF s _ that]] open_files_slot [OF assms(2) d] by simp
qed

lemma files_ok_insert:
  assumes "parse_frame {} s u" "files_ok s" "open_files s k = None" "k < 512"
    "(d, 1) \<in> kheap_allocs u" "d \<noteq> 0" "ldw (mem u) d 0 = word_of_nat (k + 1)"
  shows "files_ok (u\<lparr>file_descriptors := (file_descriptors s)[k := d]\<rparr>)"
    "open_files (u\<lparr>file_descriptors := (file_descriptors s)[k := d]\<rparr>) = (open_files s)(k \<mapsto> d)"
proof -
  let ?u = "u\<lparr>file_descriptors := (file_descriptors s)[k := d]\<rparr>"
  have g: "files_ok u" "open_files u = open_files s" using files_ok_grow [OF assms(1,2)] by simp_all
  have len: "length (file_descriptors s) = 512" using assms(2) by (simp add: files_ok_def)
  show o: "open_files ?u = (open_files s)(k \<mapsto> d)"
    by (rule ext) (use assms(3,4,6) len in \<open>auto simp: open_files_def nth_list_update\<close>)
  have "(e, 1) \<in> kheap_allocs ?u \<and> ldw (mem ?u) e 0 = word_of_nat (j + 1)" if "open_files ?u j = Some e" for j e
    using that open_files_slot [OF g(1), of j e] assms(5,7) unfolding o g(2) by (auto simp: kheap_view_defs split: if_splits)
  then show "files_ok ?u" using g(1) len by (simp add: files_ok_def kheap_view_defs)
qed

lemma heap_step_rest: "heap_step s s' \<Longrightarrow> rest s' = rest s"
  by (auto simp: heap_step_def)

lemma mode_r: "mem s mode = 114 \<Longrightarrow> file_get_mode_by_string (mem s) mode = FILE_MODE_READ"
  by (simp add: file_get_mode_by_string_def lit_def)

lemma fopen_ok:
  fixes s :: "'a filestate_scheme"
  assumes ok: "files_ok s" and room: "7 \<le> kheap_vacant s" and slot: "first_zero (file_descriptors s) = Some k"
    and vol: "volume s dir" and i: "only_match dir name i"
    and reg: "mem s (root_entry s i + I_ATTRIBUTE) AND FAT_FILE_SUBDIRECTORY = 0"
    and path: "cstr_at (mem s) filename (48 # 58 # 47 # name)" "part_names [name]" "length name \<le> 105"
      "\<forall>j \<le> length name + 3. filename + word_of_nat j \<notin> heap_area s"
    and mode: "mem s mode = 114" "mode \<notin> heap_area s" and low: "\<forall>a \<in> heap_area s. unat a < 2 ^ 31"
  obtains s' d p f c ps where "fopen fat16_objects filename mode s = Inr (int k + 1, s')" "files_ok s'"
    "open_files s' = (open_files s)(k \<mapsto> d)" "fat_file s' d p f c" "ldw (mem s') p 1 = 0"
    "bytes_at (mem s') c 32 = bytes_at (mem s) (root_entry s i) 32" "volume s' dir"
    "\<forall>a. kept s a \<longrightarrow> mem s' a = mem s a" "kheap_allocs s' = kheap_allocs s \<union> page_allocs (ps @ [d, p, f, c])"
    "distinct (ps @ [d, p, f, c])" "length ps = 3" "\<forall>x \<in> set (ps @ [d, p, f, c]). \<forall>n. (x, n) \<notin> kheap_allocs s"
    "heap_area s' = heap_area s" "rest s' = rest (s\<lparr>file_descriptors := (file_descriptors s)[k := d]\<rparr>)"
proof -
  have inv: "kheap_inv s" and len: "length (file_descriptors s) = 512" using ok by (simp_all add: files_ok_def)
  have parts: "path_parts name = [name]" using path_parts_text [OF path(2)] by simp
  have r1: "2 * length (path_parts name) + 2 \<le> kheap_vacant s" using room by (simp add: parts)
  obtain root xs s1 where r: "pathparser_parse filename s = Inr (root, s1)" "path_at s1 root (to_numeric_digit 48) xs"
    "map (\<lambda>(p, q, cs). cs) xs = path_parts name" "parse_frame {} s s1"
    "\<And>p k. p \<in> set (root # node_pages xs) \<Longrightarrow> (p, k) \<notin> kheap_allocs s"
    "kheap_allocs s1 = kheap_allocs s \<union> page_allocs (root # node_pages xs)"
    by (rule pathparser_parse_ok [OF inv path(1) _ path(3) _ r1]) (use path(4) in \<open>auto simp: is_digit_def\<close>)
  obtain x q where xs: "xs = [(x, q, name)]" using r(3) parts by (cases xs) auto
  have w1: "load32 (mem s1) root = 0" "load32 (mem s1) (root + 4) = x" "load32 (mem s1) x = q" "cstr_at (mem s1) q name"
    "load32 (mem s1) (x + 4) = 0" "distinct [root, q, x]" "root \<noteq> 0" "x \<noteq> 0"
    using r(2) by (auto simp: path_at_def xs to_numeric_digit_def)
  have live1: "(root, 1) \<in> kheap_allocs s1" "(q, 1) \<in> kheap_allocs s1" "(x, 1) \<in> kheap_allocs s1"
    using r(6) by (simp_all add: xs)
  have inv1: "kheap_inv s1" using r(4) by (simp add: parse_frame_def)
  have al1: "page_aligned q" "page_aligned x" using live_page_aligned [OF inv1] live1 by blast+
  have new1: "\<forall>y \<in> set [root, q, x]. \<forall>n. (y, n) \<notin> kheap_allocs s" using r(5) by (auto simp: xs)
  have a1: "kheap_allocs s1 = kheap_allocs s \<union> page_allocs [root, q, x]" using r(6) by (simp add: xs)
  have v1: "kheap_vacant s = kheap_vacant s1 + 3" using frame_vacant [OF inv r(4) a1 w1(6) new1] by simp
  note vol1 = volume_frame [OF r(4) vol]
  have g1: "disk_filesystem s1 = fat16_fs s1" "fat16_fs s1 \<noteq> 0" "disk_at s1 \<noteq> 0"
    "directory_at (mem s1) (fs_private s1 + ROOT_DIRECTORY) dir" "directory_kept s1 (fs_private s1 + ROOT_DIRECTORY) (length dir)"
    using vol1(1) by (simp_all add: volume_def)
  have kp: "\<forall>b \<in> word_at x \<union> word_at (x + 4). kept s1 b"
    using page_words [OF al1(2)] live_kept [OF inv1 live1(3)] by blast
  have kn: "\<forall>j \<le> length name. kept s1 (q + word_of_nat j)"
    using in_page_offset [OF al1(1)] live_kept [OF inv1 live1(2)] path(3) by simp
  have room1: "3 \<le> kheap_vacant s1" using v1 room by simp
  have mi: "i < length dir" "\<forall>j < length dir. same_name (full_name (fst (dir ! j)) (snd (dir ! j))) name \<longleftrightarrow> j = i"
    using i by (simp_all add: only_match_def)
  have ek: "kept s (root_entry s i + word_of_nat j)" if "j < 32" for j
    unfolding root_entry_def by (rule entry_kept [OF _ mi(1) that]) (use vol in \<open>simp add: volume_def\<close>)
  have reg1: "mem s1 (root_entry s1 i + I_ATTRIBUTE) AND FAT_FILE_SUBDIRECTORY = 0"
    using frame_kept [OF r(4) ek [of 11]] reg by (simp add: vol1(2) I_ATTRIBUTE_def)
  obtain p f c s2 where o: "fat16_open x FILE_MODE_READ s1 = Inr (p, s2)" "parse_frame {} s1 s2" "page_aligned p" "p \<noteq> 0"
    "kheap_allocs s2 = kheap_allocs s1 \<union> {(p, 1), (f, 1), (c, 1)}" "\<forall>k. (p, k) \<notin> kheap_allocs s1" "\<forall>k. (f, k) \<notin> kheap_allocs s1"
    "\<forall>k. (c, k) \<notin> kheap_allocs s1" "distinct [p, f, c]" "kheap_vacant s1 = kheap_vacant s2 + 3"
    "bytes_at (mem s2) c 32 = bytes_at (mem s1) (root_entry s1 i) 32" "ldw (mem s2) p 0 = f" "ldw (mem s2) p 1 = 0"
    "ldw (mem s2) f 0 = c" "ldw (mem s2) f 1 = FAT_ITEM_TYPE_FILE"
    by (rule fat16_open_ok [OF inv1 room1 g1(4,5) w1(3,5) kp w1(4) kn mi root_entry_def reg1], rule that)
  have fr2: "parse_frame {} s s2" by (rule frame_trans [OF r(4) o(2)])
  have inv2: "kheap_inv s2" and area2: "heap_area s2 = heap_area s" using fr2 by (simp_all add: parse_frame_def)
  have live2: "(p, 1) \<in> kheap_allocs s2" "(f, 1) \<in> kheap_allocs s2" "(c, 1) \<in> kheap_allocs s2" using o(5) by simp_all
  have al2: "page_aligned f" "page_aligned c" using live_page_aligned [OF inv2] live2(2,3) by blast+
  have "p \<in> heap_area s2" by (rule live_in_area [OF inv2 live2(1)]) (simp add: in_block_base)
  then have "unat p < 2 ^ 31" using low area2 by simp
  then have noerr: "\<not> ISERR p" using sint_small [of p] by (simp add: ISERR_def)
  have room2: "0 < kheap_vacant s2" using v1 o(10) room by simp
  have sz: "0 < file_descriptor_sizeof" "file_descriptor_sizeof \<le> 4096" by (simp_all add: descriptor_layout)
  obtain d s3 where d: "kzalloc file_descriptor_sizeof s2 = Inr (d, s3)" "parse_frame {} s2 s3" "d \<noteq> 0" "page_aligned d"
    "kheap_allocs s3 = insert (d, 1) (kheap_allocs s2)" "\<forall>k. (d, k) \<notin> kheap_allocs s2" "kheap_vacant s2 = Suc (kheap_vacant s3)"
    by (rule kzalloc_fresh [OF inv2 room2 sz], rule that)
  have fd: "file_descriptors s2 = file_descriptors s" "file_descriptors s3 = file_descriptors s" "fat16_fs s2 = fat16_fs s"
    "disk_at s3 = disk_at s" "disk_filesystem s3 = fat16_fs s" "disk_filesystem s1 = fat16_fs s" "fat16_fs s1 = fat16_fs s"
    "fat16_fs s3 = fat16_fs s" "disk_at s1 = disk_at s"
    using fr2 d(2) vol r(4) by (auto simp: parse_frame_def heap_step_def volume_def)
  define m where "m = stw d 3 (disk_at s) (stw d 2 p (stw d 1 (fat16_fs s) (stw d 0 (word_of_nat (k + 1)) (mem s3))))"
  define u where "u = s3\<lparr>mem := m\<rparr>"
  define s' where "s' = u\<lparr>file_descriptors := (file_descriptors s)[k := d]\<rparr>"
  have fr3: "parse_frame {} s s3" by (rule frame_trans [OF fr2 d(2)])
  have d3: "(d, 1) \<in> kheap_allocs s3" "\<forall>k. (d, k) \<notin> kheap_allocs s" using d(5,6) fr2 by (auto simp: parse_frame_def)
  have mout: "m a = mem s3 a" if "\<not> in_page d a" for a
    using that by (simp add: m_def stw_frame [OF d(4)])
  have fru: "parse_frame {} s u" unfolding u_def by (rule frame_store [OF fr3 d3(1,2) mout])
  have wd: "ldw m d 0 = word_of_nat (k + 1)" "ldw m d 1 = fat16_fs s" "ldw m d 2 = p" "ldw m d 3 = disk_at s"
    by (simp_all add: m_def ldw_stw [OF d(4) d(4)])
  have k: "k < 512" "open_files s k = None" using first_zero_Some [OF slot] len by (simp_all add: open_files_def)
  have au: "kheap_allocs u = insert (d, 1) (kheap_allocs s2)" using d(5) by (simp add: u_def)
  note ins = files_ok_insert [OF fru ok k(2,1), of d]
  have new: "file_new_descriptor s2 = Inr (0, d, s3\<lparr>mem := stw d 0 (word_of_nat (k + 1)) (mem s3), file_descriptors := (file_descriptors s)[k := d]\<rparr>)"
    by (simp add: file_new_descriptor_def fd slot d(1) st32_word Let_def)
  have dg: "disk_get (sint (load32 (mem s1) root)) s1 = disk_at s" using w1(1) fd by (simp add: disk_get_def)
  have nz: "disk_at s \<noteq> 0" "fat16_fs s \<noteq> 0" using vol by (simp_all add: volume_def)
  have md: "file_get_mode_by_string (mem s1) mode = FILE_MODE_READ"
    by (rule mode_r) (use frame_kept [OF r(4), of mode] mode in \<open>simp add: kept_def\<close>)
  have vt: "fat16_objects (fat16_fs s) s1 = Inr fat16_ops" by (simp add: fat16_objects_def fd)
  have op: "fs_op_open fat16_ops (disk_at s) x FILE_MODE_READ s1 = Inr (p, s2)" using o(1) fd by (simp add: fat16_ops_def)
  define t where "t = s3\<lparr>mem := stw d 0 (word_of_nat (k + 1)) (mem s3), file_descriptors := (file_descriptors s)[k := d]\<rparr>"
  have t: "file_new_descriptor s2 = Inr (0, d, t)" "disk_filesystem t = fat16_fs s" using new fd by (simp_all add: t_def)
  have fin: "st32 (d + D_DISK) (disk_at s) (st32 (d + D_PRIVATE) p (st32 (d + D_FILESYSTEM) (fat16_fs s) t)) = s'"
    by (simp add: st32_word t_def s'_def u_def m_def)
  have num: "sint (load32 (mem s') (d + D_INDEX)) = int k + 1" "sint (load32 (mem t) (d + D_INDEX)) = int k + 1"
  proof -
    have "unat (word_of_nat (k + 1) :: u32) = k + 1" using k(1) by (intro unat_of_nat32) simp
    then show "sint (load32 (mem s') (d + D_INDEX)) = int k + 1" "sint (load32 (mem t) (d + D_INDEX)) = int k + 1"
      using sint_small [of "word_of_nat (k + 1)"] k(1) wd(1) by (simp_all add: s'_def u_def t_def descriptor_word)
  qed
  have run: "fopen fat16_objects filename mode s = Inr (int k + 1, s')"
    unfolding fopen_def Let_def r(1) bnd.simps prod.case
    using w1(2,7,8) dg nz md vt op noerr t fin num fd(6) by (simp add: fat_consts descriptor_index)
  have ne: "d \<noteq> p" "d \<noteq> f" "d \<noteq> c" using d(6) live2 by auto
  have keep: "ldw (mem s') e j = ldw (mem s2) e j" if "(e, 1) \<in> kheap_allocs s2" "e \<noteq> d" "j < 1024" for e j
  proof -
    have al: "page_aligned e" by (rule live_page_aligned [OF inv2 that(1)])
    have "ldw (mem s') e j = ldw (mem s3) e j" using that al by (simp add: s'_def u_def m_def ldw_stw [OF d(4) al])
    then show ?thesis using frame_ldw [OF d(2) inv2 that(1,3)] by simp
  qed
  have as: "kheap_allocs s' = insert (d, 1) (kheap_allocs s2)" using au by (simp add: s'_def kheap_view_defs)
  have all: "kheap_allocs s' = kheap_allocs s \<union> page_allocs ([root, q, x] @ [d, p, f, c])"
    unfolding as o(5) a1 by (auto simp: page_allocs_def)
  have fresh: "\<forall>y \<in> set ([root, q, x] @ [d, p, f, c]). \<forall>n. (y, n) \<notin> kheap_allocs s"
    using new1 d3(2) o(6-8) a1 by auto
  have dist: "distinct ([root, q, x] @ [d, p, f, c])"
  proof -
    have "\<forall>n. (d, n) \<notin> kheap_allocs s1" using d(6) o(5) by blast
    then have new: "(z, 1) \<notin> kheap_allocs s1" if "z \<in> set [d, p, f, c]" for z using that o(6-8) by auto
    have old: "(y, 1) \<in> kheap_allocs s1" if "y \<in> set [root, q, x]" for y using that live1 by auto
    have "set [root, q, x] \<inter> set [d, p, f, c] = {}" using old new by blast
    moreover have "distinct [d, p, f, c]" using o(9) ne by simp
    ultimately show ?thesis using w1(6) by (simp only: distinct_append)
  qed
  have open': "open_files s' = (open_files s)(k \<mapsto> d)" and ok': "files_ok s'"
    using ins wd(1) au d(3) by (simp_all add: s'_def u_def)
  have words: "ldw (mem s') d 1 = fat16_fs s'" "ldw (mem s') d 2 = p" "ldw (mem s') d 3 = disk_at s'"
    using wd fd by (simp_all add: s'_def u_def)
  have ff: "fat_file s' d p f c"
  proof -
    have "e \<notin> {p, f, c}" if "open_files s' j = Some e" for j e
      using that open_files_slot [OF ok, of j e] fresh ne unfolding open' by (auto split: if_splits)
    then show ?thesis
      using words o(9,12,14,15) keep live2 ne as by (simp add: fat_file_def)
  qed
  have pos: "ldw (mem s') p 1 = 0" using keep [OF live2(1)] ne o(13) by simp
  have bytes: "bytes_at (mem s') c 32 = bytes_at (mem s) (root_entry s i) 32"
  proof -
    have "mem s' (c + word_of_nat j) = mem s2 (c + word_of_nat j)" if "j < 32" for j
    proof -
      have c: "in_page c (c + word_of_nat j)" using in_page_offset [OF al2(2)] that by simp
      then have "\<not> in_page d (c + word_of_nat j)" using in_page_unique [OF d(4) al2(2)] ne(3) by blast
      then show ?thesis using mout frame_kept [OF d(2) live_kept [OF inv2 live2(3) c]] by (simp add: s'_def u_def)
    qed
    moreover have "mem s1 (root_entry s i + word_of_nat j) = mem s (root_entry s i + word_of_nat j)" if "j < 32" for j
      using frame_kept [OF r(4) ek [OF that]] by simp
    ultimately show ?thesis using o(11) by (simp add: bytes_at_eq_iff vol1(2))
  qed
  have vol': "volume s' dir"
    using volume_frame(1) [OF fru vol] by (simp add: volume_def directory_kept_def kept_def s'_def kheap_view_defs heap_area_def)
  have mem': "\<forall>a. kept s a \<longrightarrow> mem s' a = mem s a" using frame_kept [OF fru] by (simp add: s'_def)
  have area: "heap_area s' = heap_area s" using fru by (simp add: parse_frame_def s'_def heap_area_def)
  have "heap_step s u" using fru by (simp add: parse_frame_def)
  then have rst: "rest s' = rest (s\<lparr>file_descriptors := (file_descriptors s)[k := d]\<rparr>)"
    using heap_step_rest [of s u] by (simp add: s'_def)
  show thesis by (rule that [OF run ok' open' ff pos bytes vol' mem' all dist _ fresh area rst]) simp
qed

text \<open>A name that matches no entry: the driver's descriptor and the parsed path stay allocated.\<close>

lemma fopen_none:
  fixes s :: "'a filestate_scheme"
  assumes ok: "files_ok s" and room: "4 \<le> kheap_vacant s" and vol: "volume s dir"
    and none: "\<forall>j < length dir. \<not> same_name (full_name (fst (dir ! j)) (snd (dir ! j))) name"
    and path: "cstr_at (mem s) filename (48 # 58 # 47 # name)" "part_names [name]" "length name \<le> 105"
      "\<forall>j \<le> length name + 3. filename + word_of_nat j \<notin> heap_area s"
    and mode: "mem s mode = 114" "mode \<notin> heap_area s"
  obtains s' ps where "fopen fat16_objects filename mode s = Inr (0, s')" "files_ok s'" "open_files s' = open_files s"
    "kheap_allocs s' = kheap_allocs s \<union> page_allocs ps" "length ps = 4" "distinct ps" "\<forall>x \<in> set ps. \<forall>n. (x, n) \<notin> kheap_allocs s"
    "\<forall>a. kept s a \<longrightarrow> mem s' a = mem s a"
    "heap_area s' = heap_area s" "rest s' = rest s"
proof -
  have inv: "kheap_inv s" using ok by (simp add: files_ok_def)
  have parts: "path_parts name = [name]" using path_parts_text [OF path(2)] by simp
  have r1: "2 * length (path_parts name) + 2 \<le> kheap_vacant s" using room by (simp add: parts)
  obtain root xs s1 where r: "pathparser_parse filename s = Inr (root, s1)" "path_at s1 root (to_numeric_digit 48) xs"
    "map (\<lambda>(p, q, cs). cs) xs = path_parts name" "parse_frame {} s s1"
    "\<And>p k. p \<in> set (root # node_pages xs) \<Longrightarrow> (p, k) \<notin> kheap_allocs s"
    "kheap_allocs s1 = kheap_allocs s \<union> page_allocs (root # node_pages xs)"
    by (rule pathparser_parse_ok [OF inv path(1) _ path(3) _ r1]) (use path(4) in \<open>auto simp: is_digit_def\<close>)
  obtain x q where xs: "xs = [(x, q, name)]" using r(3) parts by (cases xs) auto
  have w1: "load32 (mem s1) root = 0" "load32 (mem s1) (root + 4) = x" "load32 (mem s1) x = q" "cstr_at (mem s1) q name"
    "distinct [root, q, x]" "root \<noteq> 0" "x \<noteq> 0"
    using r(2) by (auto simp: path_at_def xs to_numeric_digit_def)
  have live1: "(q, 1) \<in> kheap_allocs s1" "(x, 1) \<in> kheap_allocs s1" using r(6) by (simp_all add: xs)
  have inv1: "kheap_inv s1" using r(4) by (simp add: parse_frame_def)
  have al1: "page_aligned q" "page_aligned x" using live_page_aligned [OF inv1] live1 by blast+
  have new1: "\<forall>y \<in> set [root, q, x]. \<forall>n. (y, n) \<notin> kheap_allocs s" using r(5) by (auto simp: xs)
  have a1: "kheap_allocs s1 = kheap_allocs s \<union> page_allocs [root, q, x]" using r(6) by (simp add: xs)
  have v1: "kheap_vacant s = kheap_vacant s1 + 3" using frame_vacant [OF inv r(4) a1 w1(5) new1] by simp
  have room1: "0 < kheap_vacant s1" "(0 :: u32) < 8" "(8 :: u32) \<le> 4096" using v1 room by simp_all
  obtain p s2 where p: "kzalloc 8 s1 = Inr (p, s2)" "parse_frame {} s1 s2" "p \<noteq> 0" "page_aligned p"
    "kheap_allocs s2 = insert (p, 1) (kheap_allocs s1)" "\<forall>k. (p, k) \<notin> kheap_allocs s1" "kheap_vacant s1 = Suc (kheap_vacant s2)"
    by (rule kzalloc_fresh [OF inv1 room1], rule that)
  have fr2: "parse_frame {} s s2" by (rule frame_trans [OF r(4) p(2)])
  have q2: "load32 (mem s2) x = q" "cstr_at (mem s2) q name"
  proof -
    show "load32 (mem s2) x = q"
      using load32_kept [of x "mem s2" "mem s1"] frame_kept [OF p(2)] live_kept [OF inv1 live1(2)] page_words [OF al1(2)] w1(3) by blast
    show "cstr_at (mem s2) q name"
      by (rule cstr_at_mem_cong [OF w1(4)])
        (use frame_kept [OF p(2)] live_kept [OF inv1 live1(1)] in_page_offset [OF al1(1)] path(3) in simp)
  qed
  have vol2: "directory_at (mem s2) (fs_private s2 + ROOT_DIRECTORY) dir"
    using volume_frame(1) [OF fr2 vol] by (simp add: volume_def)
  have "find_item_loop (fs_private s2 + ROOT_DIRECTORY) q (int 0) 0 s2 = Some (Inr (0, s2))"
    by (rule find_loop_rest [OF vol2 q2(2)]) (use none in simp_all)
  then have entry: "fat16_get_directory_entry x s2 = Inr (0, s2)"
    by (simp add: fat16_get_directory_entry_def fat16_find_item_in_directory_def ends_def q2(1))
  define u where "u = s2\<lparr>mem := stw p 0 0 (mem s2)\<rparr>"
  have st: "st32 (p + FD_ITEM) 0 s2 = u" by (simp add: st32_def stw_def fat_layout u_def)
  have g: "disk_filesystem s1 = fat16_fs s" "fat16_fs s1 = fat16_fs s" "disk_at s1 = disk_at s" "disk_at s \<noteq> 0" "fat16_fs s \<noteq> 0"
    using r(4) vol by (auto simp: parse_frame_def heap_step_def volume_def)
  have op: "fs_op_open fat16_ops (disk_at s) x FILE_MODE_READ s1 = Inr (ERROR (- EIO), u)"
    using p(1,3) entry g by (simp add: fat16_ops_def fat16_open_def st)
  have dg: "disk_get (sint (load32 (mem s1) root)) s1 = disk_at s" using w1(1) g by (simp add: disk_get_def)
  have md: "file_get_mode_by_string (mem s1) mode = FILE_MODE_READ"
    by (rule mode_r) (use frame_kept [OF r(4), of mode] mode in \<open>simp add: kept_def\<close>)
  have vt: "fat16_objects (fat16_fs s) s1 = Inr fat16_ops" by (simp add: fat16_objects_def g)
  have err: "ISERR (ERROR (- EIO))" "ERROR_I (ERROR (- EIO)) < 0" by (simp_all add: ISERR_def ERROR_def ERROR_I_def EIO_def)
  have run: "fopen fat16_objects filename mode s = Inr (0, u)"
    unfolding fopen_def Let_def r(1) bnd.simps prod.case
    using w1(2,6,7) dg g md vt op err by (simp add: fat_consts)
  have p2: "(p, 1) \<in> kheap_allocs s2" "\<forall>k. (p, k) \<notin> kheap_allocs s" using p(5,6) a1 by auto
  have fru: "parse_frame {} s u" unfolding u_def by (rule frame_stw [OF fr2 p2]) simp
  have all: "kheap_allocs u = kheap_allocs s \<union> page_allocs [p, root, q, x]"
    using p(5) a1 by (auto simp: u_def page_allocs_def)
  have "p \<notin> set [root, q, x]" using p(6) a1 by (auto simp: page_allocs_def)
  then have dist: "distinct [p, root, q, x]" using w1(5) by simp
  have fresh: "\<forall>y \<in> set [p, root, q, x]. \<forall>n. (y, n) \<notin> kheap_allocs s" using new1 p2(2) by simp
  show thesis
    by (rule that [OF run _ _ all _ dist fresh])
      (use files_ok_grow [OF fru ok] frame_kept [OF fru] fru in \<open>simp_all add: parse_frame_def heap_step_rest\<close>)
qed

section \<open>Properties: opening files\<close>


text \<open>C37: fopen and then fclose of the same file give the open-file table back as it was, and all memory that was in
  use, but not the heap: the three blocks of the parsed path stay allocated for good.\<close>

theorem open_close_leaks_path:
  fixes s :: "'a filestate_scheme"
  assumes "files_ok s" "7 \<le> kheap_vacant s" "first_zero (file_descriptors s) = Some k" "k < 511"
    and "volume s dir" "only_match dir name i" "mem s (root_entry s i + I_ATTRIBUTE) AND FAT_FILE_SUBDIRECTORY = 0"
    and "cstr_at (mem s) filename (48 # 58 # 47 # name)" "part_names [name]" "length name \<le> 105"
      "\<forall>j \<le> length name + 3. filename + word_of_nat j \<notin> heap_area s"
    and "mem s mode = 114" "mode \<notin> heap_area s" "\<forall>a \<in> heap_area s. unat a < 2 ^ 31"
  shows "\<exists>s' s'' ps. fopen fat16_objects filename mode s = Inr (int k + 1, s')
    \<and> fclose fat16_objects (int k + 1) s' = Inr (0, s'') \<and> files_ok s'' \<and> open_files s'' = open_files s
    \<and> (\<forall>a. kept s a \<longrightarrow> mem s'' a = mem s a)
    \<and> kheap_allocs s'' = kheap_allocs s \<union> page_allocs ps \<and> length ps = 3 \<and> distinct ps
    \<and> (\<forall>x \<in> set ps. \<forall>n. (x, n) \<notin> kheap_allocs s)"
proof -
  obtain s' d p f c ps where o: "fopen fat16_objects filename mode s = Inr (int k + 1, s')" "files_ok s'"
    "open_files s' = (open_files s)(k \<mapsto> d)" "fat_file s' d p f c" "ldw (mem s') p 1 = 0"
    "bytes_at (mem s') c 32 = bytes_at (mem s) (root_entry s i) 32" "volume s' dir"
    "\<forall>a. kept s a \<longrightarrow> mem s' a = mem s a" "kheap_allocs s' = kheap_allocs s \<union> page_allocs (ps @ [d, p, f, c])"
    "distinct (ps @ [d, p, f, c])" "length ps = 3" "\<forall>x \<in> set (ps @ [d, p, f, c]). \<forall>n. (x, n) \<notin> kheap_allocs s"
    by (rule fopen_ok [OF assms(1-3,5-14)], rule that)
  have fd: "0 < int k + 1" "int k + 1 < 512" "open_files s' (nat (int k + 1 - 1)) = Some d" using assms(4) o(3) by simp_all
  obtain s'' where c: "fclose fat16_objects (int k + 1) s' = Inr (0, s'')" "files_ok s''"
    "open_files s'' = (open_files s')(k := None)" "kheap_allocs s'' = kheap_allocs s' - {(d, 1), (p, 1), (f, 1), (c, 1)}" "mem s'' = mem s'"
    by (rule fclose_ok [OF o(2) fd o(4)]) (use that in simp)
  have "open_files s k = None"
    using first_zero_Some [OF assms(3)] by (simp add: open_files_def)
  then have "open_files s'' = open_files s" using c(3) o(3) by auto
  moreover have "kheap_allocs s'' = kheap_allocs s \<union> page_allocs ps"
  proof -
    let ?X = "{(d, 1), (p, 1), (f, 1), (c, 1)} :: (u32 \<times> nat) set"
    have "page_allocs (ps @ [d, p, f, c]) = page_allocs ps \<union> ?X" by (auto simp: page_allocs_def)
    moreover have "set ps \<inter> {d, p, f, c} = {}" using o(10) by (simp only: distinct_append set_simps)
    then have "page_allocs ps \<inter> ?X = {}" unfolding page_allocs_def by blast
    moreover have "kheap_allocs s \<inter> ?X = {}"
      using o(12) unfolding set_append set_simps by blast
    ultimately show ?thesis unfolding c(4) o(9) by blast
  qed
  moreover have "\<forall>a. kept s a \<longrightarrow> mem s'' a = mem s a" using o(8) c(5) by simp
  moreover have "distinct ps" "\<forall>x \<in> set ps. \<forall>n. (x, n) \<notin> kheap_allocs s" using o(10,12) by simp_all
  ultimately show ?thesis using o(1,11) c(1,2) by blast
qed

text \<open>C38: Opening a name that matches no entry of the root directory gives 0; the table and all memory in use are
  unchanged, but four blocks stay allocated: the parsed path and the driver's descriptor.\<close>

theorem fopen_missing_leaks:
  fixes s :: "'a filestate_scheme"
  assumes "files_ok s" "4 \<le> kheap_vacant s" "volume s dir"
    and "\<forall>j < length dir. \<not> same_name (full_name (fst (dir ! j)) (snd (dir ! j))) name"
    and "cstr_at (mem s) filename (48 # 58 # 47 # name)" "part_names [name]" "length name \<le> 105"
      "\<forall>j \<le> length name + 3. filename + word_of_nat j \<notin> heap_area s"
    and "mem s mode = 114" "mode \<notin> heap_area s"
  shows "\<exists>s' ps. fopen fat16_objects filename mode s = Inr (0, s') \<and> files_ok s' \<and> open_files s' = open_files s
    \<and> (\<forall>a. kept s a \<longrightarrow> mem s' a = mem s a)
    \<and> kheap_allocs s' = kheap_allocs s \<union> page_allocs ps \<and> length ps = 4 \<and> distinct ps
    \<and> (\<forall>x \<in> set ps. \<forall>n. (x, n) \<notin> kheap_allocs s)"
  by (rule fopen_none [OF assms]) blast

section \<open>A volume with one file for the witnesses\<close>

text \<open>
  The volume of \<open>fat_memory\<close>, whose root directory is the entry \<^verbatim>\<open>AB.C\<close> at \<^verbatim>\<open>0x3200\<close>, with the strings
  \<^verbatim>\<open>0:/ab.c\<close> at \<^verbatim>\<open>0x500\<close>, \<^verbatim>\<open>r\<close> at \<^verbatim>\<open>0x600\<close> and \<^verbatim>\<open>0:/x\<close> at \<^verbatim>\<open>0x700\<close>.
\<close>

definition open_memory :: memory where
  "open_memory = fat_memory(0x1041 := 0x32, 0x1044 := 1,
     0x500 := 48, 0x501 := 58, 0x502 := 47, 0x503 := 97, 0x504 := 98, 0x505 := 46, 0x506 := 99,
     0x600 := 114, 0x700 := 48, 0x701 := 58, 0x702 := 47, 0x703 := 120)"

definition open_sample :: filestate where
  "open_sample = file_sample\<lparr>mem := open_memory, kernel_heap := fresh_heap, fs_private := 0x1000,
     file_descriptors := replicate 512 0\<rparr>"

definition on_sample :: "'a filestate_scheme \<Rightarrow> bool" where
  "on_sample s \<longleftrightarrow> mem s = open_memory \<and> fs_private s = 0x1000 \<and> disk_filesystem s = 0x7000 \<and> fat16_fs s = 0x7000
     \<and> disk_at s = 0x9000 \<and> file_descriptors s = replicate 512 0 \<and> kernel_heap s = fresh_heap"

lemma on_sample_fields:
  assumes "on_sample s"
  shows "mem s = open_memory" "fs_private s = 0x1000" "disk_filesystem s = 0x7000"
    "fat16_fs s = 0x7000" "disk_at s = 0x9000" "file_descriptors s = replicate 512 0" "kernel_heap s = fresh_heap"
  using assms by (simp_all add: on_sample_def)

lemma on_sample_area: "on_sample s \<Longrightarrow> a \<in> heap_area s \<longleftrightarrow> 0x1000000 \<le> unat a \<and> unat a < 121634816"
  by (simp add: heap_area_def on_sample_fields fresh_heap_def)

lemma on_sample_low: "on_sample s \<Longrightarrow> unat a < 0x1000000 \<Longrightarrow> kept s a \<and> a \<notin> heap_area s"
  by (simp add: kept_def on_sample_area)

lemma open_sample_words: "load32 open_memory 0x1040 = 0x3200" "load32 open_memory 0x1044 = 1"
  by (simp_all add: open_memory_def fat_memory_def load32_def)

lemma open_sample_entry: "entry_name open_memory 0x3200 [65, 66] [67]"
  by (simp add: entry_name_def name_char_def open_memory_def fat_memory_def I_EXT_def less_Suc_eq all_conj_distrib imp_disjL conj_disj_distribR)

lemma on_sample_volume:
  assumes "on_sample s"
  shows "volume s [([65, 66], [67])]" "root_entry s 0 = 0x3200"
proof -
  have items: "load32 (mem s) (fs_private s + ROOT_DIRECTORY + D_ITEM) = 0x3200"
    "load32 (mem s) (fs_private s + ROOT_DIRECTORY + D_TOTAL) = 1"
    by (simp_all add: on_sample_fields [OF assms] open_sample_words ROOT_DIRECTORY_def D_ITEM_def D_TOTAL_def)
  then show "root_entry s 0 = 0x3200" by (simp add: root_entry_def entry_at_def)
  have "directory_at (mem s) (fs_private s + ROOT_DIRECTORY) [([65, 66], [67])]"
    unfolding directory_at_def items using open_sample_entry by (simp add: entry_at_def on_sample_fields [OF assms])
  moreover have "directory_kept s (fs_private s + ROOT_DIRECTORY) (length [([65 :: u8, 66], [67 :: u8])])"
    unfolding directory_kept_def items
  proof (intro conjI ballI allI impI)
    fix b
    assume "b \<in> word_at (fs_private s + ROOT_DIRECTORY + D_ITEM) \<union> word_at (fs_private s + ROOT_DIRECTORY + D_TOTAL)"
    then show "kept s b"
      by (intro conjunct1 [OF on_sample_low [OF assms]]) (auto simp: word_at_def on_sample_fields [OF assms] ROOT_DIRECTORY_def D_ITEM_def D_TOTAL_def)
  next
    fix j
    assume j: "j < 32 * length [([65 :: u8, 66], [67 :: u8])]"
    then have "unat (word_of_nat (0x3200 + j) :: u32) = 0x3200 + j" by (intro unat_of_nat32) simp
    then show "kept s (0x3200 + word_of_nat j)" using j by (intro conjunct1 [OF on_sample_low [OF assms]]) simp
  qed
  ultimately show "volume s [([65, 66], [67])]" by (simp add: volume_def on_sample_fields [OF assms])
qed

lemma first_zero_replicate: "0 < n \<Longrightarrow> first_zero (replicate n 0) = Some 0"
  by (cases n) simp_all

lemma on_sample_ok:
  assumes "on_sample s"
  shows "files_ok s" "7 \<le> kheap_vacant s" "first_zero (file_descriptors s) = Some 0"
  "only_match [([65, 66], [67])] [97, 98, 46, 99] 0" "part_names [[97, 98, 46, 99]]"
  "mem s (root_entry s 0 + I_ATTRIBUTE) AND FAT_FILE_SUBDIRECTORY = 0"
  "cstr_at (mem s) 0x500 (48 # 58 # 47 # [97, 98, 46, 99])"
  "\<forall>j \<le> length [97, 98, 46, 99 :: u8] + 3. 0x500 + word_of_nat j \<notin> heap_area s"
  "mem s 0x600 = 114" "0x600 \<notin> heap_area s" "\<forall>a \<in> heap_area s. unat a < 2 ^ 31"
proof -
  have "open_files s i = None" for i by (simp add: open_files_def on_sample_fields [OF assms])
  then show "files_ok s" by (simp add: files_ok_def kheap_view_defs on_sample_fields [OF assms] fresh_heap_inv)
  show "7 \<le> kheap_vacant s" by (simp add: kheap_view_defs on_sample_fields [OF assms] fresh_heap_inv)
  show "first_zero (file_descriptors s) = Some 0"
    unfolding on_sample_fields [OF assms] by (simp add: first_zero_replicate)
  show "only_match [([65, 66], [67])] [97, 98, 46, 99] 0"
    by (simp add: only_match_def same_name_def full_name_def tolower_def)
  show "part_names [[97, 98, 46, 99]]" by (simp add: part_names_def)
  show "mem s (root_entry s 0 + I_ATTRIBUTE) AND FAT_FILE_SUBDIRECTORY = 0"
    by (simp add: on_sample_volume(2) [OF assms] on_sample_fields [OF assms] open_memory_def fat_memory_def I_ATTRIBUTE_def)
  show "cstr_at (mem s) 0x500 (48 # 58 # 47 # [97, 98, 46, 99])" "mem s 0x600 = 114"
    by (simp_all add: on_sample_fields [OF assms] open_memory_def fat_memory_def)
  show "\<forall>j \<le> length [97, 98, 46, 99 :: u8] + 3. 0x500 + word_of_nat j \<notin> heap_area s"
  proof (intro allI impI)
    fix j
    assume j: "j \<le> length [97, 98, 46, 99 :: u8] + 3"
    then have "unat (word_of_nat (0x500 + j) :: u32) = 0x500 + j" by (intro unat_of_nat32) simp
    then show "0x500 + word_of_nat j \<notin> heap_area s" using j by (simp add: on_sample_area [OF assms])
  qed
  show "0x600 \<notin> heap_area s" "\<forall>a \<in> heap_area s. unat a < 2 ^ 31" by (auto simp: on_sample_area [OF assms])
qed

lemma open_sample_is: "on_sample open_sample"
  by (simp add: on_sample_def open_sample_def file_sample_def)

lemmas open_sample_fields = on_sample_fields [OF open_sample_is]
lemmas open_sample_area = on_sample_area [OF open_sample_is]
lemmas open_sample_volume = on_sample_volume [OF open_sample_is]
lemmas open_sample_ok = on_sample_ok [OF open_sample_is]


theorem open_close_leaks_path_witness:
  "\<exists>s' s'' ps. fopen fat16_objects 0x500 0x600 open_sample = Inr (1, s') \<and> fclose fat16_objects 1 s' = Inr (0, s'')
     \<and> kheap_allocs s'' = page_allocs ps \<and> length ps = 3 \<and> distinct ps"
proof -
  have len: "length [97, 98, 46, 99 :: u8] \<le> 105" "(0 :: nat) < 511" by simp_all
  note o = open_sample_ok
  have none: "kheap_allocs open_sample = {}" by (simp add: kheap_view_defs open_sample_fields fresh_heap_inv)
  obtain s' s'' ps where "fopen fat16_objects 0x500 0x600 open_sample = Inr (int 0 + 1, s')"
    "fclose fat16_objects (int 0 + 1) s' = Inr (0, s'')" "kheap_allocs s'' = kheap_allocs open_sample \<union> page_allocs ps"
    "length ps = 3" "distinct ps"
    using open_close_leaks_path [OF o(1-3) len(2) open_sample_volume(1) o(4,6,7,5) len(1) o(8-11)] by blast
  then show ?thesis unfolding none by auto
qed

theorem fopen_missing_leaks_witness:
  "\<exists>s' ps. fopen fat16_objects 0x700 0x600 open_sample = Inr (0, s') \<and> open_files s' = open_files open_sample
     \<and> kheap_allocs s' = page_allocs ps \<and> length ps = 4"
proof -
  note o = open_sample_ok
  have none: "kheap_allocs open_sample = {}" by (simp add: kheap_view_defs open_sample_fields fresh_heap_inv)
  have h: "4 \<le> kheap_vacant open_sample" "length [120 :: u8] \<le> 105" "part_names [[120]]"
    "cstr_at (mem open_sample) 0x700 (48 # 58 # 47 # [120])"
    "\<forall>j < length [([65, 66], [67])]. \<not> same_name (full_name (fst ([([65, 66], [67])] ! j)) (snd ([([65, 66], [67])] ! j))) [120]"
    using o(2) by (simp_all add: part_names_def open_sample_fields open_memory_def fat_memory_def same_name_def full_name_def)
  have out: "\<forall>j \<le> length [120 :: u8] + 3. 0x700 + word_of_nat j \<notin> heap_area open_sample"
  proof (intro allI impI)
    fix j
    assume j: "j \<le> length [120 :: u8] + 3"
    then have "unat (word_of_nat (0x700 + j) :: u32) = 0x700 + j" by (intro unat_of_nat32) simp
    then show "0x700 + word_of_nat j \<notin> heap_area open_sample" using j by (simp add: open_sample_area)
  qed
  show ?thesis
    using fopen_missing_leaks [OF o(1) h(1) open_sample_volume(1) h(5,4,3,2) out o(9,10)] unfolding none by auto
qed

end
