(* ===== verification/TaskProps.thy ===== *)
theory TaskProps
  imports TaskCopy
begin

text \<open>
  The properties of \<^verbatim>\<open>src/task/task.c\<close>: the run queue as a state machine whose reachable states are
  well formed, and the single operations on queues of any length.
\<close>

section \<open>Changes confined to the task structures\<close>

lemma tasks_inv_kept:
  assumes inv: "tasks_inv s ts" and heap: "kernel_heap s' = kernel_heap s"
    and gl: "task_head s' = task_head s" "task_tail s' = task_tail s"
      "current_task s' = current_task s \<or> current_task s' \<in> set ts"
    and keep: "\<And>u p a. u \<in> set ts \<Longrightarrow> p \<in> set (space_blocks (mem s) (get s u PAGE_DIRECTORY)) \<Longrightarrow>
      in_page p a \<Longrightarrow> mem s' a = mem s a"
    and fields: "\<And>u f. u \<in> set ts \<Longrightarrow> f \<in> {PAGE_DIRECTORY, T_NEXT, T_PREV} \<Longrightarrow> get s' u f = get s u f"
  shows "tasks_inv s' ts" "linked_back s' ts = linked_back s ts"
    "\<And>u v. u \<in> set ts \<Longrightarrow> page_aligned v \<Longrightarrow>
       space_view (mem s') (get s' u PAGE_DIRECTORY) v = space_view (mem s) (get s u PAGE_DIRECTORY) v"
proof -
  note tk = tasks_inv_task [OF inv] and hi = tasks_inv_heap [OF inv] and q = tasks_inv_queue [OF inv]
  have dir: "get s' u PAGE_DIRECTORY = get s u PAGE_DIRECTORY" if "u \<in> set ts" for u
    using fields [OF that] by blast
  have sp: "space_blocks (mem s') (get s u PAGE_DIRECTORY) = space_blocks (mem s) (get s u PAGE_DIRECTORY)"
    "page_aligned v \<Longrightarrow> space_view (mem s') (get s u PAGE_DIRECTORY) v = space_view (mem s) (get s u PAGE_DIRECTORY) v"
    "space_present (mem s') (get s u PAGE_DIRECTORY) = space_present (mem s) (get s u PAGE_DIRECTORY)"
    if "u \<in> set ts" for u v
    by (rule space_kept [OF hi tk(1) [OF that]], rule keep [OF that], assumption+)+
  show "space_view (mem s') (get s' u PAGE_DIRECTORY) v = space_view (mem s) (get s u PAGE_DIRECTORY) v"
    if "u \<in> set ts" "page_aligned v" for u v
    unfolding dir [OF that(1)] by (rule sp(2) [OF that])
  have "task_blocks s' u = task_blocks s u" if "u \<in> set ts" for u
    unfolding task_blocks_def dir [OF that] sp(1) [OF that] ..
  then have b: "all_blocks s' ts = all_blocks s ts" by (simp add: all_blocks_def cong: map_cong)
  have k: "kheap_inv s' = kheap_inv s" "kheap_allocs s' = kheap_allocs s"
    using heap by (simp_all add: kheap_view_defs)
  have "queue s' ts"
    using q gl fields unfolding queue_def by (cases "ts = []") auto
  then show "tasks_inv s' ts"
    using inv dir sp(3) unfolding tasks_inv_def b k by simp
  show "linked_back s' ts = linked_back s ts" using fields by (auto simp: linked_back_def)
qed

lemma tasks_inv_touch:
  assumes inv: "tasks_inv s ts" and heap: "kernel_heap s' = kernel_heap s"
    and gl: "task_head s' = task_head s" "task_tail s' = task_tail s"
      "current_task s' = current_task s \<or> current_task s' \<in> set ts"
    and same: "\<And>a. (\<And>u. u \<in> set ts \<Longrightarrow> \<not> in_page u a) \<Longrightarrow> mem s' a = mem s a"
    and fields: "\<And>u f. u \<in> set ts \<Longrightarrow> f \<in> {PAGE_DIRECTORY, T_NEXT, T_PREV} \<Longrightarrow> get s' u f = get s u f"
  shows "tasks_inv s' ts" "linked_back s' ts = linked_back s ts"
proof -
  note tk = tasks_inv_task [OF inv] and hi = tasks_inv_heap [OF inv]
  have keep: "mem s' a = mem s a"
    if "u \<in> set ts" "p \<in> set (space_blocks (mem s) (get s u PAGE_DIRECTORY))" "in_page p a" for u p a
  proof (rule same)
    fix w
    assume w: "w \<in> set ts"
    then have "w \<noteq> p" using tk(5) [OF that(1) w] that(2) by blast
    then show "\<not> in_page w a"
      using in_page_unique [OF tk(3) [OF w] space_ok_pages(1) [OF hi tk(1) [OF that(1)] that(2)] _ that(3)] by blast
  qed
  show "tasks_inv s' ts" by (rule tasks_inv_kept(1) [OF inv heap gl]) (fact keep fields)+
  show "linked_back s' ts = linked_back s ts" by (rule tasks_inv_kept(2) [OF inv heap gl]) (fact keep fields)+
qed

lemma task_save_state_globals [simp]:
  "kernel_heap (task_save_state t fr s) = kernel_heap s" "task_head (task_save_state t fr s) = task_head s"
  "task_tail (task_save_state t fr s) = task_tail s" "current_task (task_save_state t fr s) = current_task s"
  by (simp_all add: task_save_state_def)

lemma task_save_state_other:
  assumes "page_aligned t" "page_aligned u" "u \<noteq> t" "f < 1024"
  shows "get (task_save_state t fr s) u f = get s u f"
  using assms by (simp add: task_save_state_def get_put)

lemma tasks_inv_save:
  assumes "tasks_inv s ts" "t \<in> set ts"
  shows "tasks_inv (task_save_state t fr s) ts"
    "linked_back (task_save_state t fr s) ts = linked_back s ts"
proof -
  note al = tasks_inv_task(3) [OF assms(1)]
  have frame: "mem (task_save_state t fr s) a = mem s a" if "\<And>u. u \<in> set ts \<Longrightarrow> \<not> in_page u a" for a
    using task_save_state_frame [OF al [OF assms(2)]] that assms(2) by blast
  have fields: "get (task_save_state t fr s) u f = get s u f"
    if "u \<in> set ts" "f \<in> {PAGE_DIRECTORY, T_NEXT, T_PREV}" for u f
    using task_save_state_gets(13-15) [OF al [OF assms(2)], of fr s]
      task_save_state_other [OF al [OF assms(2)] al [OF that(1)], of f fr s] that(2)
    by (cases "u = t") (auto simp: task_fields)
  show "tasks_inv (task_save_state t fr s) ts"
    by (rule tasks_inv_touch(1) [OF assms(1)]) (use frame fields in auto)
  show "linked_back (task_save_state t fr s) ts = linked_back s ts"
    by (rule tasks_inv_touch(2) [OF assms(1)]) (use frame fields in auto)
qed

text \<open>Loading a directory, a segment or another current task.\<close>

lemma tasks_inv_switch:
  assumes "tasks_inv s ts" "mem s' = mem s" "kernel_heap s' = kernel_heap s"
    "task_head s' = task_head s" "task_tail s' = task_tail s"
    "current_task s' = current_task s \<or> current_task s' \<in> set ts"
  shows "tasks_inv s' ts" "linked_back s' ts = linked_back s ts"
  by (rule tasks_inv_touch [OF assms(1,3-6)]; simp add: get_def assms(2))+

lemma switch_state [simp]:
  "mem (snd (task_switch t s)) = mem s" "kernel_heap (snd (task_switch t s)) = kernel_heap s"
  "task_head (snd (task_switch t s)) = task_head s" "task_tail (snd (task_switch t s)) = task_tail s"
  "current_task (snd (task_switch t s)) = t" "cr3 (snd (task_switch t s)) = load32 (mem s) (get s t PAGE_DIRECTORY)"
  by (simp_all add: task_switch_def paging_switch_def)

lemma page_state [simp]:
  "mem (snd (task_page s)) = mem s" "kernel_heap (snd (task_page s)) = kernel_heap s"
  "task_head (snd (task_page s)) = task_head s" "task_tail (snd (task_page s)) = task_tail s"
  "current_task (snd (task_page s)) = current_task s"
  by (simp_all add: task_page_def user_registers_def Let_def)

lemma kernel_page_state [simp]:
  "mem (kernel_page s) = mem s" "kernel_heap (kernel_page s) = kernel_heap s"
  "task_head (kernel_page s) = task_head s" "task_tail (kernel_page s) = task_tail s"
  "current_task (kernel_page s) = current_task s"
  by (simp_all add: kernel_page_def kernel_registers_def paging_switch_def Let_def)

section \<open>The scheduler as a state machine\<close>

text \<open>
  What the kernel does with tasks: create one, switch to the next one, save the interrupted task's
  registers, load the current task's or the kernel's address space, and free the youngest task.
\<close>

inductive task_step :: "tstate \<Rightarrow> tstate \<Rightarrow> bool" where
  spawn: "task_step s s'" if "1027 \<le> kheap_vacant s" "task_new process s = Inr (t, s')"
| next_task: "task_step s (snd (task_switch (task_get_next s) s))" if "task_current s \<noteq> 0"
| save: "task_step s s'" if "task_current_save_state frame s = Inr s'"
| user: "task_step s (snd (task_page s))" if "task_current s \<noteq> 0"
| kernel: "task_step s (kernel_page s)"
| quit: "task_step s s'" if "task_tail s \<noteq> 0" "task_free (task_tail s) s = Inr (r, s')"

inductive reachable :: "tstate \<Rightarrow> tstate \<Rightarrow> bool" for s0 where
  start: "reachable s0 s0"
| step: "reachable s0 s'" if "reachable s0 s" "task_step s s'"

definition tasks_ok :: "tstate \<Rightarrow> bool" where
  "tasks_ok s \<longleftrightarrow> (\<exists>ts. tasks_inv s ts \<and> linked_back s ts)"

lemma tasks_okI: "tasks_inv s ts \<Longrightarrow> linked_back s ts \<Longrightarrow> tasks_ok s"
  by (auto simp: tasks_ok_def)

lemma queue_current: "queue s ts \<Longrightarrow> current_task s \<noteq> 0 \<Longrightarrow> current_task s \<in> set ts"
  by (auto simp: queue_def split: if_splits)

lemma queue_next:
  assumes "queue s ts" "current_task s \<noteq> 0"
  shows "task_get_next s \<in> set ts"
proof -
  obtain i where i: "i < length ts" "current_task s = ts ! i"
    using queue_current [OF assms] by (auto simp: in_set_conv_nth)
  then have "Suc i mod length ts < length ts" by (intro mod_less_divisor) linarith
  then show ?thesis using task_get_next_queue [OF assms(1) i] by simp
qed

lemma without_last: "ts \<noteq> [] \<Longrightarrow> without (length ts - 1) ts = butlast ts"
  by (simp add: without_def butlast_conv_take)

text \<open>Freeing the youngest task leaves a queue linked in both directions.\<close>

lemma task_free_last:
  assumes inv: "tasks_inv s ts" and lb: "linked_back s ts" and ne: "ts \<noteq> []"
  obtains s' where "task_free (last ts) s = Inr (0, s')" "tasks_inv s' (butlast ts)" "linked_back s' (butlast ts)"
proof -
  have i: "length ts - 1 < length ts" using ne by simp
  have l: "ts ! (length ts - 1) = last ts" using ne by (simp add: last_conv_nth)
  obtain s' where s': "task_free (ts ! (length ts - 1)) s = Inr (0, s')"
    "tasks_inv s' (without (length ts - 1) ts)"
    "\<And>u f. u \<in> set (without (length ts - 1) ts) \<Longrightarrow> f < 1024 \<Longrightarrow> get s' u f =
       (if 0 < length ts - 1 \<and> u = ts ! (length ts - 1 - 1) \<and> f = T_NEXT
        then get s (ts ! (length ts - 1)) T_NEXT else get s u f)"
    by (rule task_free_ok [OF inv lb i], rule that)
  have "linked_back s' (butlast ts)"
    unfolding linked_back_def
  proof (intro allI impI)
    fix j
    assume j: "j < length (butlast ts)"
    then have "get s' (butlast ts ! j) T_PREV = get s (butlast ts ! j) T_PREV"
      using s'(3) [unfolded without_last [OF ne], OF nth_mem [OF j], of T_PREV] by (simp add: task_fields)
    also have "\<dots> = (if j = 0 then 0 else butlast ts ! (j - 1))"
      using lb j by (simp add: linked_back_def nth_butlast)
    finally show "get s' (butlast ts ! j) T_PREV = (if j = 0 then 0 else butlast ts ! (j - 1))" .
  qed
  then show thesis using that s'(1,2) unfolding l without_last [OF ne] by blast
qed

lemma tasks_ok_step:
  assumes "tasks_ok s" "task_step s s'"
  shows "tasks_ok s'"
proof -
  obtain ts where ts: "tasks_inv s ts" "linked_back s ts" using assms(1) by (auto simp: tasks_ok_def)
  note q = tasks_inv_queue [OF ts(1)]
  from assms(2) show ?thesis
  proof cases
    case (spawn process t)
    obtain u s1 where "task_new process s = Inr (u, s1)" "tasks_inv s1 (ts @ [u])" "linked_back s1 (ts @ [u])"
      by (rule task_new_ok [OF ts(1) spawn(1), of process]) (use ts(2) in blast)
    with spawn(2) show ?thesis by (auto intro: tasks_okI)
  next
    case next_task
    then have "task_get_next s \<in> set ts" using queue_next [OF q] by (simp add: task_current_def)
    then show ?thesis
      using tasks_inv_switch [OF ts(1), of s'] ts(2) next_task(1)
      by (auto intro: tasks_okI)
  next
    case (save frame)
    then have "task_current s \<noteq> 0" "s' = task_save_state (task_current s) frame s"
      by (auto simp: task_current_save_state_def split: if_splits)
    moreover have "task_current s \<in> set ts"
      using queue_current [OF q] calculation(1) by (simp add: task_current_def)
    ultimately show ?thesis
      using tasks_inv_save [OF ts(1), of "task_current s" frame] ts(2) tasks_okI by simp
  next
    case user
    then have "current_task s \<in> set ts" using queue_current [OF q] by (simp add: task_current_def)
    then show ?thesis
      using tasks_inv_switch [OF ts(1), of s'] ts(2) user(1)
      by (auto intro: tasks_okI)
  next
    case kernel
    then show ?thesis
      using tasks_inv_switch [OF ts(1), of s'] ts(2)
      by (auto intro: tasks_okI)
  next
    case (quit r)
    then have "ts \<noteq> []" "task_tail s = last ts" using q by (auto simp: queue_def split: if_splits)
    with quit(2) show ?thesis
      using task_free_last [OF ts] by (metis Inr_inject Pair_inject tasks_okI)
  qed
qed

section \<open>A system with three tasks\<close>

text \<open>
  The state after boot with paging on, for the witnesses; \<open>three_tasks\<close> builds the kernel's address
  space and three tasks in it.
\<close>

definition boot_tasks :: tstate where
  "boot_tasks = \<lparr>mem = \<lambda>_. 0, video_mem = 0xB8000, terminal_row = 0, terminal_col = 0,
     kernel_heap = fresh_heap, cr3 = 0, paging_enabled = True, current_directory = 0,
     kernel_chunk = 0, current_task = 0, task_tail = 0, task_head = 0, data_segment = 0x10\<rparr>"

lemma boot_tasks_inv:
  "kheap_inv boot_tasks" "kheap_vacant boot_tasks = 25600" "tasks_inv boot_tasks []" "linked_back boot_tasks []"
  by (simp_all add: kheap_view_defs boot_tasks_def fresh_heap_inv tasks_inv_def queue_def all_blocks_def
    linked_back_def)

lemma tasks_inv_Nil: "tasks_inv s [] \<longleftrightarrow> kheap_inv s \<and> task_head s = 0 \<and> task_tail s = 0 \<and> current_task s = 0"
  by (auto simp: tasks_inv_def queue_def all_blocks_def)

definition with_tasks :: "tstate \<Rightarrow> u32 list \<Rightarrow> bool" where
  "with_tasks s ts \<longleftrightarrow> tasks_inv s ts \<and> linked_back s ts \<and> paging_enabled s
     \<and> (kernel_chunk s, 1) \<in> kheap_allocs s \<and> kernel_chunk s \<notin> set (all_blocks s ts)
     \<and> (\<forall>t \<in> set ts. \<forall>v. page_aligned v \<longrightarrow> space_view (mem s) (get s t PAGE_DIRECTORY) v = v OR 5)
     \<and> (\<forall>t \<in> set ts. get s t R_ESP = 0x3ff000) \<and> (ts \<noteq> [] \<longrightarrow> current_task s = hd ts)
     \<and> heap_area s = {a. 0x1000000 \<le> unat a \<and> unat a < 121634816}"

lemma with_tasks_new:
  assumes w: "with_tasks s ts" and room: "1027 \<le> kheap_vacant s"
  obtains t s' where "task_new process s = Inr (t, s')" "with_tasks s' (ts @ [t])"
    "kheap_vacant s = kheap_vacant s' + 1027"
proof -
  have inv: "tasks_inv s ts" and lb: "linked_back s ts" using w by (simp_all add: with_tasks_def)
  obtain t s' where n: "task_new process s = Inr (t, s')" "tasks_inv s' (ts @ [t])" "t \<notin> set ts"
    "\<And>f. f < 14 \<Longrightarrow> get s' t f = task_fresh_field (get s' t PAGE_DIRECTORY) process f"
    "\<And>v. page_aligned v \<Longrightarrow> space_view (mem s') (get s' t PAGE_DIRECTORY) v = v OR 5"
    "current_task s' = (if ts = [] then t else current_task s)"
    "\<And>u f. u \<in> set ts \<Longrightarrow> f < 1024 \<Longrightarrow>
       get s' u f = (if u = last ts \<and> f = T_NEXT then t else get s u f)"
    "\<And>u v. u \<in> set ts \<Longrightarrow> page_aligned v \<Longrightarrow>
       space_view (mem s') (get s' u PAGE_DIRECTORY) v = space_view (mem s) (get s u PAGE_DIRECTORY) v"
    "linked_back s ts \<Longrightarrow> linked_back s' (ts @ [t])"
    "kheap_vacant s = kheap_vacant s' + 1027"
    "kernel_chunk s' = kernel_chunk s" "paging_enabled s' = paging_enabled s"
    "\<And>p k. (p, k) \<in> kheap_allocs s \<Longrightarrow> (p, k) \<in> kheap_allocs s'"
    "\<And>p k. p \<in> set (task_blocks s' t) \<Longrightarrow> (p, k) \<notin> kheap_allocs s"
    "all_blocks s' (ts @ [t]) = all_blocks s ts @ task_blocks s' t" "heap_area s' = heap_area s"
    by (rule task_new_ok [OF inv room, of process], rule that)
  have kc: "(kernel_chunk s, 1) \<in> kheap_allocs s" "kernel_chunk s \<notin> set (all_blocks s ts)"
    using w by (simp_all add: with_tasks_def)
  have "kernel_chunk s' \<notin> set (all_blocks s' (ts @ [t]))"
    unfolding n(11,15) using kc n(14) by auto
  moreover have "get s' u R_ESP = 0x3ff000" if "u \<in> set (ts @ [t])" for u
    using that n(4) [of R_ESP] n(7) [of u R_ESP] w
    by (auto simp: with_tasks_def task_fresh_field_def task_fields)
  moreover have "space_view (mem s') (get s' u PAGE_DIRECTORY) v = v OR 5"
    if "u \<in> set (ts @ [t])" "page_aligned v" for u v
    using that n(5,8) w by (auto simp: with_tasks_def)
  moreover have "current_task s' = hd (ts @ [t])" using n(6) w by (auto simp: with_tasks_def)
  ultimately have "with_tasks s' (ts @ [t])"
    using n(2,9,11,12,13,16) lb w kc unfolding with_tasks_def by simp
  then show thesis using that n(1,10) by blast
qed

lemma three_tasks:
  obtains s a b c where "with_tasks s [a, b, c]" "3000 \<le> kheap_vacant s"
proof -
  have "1026 \<le> kheap_vacant boot_tasks" by (simp add: boot_tasks_inv)
  from paging_new_4gb_ok [OF boot_tasks_inv(1) this, of 3] obtain k s1 where
    k: "paging_new_4gb 3 boot_tasks = Inr (k, s1)" "kheap_inv s1" "space_ok k s1"
    "\<And>v. page_aligned v \<Longrightarrow> space_view (mem s1) k v = v OR ucast (3 :: u8)"
    "kheap_allocs s1 = kheap_allocs boot_tasks \<union> (\<lambda>p. (p, 1)) ` set (space_blocks (mem s1) k)"
    "\<And>p q l. p \<in> set (space_blocks (mem s1) k) \<Longrightarrow> (q, l) \<in> kheap_allocs boot_tasks \<Longrightarrow> q \<noteq> p"
    "kheap_vacant boot_tasks = kheap_vacant s1 + 1026"
    "\<And>a. \<forall>p \<in> set (space_blocks (mem s1) k). \<not> in_page p a \<Longrightarrow> mem s1 a = mem boot_tasks a"
    "heap_step boot_tasks s1" by blast
  define s where "s = s1\<lparr>kernel_chunk := k\<rparr>"
  note gl = heap_step_globals [OF k(9)]
  have area: "heap_area s = {a. 0x1000000 \<le> unat a \<and> unat a < 121634816}"
    using paging_new_4gb_area [OF k(1)] by (simp add: s_def boot_tasks_def heap_area_def fresh_heap_def)
  have "with_tasks s []"
    using k(2,3) gl area unfolding with_tasks_def
    by (simp add: s_def tasks_inv_Nil linked_back_def all_blocks_def kheap_view_defs space_ok_def
      space_blocks_def boot_tasks_def)
  moreover have "kheap_vacant s = kheap_vacant s1" by (simp add: s_def kheap_view_defs)
  then have v: "kheap_vacant s = 24574" using k(7) boot_tasks_inv(2) by linarith
  ultimately obtain a sa where a: "with_tasks sa [a]" "kheap_vacant s = kheap_vacant sa + 1027"
    by (elim with_tasks_new [of s "[]" 0 thesis]) simp_all
  have "1027 \<le> kheap_vacant sa" using a(2) v by linarith
  from with_tasks_new [OF a(1) this, of 0] obtain b sb where
    b: "with_tasks sb [a, b]" "kheap_vacant sa = kheap_vacant sb + 1027" by (metis append_Cons append_Nil)
  have "1027 \<le> kheap_vacant sb" using a(2) b(2) v by linarith
  from with_tasks_new [OF b(1) this, of 0] obtain c sc where
    c: "with_tasks sc [a, b, c]" "kheap_vacant sb = kheap_vacant sc + 1027" by (metis append_Cons append_Nil)
  have "3000 \<le> kheap_vacant sc" using a(2) b(2) c(2) v by linarith
  with c(1) show thesis by (rule that)
qed

lemma with_tasksD:
  assumes "with_tasks s ts"
  shows "tasks_inv s ts" "linked_back s ts" "queue s ts" "paging_enabled s"
    "ts \<noteq> [] \<Longrightarrow> current_task s = hd ts"
  using assms tasks_inv_queue by (auto simp: with_tasks_def)

section \<open>Properties: task.c\<close>

text \<open>C3: Scheduler invariant. From a state without tasks, any sequence of the kernel's task operations
  (creating tasks while the heap has room, switching to the next task, saving registers, loading
  the user's or the kernel's pages, freeing the youngest task) leads to a state whose run queue is a
  list linked in both directions, holds the current task, and whose tasks own pairwise different
  live heap pages with present page tables.\<close>

theorem reachable_tasks_ok:
  assumes "reachable s0 s" "tasks_inv s0 []"
  shows "\<exists>ts. tasks_inv s ts \<and> linked_back s ts"
  using assms
proof induction
  case start
  then show ?case by (intro exI [of _ "[]"]) (simp add: linked_back_def)
next
  case (step s s')
  then show ?case using tasks_ok_step unfolding tasks_ok_def by blast
qed

theorem reachable_tasks_ok_witness:
  "\<exists>t s'. task_new 7 boot_tasks = Inr (t, s') \<and> (\<exists>ts. tasks_inv s' ts \<and> linked_back s' ts)"
proof -
  have room: "1027 \<le> kheap_vacant boot_tasks" by (simp add: boot_tasks_inv)
  obtain t s' where n: "task_new 7 boot_tasks = Inr (t, s')"
    by (rule task_new_ok [OF boot_tasks_inv(3) room, of 7])
  have "reachable boot_tasks s'"
    by (rule reachable.step [OF reachable.start task_step.spawn [OF room n]])
  from reachable_tasks_ok [OF this boot_tasks_inv(3)] n show ?thesis by blast
qed

text \<open>C15: Round robin. Repeating \<open>task_switch(task_get_next())\<close> on a queue of n tasks makes every task of
  the queue current within n switches, with that task's page directory loaded, and writes no memory.\<close>

theorem round_robin_fair:
  assumes "queue s ts" "current_task s \<noteq> 0" "t \<in> set ts"
  shows "\<exists>k < length ts. \<exists>s'. s' = ((\<lambda>s. snd (task_switch (task_get_next s) s)) ^^ Suc k) s
    \<and> current_task s' = t \<and> cr3 s' = load32 (mem s) (get s t PAGE_DIRECTORY) \<and> mem s' = mem s"
proof -
  let ?f = "\<lambda>s. snd (task_switch (task_get_next s) s)" and ?n = "length ts"
  obtain i where i: "i < ?n" "current_task s = ts ! i"
    using queue_current [OF assms(1,2)] by (auto simp: in_set_conv_nth)
  have n: "0 < ?n" using i(1) by linarith
  have run: "queue ((?f ^^ k) s) ts \<and> current_task ((?f ^^ k) s) = ts ! ((i + k) mod ?n)
      \<and> mem ((?f ^^ k) s) = mem s" for k
  proof (induction k)
    case 0
    then show ?case using assms(1) i by simp
  next
    case (Suc k)
    let ?s = "(?f ^^ k) s"
    have c: "(i + k) mod ?n < ?n" using n by simp
    have next_t: "task_get_next ?s = ts ! (Suc (i + k) mod ?n)"
      using task_get_next_queue [of ?s ts, OF _ c] Suc by (simp add: mod_Suc_eq)
    have "queue (?f ?s) ts"
      using Suc queue_next [of ?s ts] nth_mem [OF c] assms(1) n
      by (auto simp: queue_def get_def next_t)
    then show ?case using Suc next_t by simp
  qed
  obtain j where j: "j < ?n" "t = ts ! j" using assms(3) by (auto simp: in_set_conv_nth)
  define k where "k = (j + ?n - Suc i) mod ?n"
  have k: "k < ?n" "(i + Suc k) mod ?n = j"
  proof -
    show "k < ?n" using n by (simp add: k_def)
    have "(i + Suc k) mod ?n = (Suc i + (j + ?n - Suc i) mod ?n) mod ?n" by (simp add: k_def)
    also have "\<dots> = (Suc i + (j + ?n - Suc i)) mod ?n" by (rule mod_add_right_eq)
    also have "Suc i + (j + ?n - Suc i) = j + ?n" using i(1) by linarith
    finally show "(i + Suc k) mod ?n = j" using j(1) by simp
  qed
  have "task_get_next ((?f ^^ k) s) = t"
    using run [of "Suc k"] k(2) j(2) by simp
  then have "cr3 ((?f ^^ Suc k) s) = load32 (mem s) (get s t PAGE_DIRECTORY)"
    using run [of k] by (simp add: get_def)
  then show ?thesis using run [of "Suc k"] k j(2) by (intro exI [of _ k]) simp
qed

theorem round_robin_fair_witness:
  "\<exists>(s :: tstate) a b c. a \<noteq> b \<and> b \<noteq> c \<and> current_task s = a \<and>
     (\<exists>k < 3. current_task (((\<lambda>s. snd (task_switch (task_get_next s) s)) ^^ Suc k) s) = c)"
proof -
  obtain s a b c where w: "with_tasks s [a, b, c]" "3000 \<le> kheap_vacant s" by (rule three_tasks)
  note d = with_tasksD [OF w(1)]
  have cur: "current_task s = a" "a \<noteq> b" "b \<noteq> c" "current_task s \<noteq> 0"
    using d(3,5) by (auto simp: queue_def)
  have "c \<in> set [a, b, c]" by simp
  from round_robin_fair [OF d(3) cur(4) this] obtain k where "k < length [a, b, c]"
    "current_task (((\<lambda>s. snd (task_switch (task_get_next s) s)) ^^ Suc k) s) = c" by blast
  moreover have "length [a, b, c] = 3" by simp
  ultimately have "\<exists>k < 3. current_task (((\<lambda>s. snd (task_switch (task_get_next s) s)) ^^ Suc k) s) = c"
    by (intro exI [of _ k] conjI) (simp_all only:)
  with cur(1-3) show ?thesis by blast
qed

text \<open>C13: With room for 1027 blocks, \<open>task_new\<close> makes a task that joins the end of the queue: it has
  the initial registers, owns fresh blocks only, sees every page mapped to itself read-only for
  user code, and becomes current exactly when the queue was empty; the other tasks keep all their
  fields but the link of the former last one, and every translation.\<close>

theorem task_new_joins:
  assumes "tasks_inv s ts" "1027 \<le> kheap_vacant s"
  shows "\<exists>t s'. task_new process s = Inr (t, s') \<and> tasks_inv s' (ts @ [t])
    \<and> (linked_back s ts \<longrightarrow> linked_back s' (ts @ [t]))
    \<and> (\<forall>p k. p \<in> set (task_blocks s' t) \<longrightarrow> (p, k) \<notin> kheap_allocs s)
    \<and> get s' t R_IP = 0x400000 \<and> get s' t R_ESP = 0x3ff000 \<and> get s' t R_CS = 0x1b \<and> get s' t R_SS = 0x23
    \<and> get s' t T_PROCESS = process \<and> current_task s' = (if ts = [] then t else current_task s)
    \<and> (\<forall>v. page_aligned v \<longrightarrow> space_view (mem s') (get s' t PAGE_DIRECTORY) v = v OR 5)
    \<and> (\<forall>u \<in> set ts. \<forall>f < 1024. get s' u f = (if u = last ts \<and> f = T_NEXT then t else get s u f))
    \<and> (\<forall>u \<in> set ts. \<forall>v. page_aligned v \<longrightarrow>
         space_view (mem s') (get s' u PAGE_DIRECTORY) v = space_view (mem s) (get s u PAGE_DIRECTORY) v)"
proof -
  obtain t s' where n: "task_new process s = Inr (t, s')" "tasks_inv s' (ts @ [t])"
    "\<And>f. f < 14 \<Longrightarrow> get s' t f = task_fresh_field (get s' t PAGE_DIRECTORY) process f"
    "get s' t T_PROCESS = process"
    "\<And>v. page_aligned v \<Longrightarrow> space_view (mem s') (get s' t PAGE_DIRECTORY) v = v OR 5"
    "current_task s' = (if ts = [] then t else current_task s)"
    "\<And>u f. u \<in> set ts \<Longrightarrow> f < 1024 \<Longrightarrow>
       get s' u f = (if u = last ts \<and> f = T_NEXT then t else get s u f)"
    "\<And>u v. u \<in> set ts \<Longrightarrow> page_aligned v \<Longrightarrow>
       space_view (mem s') (get s' u PAGE_DIRECTORY) v = space_view (mem s) (get s u PAGE_DIRECTORY) v"
    "linked_back s ts \<Longrightarrow> linked_back s' (ts @ [t])"
    "\<And>p k. p \<in> set (task_blocks s' t) \<Longrightarrow> (p, k) \<notin> kheap_allocs s"
    by (rule task_new_ok [OF assms, of process], rule that)
  have "get s' t R_IP = 0x400000" "get s' t R_ESP = 0x3ff000" "get s' t R_CS = 0x1b" "get s' t R_SS = 0x23"
    using n(3) [of R_IP] n(3) [of R_ESP] n(3) [of R_CS] n(3) [of R_SS]
    by (simp_all add: task_fresh_field_def task_fields)
  then show ?thesis using n(1,2,4-10) by (intro exI [of _ t] exI [of _ s'] conjI) (rule n | blast)+
qed

theorem task_new_joins_witness:
  "\<exists>t s'. task_new 7 boot_tasks = Inr (t, s') \<and> current_task s' = t \<and> get s' t R_IP = 0x400000
     \<and> space_view (mem s') (get s' t PAGE_DIRECTORY) 0x400000 = 0x400005"
proof -
  have room: "1027 \<le> kheap_vacant boot_tasks" and al: "page_aligned 0x400000"
    by (simp_all add: boot_tasks_inv page_aligned_def)
  from task_new_joins [OF boot_tasks_inv(3) room, of 7] obtain t s' where n:
    "task_new 7 boot_tasks = Inr (t, s')" "get s' t R_IP = 0x400000"
    "current_task s' = (if ([] :: u32 list) = [] then t else current_task boot_tasks)"
    "\<forall>v. page_aligned v \<longrightarrow> space_view (mem s') (get s' t PAGE_DIRECTORY) v = v OR 5" by blast
  have "space_view (mem s') (get s' t PAGE_DIRECTORY) 0x400000 = 0x400005" using n(4) al by simp
  with n show ?thesis by auto
qed



text \<open>C26: \<open>task_list_remove\<close> does not update the prev field of the successor. After removing the
  second of three tasks, removing the third leaves the first one's next field on the removed third
  task and makes the already removed second task the tail of the queue.\<close>

theorem task_list_remove_keeps_stale_prev:
  assumes "queue s [a, b, c]" "linked_back s [a, b, c]"
  shows "queue (task_list_remove b s) [a, c] \<and> get (task_list_remove b s) c T_PREV = b
    \<and> get (task_list_remove c (task_list_remove b s)) a T_NEXT = c
    \<and> task_tail (task_list_remove c (task_list_remove b s)) = b"
proof -
  have i: "1 < length [a, b, c]" "Suc 1 < length [a, b, c]" by simp_all
  show ?thesis
    using task_list_remove_queue [OF assms i(1)] task_list_remove_stale_prev [OF assms i(2)]
      task_list_remove_dangles [OF assms] by (simp add: without_def)
qed

theorem task_list_remove_keeps_stale_prev_witness:
  "\<exists>(s :: tstate) a b c. b \<notin> {a, c} \<and> task_tail (task_list_remove c (task_list_remove b s)) = b"
proof -
  obtain s a b c where w: "with_tasks s [a, b, c]" "3000 \<le> kheap_vacant s" by (rule three_tasks)
  note d = with_tasksD [OF w(1)]
  have "b \<notin> {a, c}" using d(3) by (auto simp: queue_def)
  with task_list_remove_keeps_stale_prev [OF d(3,2)] show ?thesis by blast
qed

text \<open>\<open>task_current_save_state\<close> stores every register of the interrupt frame in its field of the current
  task, keeps the task's directory, links and process, and writes nothing outside the task's page;
  with no current task the kernel panics.\<close>

lemma save_state_stores_frame:
  assumes "tasks_inv s ts"
  shows "(ts = [] \<longrightarrow> task_current_save_state fr s = Inl Halted)
    \<and> (ts \<noteq> [] \<longrightarrow> (\<exists>s'. task_current_save_state fr s = Inr s' \<and> tasks_inv s' ts
      \<and> (let t = current_task s in
          map (get s' t) [R_EDI, R_ESI, R_EBP, R_EBX, R_EDX, R_ECX, R_EAX, R_IP, R_CS, R_FLAGS, R_ESP, R_SS]
            = [f_edi fr, f_esi fr, f_ebp fr, f_ebx fr, f_edx fr, f_ecx fr, f_eax fr, f_ip fr, f_cs fr,
               f_flags fr, f_esp fr, f_ss fr]
          \<and> map (get s' t) [PAGE_DIRECTORY, T_NEXT, T_PREV, T_PROCESS]
            = map (get s t) [PAGE_DIRECTORY, T_NEXT, T_PREV, T_PROCESS]
          \<and> (\<forall>a. \<not> in_page t a \<longrightarrow> mem s' a = mem s a))))"
proof (cases "ts = []")
  case True
  then show ?thesis using assms
    by (simp add: tasks_inv_Nil task_current_save_state_def task_current_def)
next
  case False
  then have c: "current_task s \<in> set ts" "current_task s \<noteq> 0"
    using tasks_inv_queue [OF assms] by (auto simp: queue_def)
  have al: "page_aligned (current_task s)" by (rule tasks_inv_task(3) [OF assms c(1)])
  have "task_current_save_state fr s = Inr (task_save_state (current_task s) fr s)"
    using c(2) by (simp add: task_current_save_state_def task_current_def)
  moreover have "\<forall>a. \<not> in_page (current_task s) a \<longrightarrow> mem (task_save_state (current_task s) fr s) a = mem s a"
    using task_save_state_frame [OF al] by blast
  ultimately show ?thesis
    using False tasks_inv_save(1) [OF assms c(1), of fr] task_save_state_gets [OF al, of fr s]
    by (simp add: Let_def)
qed

text \<open>C27: \<open>copy_string_from_task\<close>. For a task of a well-formed system, a length bound below a page and a
  heap that serves the scratch page, if the source bytes are mapped in the task's space outside the
  scratch page and the task's own tables and the kernel buffer lies outside them too, the
  routine returns 0 and leaves in the buffer the task's string as the task sees it through its page
  tables, cut to one character less than the bound and terminated; the scratch page is freed, every
  translation of the task's space is what it was, and the kernel's directory and segment are loaded.\<close>

theorem copy_string_copies:
  fixes s :: "'a tstate_scheme"
  assumes "tasks_inv s ts" "t \<in> set ts" "paging_enabled s"
    and "(kernel_chunk s, 1) \<in> kheap_allocs s" "kernel_chunk s \<notin> set (task_blocks s t)"
    and "0 < mx" "mx < 4096" "kzalloc (word_of_int mx) s = Inr (tmp, s1)" "tmp \<noteq> 0"
    and "\<And>j. j < nat mx \<Longrightarrow> page_base (virt + word_of_nat j) \<noteq> tmp \<and>
      (\<exists>a. mmu_walk (mem s) (load32 (mem s) (get s t PAGE_DIRECTORY)) (virt + word_of_nat j) = Some a
         \<and> (\<forall>p \<in> insert tmp (set (task_blocks s t)). \<not> in_page p a))"
    and "\<And>j. j < nat mx \<Longrightarrow> \<forall>p \<in> insert tmp (set (task_blocks s t)). \<not> in_page p (phys + word_of_nat j)"
  shows "\<exists>s'. copy_string_from_task t virt phys mx s = Inr (0, s')
    \<and> cstr_at (mem s') phys (cstr_upto (user_mem (mem s) (load32 (mem s) (get s t PAGE_DIRECTORY))) virt (nat (mx - 1)))
    \<and> kheap_inv s' \<and> kheap_allocs s' = kheap_allocs s
    \<and> cr3 s' = load32 (mem s) (kernel_chunk s) \<and> data_segment s' = 0x10
    \<and> (\<forall>v. page_aligned v \<longrightarrow>
         space_view (mem s') (get s t PAGE_DIRECTORY) v = space_view (mem s) (get s t PAGE_DIRECTORY) v)"
proof -
  obtain s' where "copy_string_from_task t virt phys mx s = Inr (0, s')"
    "copy_result t phys (cstr_upto (user_mem (mem s) (load32 (mem s) (get s t PAGE_DIRECTORY))) virt (nat (mx - 1))) s s'"
    using copy_string_from_task_ok [OF assms] by blast
  then show ?thesis unfolding copy_result_def by blast
qed

lemma page_zero_free:
  assumes "kheap_inv s" "(p, 1) \<in> kheap_allocs s" "unat a < 4096"
  shows "\<not> in_page p a"
proof
  assume "in_page p a"
  moreover have "in_page 0 a" "page_aligned 0" using assms(3) by (simp_all add: in_page_def page_aligned_def)
  moreover have "page_aligned p" "p \<noteq> 0"
    using km.allocs_shape [OF assms(1,2)] by (simp_all add: page_aligned_def)
  ultimately show False using in_page_unique [of p 0 a] by simp
qed

lemma small_offset: "c < 2048 \<Longrightarrow> j < 2048 \<Longrightarrow> unat (word_of_nat c + word_of_nat j :: u32) < 4096"
proof -
  assume "c < 2048" "j < 2048"
  then show ?thesis using unat_of_nat32 [of "c + j"] by simp
qed

lemma with_tasks_walk:
  assumes "with_tasks s ts" "t \<in> set ts"
  shows "mmu_walk (mem s) (load32 (mem s) (get s t PAGE_DIRECTORY)) v = Some v"
proof -
  note ti = tasks_inv_task [OF with_tasksD(1) [OF assms(1)] assms(2)]
  have "page_aligned (load32 (mem s) (get s t PAGE_DIRECTORY))"
    using space_ok_pages(1) [OF tasks_inv_heap [OF with_tasksD(1) [OF assms(1)]] ti(1)]
    by (simp add: space_blocks_def)
  then show ?thesis
    by (rule mmu_walk_identity [OF _ ti(4), of _ 5]) (use assms in \<open>simp_all add: with_tasks_def\<close>)
qed

theorem copy_string_copies_witness:
  "\<exists>(s :: tstate) t s'. copy_string_from_task t 0x10 0x400 16 s = Inr (0, s')
     \<and> cstr_at (mem s') 0x400 (cstr_upto (mem s) 0x10 15)"
proof -
  obtain s a b c where w: "with_tasks s [a, b, c]" "3000 \<le> kheap_vacant s" by (rule three_tasks)
  note d = with_tasksD [OF w(1)] and hi = tasks_inv_heap [OF with_tasksD(1) [OF w(1)]]
  have a: "a \<in> set [a, b, c]" by simp
  have sz: "0 < kheap_vacant s" "0 < (word_of_int 16 :: u32)" "(word_of_int 16 :: u32) \<le> 4096"
    using w(2) by simp_all
  obtain tmp s1 where tmp: "kzalloc (word_of_int 16) s = Inr (tmp, s1)" "tmp \<noteq> 0" "page_aligned tmp"
    by (rule kzalloc_page [OF hi sz], rule that)
  have kc: "(kernel_chunk s, 1) \<in> kheap_allocs s" "kernel_chunk s \<notin> set (task_blocks s a)"
    using w(1) a by (auto simp: with_tasks_def set_all_blocks)
  have own: "\<not> in_page p v" if p: "p \<in> insert tmp (set (task_blocks s a))" and v: "unat v < 4096" for p v
  proof (cases "p = tmp")
    case True
    have "in_page 0 v" "page_aligned 0" using v by (simp_all add: in_page_def page_aligned_def)
    then show ?thesis using in_page_unique [OF tmp(3), of 0 v] tmp(2) True by blast
  next
    case False
    then have "(p, 1) \<in> kheap_allocs s" using p d(1) a by (auto simp: tasks_inv_def set_all_blocks)
    then show ?thesis using page_zero_free [OF hi _ v] by blast
  qed
  have base: "page_base v \<noteq> tmp" if v: "unat v < 4096" for v
    using own [of tmp v] v in_page_base [OF tmp(3), of v] by blast
  have off: "unat (0x10 + word_of_nat j :: u32) < 4096" "unat (0x400 + word_of_nat j :: u32) < 4096"
    if "j < nat 16" for j
    using small_offset [of 16 j] small_offset [of 1024 j] that by simp_all
  have src: "page_base (0x10 + word_of_nat j) \<noteq> tmp \<and>
      (\<exists>x. mmu_walk (mem s) (load32 (mem s) (get s a PAGE_DIRECTORY)) (0x10 + word_of_nat j) = Some x
         \<and> (\<forall>p \<in> insert tmp (set (task_blocks s a)). \<not> in_page p x))" if "j < nat 16" for j
    using with_tasks_walk [OF w(1) a] base [OF off(1) [OF that]] own [OF _ off(1) [OF that]] by blast
  have buf: "\<forall>p \<in> insert tmp (set (task_blocks s a)). \<not> in_page p (0x400 + word_of_nat j)" if "j < nat 16" for j
    using own [OF _ off(2) [OF that]] by blast
  obtain s' where "copy_string_from_task a 0x10 0x400 16 s = Inr (0, s')"
    "cstr_at (mem s') 0x400
      (cstr_upto (user_mem (mem s) (load32 (mem s) (get s a PAGE_DIRECTORY))) 0x10 (nat (16 - 1)))"
    using copy_string_copies [OF d(1) a d(4) kc _ _ tmp(1,2) src buf] by auto
  moreover have "user_mem (mem s) (load32 (mem s) (get s a PAGE_DIRECTORY)) = mem s"
    by (rule ext) (simp add: user_mem_def with_tasks_walk [OF w(1) a])
  ultimately have "copy_string_from_task a 0x10 0x400 16 s = Inr (0, s')"
    "cstr_at (mem s') 0x400 (cstr_upto (mem s) 0x10 15)" by simp_all
  then show ?thesis by blast
qed

text \<open>\<open>task_get_stack_item\<close> reads the word at \<open>esp + 4 * index\<close> through the task's page tables and
  leaves memory as it is with the kernel's directory and data segment loaded; when the word is not
  mapped the access faults.\<close>

lemma stack_item_reads_user_stack:
  fixes s :: "'a tstate_scheme" and t :: u32 and index :: int
  assumes "paging_enabled s"
  defines "v \<equiv> get s t R_ESP + 4 * word_of_int index"
    and "walk \<equiv> mmu_walk (mem s) (load32 (mem s) (get s t PAGE_DIRECTORY))"
  shows "(\<forall>a. walk v = Some a \<and> walk (v + 1) = Some (a + 1) \<and> walk (v + 2) = Some (a + 2)
      \<and> walk (v + 3) = Some (a + 3) \<longrightarrow>
      (\<exists>s'. task_get_stack_item t index s = Inr (load32 (mem s) a, s') \<and> mem s' = mem s
         \<and> cr3 s' = load32 (mem s) (kernel_chunk s) \<and> data_segment s' = 0x10
         \<and> current_task s' = current_task s))
    \<and> (walk v = None \<longrightarrow> task_get_stack_item t index s = Inl Undefined)"
  using assms(1) unfolding v_def walk_def
  by (simp add: task_get_stack_item_def task_page_task_def user_registers_def kernel_page_def
    kernel_registers_def paging_switch_def vload32_def vload8_def virt_to_phys_def get_def load32_def Let_def)

end
