(* ===== verification/Process.thy ===== *)
theory Process
  imports File
begin

text \<open>
  \<^verbatim>\<open>src/task/process.c\<close>: user processes. \<^verbatim>\<open>struct process\<close> is a heap block of 5256 bytes (two heap
  blocks): id at 0, file name at 2, task at 112, allocations from 116, program at 4212, stack at
  4216, size at 4220, keyboard buffer from 4224, its tail at 5248 and head at 5252.
\<close>

section \<open>Data (process.h, config.h)\<close>

definition GUAVAOS_MAX_PROCESSES :: nat where "GUAVAOS_MAX_PROCESSES = 12"
definition GUAVAOS_USER_PROGRAM_STACK_SIZE :: u32 where "GUAVAOS_USER_PROGRAM_STACK_SIZE = 1024 * 16"
definition GUAVAOS_PROGRAM_VIRTUAL_STACK_ADDRESS_END :: u32 where
  "GUAVAOS_PROGRAM_VIRTUAL_STACK_ADDRESS_END = GUAVAOS_PROGRAM_VIRTUAL_STACK_ADDRESS_START - GUAVAOS_USER_PROGRAM_STACK_SIZE"
definition GUAVAOS_KEYBOARD_BUFFER_SIZE :: int where "GUAVAOS_KEYBOARD_BUFFER_SIZE = 1024"

definition P_ID :: u32 where "P_ID = 0"
definition P_FILENAME :: u32 where "P_FILENAME = 2"
definition P_TASK :: u32 where "P_TASK = 112"
definition P_PTR :: u32 where "P_PTR = 4212"
definition P_STACK :: u32 where "P_STACK = 4216"
definition P_SIZE :: u32 where "P_SIZE = 4220"
definition P_BUFFER :: u32 where "P_BUFFER = 4224"
definition P_TAIL :: u32 where "P_TAIL = 5248"
definition P_HEAD :: u32 where "P_HEAD = 5252"
definition process_sizeof :: u32 where "process_sizeof = 5256"

lemmas process_layout = P_ID_def P_FILENAME_def P_TASK_def P_PTR_def P_STACK_def P_SIZE_def P_BUFFER_def
  P_TAIL_def P_HEAD_def process_sizeof_def

text \<open>The two globals, and the address of the string literal \<^verbatim>\<open>"r"\<close> in the kernel image.\<close>

record procstate = filestate +
  current_process :: u32
  processes :: "u32 list"
  literal_r :: u32

section \<open>Lookup\<close>

definition process_init :: "u32 \<Rightarrow> 'a procstate_scheme \<Rightarrow> 'a procstate_scheme" where
  "process_init process s = s\<lparr>mem := memset process 0 process_sizeof (mem s)\<rparr>"

definition process_current :: "'a procstate_scheme \<Rightarrow> u32" where
  "process_current s = current_process s"

definition process_get :: "int \<Rightarrow> 'a procstate_scheme \<Rightarrow> u32 outcome" where
  "process_get process_id s =
     (if process_id < 0 \<or> int GUAVAOS_MAX_PROCESSES \<le> process_id then Inr 0
      else arr_get (processes s) process_id)"

definition process_switch :: "u32 \<Rightarrow> 'a procstate_scheme \<Rightarrow> int \<times> 'a procstate_scheme" where
  "process_switch process s = (0, s\<lparr>current_process := process\<rparr>)"

definition process_get_free_slot :: "'a procstate_scheme \<Rightarrow> int" where
  "process_get_free_slot s = (case first_zero (processes s) of None \<Rightarrow> - EISTKN | Some i \<Rightarrow> int i)"

section \<open>Loading\<close>

text \<open>
  The local \<^verbatim>\<open>struct file_stat\<close> has no initial value in the code; it is read only after \<^verbatim>\<open>fstat\<close> has
  succeeded, and the driver of this program then has stored both fields.
\<close>

definition process_load_binary ::
  "'a procstate_scheme fs_objects \<Rightarrow> u32 \<Rightarrow> u32 \<Rightarrow> 'a procstate_scheme \<Rightarrow> (int \<times> 'a procstate_scheme) outcome" where
  "process_load_binary vt filename process s =
     bnd (fopen vt filename (literal_r s) s) (\<lambda>(fd, s1).
       let out = (\<lambda>(res, s). bnd (fclose vt fd s) (\<lambda>(_, s'). Inr (res, s')))
       in if fd = 0 then out (- EIO, s1)
          else bnd (fstat vt fd \<lparr>stat_flags = 0, stat_filesize = 0\<rparr> s1) (\<lambda>(res, stat, s2).
            if res \<noteq> GUAVAOS_ALL_OK then out (res, s2)
            else bnd (kzalloc (stat_filesize stat) s2) (\<lambda>(program_data_ptr, s3).
              if program_data_ptr = 0 then out (- ENOMEM, s3)
              else bnd (fread vt program_data_ptr (stat_filesize stat) 1 fd s3) (\<lambda>(n, s4).
                if n \<noteq> 1 then out (- EIO, s4)
                else out (res, st32 (process + P_SIZE) (stat_filesize stat)
                                 (st32 (process + P_PTR) program_data_ptr s4))))))"

definition process_load_data ::
  "'a procstate_scheme fs_objects \<Rightarrow> u32 \<Rightarrow> u32 \<Rightarrow> 'a procstate_scheme \<Rightarrow> (int \<times> 'a procstate_scheme) outcome" where
  "process_load_data vt filename process s = process_load_binary vt filename process s"

text \<open>The results of \<^verbatim>\<open>paging_map_to\<close> are not looked at, as in the code.\<close>

definition process_map_binary :: "u32 \<Rightarrow> 'a procstate_scheme \<Rightarrow> int \<times> 'a procstate_scheme" where
  "process_map_binary process s =
     (let ptr = load32 (mem s) (process + P_PTR)
      in (0, snd (paging_map_to
             (get s (load32 (mem s) (process + P_TASK)) PAGE_DIRECTORY)
             GUAVAOS_PROGRAM_VIRTUAL_ADDRESS ptr
             (paging_align_address (ptr + load32 (mem s) (process + P_SIZE)))
             (PAGING_IS_PRESENT OR PAGING_ACCESS_FROM_ALL OR PAGING_IS_WRITABLE) s)))"

definition process_map_memory :: "u32 \<Rightarrow> 'a procstate_scheme \<Rightarrow> int \<times> 'a procstate_scheme" where
  "process_map_memory process s =
     (let (res, s1) = process_map_binary process s
      in if res < 0 then (res, s1)
         else
           let stack = load32 (mem s1) (process + P_STACK)
           in (res, snd (paging_map_to
                (get s1 (load32 (mem s1) (process + P_TASK)) PAGE_DIRECTORY)
                GUAVAOS_PROGRAM_VIRTUAL_STACK_ADDRESS_END stack
                (paging_align_address (stack + GUAVAOS_USER_PROGRAM_STACK_SIZE))
                (PAGING_IS_PRESENT OR PAGING_ACCESS_FROM_ALL OR PAGING_IS_WRITABLE) s1)))"

text \<open>
  The out-parameter is passed and returned. In a taken slot the code goes to its exit with
  \<^verbatim>\<open>_process\<close> not initialised and reads it. \<^verbatim>\<open>ERROR_I(task) == 0\<close> lets the error numbers of
  \<^verbatim>\<open>task_new\<close> pass.
\<close>

definition process_load_for_slot ::
  "'a procstate_scheme fs_objects \<Rightarrow> u32 \<Rightarrow> u32 \<Rightarrow> int \<Rightarrow> 'a procstate_scheme
     \<Rightarrow> (int \<times> u32 \<times> 'a procstate_scheme) outcome" where
  "process_load_for_slot vt filename process process_slot s =
     (let out = (\<lambda>p (res, s).
            if res < 0 \<and> p \<noteq> 0 \<and> load32 (mem s) (p + P_TASK) \<noteq> 0
            then bnd (task_free (load32 (mem s) (p + P_TASK)) s) (\<lambda>(_, s'). Inr (res, process, s'))
            else Inr (res, process, s))
      in bnd (process_get process_slot s) (\<lambda>taken.
         if taken \<noteq> 0 then Inl Undefined
         else bnd (kzalloc process_sizeof s) (\<lambda>(p, s1).
           if p = 0 then out 0 (- ENOMEM, s1)
           else bnd (process_load_data vt filename p (process_init p s1)) (\<lambda>(res, s2).
             if res < 0 then out p (res, s2)
             else bnd (kzalloc GUAVAOS_USER_PROGRAM_STACK_SIZE s2) (\<lambda>(program_stack_ptr, s3).
               if program_stack_ptr = 0 then out p (- ENOMEM, s3)
               else
                 let s4 = s3\<lparr>mem := strncpy (p + P_FILENAME) filename (int GUAVAOS_MAX_PATH) (mem s3)\<rparr>;
                     s5 = st32 (p + P_STACK) program_stack_ptr s4;
                     s6 = s5\<lparr>mem := store16 (mem s5) (p + P_ID) (word_of_int process_slot)\<rparr>
                 in bnd (task_new p s6) (\<lambda>(t, s7).
                      if ERROR_I t = 0 then out p (ERROR_I t, s7)
                      else
                        let (res, s8) = process_map_memory p (st32 (p + P_TASK) t s7)
                        in if res < 0 then out p (res, s8)
                           else bnd (arr_set (processes s8) process_slot p) (\<lambda>ps.
                             Inr (res, p, s8\<lparr>processes := ps\<rparr>))))))))"

definition process_load ::
  "'a procstate_scheme fs_objects \<Rightarrow> u32 \<Rightarrow> u32 \<Rightarrow> 'a procstate_scheme \<Rightarrow> (int \<times> u32 \<times> 'a procstate_scheme) outcome" where
  "process_load vt filename process s =
     (let process_slot = process_get_free_slot s
      in if process_slot < 0 then Inr (- EISTKN, process, s)
         else process_load_for_slot vt filename process process_slot s)"

definition process_load_switch ::
  "'a procstate_scheme fs_objects \<Rightarrow> u32 \<Rightarrow> u32 \<Rightarrow> 'a procstate_scheme \<Rightarrow> (int \<times> u32 \<times> 'a procstate_scheme) outcome" where
  "process_load_switch vt filename process s =
     bnd (process_load vt filename process s) (\<lambda>(res, process', s1).
       if res = 0 then Inr (res, process', snd (process_switch process' s1)) else Inr (res, process', s1))"

end
