(* ===== verification/ProcessLoad.thy ===== *)
theory ProcessLoad
  imports FileOpen TaskProps Process
begin

text \<open>
  Loading the binary of a process (\<^verbatim>\<open>process_load_binary\<close> in \<^verbatim>\<open>task/process.c\<close>) over the file layer. The relation
  \<open>extends X\<close> says that a step only added live blocks and only changed memory in \<open>X\<close> or in blocks that were not in
  use; \<open>root_file\<close> describes a file of the root directory as it lies on the disk. The main lemma
  \<open>process_load_binary_ok\<close> composes \<^verbatim>\<open>fopen\<close>, \<^verbatim>\<open>fstat\<close>, \<^verbatim>\<open>kzalloc\<close>, \<^verbatim>\<open>fread\<close> and \<^verbatim>\<open>fclose\<close>: a new buffer that
  holds the bytes of the file, its address and size in \<^verbatim>\<open>struct process\<close>, and every open file as before.
\<close>

section \<open>Steps that only add to the memory in use\<close>

definition extends :: "u32 set \<Rightarrow> 'a kstate_scheme \<Rightarrow> 'a kstate_scheme \<Rightarrow> bool" where
  "extends X s s' \<longleftrightarrow> kheap_inv s' \<and> heap_area s' = heap_area s \<and> kheap_allocs s \<subseteq> kheap_allocs s'
     \<and> (\<forall>a. kept s a \<longrightarrow> a \<notin> X \<longrightarrow> mem s' a = mem s a)"

lemma extends_refl: "kheap_inv s \<Longrightarrow> extends X s s"
  by (simp add: extends_def)

lemma extends_frame: "parse_frame {} s s' \<Longrightarrow> extends X s s'"
  by (auto simp: extends_def parse_frame_def)

lemma extends_kept: "extends X s s' \<Longrightarrow> kept s a \<Longrightarrow> kept s' a"
  unfolding extends_def using kept_mono by blast

lemma extends_mem: "extends X s s' \<Longrightarrow> kept s a \<Longrightarrow> a \<notin> X \<Longrightarrow> mem s' a = mem s a"
  by (simp add: extends_def)

lemma extends_trans: "extends X s s1 \<Longrightarrow> extends X s1 s2 \<Longrightarrow> extends X s s2"
  using extends_kept [of X s s1] by (auto simp: extends_def)

lemma extends_store:
  assumes "extends X s s1" "(p, n) \<in> kheap_allocs s1" "\<forall>k. (p, k) \<notin> kheap_allocs s"
    "\<And>a. \<not> in_block p n a \<Longrightarrow> mem s2 a = mem s1 a" "kernel_heap s2 = kernel_heap s1"
  shows "extends X s s2"
proof -
  have f: "kheap_inv s1" "heap_area s1 = heap_area s" "kheap_allocs s \<subseteq> kheap_allocs s1"
    "\<And>a. kept s a \<Longrightarrow> a \<notin> X \<Longrightarrow> mem s1 a = mem s a" using assms(1) by (simp_all add: extends_def)
  have "\<not> in_block p n a" if "kept s a" for a
    using kept_not_new [OF f(1) assms(2) f(2,3) _ that] assms(3) by simp
  then show ?thesis using f assms(4,5) by (simp add: extends_def kheap_view_defs heap_area_def)
qed

text \<open>A request of any size, if the fragmentation bound allows it.\<close>

lemma extends_alloc:
  assumes "kheap_inv s" "valid_size sz" "(card (kheap_allocs s) + 1) * (blocks_of sz - 1) < kheap_vacant s"
  obtains p s' where "kzalloc sz s = Inr (p, s')" "extends X s s'" "p \<noteq> 0"
    "kheap_allocs s' = insert (p, blocks_of sz) (kheap_allocs s)" "\<forall>k. (p, k) \<notin> kheap_allocs s"
    "\<And>a. mem s' a = (if unat (a - p) < unat sz then 0 else mem s a)" "heap_step s s'"
proof -
  obtain p s' where p: "kzalloc sz s = Inr (p, s')" "p \<noteq> 0" using kz.alloc_room [OF assms] by blast
  note l = kz.alloc_law [OF assms(1,2) p] and b = kz.alloc_base_new [OF assms(1,2) p]
  have new: "\<forall>k. (p, k) \<notin> kheap_allocs s" using b by blast
  have area: "heap_area s' = heap_area s" by (rule kzalloc_area [OF p(1)])
  have grow: "kheap_allocs s \<subseteq> kheap_allocs s'" "(p, blocks_of sz) \<in> kheap_allocs s'" using l by auto
  have inv: "kheap_inv s'" using l by blast
  have "mem s' a = mem s a" if "kept s a" for a
    by (rule kz.alloc_frame [OF assms(1,2) p]) (use kept_not_new [OF inv grow(2) area grow(1) _ that] new in blast)
  then have "extends X s s'" using inv area grow(1) by (simp add: extends_def)
  moreover have "heap_step s s'"
    using p(1,2) by (auto simp: kzalloc_Inr kmalloc_Inr heap_step_def)
  ultimately show thesis using that [OF p(1) _ p(2)] l new kz.alloc_zeroes [OF assms(1,2) p] by blast
qed

text \<open>The accounts of the heap.\<close>

lemma extends_accounts:
  assumes "kheap_inv s" "extends X s s'" "kheap_allocs s' = kheap_allocs s \<union> A" "kheap_allocs s \<inter> A = {}" "finite A"
  shows "card (kheap_allocs s') = card (kheap_allocs s) + card A" "kheap_vacant s = kheap_vacant s' + (\<Sum>(p, n) \<in> A. n)"
proof -
  have fin: "finite (kheap_allocs s)" by (simp add: kheap_allocs_def finite_heap_allocs)
  show "card (kheap_allocs s') = card (kheap_allocs s) + card A"
    unfolding assms(3) by (rule card_Un_disjoint [OF fin assms(5,4)])
  have inv': "kheap_inv s'" "heap_area s' = heap_area s" using assms(2) by (simp_all add: extends_def)
  have part: "kheap_vacant t + (\<Sum>(p, n) \<in> kheap_allocs t. n) = length (entries (table (kernel_heap t)))"
    if "kheap_inv t" for t :: "'b kstate_scheme"
    using heap_blocks_partition that by (simp add: kheap_view_defs)
  have "(\<Sum>(p, n) \<in> kheap_allocs s'. n) = (\<Sum>(p, n) \<in> kheap_allocs s. n) + (\<Sum>(p, n) \<in> A. n)"
    unfolding assms(3) by (rule sum.union_disjoint [OF fin assms(5,4)])
  then show "kheap_vacant s = kheap_vacant s' + (\<Sum>(p, n) \<in> A. n)"
    using part [OF assms(1)] part [OF inv'(1)] area_length [OF assms(1) inv'] by linarith
qed

lemma load32_block:
  assumes "\<forall>j < N. m' (p' + word_of_nat j) = m (p + word_of_nat j)" "k + 4 \<le> N"
  shows "load32 m' (p' + word_of_nat k) = load32 m (p + word_of_nat k)"
  using assms(1) [rule_format, of k] assms(1) [rule_format, of "k + 1"] assms(1) [rule_format, of "k + 2"]
    assms(1) [rule_format, of "k + 3"] assms(2) by (simp add: load32_def ac_simps)

lemma load16_block:
  assumes "\<forall>j < N. m' (p' + word_of_nat j) = m (p + word_of_nat j)" "k + 2 \<le> N"
  shows "load16 m' (p' + word_of_nat k) = load16 m (p + word_of_nat k)"
  using assms(1) [rule_format, of k] assms(1) [rule_format, of "k + 1"] assms(2) by (simp add: load16_def ac_simps)

text \<open>What the driver reads of a copy of a directory entry.\<close>

lemma entry_copy:
  assumes "bytes_at m' c 32 = bytes_at m e 32"
  shows "fat16_get_first_cluster m' c = fat16_get_first_cluster m e"
    "load32 m' (c + I_FILESIZE) = load32 m (e + I_FILESIZE)"
proof -
  have b: "\<forall>j < 32. m' (c + word_of_nat j) = m (e + word_of_nat j)" using assms by (simp only: bytes_at_eq_iff)
  have "load16 m' (c + word_of_nat 20) = load16 m (e + word_of_nat 20)"
    "load16 m' (c + word_of_nat 26) = load16 m (e + word_of_nat 26)"
    "load32 m' (c + word_of_nat 28) = load32 m (e + word_of_nat 28)"
    by (rule load16_block [OF b] load32_block [OF b], simp)+
  then show "fat16_get_first_cluster m' c = fat16_get_first_cluster m e"
    "load32 m' (c + I_FILESIZE) = load32 m (e + I_FILESIZE)"
    by (simp_all add: fat16_get_first_cluster_def fat_layout)
qed

section \<open>A file on the disk\<close>

definition cluster_stream :: "'a dstate_scheme \<Rightarrow> u32" where
  "cluster_stream s = load32 (mem s) (fs_private s + CLUSTER_READ_STREAM)"

definition file_on_disk :: "'a dstate_scheme \<Rightarrow> (nat \<Rightarrow> u16 list) \<Rightarrow> u32 \<Rightarrow> nat \<Rightarrow> nat \<Rightarrow> bool" where
  "file_on_disk s img item pos n \<longleftrightarrow> ata_disk (device s) img \<and> mounted s
     \<and> load32 (mem s) (item + I_FILESIZE) = word_of_nat n \<and> 0 < n \<and> n \<le> cluster_bytes s
     \<and> cluster_start s (unat (fat16_get_first_cluster (mem s) item)) = int pos \<and> pos + n < 2 ^ 31"

text \<open>The driver's private data and streams lie in memory that is in use.\<close>

definition driver_kept :: "'a dstate_scheme \<Rightarrow> bool" where
  "driver_kept s \<longleftrightarrow> (\<forall>j < 92. kept s (fs_private s + word_of_nat j))
     \<and> (\<forall>a \<in> word_at (cluster_stream s) \<union> word_at (cluster_stream s + 4)
           \<union> word_at (load32 (mem s) (fs_private s + FAT_READ_STREAM) + 4). kept s a)"

lemma driver_frame:
  fixes s s' :: "'a dstate_scheme"
  assumes "extends {} s s'" "driver_kept s"
    and "fs_private s' = fs_private s" "disk_at s' = disk_at s" "sector_size s' = sector_size s"
  shows "mounted s' = mounted s" "cluster_stream s' = cluster_stream s" "cluster_bytes s' = cluster_bytes s"
    "cluster_start s' c = cluster_start s c" "driver_kept s'"
proof -
  let ?p = "fs_private s"
  have b: "\<forall>j < 92. mem s' (?p + word_of_nat j) = mem s (?p + word_of_nat j)"
    using extends_mem [OF assms(1)] assms(2) by (simp add: driver_kept_def)
  have w: "load32 (mem s') (?p + 80) = load32 (mem s) (?p + 80)" "load32 (mem s') (?p + 84) = load32 (mem s) (?p + 84)"
    "load32 (mem s') (76 + ?p) = load32 (mem s) (76 + ?p)" "mem s' (?p + 13) = mem s (?p + 13)"
    using load32_block [OF b, of 80] load32_block [OF b, of 84] load32_block [OF b, of 76] b [rule_format, of 13] by (simp_all add: add.commute)
  show cs: "cluster_stream s' = cluster_stream s" by (simp add: cluster_stream_def assms(3) fat_layout w)
  have st: "load32 (mem s') (x + 4) = load32 (mem s) (x + 4)"
    if "x = cluster_stream s \<or> x = load32 (mem s) (?p + FAT_READ_STREAM)" for x
    by (rule load32_kept, rule extends_mem [OF assms(1)]) (use that assms(2) in \<open>auto simp: driver_kept_def\<close>)
  have st': "load32 (mem s') (load32 (mem s) (?p + 80) + 4) = load32 (mem s) (load32 (mem s) (?p + 80) + 4)"
    "load32 (mem s') (load32 (mem s) (?p + 84) + 4) = load32 (mem s) (load32 (mem s) (?p + 84) + 4)"
    using st [of "load32 (mem s) (?p + 80)"] st [of "load32 (mem s) (?p + 84)"] by (simp_all add: cluster_stream_def fat_layout)
  show "mounted s' = mounted s" by (simp add: mounted_def assms(3-5) fat_layout w st')
  show "cluster_bytes s' = cluster_bytes s" "cluster_start s' c = cluster_start s c"
    by (simp_all add: cluster_bytes_def cluster_start_def assms(3) fat_layout w)
  show "driver_kept s'"
    using assms(2) extends_kept [OF assms(1)] cs by (simp add: driver_kept_def assms(3) fat_layout w)
qed

text \<open>Fields that opening and closing files leave alone.\<close>

lemma rest_opened:
  assumes "rest s' = rest (s\<lparr>file_descriptors := ds\<rparr>)"
  shows "fs_private s' = fs_private (s :: 'a filestate_scheme)" "disk_at s' = disk_at s" "sector_size s' = sector_size s"
    "fat16_fs s' = fat16_fs s" "device s' = device s" "file_descriptors s' = ds"
  using arg_cong [OF assms, of fs_private] arg_cong [OF assms, of disk_at] arg_cong [OF assms, of sector_size]
    arg_cong [OF assms, of fat16_fs] arg_cong [OF assms, of device] arg_cong [OF assms, of file_descriptors]
  by (simp_all add: rest_def)

lemma rest_device: "rest s' = rest s \<Longrightarrow> device s' = device (s :: 'a iostate_scheme)"
  by (drule arg_cong [of _ _ device]) (simp add: rest_def)


section \<open>Loading the binary\<close>

text \<open>The file \<open>name\<close> of the root directory, entry \<open>i\<close>: \<open>n\<close> bytes from byte \<open>pos\<close> of the disk.\<close>

definition root_file ::
  "'a filestate_scheme \<Rightarrow> (u8 list \<times> u8 list) list \<Rightarrow> u8 list \<Rightarrow> nat \<Rightarrow> (nat \<Rightarrow> u16 list) \<Rightarrow> nat \<Rightarrow> nat \<Rightarrow> bool" where
  "root_file s dir name i img pos n \<longleftrightarrow> volume s dir \<and> only_match dir name i
     \<and> mem s (root_entry s i + I_ATTRIBUTE) AND FAT_FILE_SUBDIRECTORY = 0
     \<and> file_on_disk s img (root_entry s i) pos n \<and> driver_kept s"

text \<open>The path \<^verbatim>\<open>0:/name\<close> in memory that is not the heap's.\<close>

definition root_path :: "'a kstate_scheme \<Rightarrow> u32 \<Rightarrow> u8 list \<Rightarrow> bool" where
  "root_path s filename name \<longleftrightarrow> cstr_at (mem s) filename (48 # 58 # 47 # name) \<and> part_names [name]
     \<and> length name \<le> 105 \<and> (\<forall>j \<le> length name + 3. filename + word_of_nat j \<notin> heap_area s)"

text \<open>Opening it and finding its size.\<close>

lemma fstat_ok:
  fixes s :: "'a filestate_scheme"
  assumes "files_ok s" "0 < fd" "fd < 512" "open_files s (nat (fd - 1)) = Some d" "fat_file s d p f c"
  shows "\<exists>fl. fstat fat16_objects fd stat s = Inr (0, \<lparr>stat_flags = fl, stat_filesize = ldw (mem s) c 7\<rparr>, s)"
proof -
  have len: "length (file_descriptors s) = 512" using assms(1) by (simp add: files_ok_def)
  have w: "ldw (mem s) d 1 = fat16_fs s" "ldw (mem s) d 2 = p" "ldw (mem s) p 0 = f" "ldw (mem s) f 0 = c" "ldw (mem s) f 1 = 1"
    using assms(5) by (auto simp: fat_file_def fat_consts)
  have get: "file_get_descriptor fd s = Inr d" using get_descriptor [OF len, of fd] assms(2-4) by simp
  have "d \<noteq> 0" using open_files_slot [OF assms(1,4)] by simp
  then show ?thesis using get w
    by (cases stat) (auto simp: fstat_def descriptor_word fat16_objects_def fat16_ops_def fat16_stat_def fat_word fat_consts Let_def)
qed

lemma fread_ok:
  fixes s :: "'a filestate_scheme"
  assumes "files_ok s" "0 < fd" "fd < 512" "open_files s (nat (fd - 1)) = Some d" "fat_file s d p f c" "ldw (mem s) p 1 = 0"
    and src: "file_on_disk s img c pos n"
  obtains m' es where "fread fat16_objects out (word_of_nat n) 1 fd s = Inr (1, s\<lparr>mem := m', ports := ports s @ es\<rparr>)"
    "bytes_at m' out n = map (disk_byte img) [pos..<pos + n]"
    "\<And>a. n \<le> unat (a - out) \<Longrightarrow> a \<notin> word_at (cluster_stream s) \<Longrightarrow> m' a = mem s a"
proof -
  have len: "length (file_descriptors s) = 512" using assms(1) by (simp add: files_ok_def)
  have w: "ldw (mem s) d 1 = fat16_fs s" "ldw (mem s) d 2 = p" "ldw (mem s) d 3 = disk_at s" "ldw (mem s) p 0 = f" "ldw (mem s) f 0 = c"
    using assms(5) by (auto simp: fat_file_def)
  have fl: "ata_disk (device s) img" "mounted s" "0 < n" "n \<le> cluster_bytes s" "pos + n < 2 ^ 31"
    "cluster_start s (unat (fat16_get_first_cluster (mem s) c)) = int pos" using src by (simp_all add: file_on_disk_def)
  have item: "c = load32 (mem s) (load32 (mem s) (p + FD_ITEM) + F_ITEM)" "load32 (mem s) (p + FD_POS) = 0"
    using w assms(6) by (simp_all add: fat_word)
  obtain m' es where r: "fat16_read p (word_of_nat n) 1 out s = Inr (1, s\<lparr>mem := m', ports := ports s @ es\<rparr>)"
    "bytes_at m' out n = map (disk_byte img) [pos..<pos + n]"
    "\<And>a. n \<le> unat (a - out) \<Longrightarrow> 4 \<le> unat (a - load32 (mem s) (fs_private s + CLUSTER_READ_STREAM)) \<Longrightarrow> m' a = mem s a"
    by (rule fat16_read_ok [OF fl(1,2) item fl(6,5,4), of out], rule that)
  have get: "file_get_descriptor fd s = Inr d" using get_descriptor [OF len, of fd] assms(2-4) by simp
  have "n < 2 ^ 32" using fl(5) by simp
  then have nz: "(word_of_nat n :: u32) \<noteq> 0" using fl(3) unat_of_nat32 [of n] by (metis less_numeral_extra(3) unsigned_0)
  have "d \<noteq> 0" using open_files_slot [OF assms(1,4)] by simp
  then have run: "fread fat16_objects out (word_of_nat n) 1 fd s = Inr (1, s\<lparr>mem := m', ports := ports s @ es\<rparr>)"
    using get w r(1) nz assms(2) by (simp add: fread_def descriptor_word fat16_objects_def fat16_ops_def)
  have "4 \<le> unat (a - x)" if "a \<notin> word_at x" for a x :: u32
  proof (rule ccontr)
    assume "\<not> 4 \<le> unat (a - x)"
    then have "unat (a - x) \<in> {0, 1, 2, 3}" by auto
    then have "a - x \<in> {0, 1, 2, 3}" by (auto simp: word_unat_eq_iff)
    moreover have "a = x + (a - x)" by simp
    ultimately show False using that unfolding word_at_def by (metis add.right_neutral insert_iff empty_iff)
  qed
  with that [OF run r(2)] r(3) show thesis by (simp add: cluster_stream_def)
qed

lemma extends_step: "extends {} s s' \<Longrightarrow> heap_step s s' \<Longrightarrow> parse_frame {} s s'"
  by (simp add: extends_def parse_frame_def)

lemma in_block_offset: "kheap_inv s \<Longrightarrow> (p, n) \<in> kheap_allocs s \<Longrightarrow> unat (a - p) < 4096 * n \<Longrightarrow> in_block p n a"
proof -
  assume h: "kheap_inv s" "(p, n) \<in> kheap_allocs s" and a: "unat (a - p) < 4096 * n"
  have "unat p + 4096 * n \<le> 2 ^ 32" using km.allocs_shape [OF h] by simp
  with a show ?thesis by (auto simp: in_block_def unat_sub_if' split: if_splits)
qed

lemma in_block_add: "kheap_inv s \<Longrightarrow> (p, n) \<in> kheap_allocs s \<Longrightarrow> j < 4096 * n \<Longrightarrow> in_block p n (p + word_of_nat j)"
proof -
  assume h: "kheap_inv s" "(p, n) \<in> kheap_allocs s" and j: "j < 4096 * n"
  have "unat p + 4096 * n \<le> 2 ^ 32" using km.allocs_shape [OF h] by simp
  then have "unat (word_of_nat j :: u32) = j" using j by (intro unat_of_nat32) simp
  then show ?thesis using j by (intro in_block_offset [OF h]) simp
qed

lemma word_in_block:
  assumes "kheap_inv s" "(p, n) \<in> kheap_allocs s" "j + 4 \<le> 4096 * n" "b \<in> word_at (p + word_of_nat j)"
  shows "in_block p n b"
proof -
  have "\<exists>k \<in> {0, 1, 2, 3}. b = p + word_of_nat (j + k)"
    using assms(4) by (auto simp: word_at_def ac_simps)
  then obtain k where "k \<in> {0, 1, 2, 3}" "b = p + word_of_nat (j + k)" by blast
  moreover have "j + k < 4096 * n" using calculation(1) assms(3) by auto
  ultimately show ?thesis using in_block_add [OF assms(1,2), of "j + k"] by simp
qed

lemma fat_file_frame:
  fixes s s' :: "'a filestate_scheme"
  assumes "fat_file s d p f c" "kheap_inv s" "(d, 1) \<in> kheap_allocs s"
    and "fat16_fs s' = fat16_fs s" "disk_at s' = disk_at s" "open_files s' = open_files s" "kheap_allocs s \<subseteq> kheap_allocs s'"
    and "\<And>x a. x \<in> {d, p, f, c} \<Longrightarrow> in_page x a \<Longrightarrow> mem s' a = mem s a"
  shows "fat_file s' d p f c" "ldw (mem s') p 1 = ldw (mem s) p 1" "bytes_at (mem s') c 32 = bytes_at (mem s) c 32"
proof -
  have live: "(x, 1) \<in> kheap_allocs s" if "x \<in> {d, p, f, c}" for x using assms(1,3) that by (auto simp: fat_file_def)
  have al: "page_aligned x" if "x \<in> {d, p, f, c}" for x by (rule live_page_aligned [OF assms(2) live [OF that]])
  have w: "ldw (mem s') x j = ldw (mem s) x j" if "x \<in> {d, p, f, c}" "j < 1024" for x j
    by (rule ldw_cong [OF al [OF that(1)] that(2) assms(8) [OF that(1)]])
  show "fat_file s' d p f c" using assms(1,4-7) w by (auto simp: fat_file_def)
  show "ldw (mem s') p 1 = ldw (mem s) p 1" using w by simp
  have "mem s' (c + word_of_nat j) = mem s (c + word_of_nat j)" if "j < 32" for j
    by (rule assms(8) [of c]) (use in_page_offset [OF al [of c]] that in auto)
  then show "bytes_at (mem s') c 32 = bytes_at (mem s) c 32" by (simp add: bytes_at_eq_iff)
qed

lemma page_allocs_image: "page_allocs ps = (\<lambda>p. (p, 1)) ` set ps"
  by (auto simp: page_allocs_def)

lemma page_allocs_accounts:
  assumes "distinct ps"
  shows "finite (page_allocs ps)" "card (page_allocs ps) = length ps" "(\<Sum>(p, n) \<in> page_allocs ps. n) = length ps"
proof -
  show "finite (page_allocs ps)" by (simp add: page_allocs_image)
  show "card (page_allocs ps) = length ps"
    unfolding page_allocs_image by (subst card_image) (simp_all add: inj_on_def distinct_card [OF assms])
  show "(\<Sum>(p, n) \<in> page_allocs ps. n) = length ps"
    unfolding page_allocs_image by (subst sum.reindex) (simp_all add: inj_on_def distinct_card [OF assms])
qed

lemma page_allocs_fresh: "\<forall>x \<in> set ps. \<forall>n. (x, n) \<notin> A \<Longrightarrow> A \<inter> page_allocs ps = {}"
  by (auto simp: page_allocs_image)

text \<open>The words of \<^verbatim>\<open>struct process\<close> that loading fills in.\<close>

definition binary_words :: "u32 \<Rightarrow> u32 set" where
  "binary_words process = word_at (process + P_PTR) \<union> word_at (process + P_SIZE)"

lemma binary_words_block:
  assumes "kheap_inv s" "(process, 2) \<in> kheap_allocs s" "a \<in> binary_words process"
  shows "in_block process 2 a"
proof -
  have "a \<in> word_at (process + word_of_nat 4212) \<or> a \<in> word_at (process + word_of_nat 4220)"
    using assms(3) by (simp add: binary_words_def process_layout)
  then show ?thesis
    using word_in_block [OF assms(1,2), of 4212 a] word_in_block [OF assms(1,2), of 4220 a] by auto
qed

lemma binary_stores:
  "load32 (store32 (store32 m (process + P_PTR) x) (process + P_SIZE) y) (process + P_PTR) = x"
  "load32 (store32 m (process + P_SIZE) y) (process + P_SIZE) = y"
  "a \<notin> binary_words process \<Longrightarrow> store32 (store32 m (process + P_PTR) x) (process + P_SIZE) y a = m a"
proof -
  have "word_at (process + P_PTR) \<inter> word_at (process + P_SIZE) = {}" by (simp add: word_at_def process_layout add.assoc)
  then show "load32 (store32 (store32 m (process + P_PTR) x) (process + P_SIZE) y) (process + P_PTR) = x"
    by (simp add: load32_store32_apart)
  show "load32 (store32 m (process + P_SIZE) y) (process + P_SIZE) = y" by simp
  show "store32 (store32 m (process + P_PTR) x) (process + P_SIZE) y a = m a" if "a \<notin> binary_words process"
    using that by (simp add: binary_words_def store32_outside)
qed


lemma process_load_binary_ok:
  fixes s :: "'a procstate_scheme"
  assumes ok: "files_ok s" and slot: "first_zero (file_descriptors s) = Some k" "k < 511"
    and src: "root_file s dir name i img pos n" and path: "root_path s filename name"
    and mode: "mem s (literal_r s) = 114" "literal_r s \<notin> heap_area s" and low: "\<forall>a \<in> heap_area s. unat a < 2 ^ 31"
    and apart: "\<forall>j e a. open_files s j = Some e \<longrightarrow> in_page e a \<longrightarrow> a \<notin> word_at (cluster_stream s)"
    and room: "(card (kheap_allocs s) + 8) * (blocks_of (word_of_nat n) - 1) + 7 < kheap_vacant s"
    and P: "(P, 2) \<in> kheap_allocs s"
  obtains s' q ps where "process_load_binary fat16_objects filename P s = Inr (0, s')" "files_ok s'"
    "rest s' = rest s" "extends (word_at (cluster_stream s) \<union> binary_words P) s s'"
    "kheap_allocs s' = insert (q, blocks_of (word_of_nat n)) (kheap_allocs s \<union> page_allocs ps)" "length ps = 3"
    "distinct (q # ps)" "\<forall>x \<in> set (q # ps). \<forall>m. (x, m) \<notin> kheap_allocs s"
    "load32 (mem s') (P + P_PTR) = q" "load32 (mem s') (P + P_SIZE) = word_of_nat n"
    "bytes_at (mem s') q n = map (disk_byte img) [pos..<pos + n]"
proof -
  define X where "X = word_at (cluster_stream s)"
  define B where "B = blocks_of (word_of_nat n)"
  have inv: "kheap_inv s" and len: "length (file_descriptors s) = 512" using ok by (simp_all add: files_ok_def)
  have fl: "volume s dir" "only_match dir name i" "mem s (root_entry s i + I_ATTRIBUTE) AND FAT_FILE_SUBDIRECTORY = 0"
    "file_on_disk s img (root_entry s i) pos n" "driver_kept s" using src by (simp_all add: root_file_def)
  have pa: "cstr_at (mem s) filename (48 # 58 # 47 # name)" "part_names [name]" "length name \<le> 105"
    "\<forall>j \<le> length name + 3. filename + word_of_nat j \<notin> heap_area s" using path by (simp_all add: root_path_def)
  have r7: "7 \<le> kheap_vacant s" using room by simp
  obtain s1 d p f c ps where o: "fopen fat16_objects filename (literal_r s) s = Inr (int k + 1, s1)" "files_ok s1"
    "open_files s1 = (open_files s)(k \<mapsto> d)" "fat_file s1 d p f c" "ldw (mem s1) p 1 = 0"
    "bytes_at (mem s1) c 32 = bytes_at (mem s) (root_entry s i) 32"
    "\<forall>a. kept s a \<longrightarrow> mem s1 a = mem s a" "kheap_allocs s1 = kheap_allocs s \<union> page_allocs (ps @ [d, p, f, c])"
    "distinct (ps @ [d, p, f, c])" "length ps = 3" "\<forall>x \<in> set (ps @ [d, p, f, c]). \<forall>n. (x, n) \<notin> kheap_allocs s"
    "heap_area s1 = heap_area s" "rest s1 = rest (s\<lparr>file_descriptors := (file_descriptors s)[k := d]\<rparr>)"
    by (rule fopen_ok [OF ok r7 slot(1) fl(1-3) pa mode low], rule that)
  have inv1: "kheap_inv s1" using o(2) by (simp add: files_ok_def)
  have e1: "extends {} s s1" using inv1 o(7,8,12) by (auto simp: extends_def)
  have acc: "card (kheap_allocs s1) = card (kheap_allocs s) + 7" "kheap_vacant s = kheap_vacant s1 + 7"
    using extends_accounts [OF inv e1 o(8) page_allocs_fresh [OF o(11)]] page_allocs_accounts [OF o(9)] o(10) by simp_all
  note g1 = rest_opened [OF o(13)]
  have fd: "0 < int k + 1" "int k + 1 < 512" "open_files s1 (nat (int k + 1 - 1)) = Some d" using slot(2) o(3) by simp_all
  have n: "0 < n" "n < 2 ^ 31" "n \<le> cluster_bytes s" "load32 (mem s) (root_entry s i + I_FILESIZE) = word_of_nat n"
    using fl(4) by (simp_all add: file_on_disk_def)
  have un: "unat (word_of_nat n :: u32) = n" using n(2) by (intro unat_of_nat32) simp
  have vs: "valid_size (word_of_nat n)"
    using un n(1,2) by (simp add: valid_size_def word_less_nat_alt word_le_nat_alt)
  have size1: "ldw (mem s1) c 7 = word_of_nat n" using entry_copy(2) [OF o(6)] n(4) by (simp add: fat_word)
  have room1: "(card (kheap_allocs s1) + 1) * (blocks_of (word_of_nat n) - 1) < kheap_vacant s1" using room acc by (simp add: add.commute)
  obtain q s2 where q: "kzalloc (word_of_nat n) s1 = Inr (q, s2)" "extends {} s1 s2" "q \<noteq> 0"
    "kheap_allocs s2 = insert (q, B) (kheap_allocs s1)" "\<forall>k. (q, k) \<notin> kheap_allocs s1" "heap_step s1 s2"
    by (rule extends_alloc [OF inv1 vs room1, folded B_def], rule that)
  have inv2: "kheap_inv s2" using q(2) by (simp add: extends_def)
  have ok2: "files_ok s2" "open_files s2 = open_files s1" using files_ok_grow [OF extends_step [OF q(2,6)] o(2)] by simp_all
  have live1: "(x, 1) \<in> kheap_allocs s1" if "x \<in> {d, p, f, c}" for x
    using that unfolding o(8) by (auto simp: page_allocs_image)
  have e2: "extends {} s s2" by (rule extends_trans [OF e1 q(2)])
  have r2: "rest s2 = rest s1" by (rule heap_step_rest [OF q(6)])
  note g2 = rest_dstate [OF r2] rest_filestate [OF r2] rest_device [OF r2]
  have ff2: "fat_file s2 d p f c" "ldw (mem s2) p 1 = 0" "bytes_at (mem s2) c 32 = bytes_at (mem s) (root_entry s i) 32"
  proof -
    have same: "mem s2 a = mem s1 a" if "x \<in> {d, p, f, c}" "in_page x a" for x a
      using extends_mem [OF q(2)] live_kept [OF inv1 live1 [OF that(1)] that(2)] by simp
    have sub: "kheap_allocs s1 \<subseteq> kheap_allocs s2" "(d, 1) \<in> kheap_allocs s1" using q(4) live1 by auto
    note k = fat_file_frame [OF o(4) inv1 sub(2) g2(9) g2(1) ok2(2) sub(1) same]
    show "fat_file s2 d p f c" by (rule k(1))
    show "ldw (mem s2) p 1 = 0" unfolding o(5) [symmetric] by (rule k(2))
    show "bytes_at (mem s2) c 32 = bytes_at (mem s) (root_entry s i) 32" unfolding o(6) [symmetric] by (rule k(3))
  qed
  have gl: "fs_private s2 = fs_private s" "disk_at s2 = disk_at s" "sector_size s2 = sector_size s" "device s2 = device s"
    using g1 g2 by simp_all
  note dr = driver_frame [OF e2 fl(5) gl(1-3)]
  have on2: "file_on_disk s2 img c pos n"
    using fl(4) entry_copy [OF ff2(3)] by (simp add: file_on_disk_def dr gl(4))
  have at2: "open_files s2 (nat (int k + 1 - 1)) = Some d" using fd(3) ok2(2) by simp
  obtain m es where r: "fread fat16_objects q (word_of_nat n) 1 (int k + 1) s2 = Inr (1, s2\<lparr>mem := m, ports := ports s2 @ es\<rparr>)"
    "bytes_at m q n = map (disk_byte img) [pos..<pos + n]"
    "\<And>a. n \<le> unat (a - q) \<Longrightarrow> a \<notin> word_at (cluster_stream s2) \<Longrightarrow> m a = mem s2 a"
    by (rule fread_ok [OF ok2(1) fd(1,2) at2 ff2(1,2) on2, of q], rule that)
  define s4 where "s4 = st32 (P + P_SIZE) (word_of_nat n) (st32 (P + P_PTR) q (s2\<lparr>mem := m, ports := ports s2 @ es\<rparr>))"
  have B: "n \<le> 4096 * B" using blocks_of_covers [of "word_of_nat n"] un by (simp add: B_def)
  have qlive: "(q, B) \<in> kheap_allocs s2" using q(4) by simp
  have m4: "mem s4 a = mem s2 a" if "\<not> in_block q B a" "a \<notin> X \<union> binary_words P" for a
  proof -
    have "n \<le> unat (a - q)" using in_block_offset [OF inv2 qlive, of a] that(1) B by linarith
    then show ?thesis using r(3) [of a] that(2) by (simp add: s4_def binary_stores(3) X_def dr(2))
  qed
  have h4: "kernel_heap s4 = kernel_heap s2" "rest s4 = rest s2" by (simp_all add: s4_def)
  have kp4: "mem s4 a = mem s2 a" if "kept s1 a" "a \<notin> X \<union> binary_words P" for a
  proof (rule m4 [OF _ that(2)])
    show "\<not> in_block q B a"
      by (rule kept_not_new [OF inv2 qlive _ _ _ that(1)]) (use q(2,5) in \<open>auto simp: extends_def\<close>)
  qed
  have Yk: "kept s a" if "a \<in> X \<union> binary_words P" for a
    using that fl(5) binary_words_block [OF inv P] P by (auto simp: X_def driver_kept_def kept_def)
  have fresh: "a \<notin> X \<union> binary_words P" if "x \<in> {d, p, f, c}" "in_page x a" for x a
  proof
    assume "a \<in> X \<union> binary_words P"
    then have "\<not> in_block x 1 a"
      by (intro kept_not_new [OF inv1 live1 [OF that(1)] o(12)]) (use Yk that(1) o(8,11) in auto)
    moreover have "page_aligned x" by (rule live_page_aligned [OF inv1 live1 [OF that(1)]])
    ultimately show False using that(2) in_block_page by (metis One_nat_def)
  qed
  have old: "a \<notin> X \<union> binary_words P" if "open_files s j = Some e" "in_page e a" for j e a
  proof -
    note e = open_files_slot [OF ok that(1)]
    have "\<not> in_block P 2 a"
      using km.allocs_apart [OF inv P, of e 1 a] e that(2) in_block_page [of e a] by auto
    then show ?thesis using apart that binary_words_block [OF inv P] by (auto simp: X_def)
  qed
  have a4: "kheap_inv s4" "kheap_allocs s4 = kheap_allocs s2" "heap_area s4 = heap_area s2"
    using inv2 by (simp_all add: kheap_view_defs heap_area_def h4(1))
  note g4 = rest_filestate [OF h4(2)] rest_dstate [OF h4(2)]
  have slots: "mem s4 a = mem s2 a" if "open_files s2 j = Some e" "in_page e a" for j e a
  proof -
    have e1: "open_files s1 j = Some e" using that(1) ok2(2) by simp
    have "a \<notin> X \<union> binary_words P"
      using e1 old [of j e a] fresh [of d a] that(2) unfolding o(3) by (auto split: if_splits)
    moreover have "kept s1 a" using live_kept [OF inv1 _ that(2)] open_files_slot [OF o(2) e1] by blast
    ultimately show ?thesis by (intro kp4)
  qed
  have ok4: "files_ok s4 \<and> open_files s4 = open_files s2"
    by (rule files_ok_frame [OF ok2(1) a4(1) g4(2) _ slots]) (use open_files_slot [OF ok2(1)] a4(2) in auto)
  have live2: "(d, 1) \<in> kheap_allocs s2" using live1 [of d] q(4) by simp
  have pages: "mem s4 a = mem s2 a" if "x \<in> {d, p, f, c}" "in_page x a" for x a
    using kp4 [OF live_kept [OF inv1 live1 [OF that(1)] that(2)] fresh [OF that]] .
  have ff4: "fat_file s4 d p f c"
    by (rule fat_file_frame(1) [OF ff2(1) inv2 live2 g4(3) g4(4) conjunct2 [OF ok4] _ pages]) (simp_all add: a4(2))
  have at4: "open_files s4 (nat (int k + 1 - 1)) = Some d" using at2 ok4 by simp
  obtain s' where z: "fclose fat16_objects (int k + 1) s4 = Inr (0, s')" "files_ok s'"
    "open_files s' = (open_files s4)(nat (int k + 1 - 1) := None)"
    "kheap_allocs s' = kheap_allocs s4 - {(d, 1), (p, 1), (f, 1), (c, 1)}" "mem s' = mem s4"
    "rest s' = rest (s4\<lparr>file_descriptors := (file_descriptors s4)[nat (int k + 1 - 1) := 0]\<rparr>)" "heap_area s' = heap_area s4"
    by (rule fclose_ok [OF conjunct1 [OF ok4] fd(1,2) at4 ff4], rule that)
  have run: "process_load_binary fat16_objects filename P s = Inr (0, s')"
  proof -
    obtain fl where st: "fstat fat16_objects (int k + 1) \<lparr>stat_flags = 0, stat_filesize = 0\<rparr> s1 =
        Inr (0, \<lparr>stat_flags = fl, stat_filesize = word_of_nat n\<rparr>, s1)"
      using fstat_ok [OF o(2) fd o(4)] size1 by fastforce
    show ?thesis
      unfolding process_load_binary_def Let_def o(1) bnd.simps prod.case
      using st q(1,3) r(1) z(1) by (simp add: GUAVAOS_ALL_OK_def s4_def)
  qed
  have "rest s' = rest s"
  proof -
    have "(file_descriptors s)[k := 0] = file_descriptors s"
      using first_zero_Some [OF slot(1)] by (simp add: list_update_same_conv)
    then have "rest s' = (rest s)\<lparr>file_descriptors := file_descriptors s\<rparr>"
      using z(6) g4(2) h4(2) r2 o(13) g1(6) g2(8) by simp
    also have "\<dots> = rest s" by (simp add: rest_def)
    finally show ?thesis .
  qed
  moreover have L: "kheap_allocs s' = insert (q, B) (kheap_allocs s \<union> page_allocs ps)"
  proof -
    have "q \<noteq> x" if "x \<in> {d, p, f, c}" for x using q(5) live1 [OF that] by blast
    moreover have "x \<notin> set ps" "(x, 1) \<notin> kheap_allocs s" if "x \<in> {d, p, f, c}" for x using o(9,11) that by auto
    ultimately show ?thesis unfolding z(4) a4(2) q(4) o(8) by (auto simp: page_allocs_image)
  qed
  moreover have "extends (X \<union> binary_words P) s s'"
  proof -
    have "mem s' a = mem s a" if "kept s a" "a \<notin> X \<union> binary_words P" for a
      using kp4 [OF extends_kept [OF e1 that(1)] that(2)] extends_mem [OF e2 that(1)] z(5) by simp
    moreover have "heap_area s' = heap_area s" using z(7) a4(3) e2 by (simp add: extends_def)
    moreover have "kheap_allocs s \<subseteq> kheap_allocs s'" unfolding L by blast
    ultimately show ?thesis using z(2) by (simp add: extends_def files_ok_def)
  qed
  moreover have "distinct (q # ps)" "\<forall>x \<in> set (q # ps). \<forall>m. (x, m) \<notin> kheap_allocs s"
  proof -
    have "q \<notin> set ps" using q(5) o(8) by (auto simp: page_allocs_image)
    then show "distinct (q # ps)" using o(9) by simp
    show "\<forall>x \<in> set (q # ps). \<forall>m. (x, m) \<notin> kheap_allocs s" using q(5) o(8,11) by auto
  qed
  moreover have "load32 (mem s') (P + P_PTR) = q" "load32 (mem s') (P + P_SIZE) = word_of_nat n"
    unfolding z(5) s4_def st32_state by (rule binary_stores)+
  moreover have "bytes_at (mem s') q n = map (disk_byte img) [pos..<pos + n]"
  proof -
    have "mem s' (q + word_of_nat j) = m (q + word_of_nat j)" if "j < n" for j
    proof -
      have "in_block q B (q + word_of_nat j)" by (rule in_block_add [OF inv2 qlive]) (use that B in simp)
      moreover have "(P, 2) \<in> kheap_allocs s2" "q \<noteq> P" using P q(4,5) o(8) by auto
      ultimately have "q + word_of_nat j \<notin> binary_words P"
        using km.allocs_apart [OF inv2 qlive] binary_words_block [OF inv2] by blast
      then show ?thesis by (simp add: z(5) s4_def binary_stores(3))
    qed
    then have "bytes_at (mem s') q n = bytes_at m q n" by (simp add: bytes_at_eq_iff)
    then show ?thesis using r(2) by simp
  qed
  ultimately show thesis using that [OF run z(2)] o(10) unfolding X_def B_def by blast
qed

end
