(* ===== verification/ProcessMap.thy ===== *)
theory ProcessMap
  imports ProcessLoad
begin

text \<open>
  Mapping a process into the space of its task (\<^verbatim>\<open>process_map_memory\<close> in \<^verbatim>\<open>task/process.c\<close>): binary and stack
  appear at their virtual addresses and every other page, and every other task, keeps its view. Then the fields that
  loading stores in \<^verbatim>\<open>struct process\<close>, and what those stores leave alone.
\<close>

section \<open>Mapping into the space of a task\<close>

text \<open>An operation that changes, of the tasks' pages, only the tables of one space, and keeps that space's shape.\<close>

lemma tasks_inv_one_space:
  assumes inv: "tasks_inv s ts" and t: "t \<in> set ts" and h: "kheap_inv s'" "\<And>p. (p, 1) \<in> kheap_allocs s \<Longrightarrow> (p, 1) \<in> kheap_allocs s'"
    and g: "task_head s' = task_head s" "task_tail s' = task_tail s" "current_task s' = current_task s"
    and out: "\<And>p a. p \<in> set (all_blocks s ts) \<Longrightarrow> p \<notin> set (space_blocks (mem s) (get s t PAGE_DIRECTORY)) \<Longrightarrow>
      in_page p a \<Longrightarrow> mem s' a = mem s a"
    and bt: "space_blocks (mem s') (get s t PAGE_DIRECTORY) = space_blocks (mem s) (get s t PAGE_DIRECTORY)"
    and pt: "space_present (mem s') (get s t PAGE_DIRECTORY)"
  shows "tasks_inv s' ts" "linked_back s' ts = linked_back s ts"
    "\<And>u f. u \<in> set ts \<Longrightarrow> f < 1024 \<Longrightarrow> get s' u f = get s u f"
    "\<And>u v. u \<in> set ts \<Longrightarrow> u \<noteq> t \<Longrightarrow> page_aligned v \<Longrightarrow>
       space_view (mem s') (get s u PAGE_DIRECTORY) v = space_view (mem s) (get s u PAGE_DIRECTORY) v"
    "\<And>u. u \<in> set ts \<Longrightarrow> task_blocks s' u = task_blocks s u"
proof -
  let ?c = "get s t PAGE_DIRECTORY"
  note tk = tasks_inv_task [OF inv] and hi = tasks_inv_heap [OF inv] and q = tasks_inv_queue [OF inv]
  have mine: "p \<in> set (all_blocks s ts)" if "u \<in> set ts" "p \<in> insert u (set (space_blocks (mem s) (get s u PAGE_DIRECTORY)))" for u p
    using that by (auto simp: set_all_blocks task_blocks_def)
  have gets: "get s' u f = get s u f" if "u \<in> set ts" "f < 1024" for u f
    unfolding get_def by (intro ldw_cong [OF tk(3) [OF that(1)] that(2)] out [of u]) (use mine that(1) tk(5) [OF t] in auto)
  then show "\<And>u f. u \<in> set ts \<Longrightarrow> f < 1024 \<Longrightarrow> get s' u f = get s u f" by blast
  have dir: "get s' u PAGE_DIRECTORY = get s u PAGE_DIRECTORY" if "u \<in> set ts" for u by (rule gets [OF that]) simp
  have same: "mem s' a = mem s a"
    if "u \<in> set ts" "u \<noteq> t" "p \<in> set (space_blocks (mem s) (get s u PAGE_DIRECTORY))" "in_page p a" for u p a
    by (rule out [OF mine [OF that(1)] _ that(4)]) (use that(3) tk(6) [OF that(1) t that(2)] in blast)+
  have sp: "space_blocks (mem s') (get s u PAGE_DIRECTORY) = space_blocks (mem s) (get s u PAGE_DIRECTORY)"
    "page_aligned v \<Longrightarrow> space_view (mem s') (get s u PAGE_DIRECTORY) v = space_view (mem s) (get s u PAGE_DIRECTORY) v"
    "space_present (mem s') (get s u PAGE_DIRECTORY) = space_present (mem s) (get s u PAGE_DIRECTORY)"
    if "u \<in> set ts" "u \<noteq> t" for u v
    by (rule space_kept [OF hi tk(1) [OF that(1)]], rule same [OF that], assumption+)+
  then show "\<And>u v. u \<in> set ts \<Longrightarrow> u \<noteq> t \<Longrightarrow> page_aligned v \<Longrightarrow>
       space_view (mem s') (get s u PAGE_DIRECTORY) v = space_view (mem s) (get s u PAGE_DIRECTORY) v" by blast
  have tb: "task_blocks s' u = task_blocks s u" if "u \<in> set ts" for u
    using sp(1) [OF that] bt unfolding task_blocks_def dir [OF that] by (cases "u = t") auto
  then show "\<And>u. u \<in> set ts \<Longrightarrow> task_blocks s' u = task_blocks s u" by blast
  have b: "all_blocks s' ts = all_blocks s ts" using tb by (simp add: all_blocks_def cong: map_cong)
  have "queue s' ts" using q gets g by (auto simp: queue_def)
  moreover have "space_present (mem s') (get s' u PAGE_DIRECTORY)" if "u \<in> set ts" for u
    using tk(4) [OF that] sp(3) [OF that] pt unfolding dir [OF that] by (cases "u = t") auto
  ultimately show "tasks_inv s' ts" using inv b h unfolding tasks_inv_def by auto
  show "linked_back s' ts = linked_back s ts" using gets by (auto simp: linked_back_def)
qed

lemma tasks_inv_map:
  assumes inv: "tasks_inv s ts" and t: "t \<in> set ts" and fr: "space_frame s s' (get s t PAGE_DIRECTORY)"
  shows "tasks_inv s' ts" "linked_back s' ts = linked_back s ts"
    "\<And>u f. u \<in> set ts \<Longrightarrow> f < 1024 \<Longrightarrow> get s' u f = get s u f"
    "\<And>u v. u \<in> set ts \<Longrightarrow> u \<noteq> t \<Longrightarrow> page_aligned v \<Longrightarrow>
       space_view (mem s') (get s u PAGE_DIRECTORY) v = space_view (mem s) (get s u PAGE_DIRECTORY) v"
    "\<And>u. u \<in> set ts \<Longrightarrow> task_blocks s' u = task_blocks s u"
proof -
  note tk = tasks_inv_task [OF inv] and hi = tasks_inv_heap [OF inv]
  note ok = tk(1) [OF t]
  obtain m' where s': "s' = s\<lparr>mem := m'\<rparr>" using fr by (auto simp: space_frame_def)
  have out: "mem s' a = mem s a"
    if "p \<in> set (all_blocks s ts)" "p \<notin> set (space_blocks (mem s) (get s t PAGE_DIRECTORY))" "in_page p a" for p a
  proof -
    have "page_aligned p" using inv that(1) live_page_aligned [OF hi] by (auto simp: tasks_inv_def)
    then have "\<not> in_page x a" if "x \<in> set (space_blocks (mem s) (get s t PAGE_DIRECTORY))" for x
      using in_page_unique [OF space_ok_pages(1) [OF hi ok that] _ _ \<open>in_page p a\<close>] \<open>p \<notin> _\<close> that by blast
    then show ?thesis using fr by (auto simp: space_frame_def space_blocks_def)
  qed
  have h: "kheap_inv s'" "\<And>p. (p, 1) \<in> kheap_allocs s \<Longrightarrow> (p, 1) \<in> kheap_allocs s'"
    and g: "task_head s' = task_head s" "task_tail s' = task_tail s" "current_task s' = current_task s" using hi by (simp_all add: s')
  have bt: "space_blocks (mem s') (get s t PAGE_DIRECTORY) = space_blocks (mem s) (get s t PAGE_DIRECTORY)" by (rule space_frame_keeps(3) [OF hi ok fr])
  have pt: "space_present (mem s') (get s t PAGE_DIRECTORY)" using space_frame_present(1) [OF hi ok fr] tk(4) [OF t] by simp
  show "tasks_inv s' ts" "linked_back s' ts = linked_back s ts"
    "\<And>u f. u \<in> set ts \<Longrightarrow> f < 1024 \<Longrightarrow> get s' u f = get s u f"
    "\<And>u v. u \<in> set ts \<Longrightarrow> u \<noteq> t \<Longrightarrow> page_aligned v \<Longrightarrow>
       space_view (mem s') (get s u PAGE_DIRECTORY) v = space_view (mem s) (get s u PAGE_DIRECTORY) v"
    "\<And>u. u \<in> set ts \<Longrightarrow> task_blocks s' u = task_blocks s u" 
    by (rule tasks_inv_one_space [OF inv t h(1) _ g _ bt pt]; ((rule h(2), assumption) | (rule out, assumption+) | assumption))+
qed

text \<open>The end of the pages of a buffer.\<close>

lemma unat_align_end:
  assumes "page_aligned q" "0 < n" "n < 2 ^ 31" "unat q + 4096 * blocks_of (word_of_nat n) < 2 ^ 32"
  shows "unat (paging_align_address (q + word_of_nat n)) = unat q + 4096 * blocks_of (word_of_nat n)"
    "page_aligned (paging_align_address (q + word_of_nat n))" "q \<le> paging_align_address (q + word_of_nat n)"
proof -
  let ?e = "q + word_of_nat n"
  have un: "unat (word_of_nat n :: u32) = n" using assms(3) by (intro unat_of_nat32) simp
  define B where "B = blocks_of (word_of_nat n)"
  have B: "B = (n + 4095) div 4096" by (simp add: B_def blocks_of_def un)
  have "n \<le> 4096 * B" by (simp add: B)
  then have "unat q + n < 2 ^ 32" using assms(4) unfolding B_def [symmetric] by linarith
  then have e: "unat ?e = unat q + n" using un by (simp add: unat_plus_if')
  obtain c where c: "unat q = 4096 * c" using assms(1) by (auto simp: page_aligned_def)
  have m: "unat (?e mod 4096) = n mod 4096" by (simp add: unat_mod e c)
  then have z: "?e mod 4096 = 0 \<longleftrightarrow> n mod 4096 = 0" by (metis unsigned_eq_0_iff)
  show u: "unat (paging_align_address ?e) = unat q + 4096 * blocks_of (word_of_nat n)"
  proof (cases "n mod 4096 = 0")
    case True
    then have "4096 * B = n" by (auto simp: B)
    with True z e show ?thesis by (simp add: paging_align_address_def paging_consts B_def [symmetric])
  next
    case False
    define x r where "x = n div 4096" and "r = n mod 4096"
    have xr: "n = 4096 * x + r" "0 < r" "r < 4096" using False by (simp_all add: x_def r_def)
    then have "B = Suc x" by (simp add: B)
    then have k: "n + 4096 - n mod 4096 = 4096 * B" using xr by simp
    have r: "n mod 4096 \<le> 4096" by simp
    have s: "?e + 4096 - ?e mod 4096 = ?e - ?e mod 4096 + 4096" by simp
    have "unat (?e - ?e mod 4096) = unat q + n - n mod 4096" using m e by (simp add: unat_sub_if')
    moreover have "unat q + n - n mod 4096 + 4096 = unat q + 4096 * B" using k r by linarith
    ultimately have "unat (?e + 4096 - ?e mod 4096) = unat q + 4096 * B"
      unfolding s using assms(4) by (simp add: unat_plus_if' B_def)
    with False z show ?thesis by (simp add: paging_align_address_def paging_consts B_def [symmetric])
  qed
  show "page_aligned (paging_align_address ?e)" "q \<le> paging_align_address ?e"
    using assms(1) by (simp_all add: page_aligned_def word_le_nat_alt u c)
qed


lemma user_flags: "PAGING_IS_PRESENT OR PAGING_ACCESS_FROM_ALL OR PAGING_IS_WRITABLE = 7"
  by (simp add: paging_consts)

lemma stack_end: "GUAVAOS_PROGRAM_VIRTUAL_STACK_ADDRESS_END = 0x3FB000" "page_aligned 0x3FB000" "page_aligned 0x400000"
  by (simp_all add: GUAVAOS_PROGRAM_VIRTUAL_STACK_ADDRESS_END_def GUAVAOS_USER_PROGRAM_STACK_SIZE_def task_consts page_aligned_def)

lemma paging_map_to_buffer:
  assumes "kheap_inv s" "space_ok chunk s" "page_aligned v" "page_aligned q" "0 < n" "n < 2 ^ 31"
    "unat q + 4096 * blocks_of (word_of_nat n) < 2 ^ 32"
  obtains s' where "paging_map_to chunk v q (paging_align_address (q + word_of_nat n)) fl s = (0, s')" "space_frame s s' chunk"
    "\<And>w. page_aligned w \<Longrightarrow> space_view (mem s') chunk w =
       (if unat (w - v) < 4096 * blocks_of (word_of_nat n) then (q + (w - v)) OR fl else space_view (mem s) chunk w)"
proof -
  let ?e = "paging_align_address (q + word_of_nat n)"
  note e = unat_align_end [OF assms(4-7)]
  have "unat (?e - q) = 4096 * blocks_of (word_of_nat n)" using e(3) by (simp add: unat_sub e(1))
  then have "w - v < ?e - q \<longleftrightarrow> unat (w - v) < 4096 * blocks_of (word_of_nat n)" for w
    by (simp add: word_less_nat_alt)
  then show thesis
    using paging_map_to_ok [OF assms(1-4) e(2,3), of fl] that by auto
qed

lemma process_map_memory_ok:
  fixes s :: "'a procstate_scheme"
  assumes inv: "tasks_inv s ts" and t: "t \<in> set ts"
    and P: "(P, 2) \<in> kheap_allocs s" "load32 (mem s) (P + P_TASK) = t" "load32 (mem s) (P + P_PTR) = q"
      "load32 (mem s) (P + P_SIZE) = word_of_nat n" "load32 (mem s) (P + P_STACK) = stk"
    and q: "page_aligned q" "0 < n" "n < 2 ^ 31" "unat q + 4096 * blocks_of (word_of_nat n) < 2 ^ 32"
    and stk: "page_aligned stk" "unat stk + 16384 < 2 ^ 32"
  obtains s' where "process_map_memory P s = (0, s')" "space_frame s s' (get s t PAGE_DIRECTORY)"
    "\<And>w. page_aligned w \<Longrightarrow> space_view (mem s') (get s t PAGE_DIRECTORY) w =
      (if unat (w - 0x3FB000) < 16384 then (stk + (w - 0x3FB000)) OR 7
       else if unat (w - 0x400000) < 4096 * blocks_of (word_of_nat n) then (q + (w - 0x400000)) OR 7
       else space_view (mem s) (get s t PAGE_DIRECTORY) w)"
proof -
  let ?c = "get s t PAGE_DIRECTORY"
  note hi = tasks_inv_heap [OF inv] and ok = tasks_inv_task(1) [OF inv t]
  obtain s1 where s1: "paging_map_to ?c 0x400000 q (paging_align_address (q + word_of_nat n)) 7 s = (0, s1)"
    "space_frame s s1 ?c" "\<And>w. page_aligned w \<Longrightarrow> space_view (mem s1) ?c w =
       (if unat (w - 0x400000) < 4096 * blocks_of (word_of_nat n) then (q + (w - 0x400000)) OR 7 else space_view (mem s) ?c w)"
    by (rule paging_map_to_buffer [OF hi ok stack_end(3) q, of 7], rule that)
  note k1 = space_frame_keeps [OF hi ok s1(2)] and m1 = tasks_inv_map [OF inv t s1(2)]
  have four: "(0 :: nat) < 16384" "(16384 :: nat) < 2 ^ 31" "blocks_of (word_of_nat 16384) = 4"
    by (simp_all add: blocks_of_def)
  have b4: "unat stk + 4096 * blocks_of (word_of_nat 16384) < 2 ^ 32" using stk(2) four(3) by simp
  obtain s2 where s2: "paging_map_to ?c 0x3FB000 stk (paging_align_address (stk + word_of_nat 16384)) 7 s1 = (0, s2)"
    "space_frame s1 s2 ?c" "\<And>w. page_aligned w \<Longrightarrow> space_view (mem s2) ?c w =
       (if unat (w - 0x3FB000) < 4096 * blocks_of (word_of_nat 16384) then (stk + (w - 0x3FB000)) OR 7 else space_view (mem s1) ?c w)"
    by (rule paging_map_to_buffer [OF k1(1,2) stack_end(2) stk(1) four(1,2) b4, of 7], rule that)
  have word: "load32 (mem s1) (P + word_of_nat j) = load32 (mem s) (P + word_of_nat j)" if "j + 4 \<le> 8192" for j
  proof (rule load32_kept)
    fix b
    assume "b \<in> word_at (P + word_of_nat j)"
    then have b: "in_block P 2 b" by (rule word_in_block [OF hi P(1), rotated]) (use that in simp)
    have "\<not> in_page p b" if p: "p \<in> set (space_blocks (mem s) ?c)" for p
      using km.allocs_apart [OF hi P(1) space_ok_pages(3) [OF hi ok p] b] in_block_page [OF space_ok_pages(1) [OF hi ok p]] by auto
    then show "mem s1 b = mem s b" using s1(2) by (simp add: space_frame_def space_blocks_def)
  qed
  have w: "load32 (mem s1) (P + P_STACK) = stk" "load32 (mem s1) (P + P_TASK) = t"
    using word [of 4216] word [of 112] P(2,5) by (simp_all add: process_layout)
  have c1: "get s1 t PAGE_DIRECTORY = ?c" using m1(3) [OF t, of PAGE_DIRECTORY] by simp
  have st: "GUAVAOS_USER_PROGRAM_STACK_SIZE = (word_of_nat 16384 :: u32)" by (simp add: GUAVAOS_USER_PROGRAM_STACK_SIZE_def)
  have "process_map_binary P s = (0, s1)"
    using s1(1) P by (simp add: process_map_binary_def Let_def user_flags task_consts)
  then have run: "process_map_memory P s = (0, s2)"
    using s2(1) w c1 by (simp add: process_map_memory_def Let_def user_flags stack_end(1) st)
  have fr: "space_frame s s2 ?c" by (rule space_frame_trans [OF hi ok s1(2) s2(2)])
  show thesis by (rule that [OF run fr]) (simp add: s1(3) s2(3) four(3) [simplified])
qed

text \<open>What the processor makes of such a mapping.\<close>

lemma mmu_walk_mapped:
  assumes "page_aligned (load32 m chunk)" "space_present m chunk"
    and "space_view m chunk (page_base v) = (q + (page_base v - w)) OR 7" "page_aligned q" "page_aligned w"
  shows "mmu_walk m (load32 m chunk) v = Some (q + (v - w))"
proof -
  define x where "x = q + (page_base v - w)"
  have x: "page_aligned x" unfolding x_def by (intro page_aligned_add page_aligned_diff assms(4,5) page_base_aligned)
  have "bit (x OR 7) 0" by (simp add: bit_simps)
  then have p: "(x OR 7) AND 1 \<noteq> 0" by (simp add: and_one_eq odd_iff_mod_2_eq_one [symmetric] bit_0)
  have m: "(x OR 7) AND 0xfffff000 = x"
  proof -
    have "(x OR 7) AND 0xfffff000 = (x AND 0xfffff000) OR (7 AND 0xfffff000)" by (rule bit.conj_disj_distrib2)
    then show ?thesis by (simp add: aligned_mask [OF x])
  qed
  have "mmu_walk m (load32 m chunk) v = Some (x + (v AND 0xfff))"
    using p m by (simp add: mmu_walk_view [OF assms(1,2)] assms(3) x_def)
  also have "x + (v AND 0xfff) = q + (page_base v + (v AND 0xfff) - w)" by (simp add: x_def)
  finally show ?thesis by (simp only: page_base_offset)
qed

section \<open>The fields that loading stores in \<^verbatim>\<open>struct process\<close>\<close>

lemma word_at_offset:
  assumes "a \<in> word_at (P + word_of_nat c)" "c < 2 ^ 31"
  shows "c \<le> unat (a - P)" "unat (a - P) < c + 4"
proof -
  have "\<exists>k \<in> {0, 1, 2, 3}. a - P = word_of_nat (c + k)"
    using assms(1) by (auto simp: word_at_def ac_simps)
  then obtain k where k: "k \<in> {0, 1, 2, 3}" "a - P = word_of_nat (c + k)" by blast
  have "unat (word_of_nat (c + k) :: u32) = c + k" by (rule unat_of_nat32) (use k(1) assms(2) in auto)
  then show "c \<le> unat (a - P)" "unat (a - P) < c + 4" using k by auto
qed

lemma process_stores:
  fixes m :: memory and stk :: u32 and w :: u16
  assumes "107 \<le> unat (P + P_FILENAME - src)"
  defines "m' \<equiv> store16 (store32 (strncpy (P + P_FILENAME) src (int GUAVAOS_MAX_PATH) m) (P + P_STACK) stk) (P + P_ID) w"
  shows "load16 m' (P + P_ID) = w" "load32 m' (P + P_STACK) = stk"
    "cstr_at m' (P + P_FILENAME) (cstr_upto m src 107)"
    "110 \<le> unat (a - P) \<Longrightarrow> unat (a - P) < 4216 \<or> 4220 \<le> unat (a - P) \<Longrightarrow> m' a = m a"
proof -
  let ?m = "strncpy (P + P_FILENAME) src (int GUAVAOS_MAX_PATH) m" and ?f = "P + P_FILENAME"
  have off: "store16 (store32 ?m (P + P_STACK) stk) (P + P_ID) w b = store32 ?m (P + P_STACK) stk b"
    if "2 \<le> unat (b - P)" for b
    by (rule store16_other) (use that in \<open>auto simp: process_layout\<close>)
  have stack: "P + P_STACK = P + word_of_nat 4216" by (simp add: process_layout)
  have off2: "store32 ?m (P + P_STACK) stk b = ?m b" if "unat (b - P) < 4216 \<or> 4220 \<le> unat (b - P)" for b
    by (rule store32_outside) (use that word_at_offset [of b P 4216] in \<open>auto simp: stack simp del: of_nat_numeral\<close>)
  have cnt: "nat (int GUAVAOS_MAX_PATH - 1) = 107" "int GUAVAOS_MAX_PATH < 2 ^ 31" by (simp_all add: GUAVAOS_MAX_PATH_def)
  note s = strncpy_result [of "int GUAVAOS_MAX_PATH" ?f src, unfolded cnt(1), OF assms(1) cnt(2), of m]
  have len: "length (cstr_upto m src 107) \<le> 107" by (rule length_cstr_upto)
  show "load16 m' (P + P_ID) = w" by (simp add: m'_def)
  show "load32 m' (P + P_STACK) = stk"
  proof -
    have "load32 m' (P + P_STACK) = load32 (store32 ?m (P + P_STACK) stk) (P + P_STACK)"
    proof (rule load32_kept)
      fix b
      assume "b \<in> word_at (P + P_STACK)"
      then show "m' b = store32 ?m (P + P_STACK) stk b"
        unfolding m'_def using word_at_offset [of b P 4216] by (intro off) (simp add: stack del: of_nat_numeral)
    qed
    then show ?thesis by simp
  qed
  show "cstr_at m' ?f (cstr_upto m src 107)"
  proof (rule cstr_at_mem_cong [OF s(1)])
    fix j
    assume "j \<le> length (cstr_upto m src 107)"
    then have j: "j \<le> 107" using len by simp
    have "unat (word_of_nat (2 + j) :: u32) = 2 + j" by (rule unat_of_nat32) (use j in simp)
    then have u: "unat (?f + word_of_nat j - P) = 2 + j" by (simp add: process_layout)
    show "m' (?f + word_of_nat j) = ?m (?f + word_of_nat j)"
      unfolding m'_def using off [of "?f + word_of_nat j"] off2 [of "?f + word_of_nat j"] u j by simp
  qed
  show "m' a = m a" if "110 \<le> unat (a - P)" "unat (a - P) < 4216 \<or> 4220 \<le> unat (a - P)"
  proof -
    have e: "a - ?f = (a - P) - 2" by (simp add: process_layout)
    have "unat (a - ?f) = unat (a - P) - 2" unfolding e using that(1) by (simp add: unat_sub word_le_nat_alt)
    then have "length (cstr_upto m src 107) < unat (a - ?f)" using that(1) len by simp
    then have "?m a = m a" by (rule s(2))
    then show ?thesis unfolding m'_def using off [of a] off2 [of a] that by simp
  qed
qed

text \<open>Frames of what loading relies on.\<close>

lemma root_file_frame:
  fixes s s' :: "'a filestate_scheme"
  assumes "parse_frame {} s s'" "root_file s dir name i img pos n"
  shows "root_file s' dir name i img pos n" "cluster_stream s' = cluster_stream s"
proof -
  have f: "volume s dir" "only_match dir name i" "mem s (root_entry s i + I_ATTRIBUTE) AND FAT_FILE_SUBDIRECTORY = 0"
    "file_on_disk s img (root_entry s i) pos n" "driver_kept s" using assms(2) by (simp_all add: root_file_def)
  note v = volume_frame [OF assms(1) f(1)]
  have st: "heap_step s s'" using assms(1) by (simp add: parse_frame_def)
  then have g: "fs_private s' = fs_private s" "disk_at s' = disk_at s" "sector_size s' = sector_size s" "device s' = device s"
    by (auto simp: heap_step_def)
  note d = driver_frame [OF extends_frame [OF assms(1)] f(5) g(1-3)]
  have e: "kept s (root_entry s i + word_of_nat j)" if "j < 32" for j
    unfolding root_entry_def
    by (rule entry_kept [OF _ _ that, of _ _ "length dir"]) (use f(1,2) in \<open>simp_all add: volume_def only_match_def\<close>)
  have "bytes_at (mem s') (root_entry s i) 32 = bytes_at (mem s) (root_entry s i) 32"
    using frame_kept [OF assms(1) e] by (simp add: bytes_at_eq_iff)
  note c = entry_copy [OF this]
  have "mem s' (root_entry s i + I_ATTRIBUTE) = mem s (root_entry s i + I_ATTRIBUTE)"
    using frame_kept [OF assms(1) e [of 11]] by (simp add: I_ATTRIBUTE_def)
  then show "root_file s' dir name i img pos n"
    using f v by (simp add: root_file_def file_on_disk_def d g(4) c)
  show "cluster_stream s' = cluster_stream s" by (rule d(2))
qed

lemma root_path_frame:
  assumes "parse_frame {} s s'" "root_path s filename name"
  shows "root_path s' filename name"
proof -
  have p: "cstr_at (mem s) filename (48 # 58 # 47 # name)" "part_names [name]" "length name \<le> 105"
    "\<forall>j \<le> length name + 3. filename + word_of_nat j \<notin> heap_area s" using assms(2) by (simp_all add: root_path_def)
  have "cstr_at (mem s') filename (48 # 58 # 47 # name)"
  proof (rule cstr_at_mem_cong [OF p(1)])
    fix j
    assume "j \<le> length (48 # 58 # 47 # name)"
    then have "kept s (filename + word_of_nat j)" using p(4) by (simp add: kept_def)
    then show "mem s' (filename + word_of_nat j) = mem s (filename + word_of_nat j)" using frame_kept [OF assms(1)] by simp
  qed
  moreover have "heap_area s' = heap_area s" using assms(1) by (simp add: parse_frame_def)
  ultimately show ?thesis using p by (simp add: root_path_def)
qed

lemma extends_drop:
  assumes "extends X s s1" "extends (X \<union> Y) s1 s2" "\<And>a. a \<in> Y \<Longrightarrow> \<not> kept s a"
  shows "extends X s s2"
  using assms extends_kept [OF assms(1)] unfolding extends_def by (metis Un_iff order_trans)

lemma block_not_kept:
  assumes "kheap_inv s1" "(P, n) \<in> kheap_allocs s1" "heap_area s1 = heap_area s" "kheap_allocs s \<subseteq> kheap_allocs s1"
    "\<forall>k. (P, k) \<notin> kheap_allocs s" "in_block P n a"
  shows "\<not> kept s a"
  using kept_not_new [OF assms(1-4)] assms(5,6) by blast

end
