(* ===== verification/ProcessProps.thy ===== *)
theory ProcessProps
  imports ProcessMap
begin

text \<open>
  Loading a program from end to end (\<^verbatim>\<open>process_load\<close> in \<^verbatim>\<open>task/process.c\<close>), over the file layer, the heap, the page
  tables and the run queue: the new task sees the bytes of the file at the program's virtual address and a cleared
  stack, and the tasks and files that were there are as before.
\<close>

section \<open>From the path to the prepared process\<close>

lemma extends_mono: "extends X s s' \<Longrightarrow> X \<subseteq> Y \<Longrightarrow> extends Y s s'"
  by (auto simp: extends_def)

lemma extends_word:
  assumes "extends {} s s'" "kheap_inv s" "(p, n) \<in> kheap_allocs s" "j + 4 \<le> 4096 * n"
  shows "load32 (mem s') (p + word_of_nat j) = load32 (mem s) (p + word_of_nat j)"
proof (rule load32_kept, rule extends_mem [OF assms(1)])
  fix b
  assume "b \<in> word_at (p + word_of_nat j)"
  then have "in_block p n b" by (rule word_in_block [OF assms(2-4)])
  then show "kept s b" using assms(3) by (auto simp: kept_def)
qed simp

text \<open>A new \<^verbatim>\<open>struct process\<close>, cleared.\<close>

lemma process_alloc:
  fixes s :: "'a procstate_scheme"
  assumes ok: "files_ok s" and room: "card (kheap_allocs s) + 1 < kheap_vacant s"
  obtains P s1 where "kzalloc process_sizeof s = Inr (P, s1)" "P \<noteq> 0" "extends {} s (process_init P s1)"
    "heap_step s (process_init P s1)" "kheap_allocs (process_init P s1) = insert (P, 2) (kheap_allocs s)"
    "\<forall>k. (P, k) \<notin> kheap_allocs s" "kheap_vacant s = kheap_vacant (process_init P s1) + 2"
    "card (kheap_allocs (process_init P s1)) = card (kheap_allocs s) + 1"
    "load32 (mem (process_init P s1)) (P + P_TASK) = 0"
proof -
  have inv: "kheap_inv s" using ok by (simp add: files_ok_def)
  have sz: "valid_size process_sizeof" "blocks_of process_sizeof = 2" by (simp_all add: valid_size_def process_sizeof_def blocks_of_def)
  have "(card (kheap_allocs s) + 1) * (blocks_of process_sizeof - 1) < kheap_vacant s" using room by (simp add: sz)
  from extends_alloc [OF inv sz(1) this] obtain P s1 where P: "kzalloc process_sizeof s = Inr (P, s1)" "extends {} s s1" "P \<noteq> 0"
    "kheap_allocs s1 = insert (P, 2) (kheap_allocs s)" "\<forall>k. (P, k) \<notin> kheap_allocs s" "heap_step s s1" unfolding sz(2) by metis
  define t where "t = process_init P s1"
  have live: "(P, 2) \<in> kheap_allocs s1" using P(4) by simp
  have inv1: "kheap_inv s1" using P(2) by (simp add: extends_def)
  have clear: "mem t a = (if unat (a - P) < 5256 then 0 else mem s1 a)" for a
    by (simp add: t_def process_init_def memset_apply process_sizeof_def)
  have et: "extends {} s t"
  proof (rule extends_store [OF P(2) live P(5)])
    fix a
    assume "\<not> in_block P 2 a"
    then have "\<not> unat (a - P) < 5256" using in_block_offset [OF inv1 live, of a] by linarith
    then show "mem t a = mem s1 a" by (simp add: clear)
  qed (simp add: t_def process_init_def)
  have st: "heap_step s t" unfolding t_def process_init_def by (rule heap_step_trans [OF P(6) heap_step_mem])
  have al: "kheap_allocs t = insert (P, 2) (kheap_allocs s)" using P(4) by (simp add: t_def process_init_def)
  have acct: "card (kheap_allocs t) = card (kheap_allocs s) + 1" "kheap_vacant s = kheap_vacant t + 2"
    using extends_accounts [OF inv et, of "{(P, 2)}"] al P(5) by simp_all
  have "load32 (mem t) (P + P_TASK) = 0" by (simp add: load32_def clear process_layout)
  then show thesis using that P(1,3,5) et st al acct unfolding t_def by blast
qed

lemma process_prepare:
  fixes s :: "'a procstate_scheme"
  assumes ok: "files_ok s" and slot: "first_zero (file_descriptors s) = Some k" "k < 511"
    and src: "root_file s dir name i img pos n" and path: "root_path s filename name"
    and mode: "mem s (literal_r s) = 114" "literal_r s \<notin> heap_area s" and low: "\<forall>a \<in> heap_area s. unat a < 2 ^ 31"
    and apart: "\<forall>j e a. open_files s j = Some e \<longrightarrow> in_page e a \<longrightarrow> a \<notin> word_at (cluster_stream s)"
    and room: "(card (kheap_allocs s) + 9) * (blocks_of (word_of_nat n) + 3) + 1036 \<le> kheap_vacant s"
  obtains P q stk s1 s2 s3 where "kzalloc process_sizeof s = Inr (P, s1)" "P \<noteq> 0"
    "process_load_data fat16_objects filename P (process_init P s1) = Inr (0, s2)"
    "kzalloc GUAVAOS_USER_PROGRAM_STACK_SIZE s2 = Inr (stk, s3)" "stk \<noteq> 0"
    "files_ok s3" "rest s3 = rest s" "extends (word_at (cluster_stream s)) s s3"
    "{(P, 2), (q, blocks_of (word_of_nat n)), (stk, 4)} \<subseteq> kheap_allocs s3" "\<forall>x \<in> {P, q, stk}. \<forall>m. (x, m) \<notin> kheap_allocs s"
    "distinct [P, q, stk]" "load32 (mem s3) (P + P_PTR) = q" "load32 (mem s3) (P + P_SIZE) = word_of_nat n"
    "bytes_at (mem s3) q n = map (disk_byte img) [pos..<pos + n]" "\<forall>j < 16384. mem s3 (stk + word_of_nat j) = 0"
    "kheap_vacant s = kheap_vacant s3 + blocks_of (word_of_nat n) + 9"
proof -
  define X where "X = word_at (cluster_stream s)"
  define B where "B = blocks_of (word_of_nat n)"
  define A where "A = card (kheap_allocs s)"
  have inv: "kheap_inv s" using ok by (simp add: files_ok_def)
  have R: "(A + 9) * (B + 3) + 1036 \<le> kheap_vacant s" using room by (simp add: A_def B_def)
  have AB: "(A + 9) * (B + 3) = A * B + 3 * A + 9 * B + 27" by (simp add: algebra_simps)
  have "card (kheap_allocs s) + 1 < kheap_vacant s" using R AB by (simp add: A_def [symmetric])
  then obtain P s1 where P: "kzalloc process_sizeof s = Inr (P, s1)" "P \<noteq> 0" "extends {} s (process_init P s1)"
    "heap_step s (process_init P s1)" "kheap_allocs (process_init P s1) = insert (P, 2) (kheap_allocs s)"
    "\<forall>k. (P, k) \<notin> kheap_allocs s" "kheap_vacant s = kheap_vacant (process_init P s1) + 2"
    "card (kheap_allocs (process_init P s1)) = card (kheap_allocs s) + 1"
    by (rule process_alloc [OF ok]) blast
  define t where "t = process_init P s1"
  note et = P(3) [folded t_def] and st = P(4) [folded t_def] and new = P(6)
  have Pl: "(P, 2) \<in> kheap_allocs t" using P(5) by (simp add: t_def)
  note fr = extends_step [OF et st]
  note okt = files_ok_grow [OF fr ok] and rt = heap_step_rest [OF st]
  note ft = root_file_frame [OF fr src]
  have gt: "file_descriptors t = file_descriptors s" "literal_r t = literal_r s" "heap_area t = heap_area s"
    using st et by (auto simp: heap_step_def extends_def)
  have modet: "mem t (literal_r t) = 114" "literal_r t \<notin> heap_area t" "\<forall>a \<in> heap_area t. unat a < 2 ^ 31"
    using mode low extends_mem [OF et, of "literal_r s"] by (simp_all add: gt kept_def)
  have slott: "first_zero (file_descriptors t) = Some k" using slot(1) gt by simp
  have apartt: "\<forall>j e a. open_files t j = Some e \<longrightarrow> in_page e a \<longrightarrow> a \<notin> word_at (cluster_stream t)"
    using apart okt ft(2) by simp
  have acct: "card (kheap_allocs t) = A + 1" "kheap_vacant s = kheap_vacant t + 2"
    using P(7,8) by (simp_all add: t_def A_def)
  have roomt: "(card (kheap_allocs t) + 8) * (blocks_of (word_of_nat n) - 1) + 7 < kheap_vacant t"
  proof -
    have "(A + 9) * (B - 1) \<le> (A + 9) * (B + 3)" by (rule mult_le_mono2) simp
    moreover have "card (kheap_allocs t) + 8 = A + 9" using acct(1) by simp
    ultimately show ?thesis unfolding B_def [symmetric] using acct(2) R by (simp only:)
  qed
  obtain s2 q ps where b: "process_load_binary fat16_objects filename P t = Inr (0, s2)" "files_ok s2"
    "rest s2 = rest t" "extends (word_at (cluster_stream t) \<union> binary_words P) t s2"
    "kheap_allocs s2 = insert (q, B) (kheap_allocs t \<union> page_allocs ps)" "length ps = 3"
    "distinct (q # ps)" "\<forall>x \<in> set (q # ps). \<forall>m. (x, m) \<notin> kheap_allocs t"
    "load32 (mem s2) (P + P_PTR) = q" "load32 (mem s2) (P + P_SIZE) = word_of_nat n"
    "bytes_at (mem s2) q n = map (disk_byte img) [pos..<pos + n]"
    by (rule process_load_binary_ok [OF conjunct1 [OF okt] slott slot(2) ft(1) root_path_frame [OF fr path] modet apartt roomt Pl,
          folded B_def], rule that)
  have inv2: "kheap_inv s2" using b(2) by (simp add: files_ok_def)
  have nk: "\<not> kept s a" if "a \<in> binary_words P" for a
  proof (rule block_not_kept)
    show "kheap_inv t" "heap_area t = heap_area s" "kheap_allocs s \<subseteq> kheap_allocs t" using et by (simp_all add: extends_def)
    then show "in_block P 2 a" using binary_words_block Pl that by blast
  qed (fact Pl new)+
  have e2: "extends X s s2"
    by (rule extends_drop [OF extends_mono [OF et] b(4) [unfolded ft(2), folded X_def] nk]) simp
  have acc2: "card (kheap_allocs s2) = A + 5" "kheap_vacant t = kheap_vacant s2 + B + 3"
  proof -
    have d: "distinct ps" "q \<notin> set ps" "q \<noteq> x" if "x \<in> set ps" for x using b(7) that by auto
    note pg = page_allocs_accounts [OF distinct_tl [OF b(7), simplified]]
    have al: "kheap_allocs s2 = kheap_allocs t \<union> insert (q, B) (page_allocs ps)" using b(5) by simp
    have dj: "kheap_allocs t \<inter> insert (q, B) (page_allocs ps) = {}" using b(8) by (auto simp: page_allocs_image)
    have q: "(q, B) \<notin> page_allocs ps" using b(7) by (auto simp: page_allocs_image)
    have invt: "kheap_inv t" using et by (simp add: extends_def)
    show "card (kheap_allocs s2) = A + 5" "kheap_vacant t = kheap_vacant s2 + B + 3"
      using extends_accounts [OF invt b(4) al dj] pg q acct(1) b(6) by simp_all
  qed
  have fs: "valid_size GUAVAOS_USER_PROGRAM_STACK_SIZE" "blocks_of GUAVAOS_USER_PROGRAM_STACK_SIZE = 4"
    "unat GUAVAOS_USER_PROGRAM_STACK_SIZE = 16384"
    by (simp_all add: valid_size_def GUAVAOS_USER_PROGRAM_STACK_SIZE_def blocks_of_def)
  have "(card (kheap_allocs s2) + 1) * (blocks_of GUAVAOS_USER_PROGRAM_STACK_SIZE - 1) < kheap_vacant s2"
    using R AB acc2 acct(2) by (simp add: fs(2))
  from extends_alloc [OF inv2 fs(1) this] obtain stk s3 where k: "kzalloc GUAVAOS_USER_PROGRAM_STACK_SIZE s2 = Inr (stk, s3)"
    "extends {} s2 s3" "stk \<noteq> 0" "kheap_allocs s3 = insert (stk, 4) (kheap_allocs s2)" "\<forall>k. (stk, k) \<notin> kheap_allocs s2"
    "\<And>a. mem s3 a = (if unat (a - stk) < 16384 then 0 else mem s2 a)" "heap_step s2 s3" unfolding fs(2,3) by metis
  have inv3: "kheap_inv s3" using k(2) by (simp add: extends_def)
  have live2: "(P, 2) \<in> kheap_allocs s2" "(q, B) \<in> kheap_allocs s2" using b(5) Pl by auto
  have "files_ok s3" using files_ok_grow [OF extends_step [OF k(2,7)] b(2)] by simp
  moreover have "rest s3 = rest s" using heap_step_rest [OF k(7)] b(3) rt by simp
  moreover have "extends X s s3" by (rule extends_trans [OF e2 extends_mono [OF k(2)]]) simp
  moreover have "{(P, 2), (q, B), (stk, 4)} \<subseteq> kheap_allocs s3" using live2 k(4) by simp
  moreover have "\<forall>x \<in> {P, q, stk}. \<forall>m. (x, m) \<notin> kheap_allocs s"
    using new b(8) k(5) e2 et by (auto simp: extends_def)
  moreover have "distinct [P, q, stk]" using live2 k(5) b(8) Pl by auto
  moreover have "load32 (mem s3) (P + P_PTR) = q" "load32 (mem s3) (P + P_SIZE) = word_of_nat n"
    using extends_word [OF k(2) inv2 live2(1), of 4212] extends_word [OF k(2) inv2 live2(1), of 4220] b(9,10)
    by (simp_all add: process_layout)
  moreover have "bytes_at (mem s3) q n = map (disk_byte img) [pos..<pos + n]"
  proof -
    have "n < 2 ^ 31" using src by (simp add: root_file_def file_on_disk_def)
    then have "unat (word_of_nat n :: u32) = n" by (intro unat_of_nat32) simp
    then have "n \<le> 4096 * B" using blocks_of_covers [of "word_of_nat n"] by (simp add: B_def)
    then have "kept s2 (q + word_of_nat j)" if "j < n" for j
      using in_block_add [OF inv2 live2(2), of j] that live2(2) by (auto simp: kept_def)
    then have "bytes_at (mem s3) q n = bytes_at (mem s2) q n" using extends_mem [OF k(2)] by (simp add: bytes_at_eq_iff)
    then show ?thesis using b(11) by simp
  qed
  moreover have "\<forall>j < 16384. mem s3 (stk + word_of_nat j) = 0"
  proof (intro allI impI)
    fix j :: nat
    assume "j < 16384"
    then have "unat (word_of_nat j :: u32) = j" by (intro unat_of_nat32) simp
    then show "mem s3 (stk + word_of_nat j) = 0" using \<open>j < 16384\<close> by (simp add: k(6))
  qed
  moreover have "kheap_vacant s = kheap_vacant s3 + B + 9"
  proof -
    have al: "kheap_allocs s3 = kheap_allocs s2 \<union> {(stk, 4)}" "kheap_allocs s2 \<inter> {(stk, 4)} = {}" using k(4,5) by auto
    show ?thesis using extends_accounts(2) [OF inv2 k(2) al] acct(2) acc2(2) by simp
  qed
  moreover have "process_load_data fat16_objects filename P (process_init P s1) = Inr (0, s2)"
    using b(1) by (simp add: process_load_data_def t_def)
  ultimately show thesis using that [OF P(1,2) _ k(1,3)] unfolding X_def B_def by blast
qed

text \<open>The stores between the two allocations and \<^verbatim>\<open>task_new\<close>.\<close>

definition process_fill :: "u32 \<Rightarrow> u32 \<Rightarrow> u32 \<Rightarrow> int \<Rightarrow> 'a procstate_scheme \<Rightarrow> 'a procstate_scheme" where
  "process_fill P filename stk slot s =
     (let s4 = s\<lparr>mem := strncpy (P + P_FILENAME) filename (int GUAVAOS_MAX_PATH) (mem s)\<rparr>;
          s5 = st32 (P + P_STACK) stk s4
      in s5\<lparr>mem := store16 (mem s5) (P + P_ID) (word_of_int slot)\<rparr>)"

lemma process_fill_ok:
  fixes s s3 :: "'a procstate_scheme" and stk :: u32 and slot :: int
  assumes ext: "extends X s s3" and P: "(P, 2) \<in> kheap_allocs s3" "\<forall>k. (P, k) \<notin> kheap_allocs s"
    and path: "cstr_at (mem s) filename cs" "length cs \<le> 108"
    and out: "\<forall>j \<le> 108. filename + word_of_nat j \<notin> heap_area s \<union> X"
  defines "s6 \<equiv> process_fill P filename stk slot s3"
  shows "extends X s s6" "rest s6 = rest s3" "kernel_heap s6 = kernel_heap s3"
    "load16 (mem s6) (P + P_ID) = word_of_int slot" "load32 (mem s6) (P + P_STACK) = stk"
    "cstr_at (mem s6) (P + P_FILENAME) (take 107 cs)"
    "load32 (mem s6) (P + P_PTR) = load32 (mem s3) (P + P_PTR)" "load32 (mem s6) (P + P_SIZE) = load32 (mem s3) (P + P_SIZE)"
    "\<And>a. \<not> in_block P 2 a \<Longrightarrow> mem s6 a = mem s3 a"
proof -
  have e: "kheap_inv s3" "heap_area s3 = heap_area s" using ext by (simp_all add: extends_def)
  have far: "107 \<le> unat (P + P_FILENAME - filename)"
  proof (rule ccontr)
    assume "\<not> 107 \<le> unat (P + P_FILENAME - filename)"
    then have "unat (P + P_FILENAME - filename) \<le> 108" by simp
    moreover have "filename + word_of_nat (unat (P + P_FILENAME - filename)) = P + word_of_nat 2" by (simp add: process_layout)
    ultimately have "P + word_of_nat 2 \<notin> heap_area s" using out by (metis UnI1)
    then show False using live_in_area [OF e(1) P(1) in_block_add [OF e(1) P(1), of 2]] e(2) by simp
  qed
  have m6: "mem s6 = store16 (store32 (strncpy (P + P_FILENAME) filename (int GUAVAOS_MAX_PATH) (mem s3)) (P + P_STACK) stk)
      (P + P_ID) (word_of_int slot)" by (simp add: s6_def process_fill_def)
  note st = process_stores [OF far, where m = "mem s3" and stk = stk and w = "word_of_int slot", folded m6]
  show "rest s6 = rest s3" "kernel_heap s6 = kernel_heap s3" by (simp_all add: s6_def process_fill_def Let_def)
  show "load16 (mem s6) (P + P_ID) = word_of_int slot" "load32 (mem s6) (P + P_STACK) = stk" by (rule st)+
  have "cstr_at (mem s3) filename cs"
  proof (rule cstr_at_mem_cong [OF path(1)])
    fix j
    assume "j \<le> length cs"
    then have "filename + word_of_nat j \<notin> heap_area s \<union> X" using out path(2) by simp
    then show "mem s3 (filename + word_of_nat j) = mem s (filename + word_of_nat j)"
      using extends_mem [OF ext] by (simp add: kept_def)
  qed
  then show "cstr_at (mem s6) (P + P_FILENAME) (take 107 cs)" using st(3) by (simp add: cstr_upto_cstr)
  have keep: "load32 (mem s6) (P + word_of_nat c) = load32 (mem s3) (P + word_of_nat c)" if "c = 4212 \<or> c = 4220" for c
  proof (rule load32_kept)
    fix b
    assume "b \<in> word_at (P + word_of_nat c)"
    from word_at_offset [OF this] that show "mem s6 b = mem s3 b" by (intro st(4)) auto
  qed
  show "load32 (mem s6) (P + P_PTR) = load32 (mem s3) (P + P_PTR)" "load32 (mem s6) (P + P_SIZE) = load32 (mem s3) (P + P_SIZE)"
    using keep [of 4212] keep [of 4220] by (simp_all add: process_layout)
  show out: "mem s6 a = mem s3 a" if "\<not> in_block P 2 a" for a
  proof (rule st(4))
    have "8192 \<le> unat (a - P)" using in_block_offset [OF e(1) P(1), of a] that by linarith
    then show "110 \<le> unat (a - P)" "unat (a - P) < 4216 \<or> 4220 \<le> unat (a - P)" by simp_all
  qed
  show "extends X s s6"
    by (rule extends_store [OF ext P out]) (simp_all add: s6_def process_fill_def Let_def)
qed

lemma rest_tasks:
  assumes "rest s' = rest (s :: 'a filestate_scheme)"
  shows "task_head s' = task_head s" "task_tail s' = task_tail s" "current_task s' = current_task s"
  using arg_cong [OF assms, of task_head] arg_cong [OF assms, of task_tail] arg_cong [OF assms, of current_task]
  by (simp_all add: rest_def)

lemma rest_processes:
  assumes "rest s' = rest (s :: 'a procstate_scheme)"
  shows "processes s' = processes s" "current_process s' = current_process s" "literal_r s' = literal_r s"
  using arg_cong [OF assms, of processes] arg_cong [OF assms, of current_process] arg_cong [OF assms, of literal_r]
  by (simp_all add: rest_def)

lemma change_fields:
  assumes "task_change s s'"
  shows "processes s' = processes (s :: 'a procstate_scheme)" "current_process s' = current_process s"
    "file_descriptors s' = file_descriptors s"
  using assms by (auto simp: task_change_def)

section \<open>From the prepared process to its task\<close>

text \<open>Stores outside the blocks of the tasks leave the tasks as they are.\<close>

lemma tasks_inv_outside:
  assumes "tasks_inv s ts" "task_head s' = task_head s" "task_tail s' = task_tail s" "current_task s' = current_task s"
    "kernel_heap s' = kernel_heap s" "\<forall>p a. p \<in> set (all_blocks s ts) \<longrightarrow> in_page p a \<longrightarrow> mem s' a = mem s a"
  shows "tasks_inv s' ts" "\<And>u f. u \<in> set ts \<Longrightarrow> f < 1024 \<Longrightarrow> get s' u f = get s u f"
    "\<And>u v. u \<in> set ts \<Longrightarrow> page_aligned v \<Longrightarrow>
       space_view (mem s') (get s u PAGE_DIRECTORY) v = space_view (mem s) (get s u PAGE_DIRECTORY) v"
    "\<And>u. u \<in> set ts \<Longrightarrow> task_blocks s' u = task_blocks s u"
proof -
  have h: "kheap_inv s'" "\<forall>p. (p, 1) \<in> kheap_allocs s \<longrightarrow> (p, 1) \<in> kheap_allocs s'"
    using tasks_inv_heap [OF assms(1)] assms(5) by (simp_all add: kheap_view_defs)
  note g = tasks_inv_grow [OF assms(1) h(1) assms(2-4) h(2) assms(6)]
  show "tasks_inv s' ts" "\<And>u f. u \<in> set ts \<Longrightarrow> f < 1024 \<Longrightarrow> get s' u f = get s u f"
    "\<And>u v. u \<in> set ts \<Longrightarrow> page_aligned v \<Longrightarrow>
       space_view (mem s') (get s u PAGE_DIRECTORY) v = space_view (mem s) (get s u PAGE_DIRECTORY) v"
    "\<And>u. u \<in> set ts \<Longrightarrow> task_blocks s' u = task_blocks s u" by (fact g)+
qed

lemma blocks_live: "tasks_inv s ts \<Longrightarrow> p \<in> set (all_blocks s ts) \<Longrightarrow> (p, 1) \<in> kheap_allocs s \<and> page_aligned p"
  using live_page_aligned [of s p] by (auto simp: tasks_inv_def)

text \<open>From a prepared process to a task whose space shows the binary and the stack.\<close>

lemma process_task_ok:
  fixes s6 :: "'a procstate_scheme"
  assumes inv: "tasks_inv s6 ts" and room: "1027 \<le> kheap_vacant s6" and low: "\<forall>a \<in> heap_area s6. unat a < 2 ^ 31"
    and live: "{(P, 2), (q, blocks_of (word_of_nat n)), (stk, 4)} \<subseteq> kheap_allocs s6" "P \<notin> set ts" "q \<notin> set ts" "stk \<notin> set ts"
    and w: "load32 (mem s6) (P + P_PTR) = q" "load32 (mem s6) (P + P_SIZE) = word_of_nat n" "load32 (mem s6) (P + P_STACK) = stk"
    and n: "0 < n" "n < 2 ^ 31"
  obtains t s7 s8 where "task_new P s6 = Inr (t, s7)" "process_map_memory P (st32 (P + P_TASK) t s7) = (0, s8)"
    "tasks_inv s8 (ts @ [t])" "t \<notin> set ts" "t \<noteq> 0" "get s8 t T_PROCESS = P" "get s8 t R_IP = 0x400000" "get s8 t R_ESP = 0x3ff000"
    "get s8 t R_CS = 0x1b" "get s8 t R_SS = 0x23" "current_task s8 = (if ts = [] then t else current_task s6)"
    "task_change s6 s8" "load32 (mem s8) (P + P_TASK) = t"
    "\<And>w. page_aligned w \<Longrightarrow> space_view (mem s8) (get s8 t PAGE_DIRECTORY) w =
      (if unat (w - 0x3FB000) < 16384 then (stk + (w - 0x3FB000)) OR 7
       else if unat (w - 0x400000) < 4096 * blocks_of (word_of_nat n) then (q + (w - 0x400000)) OR 7 else w OR 5)"
    "\<And>p k a. (p, k) \<in> kheap_allocs s6 \<Longrightarrow> p \<notin> set ts \<Longrightarrow> in_block p k a \<Longrightarrow> a \<notin> word_at (P + P_TASK) \<Longrightarrow> mem s8 a = mem s6 a"
    "kheap_allocs s6 \<subseteq> kheap_allocs s8" "page_aligned q" "page_aligned stk"
    "\<And>u v. u \<in> set ts \<Longrightarrow> page_aligned v \<Longrightarrow>
       space_view (mem s8) (get s8 u PAGE_DIRECTORY) v = space_view (mem s6) (get s6 u PAGE_DIRECTORY) v"
    "\<And>p k. p \<in> set (task_blocks s8 t) \<Longrightarrow> (p, k) \<notin> kheap_allocs s6"
proof -
  define B where "B = blocks_of (word_of_nat n)"
  have hi: "kheap_inv s6" by (rule tasks_inv_heap [OF inv])
  have bound: "page_aligned p" "unat p + 4096 * k < 2 ^ 32" if "(p, k) \<in> kheap_allocs s6" for p k
  proof -
    have sh: "0 < k" "4096 dvd unat p" "unat p + 4096 * k \<le> 2 ^ 32" using km.allocs_shape [OF hi that] by simp_all
    then show "page_aligned p" by (simp add: page_aligned_def)
    define j where "j = 4096 * k - 1"
    have j: "j < 4096 * k" using sh(1) by (simp add: j_def)
    then have u: "unat (word_of_nat j :: u32) = j" using sh(3) by (intro unat_of_nat32) simp
    have "unat (p + word_of_nat j) = unat p + j" using u j sh(3) by (simp add: unat_plus_if')
    moreover have "unat (p + word_of_nat j) < 2 ^ 31" using low live_in_area [OF hi that in_block_add [OF hi that j]] by blast
    ultimately show "unat p + 4096 * k < 2 ^ 32" using sh(1) by (simp add: j_def)
  qed
  have qa: "page_aligned q" "unat q + 4096 * blocks_of (word_of_nat n) < 2 ^ 32" using bound [of q B] live(1) by (simp_all add: B_def)
  have sa: "page_aligned stk" "unat stk + 16384 < 2 ^ 32" using bound [of stk 4] live(1) by simp_all
  obtain t s7 where t: "task_new P s6 = Inr (t, s7)" "tasks_inv s7 (ts @ [t])" "t \<notin> set ts"
    "\<And>f. f < 14 \<Longrightarrow> get s7 t f = task_fresh_field (get s7 t PAGE_DIRECTORY) P f" "get s7 t T_PROCESS = P"
    "\<And>v. page_aligned v \<Longrightarrow> space_view (mem s7) (get s7 t PAGE_DIRECTORY) v = v OR 5"
    "current_task s7 = (if ts = [] then t else current_task s6)"
    "\<And>u v. u \<in> set ts \<Longrightarrow> page_aligned v \<Longrightarrow>
       space_view (mem s7) (get s7 u PAGE_DIRECTORY) v = space_view (mem s6) (get s6 u PAGE_DIRECTORY) v"
    "\<And>p k a. (p, k) \<in> kheap_allocs s6 \<Longrightarrow> p \<notin> set ts \<Longrightarrow> in_block p k a \<Longrightarrow> mem s7 a = mem s6 a"
    "\<And>p k. (p, k) \<in> kheap_allocs s6 \<Longrightarrow> (p, k) \<in> kheap_allocs s7"
    "\<And>p k. p \<in> set (task_blocks s7 t) \<Longrightarrow> (p, k) \<notin> kheap_allocs s6" "task_change s6 s7"
    by (rule task_new_ok [OF inv room, of P], rule that)
  have hi7: "kheap_inv s7" by (rule tasks_inv_heap [OF t(2)])
  have live7: "(P, 2) \<in> kheap_allocs s7" "(q, B) \<in> kheap_allocs s7" "(stk, 4) \<in> kheap_allocs s7"
    using t(10) live(1) by (simp_all add: B_def)
  define s7' where "s7' = st32 (P + P_TASK) t s7"
  have Ptask: "P + P_TASK = P + word_of_nat 112" by (simp add: process_layout)
  have other: "a \<notin> word_at (P + P_TASK)" if "p \<in> set (all_blocks s7 (ts @ [t]))" "in_page p a" for p a
  proof
    assume "a \<in> word_at (P + P_TASK)"
    then have "in_block P 2 a" unfolding Ptask by (rule word_in_block [OF hi7 live7(1), rotated]) simp
    moreover have "(p, 1) \<in> kheap_allocs s7" "in_block p 1 a"
      using blocks_live [OF t(2) that(1)] that(2) in_block_page [of p a] by simp_all
    ultimately have "(2 :: nat) = 1" using km.allocs_apart [OF hi7 live7(1)] by blast
    then show False by simp
  qed
  have m7: "mem s7' a = mem s7 a" if "a \<notin> word_at (P + P_TASK)" for a
    using that by (simp add: s7'_def store32_outside)
  have g7: "task_head s7' = task_head s7" "task_tail s7' = task_tail s7" "current_task s7' = current_task s7"
    "kernel_heap s7' = kernel_heap s7" by (simp_all add: s7'_def st32_def)
  have same7: "\<forall>p a. p \<in> set (all_blocks s7 (ts @ [t])) \<longrightarrow> in_page p a \<longrightarrow> mem s7' a = mem s7 a"
    using m7 other by blast
  note o7 = tasks_inv_outside [OF t(2) g7 same7]
  have al7: "kheap_allocs s7' = kheap_allocs s7" by (simp add: s7'_def)
  have word: "load32 (mem s7') (P + word_of_nat c) = load32 (mem s6) (P + word_of_nat c)" if "c \<in> {4212, 4216, 4220}" for c
  proof (rule load32_kept)
    fix b
    assume b: "b \<in> word_at (P + word_of_nat c)"
    have "b \<notin> word_at (P + P_TASK)"
      using word_at_offset [OF b] word_at_offset [of b P 112] that by (auto simp: Ptask simp del: of_nat_numeral)
    moreover have "in_block P 2 b" by (rule word_in_block [OF hi _ _ b]) (use live(1) that in auto)
    ultimately show "mem s7' b = mem s6 b" using m7 [of b] t(9) [of P 2 b] live by simp
  qed
  have w7: "load32 (mem s7') (P + P_TASK) = t" "load32 (mem s7') (P + P_PTR) = q"
    "load32 (mem s7') (P + P_SIZE) = word_of_nat n" "load32 (mem s7') (P + P_STACK) = stk"
    using word [of 4212] word [of 4216] word [of 4220] w by (simp_all add: process_layout s7'_def)
  have tt: "t \<in> set (ts @ [t])" by simp
  obtain s8 where z: "process_map_memory P s7' = (0, s8)" "space_frame s7' s8 (get s7' t PAGE_DIRECTORY)"
    "\<And>w. page_aligned w \<Longrightarrow> space_view (mem s8) (get s7' t PAGE_DIRECTORY) w =
      (if unat (w - 0x3FB000) < 16384 then (stk + (w - 0x3FB000)) OR 7
       else if unat (w - 0x400000) < 4096 * blocks_of (word_of_nat n) then (q + (w - 0x400000)) OR 7
       else space_view (mem s7') (get s7' t PAGE_DIRECTORY) w)"
    by (rule process_map_memory_ok [OF o7(1) tt _ w7(1,2,3,4) qa(1) n qa(2) sa]) (use live7(1) al7 that in simp_all)
  note m8 = tasks_inv_map [OF o7(1) tt z(2)]
  have dir: "get s8 u PAGE_DIRECTORY = get s7 u PAGE_DIRECTORY" "get s7' u PAGE_DIRECTORY = get s7 u PAGE_DIRECTORY"
    if "u \<in> set (ts @ [t])" for u using m8(3) [OF that, of PAGE_DIRECTORY] o7(2) [OF that, of PAGE_DIRECTORY] by simp_all
  have field: "get s8 t f = get s7 t f" if "f < 1024" for f using m8(3) [OF tt that] o7(2) [OF tt that] by simp
  have fresh: "get s8 t f = task_fresh_field (get s7 t PAGE_DIRECTORY) P f" if "f < 14" for f
    using field [of f] t(4) [OF that] that by simp
  have tb: "task_blocks s8 t = task_blocks s7 t" "task_blocks s7' t = task_blocks s7 t" using m8(5) [OF tt] o7(4) [OF tt] by simp_all
  obtain m' where s8: "s8 = s7'\<lparr>mem := m'\<rparr>" using z(2) by (auto simp: space_frame_def)
  have keep: "mem s8 a = mem s6 a"
    if "(p, k) \<in> kheap_allocs s6" "p \<notin> set ts" "in_block p k a" "a \<notin> word_at (P + P_TASK)" for p k a
  proof -
    have "\<not> in_page x a" if x: "x \<in> set (space_tables (mem s7') (load32 (mem s7') (get s7' t PAGE_DIRECTORY)))" for x
    proof
      assume xa: "in_page x a"
      have xb: "x \<in> set (task_blocks s7' t)" using x by (simp add: task_blocks_def space_blocks_def)
      then have "x \<in> set (all_blocks s7' (ts @ [t]))" by (simp add: all_blocks_def)
      from blocks_live [OF o7(1) this] have xl: "(x, 1) \<in> kheap_allocs s7" "page_aligned x" by (simp_all add: al7)
      then have "x = p" using km.allocs_apart [OF hi7 xl(1) t(10) [OF \<open>(p, k) \<in> kheap_allocs s6\<close>]] xa
          in_block_page \<open>in_block p k a\<close> by auto
      then show False using t(11) [of x k] xb tb(2) \<open>(p, k) \<in> kheap_allocs s6\<close> by simp
    qed
    then have "mem s8 a = mem s7' a" using z(2) by (simp add: space_frame_def)
    then show ?thesis using m7 [OF that(4)] t(9) [OF that(1-3)] by simp
  qed
  have own: "load32 (mem s8) (P + P_TASK) = t"
  proof -
    have "mem s8 b = mem s7' b" if b: "b \<in> word_at (P + P_TASK)" for b
    proof -
      have "\<not> in_page x b" if x: "x \<in> set (space_tables (mem s7') (load32 (mem s7') (get s7' t PAGE_DIRECTORY)))" for x
      proof -
        have "x \<in> set (task_blocks s7' t)" using x by (simp add: task_blocks_def space_blocks_def)
        then have "x \<in> set (task_blocks s7 t)" unfolding tb(2) .
        then have "x \<in> set (all_blocks s7 (ts @ [t]))" by (simp add: all_blocks_def)
        then show ?thesis using other b by blast
      qed
      then show ?thesis using z(2) by (simp add: space_frame_def)
    qed
    then show ?thesis using w7(1) load32_kept [of "P + P_TASK" "mem s8" "mem s7'"] by simp
  qed
  have ch: "task_change s6 s8"
  proof -
    obtain h m h1 h2 c where "s7 = s6\<lparr>kernel_heap := h, mem := m, task_head := h1, task_tail := h2, current_task := c\<rparr>"
      using t(12) by (auto simp: task_change_def)
    then have "s8 = s6\<lparr>kernel_heap := h, mem := m', task_head := h1, task_tail := h2, current_task := c\<rparr>"
      by (simp add: s8 s7'_def st32_def)
    then show ?thesis by (simp only: task_changeI)
  qed
  have nz: "t \<noteq> 0" using tasks_inv_queue [OF t(2)] by (simp add: queue_def)
  show thesis
  proof (rule that [OF t(1) z(1) [unfolded s7'_def] m8(1) t(3) nz])
    show "get s8 t T_PROCESS = P" using field [of T_PROCESS] t(5) by simp
    show "get s8 t R_IP = 0x400000" "get s8 t R_ESP = 0x3ff000" "get s8 t R_CS = 0x1b" "get s8 t R_SS = 0x23"
      using fresh [of R_IP] fresh [of R_ESP] fresh [of R_CS] fresh [of R_SS] by (simp_all add: task_fresh_field_def task_fields)
    show "current_task s8 = (if ts = [] then t else current_task s6)" using t(7) g7(3) by (simp add: s8)
    show "space_view (mem s8) (get s8 t PAGE_DIRECTORY) w = (if unat (w - 0x3FB000) < 16384 then (stk + (w - 0x3FB000)) OR 7
       else if unat (w - 0x400000) < 4096 * blocks_of (word_of_nat n) then (q + (w - 0x400000)) OR 7 else w OR 5)"
      if "page_aligned w" for w
      using z(3) [OF that] o7(3) [OF tt that] t(6) [OF that] by (simp add: dir [OF tt])
    show "kheap_allocs s6 \<subseteq> kheap_allocs s8" using t(10) al7 by (auto simp: s8)
    show "space_view (mem s8) (get s8 u PAGE_DIRECTORY) v = space_view (mem s6) (get s6 u PAGE_DIRECTORY) v"
      if "u \<in> set ts" "page_aligned v" for u v
    proof -
      have u: "u \<in> set (ts @ [t])" "u \<noteq> t" using that(1) t(3) by auto
      show ?thesis using m8(4) [OF u that(2)] o7(3) [OF u(1) that(2)] t(8) [OF that] by (simp add: dir [OF u(1)])
    qed
    show "(p, k) \<notin> kheap_allocs s6" if "p \<in> set (task_blocks s8 t)" for p k using t(11) that by (simp add: tb)
  qed (fact ch own keep qa(1) sa(1))+
qed

lemma page_base_range:
  assumes "page_aligned b" "unat b + i < 2 ^ 32"
  shows "unat (page_base (b + word_of_nat i) - b) \<le> i"
proof -
  let ?v = "b + word_of_nat i"
  obtain c where c: "unat b = 4096 * c" using assms(1) by (auto simp: page_aligned_def)
  have "i < 2 ^ 32" using assms(2) by simp
  then have "unat (word_of_nat i :: u32) = i" by (rule unat_of_nat32)
  then have v: "unat ?v = unat b + i" using assms(2) by (simp add: unat_plus_if')
  have "unat ?v mod 4096 = i mod 4096" unfolding v c by simp
  then have p: "unat (page_base ?v) + i mod 4096 = unat b + i" using unat_page_base [of ?v] v by simp
  moreover have "i mod 4096 \<le> i" by simp
  ultimately have "b \<le> page_base ?v" unfolding word_le_nat_alt by linarith
  then have "unat (page_base ?v - b) = unat (page_base ?v) - unat b" by (rule unat_sub)
  then show ?thesis using p by simp
qed

text \<open>The bytes a task sees from an address on.\<close>

definition task_sees :: "'a tstate_scheme \<Rightarrow> u32 \<Rightarrow> u32 \<Rightarrow> u8 list \<Rightarrow> bool" where
  "task_sees s t v bs \<longleftrightarrow> (\<forall>i < length bs. \<exists>a.
     mmu_walk (mem s) (load32 (mem s) (get s t PAGE_DIRECTORY)) (v + word_of_nat i) = Some a \<and> mem s a = bs ! i)"

lemma task_sees_buffer:
  assumes inv: "tasks_inv s ts" "t \<in> set ts" and v: "page_aligned v" "unat v + length bs \<le> 2 ^ 32" and q: "page_aligned q"
    and view: "\<And>w. page_aligned w \<Longrightarrow> unat (w - v) < length bs \<Longrightarrow> space_view (mem s) (get s t PAGE_DIRECTORY) w = (q + (w - v)) OR 7"
    and bytes: "\<And>i. i < length bs \<Longrightarrow> mem s (q + word_of_nat i) = bs ! i"
  shows "task_sees s t v bs"
  unfolding task_sees_def
proof (intro allI impI)
  fix i
  assume i: "i < length bs"
  let ?a = "v + word_of_nat i"
  have "unat v + i < 2 ^ 32" using i v(2) by simp
  from page_base_range [OF v(1) this] i have "unat (page_base ?a - v) < length bs" by simp
  from view [OF page_base_aligned this] have w: "space_view (mem s) (get s t PAGE_DIRECTORY) (page_base ?a) = (q + (page_base ?a - v)) OR 7" .
  have ok: "space_ok (get s t PAGE_DIRECTORY) s" "space_present (mem s) (get s t PAGE_DIRECTORY)"
    using tasks_inv_task [OF inv] by simp_all
  have "page_aligned (load32 (mem s) (get s t PAGE_DIRECTORY))"
    using space_ok_pages(1) [OF tasks_inv_heap [OF inv(1)] ok(1)] by (simp add: space_blocks_def)
  from mmu_walk_mapped [OF this ok(2) w q v(1)]
  have "mmu_walk (mem s) (load32 (mem s) (get s t PAGE_DIRECTORY)) ?a = Some (q + word_of_nat i)" by simp
  with bytes [OF i] show "\<exists>a. mmu_walk (mem s) (load32 (mem s) (get s t PAGE_DIRECTORY)) ?a = Some a \<and> mem s a = bs ! i" by blast
qed

section \<open>A task beside the others\<close>

text \<open>
  Adding a task for process \<open>P\<close> beside the tasks \<open>ts\<close>: the blocks in use stay in use, and those that are not a
  \<^verbatim>\<open>struct task\<close> of \<open>ts\<close> keep their bytes, but for the word \<^verbatim>\<open>task\<close> of \<open>P\<close>.
\<close>

definition adds_task :: "u32 list \<Rightarrow> u32 \<Rightarrow> 'a kstate_scheme \<Rightarrow> 'a kstate_scheme \<Rightarrow> bool" where
  "adds_task ts P s s' \<longleftrightarrow> kheap_inv s \<and> (P, 2) \<in> kheap_allocs s \<and> P \<notin> set ts \<and> kheap_allocs s \<subseteq> kheap_allocs s'
     \<and> (\<forall>p k a. (p, k) \<in> kheap_allocs s \<longrightarrow> p \<notin> set ts \<longrightarrow> in_block p k a \<longrightarrow> a \<notin> word_at (P + P_TASK) \<longrightarrow> mem s' a = mem s a)"

lemma adds_task_block:
  assumes "adds_task ts P s s'" "(x, m) \<in> kheap_allocs s" "x \<notin> set ts" "x \<noteq> P" "in_block x m a"
  shows "mem s' a = mem s a"
proof -
  have P: "kheap_inv s" "(P, 2) \<in> kheap_allocs s" using assms(1) by (simp_all add: adds_task_def)
  have "a \<notin> word_at (P + P_TASK)"
  proof
    assume "a \<in> word_at (P + P_TASK)"
    then have w: "a \<in> word_at (P + word_of_nat 112)" by (simp add: process_layout)
    have "in_block P 2 a" by (rule word_in_block [OF P _ w]) simp
    then show False using km.allocs_apart [OF P(1) assms(2) P(2) assms(5)] assms(4) by blast
  qed
  then show ?thesis using assms(1-3,5) unfolding adds_task_def by blast
qed

lemma adds_task_buffer:
  assumes "adds_task ts P s s'" "(x, m) \<in> kheap_allocs s" "x \<notin> set ts" "x \<noteq> P" "j < 4096 * m"
  shows "mem s' (x + word_of_nat j) = mem s (x + word_of_nat j)"
proof (rule adds_task_block [OF assms(1-4)])
  show "in_block x m (x + word_of_nat j)"
    by (rule in_block_add [OF _ assms(2,5)]) (use assms(1) in \<open>simp add: adds_task_def\<close>)
qed

lemma adds_task_process:
  assumes "adds_task ts P s s'"
  shows "load16 (mem s') (P + P_ID) = load16 (mem s) (P + P_ID)"
    "cstr_at (mem s) (P + P_FILENAME) cs \<Longrightarrow> length cs \<le> 107 \<Longrightarrow> cstr_at (mem s') (P + P_FILENAME) cs"
proof -
  have P: "kheap_inv s" "(P, 2) \<in> kheap_allocs s" "P \<notin> set ts" using assms by (simp_all add: adds_task_def)
  have w: "mem s' (P + word_of_nat c) = mem s (P + word_of_nat c)" if "c < 112" for c
  proof -
    have "unat (word_of_nat c :: u32) = c" by (rule unat_of_nat32) (use that in simp)
    then have "P + word_of_nat c \<notin> word_at (P + P_TASK)"
      using word_at_offset(1) [of "P + word_of_nat c" P 112] that by (auto simp: process_layout)
    moreover have "in_block P 2 (P + word_of_nat c)" by (rule in_block_add [OF P(1,2)]) (use that in simp)
    ultimately show ?thesis using assms P(2,3) unfolding adds_task_def by blast
  qed
  show "load16 (mem s') (P + P_ID) = load16 (mem s) (P + P_ID)"
    using w [of 0] w [of 1] by (intro load16_cong) (simp_all add: process_layout)
  show "cstr_at (mem s') (P + P_FILENAME) cs" if "cstr_at (mem s) (P + P_FILENAME) cs" "length cs \<le> 107"
  proof (rule cstr_at_mem_cong [OF that(1)])
    fix j
    assume "j \<le> length cs"
    then show "mem s' (P + P_FILENAME + word_of_nat j) = mem s (P + P_FILENAME + word_of_nat j)"
      using w [of "2 + j"] that(2) by (simp add: process_layout add.assoc)
  qed
qed

text \<open>Files stay open beside a new task.\<close>

lemma adds_task_files:
  fixes s s' s0 :: "'a procstate_scheme"
  assumes ok: "files_ok s0" and e: "extends X s0 s" and t: "adds_task ts P s s'" and i: "kheap_inv s'"
    and r: "rest s = rest s0" "file_descriptors s' = file_descriptors s"
    and new: "\<forall>m. (P, m) \<notin> kheap_allocs s0" and apart: "\<forall>d \<in> ran (open_files s0). d \<notin> set ts \<and> (\<forall>a. in_page d a \<longrightarrow> a \<notin> X)"
  shows "files_ok s' \<and> open_files s' = open_files s0"
proof (rule files_ok_frame [OF ok i])
  show "file_descriptors s' = file_descriptors s0" using r(2) rest_filestate(2) [OF r(1)] by simp
  fix j d
  assume d: "open_files s0 j = Some d"
  note dl = open_files_slot [OF ok d]
  have inv: "kheap_inv s0" using ok by (simp add: files_ok_def)
  have d6: "(d, 1) \<in> kheap_allocs s" using e dl by (auto simp: extends_def)
  then show "(d, 1) \<in> kheap_allocs s'" using t by (auto simp: adds_task_def)
  have dr: "d \<in> ran (open_files s0)" using d by (auto simp: ran_def)
  then have dn: "d \<notin> set ts" "d \<noteq> P" using apart new dl by auto
  fix a
  assume a: "in_page d a"
  then have "in_block d 1 a" using in_block_page [of d a] dl by simp
  then have "mem s' a = mem s a" by (rule adds_task_block [OF t d6 dn])
  moreover have "kept s0 a" by (rule live_kept [OF inv _ a]) (use dl in simp)
  ultimately show "mem s' a = mem s0 a" using extends_mem [OF e, of a] apart dr a by auto
qed

text \<open>The new task sees a buffer of \<open>m\<close> pages that is mapped at \<open>v\<close>.\<close>

lemma adds_task_sees:
  assumes t: "adds_task us P s s'" and inv: "tasks_inv s' ts" "t \<in> set ts"
    and v: "page_aligned v" "unat v + length bs \<le> 2 ^ 32" and q: "page_aligned q" "(q, m) \<in> kheap_allocs s" "q \<notin> set us" "q \<noteq> P"
    and view: "\<And>w. page_aligned w \<Longrightarrow> unat (w - v) < length bs \<Longrightarrow> space_view (mem s') (get s' t PAGE_DIRECTORY) w = (q + (w - v)) OR 7"
    and bytes: "length bs \<le> 4096 * m" "\<And>j. j < length bs \<Longrightarrow> mem s (q + word_of_nat j) = bs ! j"
  shows "task_sees s' t v bs"
  by (rule task_sees_buffer [OF inv v q(1) view]) (simp_all add: adds_task_buffer [OF t q(2-4)] bytes less_le_trans [OF _ bytes(1)])


text \<open>
  Process \<open>P\<close> is prepared: beside the memory in use there are its structure, a buffer \<open>q\<close> with the bytes \<open>bs\<close> of the
  program and a cleared stack \<open>stk\<close>; number, path, addresses and size are stored.
\<close>

definition prepared ::
  "'a procstate_scheme \<Rightarrow> nat \<Rightarrow> u8 list \<Rightarrow> u8 list \<Rightarrow> u32 \<Rightarrow> u32 \<Rightarrow> u32 \<Rightarrow> 'a procstate_scheme \<Rightarrow> bool" where
  "prepared s slot path bs P q stk s6 \<longleftrightarrow> extends (word_at (cluster_stream s)) s s6 \<and> rest s6 = rest s
     \<and> {(P, 2), (q, blocks_of (word_of_nat (length bs))), (stk, 4)} \<subseteq> kheap_allocs s6
     \<and> (\<forall>x \<in> {P, q, stk}. \<forall>m. (x, m) \<notin> kheap_allocs s) \<and> distinct [P, q, stk]
     \<and> load16 (mem s6) (P + P_ID) = word_of_nat slot \<and> cstr_at (mem s6) (P + P_FILENAME) (take 107 path)
     \<and> load32 (mem s6) (P + P_PTR) = q \<and> load32 (mem s6) (P + P_SIZE) = word_of_nat (length bs) \<and> load32 (mem s6) (P + P_STACK) = stk
     \<and> (\<forall>j < length bs. mem s6 (q + word_of_nat j) = bs ! j) \<and> (\<forall>j < 16384. mem s6 (stk + word_of_nat j) = 0)"

lemma preparedD:
  assumes "prepared s slot path bs P q stk s6"
  shows "extends (word_at (cluster_stream s)) s s6" "rest s6 = rest s"
    "{(P, 2), (q, blocks_of (word_of_nat (length bs))), (stk, 4)} \<subseteq> kheap_allocs s6"
    "\<forall>x \<in> {P, q, stk}. \<forall>m. (x, m) \<notin> kheap_allocs s" "distinct [P, q, stk]"
    "load16 (mem s6) (P + P_ID) = word_of_nat slot" "cstr_at (mem s6) (P + P_FILENAME) (take 107 path)"
    "load32 (mem s6) (P + P_PTR) = q" "load32 (mem s6) (P + P_SIZE) = word_of_nat (length bs)" "load32 (mem s6) (P + P_STACK) = stk"
    "\<forall>j < length bs. mem s6 (q + word_of_nat j) = bs ! j" "\<forall>j < 16384. mem s6 (stk + word_of_nat j) = 0"
  using assms unfolding prepared_def by simp_all

lemma block_bytes_bound: "n < 2 ^ 32 \<Longrightarrow> n \<le> 4096 * blocks_of (word_of_nat n)"
  using blocks_of_covers [of "word_of_nat n"] unat_of_nat32 [of n] by simp

lemma process_load_prepares:
  fixes s :: "'a procstate_scheme"
  assumes ok: "files_ok s" "length (processes s) = 12" "first_zero (processes s) = Some slot"
      "first_zero (file_descriptors s) = Some k" "k < 511"
    and src: "root_file s dir name i img pos n" "root_path s filename name"
    and out: "\<forall>j \<le> 108. filename + word_of_nat j \<notin> heap_area s \<union> word_at (cluster_stream s)"
    and mode: "mem s (literal_r s) = 114" "literal_r s \<notin> heap_area s" and low: "\<forall>a \<in> heap_area s. unat a < 2 ^ 31"
    and apart: "\<forall>e \<in> ran (open_files s). \<forall>a. in_page e a \<longrightarrow> a \<notin> word_at (cluster_stream s)"
    and room: "(card (kheap_allocs s) + 9) * (blocks_of (word_of_nat n) + 3) + 1036 \<le> kheap_vacant s"
  obtains P q stk s6 where "prepared s slot (48 # 58 # 47 # name) (map (disk_byte img) [pos..<pos + n]) P q stk s6"
    "1027 \<le> kheap_vacant s6"
    "\<And>t s7 s8. task_new P s6 = Inr (t, s7) \<Longrightarrow> t \<noteq> 0 \<Longrightarrow> process_map_memory P (st32 (P + P_TASK) t s7) = (0, s8) \<Longrightarrow>
       processes s8 = processes s \<Longrightarrow>
       process_load fat16_objects filename out s = Inr (0, P, s8\<lparr>processes := (processes s)[slot := P]\<rparr>)"
proof -
  define X where "X = word_at (cluster_stream s)"
  define B where "B = blocks_of (word_of_nat n)"
  have apart': "\<forall>j e a. open_files s j = Some e \<longrightarrow> in_page e a \<longrightarrow> a \<notin> word_at (cluster_stream s)"
    using apart by (auto simp: ran_def)
  obtain P q stk s1 s2 s3 where p: "kzalloc process_sizeof s = Inr (P, s1)" "P \<noteq> 0"
    "process_load_data fat16_objects filename P (process_init P s1) = Inr (0, s2)"
    "kzalloc GUAVAOS_USER_PROGRAM_STACK_SIZE s2 = Inr (stk, s3)" "stk \<noteq> 0"
    "files_ok s3" "rest s3 = rest s" "extends X s s3"
    "{(P, 2), (q, B), (stk, 4)} \<subseteq> kheap_allocs s3" "\<forall>x \<in> {P, q, stk}. \<forall>m. (x, m) \<notin> kheap_allocs s"
    "distinct [P, q, stk]" "load32 (mem s3) (P + P_PTR) = q" "load32 (mem s3) (P + P_SIZE) = word_of_nat n"
    "bytes_at (mem s3) q n = map (disk_byte img) [pos..<pos + n]" "\<forall>j < 16384. mem s3 (stk + word_of_nat j) = 0"
    "kheap_vacant s = kheap_vacant s3 + B + 9"
    by (rule process_prepare [OF ok(1,4,5) src mode low apart' room, folded X_def B_def], rule that)
  define s6 where "s6 = process_fill P filename stk (int slot) s3"
  have live: "(P, 2) \<in> kheap_allocs s3" "(q, B) \<in> kheap_allocs s3" "(stk, 4) \<in> kheap_allocs s3" "\<forall>m. (P, m) \<notin> kheap_allocs s"
    using p(9,10) by simp_all
  have pa: "cstr_at (mem s) filename (48 # 58 # 47 # name)" "length (48 # 58 # 47 # name) \<le> 108"
    using src(2) by (simp_all add: root_path_def)
  note f = process_fill_ok [OF p(8) live(1,4) pa out [folded X_def], where stk = stk and slot = "int slot", folded s6_def]
  have inv3: "kheap_inv s3" using p(8) by (simp add: extends_def)
  have n: "n < 2 ^ 32" using src(1) by (simp add: root_file_def file_on_disk_def)
  have same: "mem s6 (x + word_of_nat j) = mem s3 (x + word_of_nat j)" if "(x, m) \<in> kheap_allocs s3" "x \<noteq> P" "j < 4096 * m" for x m j
    by (rule f(9)) (use km.allocs_apart [OF inv3 live(1) that(1)] in_block_add [OF inv3 that(1,3)] that(2) in blast)
  have q: "\<forall>j < n. mem s6 (q + word_of_nat j) = map (disk_byte img) [pos..<pos + n] ! j"
  proof (intro allI impI)
    fix j
    assume j: "j < n"
    have "mem s6 (q + word_of_nat j) = mem s3 (q + word_of_nat j)"
      by (rule same [OF live(2)]) (use p(11) block_bytes_bound [OF n, folded B_def] j in auto)
    then show "mem s6 (q + word_of_nat j) = map (disk_byte img) [pos..<pos + n] ! j"
      using nth_bytes_at [OF j, of "mem s3" q] p(14) by simp
  qed
  have stk: "\<forall>j < 16384. mem s6 (stk + word_of_nat j) = 0" using same [OF live(3)] p(11,15) by auto
  have al: "kheap_allocs s6 = kheap_allocs s3" "kheap_vacant s6 = kheap_vacant s3" using f(3) by (simp_all add: kheap_view_defs)
  have "prepared s slot (48 # 58 # 47 # name) (map (disk_byte img) [pos..<pos + n]) P q stk s6"
    unfolding prepared_def using f(1,2,4-8) p(7,9-13) q stk by (simp add: al X_def B_def)
  moreover have "1027 \<le> kheap_vacant s6"
  proof -
    have "(card (kheap_allocs s) + 9) * (B + 3) = card (kheap_allocs s) * B + 3 * card (kheap_allocs s) + 9 * B + 27"
      by (simp add: algebra_simps)
    then show ?thesis using room p(16) al(2) unfolding B_def [symmetric] by linarith
  qed
  moreover have "process_load fat16_objects filename out s = Inr (0, P, s8\<lparr>processes := (processes s)[slot := P]\<rparr>)"
    if t: "task_new P s6 = Inr (t, s7)" "t \<noteq> 0" "process_map_memory P (st32 (P + P_TASK) t s7) = (0, s8)" "processes s8 = processes s"
    for t s7 s8
  proof -
    have slot: "slot < 12" "processes s ! slot = 0" using first_zero_Some [OF ok(3)] ok(2) by simp_all
    have "process_get_free_slot s = int slot" by (simp add: process_get_free_slot_def ok(3))
    moreover have "process_get (int slot) s = Inr 0" using slot ok(2) by (simp add: process_get_def GUAVAOS_MAX_PROCESSES_def)
    moreover have "ERROR_I t \<noteq> 0" using t(2) unfolding ERROR_I_def by (metis signed_0 word_eq_iff_signed)
    ultimately show ?thesis
      using p(1-5) t(1,3,4) slot(1) ok(2)
      by (simp add: process_load_def process_load_for_slot_def Let_def s6_def process_fill_def)
  qed
  ultimately show thesis by (rule that)
qed

text \<open>The tasks beside a prepared process.\<close>

lemma prepared_tasks:
  assumes "tasks_inv s ts" "prepared s slot path bs P q stk s6"
    and "\<forall>x \<in> set (all_blocks s ts). \<forall>a. in_page x a \<longrightarrow> a \<notin> word_at (cluster_stream s)"
  shows "tasks_inv s6 ts" "P \<notin> set ts" "q \<notin> set ts" "stk \<notin> set ts"
    "\<And>u v. u \<in> set ts \<Longrightarrow> page_aligned v \<Longrightarrow>
       space_view (mem s6) (get s6 u PAGE_DIRECTORY) v = space_view (mem s) (get s u PAGE_DIRECTORY) v"
proof -
  note p = preparedD [OF assms(2)]
  have inv: "kheap_inv s" "kheap_inv s6" using tasks_inv_heap [OF assms(1)] p(1) by (simp_all add: extends_def)
  have same: "\<forall>x a. x \<in> set (all_blocks s ts) \<longrightarrow> in_page x a \<longrightarrow> mem s6 a = mem s a"
    using extends_mem [OF p(1) live_kept [OF inv(1)]] blocks_live [OF assms(1)] assms(3) by blast
  have live: "\<forall>x. (x, 1) \<in> kheap_allocs s \<longrightarrow> (x, 1) \<in> kheap_allocs s6" using p(1) by (auto simp: extends_def)
  note g = tasks_inv_grow [OF assms(1) inv(2) rest_tasks [OF p(2)] live same]
  show "tasks_inv s6 ts" by (rule g(1))
  show "space_view (mem s6) (get s6 u PAGE_DIRECTORY) v = space_view (mem s) (get s u PAGE_DIRECTORY) v"
    if "u \<in> set ts" "page_aligned v" for u v
    using g(2) [OF that(1), of PAGE_DIRECTORY] g(3) [OF that] by simp
  show "P \<notin> set ts" "q \<notin> set ts" "stk \<notin> set ts" using tasks_inv_task(2) [OF assms(1)] p(4) by blast+
qed


text \<open>The task of a prepared process.\<close>

lemma prepared_starts:
  fixes s s6 :: "'a procstate_scheme"
  assumes pr: "prepared s slot path bs P q stk s6" and inv: "tasks_inv s6 ts" and room: "1027 \<le> kheap_vacant s6"
    and low: "\<forall>a \<in> heap_area s6. unat a < 2 ^ 31" and nts: "P \<notin> set ts" "q \<notin> set ts" "stk \<notin> set ts"
    and n: "0 < length bs" "length bs < 2 ^ 31"
  obtains t s7 s8 where "task_new P s6 = Inr (t, s7)" "t \<noteq> 0" "process_map_memory P (st32 (P + P_TASK) t s7) = (0, s8)"
    "adds_task ts P s6 s8" "task_change s6 s8" "tasks_inv s8 (ts @ [t])" "load32 (mem s8) (P + P_TASK) = t" "get s8 t T_PROCESS = P"
    "get s8 t R_IP = 0x400000" "get s8 t R_ESP = 0x3ff000" "current_task s8 = (if ts = [] then t else current_task s6)"
    "task_sees s8 t 0x400000 bs" "task_sees s8 t (0x3ff000 - 16384) (replicate 16384 0)"
    "\<And>u v. u \<in> set ts \<Longrightarrow> page_aligned v \<Longrightarrow>
       space_view (mem s8) (get s8 u PAGE_DIRECTORY) v = space_view (mem s6) (get s6 u PAGE_DIRECTORY) v"
proof -
  define B where "B = blocks_of (word_of_nat (length bs))"
  note p = preparedD [OF pr, folded B_def]
  have live: "(P, 2) \<in> kheap_allocs s6" "(q, B) \<in> kheap_allocs s6" "(stk, 4) \<in> kheap_allocs s6" using p(3) by simp_all
  obtain t s7 s8 where t: "task_new P s6 = Inr (t, s7)" "process_map_memory P (st32 (P + P_TASK) t s7) = (0, s8)"
    "tasks_inv s8 (ts @ [t])" "t \<noteq> 0" "get s8 t T_PROCESS = P" "get s8 t R_IP = 0x400000" "get s8 t R_ESP = 0x3ff000"
    "current_task s8 = (if ts = [] then t else current_task s6)" "task_change s6 s8" "load32 (mem s8) (P + P_TASK) = t"
    "\<And>w. page_aligned w \<Longrightarrow> space_view (mem s8) (get s8 t PAGE_DIRECTORY) w =
      (if unat (w - 0x3FB000) < 16384 then (stk + (w - 0x3FB000)) OR 7
       else if unat (w - 0x400000) < 4096 * B then (q + (w - 0x400000)) OR 7 else w OR 5)"
    "\<And>p k a. (p, k) \<in> kheap_allocs s6 \<Longrightarrow> p \<notin> set ts \<Longrightarrow> in_block p k a \<Longrightarrow> a \<notin> word_at (P + P_TASK) \<Longrightarrow> mem s8 a = mem s6 a"
    "kheap_allocs s6 \<subseteq> kheap_allocs s8" "page_aligned q" "page_aligned stk"
    "\<And>u v. u \<in> set ts \<Longrightarrow> page_aligned v \<Longrightarrow>
       space_view (mem s8) (get s8 u PAGE_DIRECTORY) v = space_view (mem s6) (get s6 u PAGE_DIRECTORY) v"
    by (rule process_task_ok [OF inv room low p(3) [unfolded B_def] nts p(8-10) n, folded B_def], rule that)
  have add: "adds_task ts P s6 s8"
    using tasks_inv_heap [OF inv] live(1) nts(1) t(12,13) unfolding adds_task_def by blast
  have ne: "q \<noteq> P" "stk \<noteq> P" using p(5) by auto
  have tt: "t \<in> set (ts @ [t])" by simp
  have "length bs < 2 ^ 32" using n(2) by simp
  then have n4: "length bs \<le> 4096 * B" unfolding B_def by (rule block_bytes_bound)
  have "task_sees s8 t 0x400000 bs"
  proof (rule adds_task_sees [OF add t(3) tt stack_end(3) _ t(14) live(2) nts(2) ne(1)])
    show "unat (0x400000 :: u32) + length bs \<le> 2 ^ 32" using n(2) by simp
    fix w :: u32
    assume w: "page_aligned w" "unat (w - 0x400000) < length bs"
    define d where "d = w - 0x400000"
    have "unat d < length bs" using w(2) by (simp add: d_def)
    then have "unat (d + 0x5000) = unat d + 0x5000" using n(2) by (simp add: unat_plus_if')
    moreover have "w - 0x3FB000 = d + 0x5000" by (simp add: d_def)
    ultimately have "unat (w - 0x3FB000) = unat (w - 0x400000) + 0x5000" by (simp only: d_def)
    then show "space_view (mem s8) (get s8 t PAGE_DIRECTORY) w = (q + (w - 0x400000)) OR 7"
      using t(11) [OF w(1)] w(2) n4 by simp
  qed (use n4 p(11) in simp_all)
  moreover have "task_sees s8 t (0x3ff000 - 16384) (replicate 16384 0)"
  proof -
    have e: "0x3ff000 - 16384 = (0x3FB000 :: u32)" by simp
    show ?thesis unfolding e
      by (rule adds_task_sees [OF add t(3) tt stack_end(2) _ t(15) live(3) nts(3) ne(2)]) (use t(11) p(12) in simp_all)
  qed
  ultimately show thesis using that [OF t(1,4,2) add t(9,3,10,5-8)] t(16) by blast
qed

text \<open>Entering the process in the table changes nothing else.\<close>

lemma processes_update [simp]:
  fixes s :: "'a procstate_scheme"
  shows "get (s\<lparr>processes := ps\<rparr>) u f = get s u f" "task_sees (s\<lparr>processes := ps\<rparr>) t v bs = task_sees s t v bs"
    "adds_task ts P s0 (s\<lparr>processes := ps\<rparr>) = adds_task ts P s0 s"
    "tasks_inv s ts \<Longrightarrow> tasks_inv (s\<lparr>processes := ps\<rparr>) ts"
proof -
  show "get (s\<lparr>processes := ps\<rparr>) u f = get s u f" for u f by (simp add: get_def)
  then show "task_sees (s\<lparr>processes := ps\<rparr>) t v bs = task_sees s t v bs" by (simp add: task_sees_def)
  show "adds_task ts P s0 (s\<lparr>processes := ps\<rparr>) = adds_task ts P s0 s" by (simp add: adds_task_def kheap_view_defs)
  show "tasks_inv (s\<lparr>processes := ps\<rparr>) ts" if "tasks_inv s ts" by (rule tasks_inv_outside(1) [OF that]) simp_all
qed

text \<open>The fields that loading a program may change.\<close>

definition load_change :: "'a procstate_scheme \<Rightarrow> 'a procstate_scheme \<Rightarrow> bool" where
  "load_change s s' \<longleftrightarrow> (\<exists>h m es h1 h2 c ps. s' = s\<lparr>kernel_heap := h, mem := m, ports := es, task_head := h1, task_tail := h2,
     current_task := c, processes := ps\<rparr>)"

lemma load_changeI:
  fixes s :: "'a procstate_scheme"
  assumes "rest s1 = rest s" "task_change s1 s2"
  shows "load_change s (s2\<lparr>processes := ps\<rparr>)"
proof -
  have "s1 = s\<lparr>kernel_heap := kernel_heap s1, mem := mem s1, ports := ports s1\<rparr>"
    using assms(1) by (cases s; cases s1) (simp add: rest_def)
  then obtain h0 m0 es where s1: "s1 = s\<lparr>kernel_heap := h0, mem := m0, ports := es\<rparr>" by blast
  obtain h m h1 h2 c where s2: "s2 = s1\<lparr>kernel_heap := h, mem := m, task_head := h1, task_tail := h2, current_task := c\<rparr>"
    using assms(2) by (auto simp: task_change_def)
  have "s2\<lparr>processes := ps\<rparr> = s\<lparr>kernel_heap := h, mem := m, ports := es, task_head := h1, task_tail := h2,
     current_task := c, processes := ps\<rparr>" unfolding s2 s1 by simp
  then show ?thesis unfolding load_change_def by blast
qed

lemma process_load_ok:
  fixes s :: "'a procstate_scheme"
  assumes "tasks_inv s ts" "files_ok s" "length (processes s) = 12"
    and "first_zero (processes s) = Some slot" "first_zero (file_descriptors s) = Some k" "k < 511"
    and "root_file s dir name i img pos n" "root_path s filename name" "\<forall>j \<le> 108. filename + word_of_nat j \<notin> heap_area s \<union> word_at (cluster_stream s)"
    and "mem s (literal_r s) = 114" "literal_r s \<notin> heap_area s" "\<forall>a \<in> heap_area s. unat a < 2 ^ 31"
    and "\<forall>x \<in> set (all_blocks s ts) \<union> ran (open_files s). \<forall>a. in_page x a \<longrightarrow> a \<notin> word_at (cluster_stream s)"
    and "ran (open_files s) \<inter> set (all_blocks s ts) = {}"
    and "(card (kheap_allocs s) + 9) * (blocks_of (word_of_nat n) + 3) + 1036 \<le> kheap_vacant s"
  shows "\<exists>p t s'. (process_load fat16_objects filename out s = Inr (0, p, s')
    \<and> processes s' = (processes s)[slot := p] \<and> process_get (int slot) s' = Inr p
    \<and> tasks_inv s' (ts @ [t]) \<and> load32 (mem s') (p + P_TASK) = t \<and> get s' t T_PROCESS = p
    \<and> get s' t R_IP = 0x400000 \<and> get s' t R_ESP = 0x3ff000 \<and> current_task s' = (if ts = [] then t else current_task s)
    \<and> task_sees s' t 0x400000 (map (disk_byte img) [pos..<pos + n])
    \<and> task_sees s' t (0x3ff000 - 16384) (replicate 16384 0)
    \<and> load16 (mem s') (p + P_ID) = word_of_nat slot \<and> cstr_at (mem s') (p + P_FILENAME) (take 107 (48 # 58 # 47 # name))
    \<and> files_ok s' \<and> open_files s' = open_files s
    \<and> (\<forall>u \<in> set ts. \<forall>v. page_aligned v \<longrightarrow>
         space_view (mem s') (get s' u PAGE_DIRECTORY) v = space_view (mem s) (get s u PAGE_DIRECTORY) v))
    \<and> load_change s s'"
proof -
  define bs where "bs = map (disk_byte img) [pos..<pos + n]"
  have n: "0 < length bs" "length bs < 2 ^ 31" using assms(7) by (simp_all add: bs_def root_file_def file_on_disk_def)
  have apart: "\<forall>x \<in> set (all_blocks s ts). \<forall>a. in_page x a \<longrightarrow> a \<notin> word_at (cluster_stream s)"
    "\<forall>x \<in> ran (open_files s). \<forall>a. in_page x a \<longrightarrow> a \<notin> word_at (cluster_stream s)" using assms(13) by blast+
  obtain P q stk s6 where pr: "prepared s slot (48 # 58 # 47 # name) bs P q stk s6" "1027 \<le> kheap_vacant s6"
    "\<And>t s7 s8. task_new P s6 = Inr (t, s7) \<Longrightarrow> t \<noteq> 0 \<Longrightarrow> process_map_memory P (st32 (P + P_TASK) t s7) = (0, s8) \<Longrightarrow>
       processes s8 = processes s \<Longrightarrow>
       process_load fat16_objects filename out s = Inr (0, P, s8\<lparr>processes := (processes s)[slot := P]\<rparr>)"
    by (rule process_load_prepares [OF assms(2-12) apart(2) assms(15), where out = out, folded bs_def], rule that)
  note p = preparedD [OF pr(1)] and tk = prepared_tasks [OF assms(1) pr(1) apart(1)]
  have "\<forall>a \<in> heap_area s6. unat a < 2 ^ 31" using assms(12) p(1) by (simp add: extends_def)
  from prepared_starts [OF pr(1) tk(1) pr(2) this tk(2-4) n]
  obtain t s7 s8 where t: "task_new P s6 = Inr (t, s7)" "t \<noteq> 0" "process_map_memory P (st32 (P + P_TASK) t s7) = (0, s8)"
    "adds_task ts P s6 s8" "task_change s6 s8" "tasks_inv s8 (ts @ [t])" "load32 (mem s8) (P + P_TASK) = t" "get s8 t T_PROCESS = P"
    "get s8 t R_IP = 0x400000" "get s8 t R_ESP = 0x3ff000" "current_task s8 = (if ts = [] then t else current_task s6)"
    "task_sees s8 t 0x400000 bs" "task_sees s8 t (0x3ff000 - 16384) (replicate 16384 0)"
    "\<And>u v. u \<in> set ts \<Longrightarrow> page_aligned v \<Longrightarrow>
       space_view (mem s8) (get s8 u PAGE_DIRECTORY) v = space_view (mem s6) (get s6 u PAGE_DIRECTORY) v" by blast
  define s9 where "s9 = s8\<lparr>processes := (processes s)[slot := P]\<rparr>"
  note g = change_fields [OF t(5)] and r = rest_processes(1) [OF p(2)]
  have run: "process_load fat16_objects filename out s = Inr (0, P, s9)"
    unfolding s9_def by (rule pr(3) [OF t(1-3)]) (simp add: g(1) r)
  have add: "adds_task ts P s6 s9" and tk9: "tasks_inv s9 (ts @ [t])" using t(4,6) by (simp_all add: s9_def)
  have "file_descriptors s9 = file_descriptors s6" using g(3) by (simp add: s9_def)
  then have files: "files_ok s9 \<and> open_files s9 = open_files s"
    by (rule adds_task_files [OF assms(2) p(1) add tasks_inv_heap [OF tk9] p(2)])
      (use p(4) assms(13,14) in \<open>auto simp: set_all_blocks task_blocks_def\<close>)
  have name: "cstr_at (mem s9) (P + P_FILENAME) (take 107 (48 # 58 # 47 # name))"
    by (rule adds_task_process(2) [OF add p(7)]) simp
  have slot: "process_get (int slot) s9 = Inr P" "processes s9 = (processes s)[slot := P]"
    using first_zero_Some(1) [OF assms(4)] assms(3) by (simp_all add: process_get_def GUAVAOS_MAX_PROCESSES_def s9_def)
  have "load16 (mem s9) (P + P_ID) = word_of_nat slot" using adds_task_process(1) [OF add] p(6) by simp
  moreover have "current_task s9 = (if ts = [] then t else current_task s)" using t(11) rest_tasks(3) [OF p(2)] by (simp add: s9_def)
  moreover have "load_change s s9" unfolding s9_def by (rule load_changeI [OF p(2) t(5)])
  moreover note t(7-10,12,13,14)
  ultimately show ?thesis
    using run tk9 files name slot tk(5) unfolding bs_def [symmetric]
    by (intro exI [of _ P] exI [of _ t] exI [of _ s9]) (simp add: s9_def)
qed

section \<open>Properties: process.c\<close>


text \<open>C39: Loading a program that is not on the disk: when no entry of the root directory has the name of the path,
  \<open>process_load\<close> ends with -EIO and hands out no process. The process table, the run queue, the tasks and the open
  files are as before; five allocations stay taken that nothing points to: the two-block \<^verbatim>\<open>struct process\<close> and the four
  that \<open>fopen\<close> leaks.\<close>

theorem process_load_missing_leaks:
  fixes s :: "'a procstate_scheme"
  assumes "tasks_inv s ts" "files_ok s" "length (processes s) = 12" "first_zero (processes s) = Some slot"
    and "volume s dir" "\<forall>j < length dir. \<not> same_name (full_name (fst (dir ! j)) (snd (dir ! j))) name"
    and "root_path s filename name" "mem s (literal_r s) = 114" "literal_r s \<notin> heap_area s"
    and "card (kheap_allocs s) + 5 < kheap_vacant s"
  shows "\<exists>s' p ps. process_load fat16_objects filename out s = Inr (- EIO, out, s') \<and> rest s' = rest s
    \<and> tasks_inv s' ts \<and> files_ok s' \<and> open_files s' = open_files s
    \<and> kheap_allocs s' = insert (p, 2) (kheap_allocs s \<union> page_allocs ps) \<and> length ps = 4
    \<and> distinct (p # ps) \<and> (\<forall>x \<in> set (p # ps). \<forall>n. (x, n) \<notin> kheap_allocs s)"
proof -
  have inv: "kheap_inv s" by (rule tasks_inv_heap [OF assms(1)])
  have "card (kheap_allocs s) + 1 < kheap_vacant s" using assms(10) by simp
  then obtain P s1 where P: "kzalloc process_sizeof s = Inr (P, s1)" "P \<noteq> 0" "extends {} s (process_init P s1)"
    "heap_step s (process_init P s1)" "kheap_allocs (process_init P s1) = insert (P, 2) (kheap_allocs s)"
    "\<forall>k. (P, k) \<notin> kheap_allocs s" "kheap_vacant s = kheap_vacant (process_init P s1) + 2"
    "load32 (mem (process_init P s1)) (P + P_TASK) = 0"
    by (rule process_alloc [OF assms(2)]) blast
  define t where "t = process_init P s1"
  note P' = P(3-8) [folded t_def]
  have fr: "parse_frame {} s t" by (rule extends_step [OF P'(1,2)])
  note okt = files_ok_grow [OF fr assms(2)] and rt = heap_step_rest [OF P'(2)]
  note volt = volume_frame(1) [OF fr assms(5)] and patht = root_path_frame [OF fr assms(7)]
  have gt: "literal_r t = literal_r s" "heap_area t = heap_area s" using P'(1,2) by (auto simp: heap_step_def extends_def)
  have modet: "mem t (literal_r t) = 114" "literal_r t \<notin> heap_area t"
    using assms(8,9) extends_mem [OF P'(1), of "literal_r s"] by (simp_all add: gt kept_def)
  have roomt: "4 \<le> kheap_vacant t" using assms(10) P'(5) by simp
  have pt: "cstr_at (mem t) filename (48 # 58 # 47 # name)" "part_names [name]" "length name \<le> 105"
    "\<forall>j \<le> length name + 3. filename + word_of_nat j \<notin> heap_area t" using patht by (simp_all add: root_path_def)
  obtain s' ps where f: "fopen fat16_objects filename (literal_r t) t = Inr (0, s')" "files_ok s'" "open_files s' = open_files t"
    "kheap_allocs s' = kheap_allocs t \<union> page_allocs ps" "length ps = 4" "distinct ps" "\<forall>x \<in> set ps. \<forall>n. (x, n) \<notin> kheap_allocs t"
    "\<forall>a. kept t a \<longrightarrow> mem s' a = mem t a" "heap_area s' = heap_area t" "rest s' = rest t"
    by (rule fopen_none [OF conjunct1 [OF okt] roomt volt assms(6) pt modet], rule that)
  have inv': "kheap_inv s'" using f(2) by (simp add: files_ok_def)
  have e': "extends {} t s'" using inv' f(4,8,9) by (simp add: extends_def)
  note ex = extends_trans [OF P'(1) e']
  have invt: "kheap_inv t" "(P, 2) \<in> kheap_allocs t" using P'(1,3) by (simp_all add: extends_def)
  have task: "load32 (mem s') (P + P_TASK) = 0"
    using extends_word [OF e' invt, of 112] P'(6) by (simp add: process_layout)
  have slot: "slot < 12" "processes s ! slot = 0" using first_zero_Some [OF assms(4)] assms(3) by simp_all
  have run: "process_load fat16_objects filename out s = Inr (- EIO, out, s')"
  proof -
    have "process_get_free_slot s = int slot" by (simp add: process_get_free_slot_def assms(4))
    moreover have "process_get (int slot) s = Inr 0" using slot assms(3) by (simp add: process_get_def GUAVAOS_MAX_PROCESSES_def)
    moreover have "process_load_data fat16_objects filename P t = Inr (- EIO, s')"
      by (simp add: process_load_data_def process_load_binary_def f(1) fclose_def file_get_descriptor_def Let_def)
    ultimately show ?thesis
      using P(1,2) slot(1) task
      by (simp add: process_load_def process_load_for_slot_def Let_def t_def [symmetric] EIO_def)
  qed
  have r: "rest s' = rest s" using f(10) rt by simp
  have same: "\<forall>x a. x \<in> set (all_blocks s ts) \<longrightarrow> in_page x a \<longrightarrow> mem s' a = mem s a"
    using extends_mem [OF ex live_kept [OF inv]] blocks_live [OF assms(1)] by blast
  have live: "\<forall>x. (x, 1) \<in> kheap_allocs s \<longrightarrow> (x, 1) \<in> kheap_allocs s'" using f(4) P'(3) by blast
  have "tasks_inv s' ts" by (rule tasks_inv_grow(1) [OF assms(1) inv' rest_tasks [OF r] live same])
  moreover have "open_files s' = open_files s" using okt f(3) by simp
  moreover have "kheap_allocs s' = insert (P, 2) (kheap_allocs s \<union> page_allocs ps)" using f(4) P'(3) by simp
  moreover have "distinct (P # ps)" "\<forall>x \<in> set (P # ps). \<forall>n. (x, n) \<notin> kheap_allocs s" using f(6,7) P'(3,4) by auto
  ultimately show ?thesis using run r f(2,5) by blast
qed

section \<open>A program on the sample volume\<close>

definition load_sample :: procstate where
  "load_sample = \<lparr>mem = open_memory, video_mem = 0xB8000, terminal_row = 0, terminal_col = 0, kernel_heap = fresh_heap,
     cr3 = 0, paging_enabled = False, current_directory = 0, kernel_chunk = 0, current_task = 0, task_tail = 0,
     task_head = 0, data_segment = 0x10, ports = [], device = ata_of sample_img, disk_at = 0x9000, disk_type = 0,
     sector_size = 512, disk_id = 0, disk_filesystem = 0x7000, fs_private = 0x1000, fat16_fs = 0x7000,
     filesystems = 0x7000 # replicate 11 0, file_descriptors = replicate 512 0, current_process = 0,
     processes = replicate 12 0, literal_r = 0x600\<rparr>"

lemma load_sample_on: "on_sample load_sample"
  by (simp add: on_sample_def load_sample_def)

lemmas load_sample_fields = on_sample_fields [OF load_sample_on]

lemma load_sample_words:
  "load32 open_memory 0x104C = 10" "load32 open_memory 0x1050 = 0x2000" "load32 open_memory 0x1054 = 0x2100"
  "load32 open_memory 0x2004 = 0x9000" "load32 open_memory 0x2104 = 0x9000" "load32 open_memory 0x321C = 20"
  "load16 open_memory 0x100E = 1" "load16 open_memory 0x3214 = 0" "load16 open_memory 0x321A = 3" "open_memory 0x100D = 1"
  by (simp_all add: open_memory_def fat_memory_def load32_def load16_def)

lemma load_sample_low: "c + n < 0x1000000 \<Longrightarrow> j < n \<Longrightarrow> kept load_sample (word_of_nat c + word_of_nat j) \<and> word_of_nat c + word_of_nat j \<notin> heap_area load_sample"
  using on_sample_low [OF load_sample_on, of "word_of_nat (c + j)"] unat_of_nat32 [of "c + j"] by simp

lemma load_sample_word: "c < 0xFFFFF0 \<Longrightarrow> a \<in> word_at (word_of_nat c) \<Longrightarrow> kept load_sample a"
  using load_sample_low [of c 4 0] load_sample_low [of c 4 1] load_sample_low [of c 4 2] load_sample_low [of c 4 3]
  by (auto simp: word_at_def)

lemma load_sample_disk:
  "file_on_disk load_sample sample_img (root_entry load_sample 0) 5632 20" "driver_kept load_sample"
proof -
  have d: "ata_disk (device load_sample) sample_img"
    using ata_of_disk [of sample_img] by (simp add: load_sample_def sample_img_def)
  have "mounted load_sample"
    by (simp add: mounted_def load_sample_fields fat_layout load_sample_words) (simp add: load_sample_def)
  moreover have "cluster_start load_sample (unat (fat16_get_first_cluster (mem load_sample) 0x3200)) = int 5632"
    by (simp add: cluster_start_def fat16_get_first_cluster_def load_sample_fields fat_layout load_sample_words)
  moreover have "20 \<le> cluster_bytes load_sample" by (simp add: cluster_bytes_def load_sample_fields fat_layout load_sample_words)
  ultimately show "file_on_disk load_sample sample_img (root_entry load_sample 0) 5632 20"
    unfolding on_sample_volume(2) [OF load_sample_on]
    by (simp add: file_on_disk_def d load_sample_fields fat_layout load_sample_words)
  have c: "cluster_stream load_sample = word_of_nat 8192" "load32 (mem load_sample) (fs_private load_sample + FAT_READ_STREAM) + 4 = word_of_nat 8452"
    "cluster_stream load_sample + 4 = word_of_nat 8196"
    by (simp_all add: cluster_stream_def load_sample_fields fat_layout load_sample_words)
  have p: "fs_private load_sample = word_of_nat 4096" by (simp add: load_sample_fields)
  show "driver_kept load_sample" unfolding driver_kept_def c(2,3) c(1) p
    using load_sample_low [of 4096 92] load_sample_word [of 8192] load_sample_word [of 8196] load_sample_word [of 8452]
    by (auto simp: c(2) [unfolded p] c(3) [unfolded c(1)] simp del: of_nat_numeral)
qed

lemma load_sample_start:
  "tasks_inv load_sample []" "length (processes load_sample) = 12" "first_zero (processes load_sample) = Some 0"
  "literal_r load_sample = 0x600" "mem load_sample (literal_r load_sample) = 114"
  "literal_r load_sample \<notin> heap_area load_sample"
proof -
  show "tasks_inv load_sample []"
    unfolding tasks_inv_Nil by (simp add: kheap_view_defs load_sample_fields fresh_heap_inv) (simp add: load_sample_def)
  show r: "literal_r load_sample = 0x600" by (simp add: load_sample_def)
  show "length (processes load_sample) = 12" "first_zero (processes load_sample) = Some 0"
    by (simp_all add: load_sample_def first_zero_replicate)
  show "mem load_sample (literal_r load_sample) = 114" "literal_r load_sample \<notin> heap_area load_sample"
    using on_sample_ok(9,10) [OF load_sample_on] by (simp_all add: r)
qed


theorem process_load_missing_leaks_witness:
  "\<exists>s' p ps. process_load fat16_objects 0x700 0x900 load_sample = Inr (- 1, 0x900, s') \<and> processes s' = replicate 12 0
     \<and> kheap_allocs s' = insert (p, 2) (page_allocs ps) \<and> length ps = 4"
proof -
  note o = on_sample_ok [OF load_sample_on] and f = load_sample_fields
  have h: "part_names [[120]]" "cstr_at (mem load_sample) 0x700 (48 # 58 # 47 # [120])" "length [120 :: u8] \<le> 105"
    "\<forall>j < length [([65, 66], [67])]. \<not> same_name (full_name (fst ([([65, 66], [67])] ! j)) (snd ([([65, 66], [67])] ! j))) [120]"
    by (simp_all add: part_names_def f open_memory_def fat_memory_def same_name_def full_name_def)
  have "\<forall>j \<le> length [120 :: u8] + 3. 0x700 + word_of_nat j \<notin> heap_area load_sample"
    using load_sample_low [of 1792 5] by simp
  then have path: "root_path load_sample 0x700 [120]" using h by (simp add: root_path_def)
  have none: "kheap_allocs load_sample = {}" by (simp add: kheap_view_defs f fresh_heap_inv)
  have room: "card (kheap_allocs load_sample) + 5 < kheap_vacant load_sample"
    by (simp add: kheap_view_defs f fresh_heap_inv)
  note l = load_sample_start
  obtain s' p ps where s': "process_load fat16_objects 0x700 0x900 load_sample = Inr (- EIO, 0x900, s')" "rest s' = rest load_sample"
    "kheap_allocs s' = insert (p, 2) (kheap_allocs load_sample \<union> page_allocs ps)" "length ps = 4"
    using process_load_missing_leaks [OF l(1) o(1) l(2,3) on_sample_volume(1) [OF load_sample_on] h(4) path l(5,6) room, of "0x900"] by blast
  have "processes s' = replicate 12 0" using rest_processes(1) [OF s'(2)] by (simp add: load_sample_def)
  then show ?thesis using s' unfolding none by (auto simp: EIO_def)
qed

end
