(* ===== verification/FatMount.thy ===== *)
theory FatMount
  imports ProcessProps
begin

text \<open>
  Mounting a volume, step by step: the three streams of the private data, the header, the count of the entries of the
  root directory on the disk, the directory's copy in memory, and \<^verbatim>\<open>fat16_resolve\<close> as a whole
  (\<open>fat16_resolve_ok\<close>). A volume on the disk is \<open>fat16_image\<close>, stated on the bytes of its sectors with the driver's
  own accessors of the header and of the entries.
\<close>

section \<open>Streams\<close>

lemma extends_ldw:
  assumes "extends {} s s'" "kheap_inv s" "(p, 1) \<in> kheap_allocs s" "i < 1024"
  shows "ldw (mem s') p i = ldw (mem s) p i"
  by (rule ldw_cong [OF live_page_aligned [OF assms(2,3)] assms(4)], rule extends_mem [OF assms(1) live_kept [OF assms(2,3)]]) simp_all

lemma extends_stw:
  assumes "extends X s s1" "(p, 1) \<in> kheap_allocs s1" "\<forall>k. (p, k) \<notin> kheap_allocs s" "f < 1024"
  shows "extends X s (s1\<lparr>mem := stw p f w (mem s1)\<rparr>)"
proof (rule extends_store [OF assms(1-3)])
  fix a
  assume a: "\<not> in_block p 1 a"
  have p: "page_aligned p" by (rule live_page_aligned [OF _ assms(2)]) (use assms(1) in \<open>simp add: extends_def\<close>)
  then have "\<not> in_page p a" using a in_block_page [of p a] by simp
  then show "mem (s1\<lparr>mem := stw p f w (mem s1)\<rparr>) a = mem s1 a" using stw_frame [OF p assms(4)] by simp
qed simp

text \<open>A new stream, at position 0 of the disk.\<close>

lemma diskstreamer_new_ok:
  fixes s :: "'a dstate_scheme"
  assumes inv: "kheap_inv s" "0 < kheap_vacant s" and d: "disk_at s \<noteq> 0" "disk_id s = 0"
  obtains x s' where "diskstreamer_new (disk_id s) s = Inr (x, s')" "extends {} s s'" "rest s' = rest s" "x \<noteq> 0" "page_aligned x"
    "kheap_allocs s' = insert (x, 1) (kheap_allocs s)" "\<forall>k. (x, k) \<notin> kheap_allocs s" "kheap_vacant s = Suc (kheap_vacant s')"
    "ldw (mem s') x 0 = 0" "ldw (mem s') x 1 = disk_at s"
proof -
  have sz: "(0 :: u32) < 8" "(8 :: u32) \<le> 4096" by simp_all
  obtain x s1 where x: "kzalloc 8 s = Inr (x, s1)" "parse_frame {} s s1" "x \<noteq> 0" "page_aligned x"
    "kheap_allocs s1 = insert (x, 1) (kheap_allocs s)" "\<forall>k. (x, k) \<notin> kheap_allocs s"
    "kheap_vacant s = Suc (kheap_vacant s1)" by (rule kzalloc_fresh [OF inv sz])
  define s2 where "s2 = s1\<lparr>mem := stw x 0 0 (mem s1)\<rparr>"
  define s3 where "s3 = s2\<lparr>mem := stw x 1 (disk_at s) (mem s2)\<rparr>"
  have st: "st32 x 0 s1 = s2" "st32 (x + 4) w s2 = s2\<lparr>mem := stw x 1 w (mem s2)\<rparr>" for w
    by (simp_all add: st32_def stw_def s2_def)
  have r1: "rest s1 = rest s" using x(2) by (auto simp: parse_frame_def intro: heap_step_rest)
  have e2: "extends {} s s2" unfolding s2_def by (rule extends_stw [OF extends_frame [OF x(2)]]) (use x(5,6) in simp_all)
  have e3: "extends {} s s3" unfolding s3_def by (rule extends_stw [OF e2]) (use x(5,6) in \<open>simp_all add: s2_def kheap_view_defs\<close>)
  have r3: "rest s3 = rest s" using r1 by (simp add: s3_def s2_def)
  have "disk_get (disk_id s) s1 = disk_at s" using rest_dstate(1) [OF r1] d by (simp add: disk_get_def)
  then have "diskstreamer_new (disk_id s) s = Inr (x, s3)"
    using d x(1) st by (simp add: diskstreamer_new_def disk_get_def s3_def)
  moreover have "ldw (mem s3) x 0 = 0" "ldw (mem s3) x 1 = disk_at s" by (simp_all add: s3_def s2_def ldw_stw x(4))
  moreover have "kheap_allocs s3 = kheap_allocs s1" "kheap_vacant s3 = kheap_vacant s1" by (simp_all add: s3_def s2_def kheap_view_defs)
  ultimately show thesis using that [OF _ e3 r3 x(3,4)] x(5-7) by simp
qed

text \<open>The private data gets its three streams.\<close>

lemma private_words:
  "st32 (p + CLUSTER_READ_STREAM) w s = s\<lparr>mem := stw p 20 w (mem s)\<rparr>"
  "st32 (p + FAT_READ_STREAM) w s = s\<lparr>mem := stw p 21 w (mem s)\<rparr>"
  "st32 (p + DIRECTORY_STREAM) w s = s\<lparr>mem := stw p 22 w (mem s)\<rparr>"
  "st32 (p + ROOT_DIRECTORY + D_ITEM) w s = s\<lparr>mem := stw p 16 w (mem s)\<rparr>"
  "st32 (p + ROOT_DIRECTORY + D_TOTAL) w s = s\<lparr>mem := stw p 17 w (mem s)\<rparr>"
  "st32 (p + ROOT_DIRECTORY + D_SECTOR_POS) w s = s\<lparr>mem := stw p 18 w (mem s)\<rparr>"
  "st32 (p + ROOT_DIRECTORY + D_ENDING_SECTOR_POS) w s = s\<lparr>mem := stw p 19 w (mem s)\<rparr>"
  "load32 m (p + CLUSTER_READ_STREAM) = ldw m p 20" "load32 m (p + FAT_READ_STREAM) = ldw m p 21"
  "load32 m (p + DIRECTORY_STREAM) = ldw m p 22" "load32 m (p + ROOT_DIRECTORY + D_ITEM) = ldw m p 16"
  "load32 m (p + ROOT_DIRECTORY + D_TOTAL) = ldw m p 17" "load32 m (p + ROOT_DIRECTORY + D_ENDING_SECTOR_POS) = ldw m p 19"
  by (simp_all add: st32_def stw_def ldw_def fat_layout add.assoc)

text \<open>A stream for the private data at \<open>p\<close>: made, then stored in word \<open>f\<close>.\<close>

definition streams_at :: "memory \<Rightarrow> u32 \<Rightarrow> u32 list \<Rightarrow> bool" where
  "streams_at m disk xs \<longleftrightarrow> (\<forall>x \<in> set xs. ldw m x 1 = disk)"

lemma private_stream:
  fixes s0 s :: "'a dstate_scheme"
  assumes e: "extends {} s0 s" and P: "(P, 1) \<in> kheap_allocs s" "\<forall>k. (P, k) \<notin> kheap_allocs s0"
    and room: "0 < kheap_vacant s" and d: "disk_at s \<noteq> 0" "disk_id s = 0" and f: "f < 1024"
    and xs: "\<forall>x \<in> set xs. (x, 1) \<in> kheap_allocs s \<and> x \<noteq> P" "streams_at (mem s) (disk_at s) xs"
  obtains x s1 where "diskstreamer_new (disk_id s) s = Inr (x, s1)" "x \<noteq> 0"
    "extends {} s0 (s1\<lparr>mem := stw P f x (mem s1)\<rparr>)" "rest s1 = rest s"
    "kheap_allocs s1 = insert (x, 1) (kheap_allocs s)" "\<forall>k. (x, k) \<notin> kheap_allocs s" "kheap_vacant s = Suc (kheap_vacant s1)"
    "streams_at (stw P f x (mem s1)) (disk_at s) (x # xs)" "x \<noteq> P" "x \<notin> set xs"
    "\<And>i. i < 1024 \<Longrightarrow> ldw (stw P f x (mem s1)) P i = (if i = f then x else ldw (mem s) P i)"
proof -
  have inv: "kheap_inv s" using e by (simp add: extends_def)
  obtain x s1 where x: "diskstreamer_new (disk_id s) s = Inr (x, s1)" "extends {} s s1" "rest s1 = rest s" "x \<noteq> 0" "page_aligned x"
    "kheap_allocs s1 = insert (x, 1) (kheap_allocs s)" "\<forall>k. (x, k) \<notin> kheap_allocs s" "kheap_vacant s = Suc (kheap_vacant s1)"
    "ldw (mem s1) x 0 = 0" "ldw (mem s1) x 1 = disk_at s" by (rule diskstreamer_new_ok [OF inv room d])
  have Pa: "page_aligned P" by (rule live_page_aligned [OF inv P(1)])
  have ne: "x \<noteq> P" "x \<notin> set xs" using x(7) P(1) xs(1) by auto
  have "extends {} s0 (s1\<lparr>mem := stw P f x (mem s1)\<rparr>)"
    by (rule extends_stw [OF extends_trans [OF e x(2)] _ P(2) f]) (use x(6) P(1) in simp)
  moreover have "streams_at (stw P f x (mem s1)) (disk_at s) (x # xs)"
  proof -
    have "ldw (stw P f x (mem s1)) y 1 = disk_at s" if y: "y \<in> set xs" for y
    proof -
      have yl: "(y, 1) \<in> kheap_allocs s" "y \<noteq> P" using xs(1) y by auto
      have "ldw (stw P f x (mem s1)) y 1 = ldw (mem s1) y 1"
        using ldw_stw_page [OF Pa live_page_aligned [OF inv yl(1)] _ f] yl(2) by simp
      then show ?thesis using extends_ldw [OF x(2) inv yl(1), of 1] xs(2) y by (simp add: streams_at_def)
    qed
    moreover have "ldw (stw P f x (mem s1)) x 1 = disk_at s" using ldw_stw_page [OF Pa x(5) _ f] ne(1) x(10) by simp
    ultimately show ?thesis by (simp add: streams_at_def)
  qed
  moreover have "ldw (stw P f x (mem s1)) P i = (if i = f then x else ldw (mem s) P i)" if "i < 1024" for i
    using ldw_stw [OF Pa Pa f that] extends_ldw [OF x(2) inv P(1) that] by auto
  ultimately show thesis using that [OF x(1,4) _ x(3,6,7,8) _ ne] by blast
qed

lemma fat16_init_private_ok:
  fixes s0 s :: "'a dstate_scheme"
  assumes e: "extends {} s0 s" and P: "(P, 1) \<in> kheap_allocs s" "\<forall>k. (P, k) \<notin> kheap_allocs s0"
    and room: "3 \<le> kheap_vacant s" and d: "disk_at s \<noteq> 0" "disk_id s = 0"
  obtains c f x s' where "fat16_init_private P s = Inr s'" "extends {} s0 s'" "rest s' = rest s"
    "kheap_allocs s' = kheap_allocs s \<union> page_allocs [c, f, x]" "distinct [P, c, f, x]" "\<forall>y \<in> {c, f, x}. \<forall>k. (y, k) \<notin> kheap_allocs s"
    "c \<noteq> 0" "f \<noteq> 0" "x \<noteq> 0" "streams_at (mem s') (disk_at s) [c, f, x]"
    "ldw (mem s') P 20 = c" "ldw (mem s') P 21 = f" "ldw (mem s') P 22 = x" "kheap_vacant s = kheap_vacant s' + 3"
proof -
  define t where "t = s\<lparr>mem := memset P 0 fat_private_sizeof (mem s)\<rparr>"
  have inv: "kheap_inv s" using e by (simp add: extends_def)
  have et: "extends {} s0 t"
  proof (rule extends_store [OF e P])
    fix a
    assume "\<not> in_block P 1 a"
    then have "\<not> unat (a - P) < 92" using in_block_offset [OF inv P(1), of a] by linarith
    then show "mem t a = mem s a" by (simp add: t_def memset_apply fat_layout)
  qed (simp add: t_def)
  have t: "rest t = rest s" "kheap_allocs t = kheap_allocs s" "kheap_vacant t = kheap_vacant s" "disk_at t = disk_at s" "disk_id t = disk_id s"
    by (simp_all add: t_def kheap_view_defs)
  have Pt: "(P, 1) \<in> kheap_allocs t" using P(1) t(2) by simp
  have r0: "0 < kheap_vacant t" "disk_at t \<noteq> 0" "disk_id t = 0" using room d t by simp_all
  obtain c s1 where c: "diskstreamer_new (disk_id t) t = Inr (c, s1)" "c \<noteq> 0"
    "extends {} s0 (s1\<lparr>mem := stw P 20 c (mem s1)\<rparr>)" "rest s1 = rest t"
    "kheap_allocs s1 = insert (c, 1) (kheap_allocs t)" "\<forall>k. (c, k) \<notin> kheap_allocs t" "kheap_vacant t = Suc (kheap_vacant s1)"
    "streams_at (stw P 20 c (mem s1)) (disk_at t) (c # [])" "c \<noteq> P"
    "\<And>i. i < 1024 \<Longrightarrow> ldw (stw P 20 c (mem s1)) P i = (if i = 20 then c else ldw (mem t) P i)"
    by (rule private_stream [OF et Pt P(2) r0, of 20 "[]"]) (simp_all add: streams_at_def)
  define u1 where "u1 = s1\<lparr>mem := stw P 20 c (mem s1)\<rparr>"
  have u1: "rest u1 = rest t" "kheap_allocs u1 = insert (c, 1) (kheap_allocs t)" "kheap_vacant t = Suc (kheap_vacant u1)"
    "disk_at u1 = disk_at t" "disk_id u1 = disk_id t"
    using c(4,5,7) rest_dstate [OF c(4)] by (simp_all add: u1_def kheap_view_defs)
  have P1: "(P, 1) \<in> kheap_allocs u1" using Pt u1(2) by simp
  have r1: "0 < kheap_vacant u1" "disk_at u1 \<noteq> 0" "disk_id u1 = 0" using room d t u1 by simp_all
  have xs1: "\<forall>y \<in> set [c]. (y, 1) \<in> kheap_allocs u1 \<and> y \<noteq> P" "streams_at (mem u1) (disk_at u1) [c]"
    using c(8,9) u1(2,4) by (simp_all add: u1_def)
  obtain f s2 where f: "diskstreamer_new (disk_id u1) u1 = Inr (f, s2)" "f \<noteq> 0"
    "extends {} s0 (s2\<lparr>mem := stw P 21 f (mem s2)\<rparr>)" "rest s2 = rest u1"
    "kheap_allocs s2 = insert (f, 1) (kheap_allocs u1)" "\<forall>k. (f, k) \<notin> kheap_allocs u1" "kheap_vacant u1 = Suc (kheap_vacant s2)"
    "streams_at (stw P 21 f (mem s2)) (disk_at u1) (f # [c])" "f \<noteq> P" "f \<notin> set [c]"
    "\<And>i. i < 1024 \<Longrightarrow> ldw (stw P 21 f (mem s2)) P i = (if i = 21 then f else ldw (mem u1) P i)"
    by (rule private_stream [OF c(3) [folded u1_def] P1 P(2) r1 _ xs1, of 21]) simp_all
  define u2 where "u2 = s2\<lparr>mem := stw P 21 f (mem s2)\<rparr>"
  have u2: "rest u2 = rest u1" "kheap_allocs u2 = insert (f, 1) (kheap_allocs u1)" "kheap_vacant u1 = Suc (kheap_vacant u2)"
    "disk_at u2 = disk_at u1" "disk_id u2 = disk_id u1"
    using f(4,5,7) rest_dstate [OF f(4)] by (simp_all add: u2_def kheap_view_defs)
  have P2: "(P, 1) \<in> kheap_allocs u2" using P1 u2(2) by simp
  have r2: "0 < kheap_vacant u2" "disk_at u2 \<noteq> 0" "disk_id u2 = 0" using room d t u1 u2 by simp_all
  have xs2: "\<forall>y \<in> set [f, c]. (y, 1) \<in> kheap_allocs u2 \<and> y \<noteq> P" "streams_at (mem u2) (disk_at u2) [f, c]"
    using f(8,9) u2(2,4) u1(2) c(9) by (simp_all add: u2_def)
  obtain x s3 where x: "diskstreamer_new (disk_id u2) u2 = Inr (x, s3)" "x \<noteq> 0"
    "extends {} s0 (s3\<lparr>mem := stw P 22 x (mem s3)\<rparr>)" "rest s3 = rest u2"
    "kheap_allocs s3 = insert (x, 1) (kheap_allocs u2)" "\<forall>k. (x, k) \<notin> kheap_allocs u2" "kheap_vacant u2 = Suc (kheap_vacant s3)"
    "streams_at (stw P 22 x (mem s3)) (disk_at u2) (x # [f, c])" "x \<noteq> P" "x \<notin> set [f, c]"
    "\<And>i. i < 1024 \<Longrightarrow> ldw (stw P 22 x (mem s3)) P i = (if i = 22 then x else ldw (mem u2) P i)"
    by (rule private_stream [OF f(3) [folded u2_def] P2 P(2) r2 _ xs2, of 22]) simp_all
  define u3 where "u3 = s3\<lparr>mem := stw P 22 x (mem s3)\<rparr>"
  have m: "mem u1 = stw P 20 c (mem s1)" "mem u2 = stw P 21 f (mem s2)" "mem u3 = stw P 22 x (mem s3)"
    by (simp_all add: u1_def u2_def u3_def)
  have "fat16_init_private P s = Inr u3"
  proof -
    have "disk_id s1 = disk_id u1" "disk_id s2 = disk_id u2" by (simp_all add: u1_def u2_def)
    then show ?thesis
      unfolding fat16_init_private_def t_def [symmetric] Let_def private_words c(1) bnd.simps prod.case u1_def [symmetric]
      by (simp only: f(1) x(1) bnd.simps prod.case u2_def [symmetric] u3_def [symmetric])
  qed
  moreover have "rest u3 = rest s" using x(4) u2(1) u1(1) t(1) by (simp add: u3_def)
  moreover have "kheap_allocs u3 = kheap_allocs s \<union> page_allocs [c, f, x]"
    using x(5) u2(2) u1(2) t(2) by (auto simp: u3_def kheap_view_defs page_allocs_def)
  moreover have "distinct [P, c, f, x]" using c(9) f(9,10) x(9,10) by auto
  moreover have "\<forall>y \<in> {c, f, x}. \<forall>k. (y, k) \<notin> kheap_allocs s" using c(6) f(6) x(6) u1(2) u2(2) t(2) by auto
  moreover have "streams_at (mem u3) (disk_at s) [c, f, x]"
    using x(8) u2(4) u1(4) t(4) unfolding m by (auto simp: streams_at_def)
  moreover have "ldw (mem u3) P 20 = c" "ldw (mem u3) P 21 = f" "ldw (mem u3) P 22 = x"
    unfolding m(3) x(11) f(11) [folded m(2)] c(10) [folded m(1)] by (simp_all add: x(11) f(11) [folded m(2)] c(10) [folded m(1)])
  moreover have "kheap_vacant s = kheap_vacant u3 + 3"
    using x(7) u2(3) u1(3) t(3) by (simp add: u3_def kheap_view_defs)
  ultimately show thesis using that [of u3 c f x] x(3) [folded u3_def] c(2) f(2) x(2) by blast
qed

section \<open>Counting the entries of the root directory\<close>

lemma entry_in_sector: "(pos :: nat) mod 512 = 0 \<Longrightarrow> (pos + 32 * i) mod 512 + 32 \<le> 512"
proof -
  assume "pos mod 512 = 0"
  then obtain k where k: "pos = 512 * k" by auto
  have "(pos + 32 * i) mod 512 = 32 * (i mod 16)" using mult_mod_right [of 32 i 16] by (simp add: k)
  moreover have "i mod 16 < 16" by simp
  ultimately show ?thesis by linarith
qed

lemma entry_read:
  fixes s :: "'a dstate_scheme"
  assumes disk: "ata_disk (device s) img" and al: "pos mod 512 = 0" and b: "pos + 32 * Suc i < 2 ^ 31"
    and at: "stream_at st (pos + 32 * i) s"
  obtains es bs where "diskstreamer_read st (sint fat_directory_item_sizeof) s =
      Inr (0, bs, s\<lparr>mem := store32 (mem s) st (word_of_nat (pos + 32 * Suc i)), ports := ports s @ es\<rparr>)"
    "bs ! 0 = disk_byte img (pos + 32 * i)"
proof -
  have sz: "sint fat_directory_item_sizeof = int 32" by (simp add: fat_layout)
  have e: "pos + 32 * i + 32 = pos + 32 * Suc i" by simp
  have b': "pos + 32 * i + 32 < 2 ^ 31" using b by simp
  obtain es where "diskstreamer_read st (int 32) s = Inr (0, map (disk_byte img) [pos + 32 * i..<pos + 32 * i + 32],
    s\<lparr>mem := store32 (mem s) st (word_of_nat (pos + 32 * i + 32)), ports := ports s @ es\<rparr>)"
    using diskstreamer_read_ok [OF disk at b' disjI2 [OF entry_in_sector [OF al]]] by blast
  then have "diskstreamer_read st (sint fat_directory_item_sizeof) s = Inr (0, map (disk_byte img) [pos + 32 * i..<pos + 32 * i + 32],
      s\<lparr>mem := store32 (mem s) st (word_of_nat (pos + 32 * Suc i)), ports := ports s @ es\<rparr>)"
    unfolding sz e .
  moreover have "map (disk_byte img) [pos + 32 * i..<pos + 32 * i + 32] ! 0 = disk_byte img (pos + 32 * i)"
    by (simp del: upt_Suc upt_rec_numeral)
  ultimately show thesis by (rule that)
qed

lemma total_items_ok:
  fixes s :: "'a dstate_scheme"
  assumes disk: "ata_disk (device s) img" and al: "pos mod 512 = 0" and b: "pos + 32 * (i + n + 1) < 2 ^ 31"
    and at: "stream_at st (pos + 32 * i) s"
    and used: "\<forall>j < n. disk_byte img (pos + 32 * (i + j)) \<notin> {0, 0xE5}" and fin: "disk_byte img (pos + 32 * (i + n)) = 0"
  shows "\<exists>es. total_items_loop st (int i) s = Some (Inr (int (i + n),
    s\<lparr>mem := store32 (mem s) st (word_of_nat (pos + 32 * (i + n + 1))), ports := ports s @ es\<rparr>))"
  using assms
proof (induction n arbitrary: i s)
  case 0
  have b: "pos + 32 * Suc i < 2 ^ 31" using 0(3) by simp
  obtain es bs where r: "diskstreamer_read st (sint fat_directory_item_sizeof) s =
      Inr (0, bs, s\<lparr>mem := store32 (mem s) st (word_of_nat (pos + 32 * Suc i)), ports := ports s @ es\<rparr>)"
    "bs ! 0 = disk_byte img (pos + 32 * i)" by (rule entry_read [OF 0(1,2) b 0(4)])
  have "bs ! 0 = 0" using r(2) 0(6) by simp
  then show ?case
    by (subst total_items_loop.simps, intro exI [of _ es]) (simp add: r(1) GUAVAOS_ALL_OK_def)
next
  case (Suc n)
  have b: "pos + 32 * Suc i < 2 ^ 31" using Suc(4) by simp
  obtain es bs where r: "diskstreamer_read st (sint fat_directory_item_sizeof) s =
      Inr (0, bs, s\<lparr>mem := store32 (mem s) st (word_of_nat (pos + 32 * Suc i)), ports := ports s @ es\<rparr>)"
    "bs ! 0 = disk_byte img (pos + 32 * i)" by (rule entry_read [OF Suc(2,3) b Suc(5)])
  define s1 where "s1 = s\<lparr>mem := store32 (mem s) st (word_of_nat (pos + 32 * Suc i)), ports := ports s @ es\<rparr>"
  have "bs ! 0 \<notin> {0, 0xE5}" using r(2) Suc(6) [rule_format, of 0] by simp
  then have step: "total_items_loop st (int i) s = total_items_loop st (int (Suc i)) s1"
    by (subst total_items_loop.simps) (simp add: r(1) [folded s1_def] GUAVAOS_ALL_OK_def ac_simps)
  have st1: "stream_at st (pos + 32 * Suc i) s1" unfolding s1_def by (rule stream_at_intro [OF Suc(5)])
  have u1: "\<forall>j < n. disk_byte img (pos + 32 * (Suc i + j)) \<notin> {0, 0xE5}"
  proof (intro allI impI)
    fix j
    assume "j < n"
    then show "disk_byte img (pos + 32 * (Suc i + j)) \<notin> {0, 0xE5}" using Suc(6) [rule_format, of "Suc j"] by simp
  qed
  have d1: "ata_disk (device s1) img" using Suc(2) by (simp add: s1_def)
  have b1: "pos + 32 * (Suc i + n + 1) < 2 ^ 31" "disk_byte img (pos + 32 * (Suc i + n)) = 0" using Suc(4,7) by simp_all
  obtain es' where l: "total_items_loop st (int (Suc i)) s1 = Some (Inr (int (Suc i + n),
    s1\<lparr>mem := store32 (mem s1) st (word_of_nat (pos + 32 * (Suc i + n + 1))), ports := ports s1 @ es'\<rparr>))"
    using Suc.IH [OF d1 Suc(3) b1(1) st1 u1 b1(2)] by blast
  have m: "mem s1 = store32 (mem s) st (word_of_nat (pos + 32 * Suc i))" "ports s1 = ports s @ es" by (simp_all add: s1_def)
  have "Suc i + n + 1 = i + Suc n + 1" "Suc i + n = i + Suc n" by simp_all
  then show ?case unfolding step l m store32_twice
    by (intro exI [of _ "es @ es'"]) (simp only: append_assoc, simp add: s1_def)
qed

section \<open>A FAT16 volume on the disk\<close>

text \<open>The first 4 GB of the disk as memory, so that the driver's accessors read its header and entries.\<close>

definition disk_mem :: "(nat \<Rightarrow> u16 list) \<Rightarrow> memory" where
  "disk_mem img = (\<lambda>a. disk_byte img (unat a))"

definition root_sector :: "(nat \<Rightarrow> u16 list) \<Rightarrow> nat" where
  "root_sector img = unat (fat_copies (disk_mem img) 0) * unat (sectors_per_fat (disk_mem img) 0)
     + unat (reserved_sectors (disk_mem img) 0)"

definition root_capacity :: "(nat \<Rightarrow> u16 list) \<Rightarrow> nat" where
  "root_capacity img = unat (root_dir_entries (disk_mem img) 0)"

definition disk_entry :: "(nat \<Rightarrow> u16 list) \<Rightarrow> nat \<Rightarrow> u32" where
  "disk_entry img i = word_of_nat (512 * root_sector img + 32 * i)"

definition fat16_image :: "(nat \<Rightarrow> u16 list) \<Rightarrow> (u8 list \<times> u8 list) list \<Rightarrow> bool" where
  "fat16_image img dir \<longleftrightarrow> fat_signature (disk_mem img) 0 = 0x29 \<and> sectors_per_cluster (disk_mem img) 0 \<noteq> 0
     \<and> length dir \<le> root_capacity img \<and> 0 < root_capacity img \<and> 512 * root_sector img + 32 * (root_capacity img + 1) < 2 ^ 31
     \<and> (\<forall>i < length dir. entry_name (disk_mem img) (disk_entry img i) (fst (dir ! i)) (snd (dir ! i))
          \<and> disk_mem img (disk_entry img i) \<notin> {0, 0xE5})
     \<and> disk_mem img (disk_entry img (length dir)) = 0"

lemma disk_entry_byte:
  assumes "512 * root_sector img + 32 * (root_capacity img + 1) < 2 ^ 31" "i \<le> root_capacity img" "j < 32"
  shows "disk_mem img (disk_entry img i + word_of_nat j) = disk_byte img (512 * root_sector img + 32 * i + j)"
proof -
  have "512 * root_sector img + 32 * i + j < 2 ^ 32" using assms by simp
  then have "unat (word_of_nat (512 * root_sector img + 32 * i + j) :: u32) = 512 * root_sector img + 32 * i + j"
    by (rule unat_of_nat32)
  moreover have "disk_entry img i + word_of_nat j = word_of_nat (512 * root_sector img + 32 * i + j)" by (simp add: disk_entry_def)
  ultimately show ?thesis by (simp only: disk_mem_def)
qed

text \<open>A copy of the header in memory.\<close>

lemma header_fields:
  assumes h: "\<forall>j < 62. m (P + word_of_nat j) = disk_byte img j"
  shows "sectors_per_cluster m P = sectors_per_cluster (disk_mem img) 0" "fat_signature m P = fat_signature (disk_mem img) 0"
    "uint (fat_copies m P) * uint (sectors_per_fat m P) + uint (reserved_sectors m P) = int (root_sector img)"
    "uint (root_dir_entries m P) = int (root_capacity img)"
proof -
  have b: "\<forall>j < 62. m (P + word_of_nat j) = disk_mem img (0 + word_of_nat j)"
  proof (intro allI impI)
    fix j :: nat
    assume j: "j < 62"
    then have "unat (word_of_nat j :: u32) = j" by (intro unat_of_nat32) simp
    then show "m (P + word_of_nat j) = disk_mem img (0 + word_of_nat j)" using h j by (simp add: disk_mem_def)
  qed
  have w: "load16 m (P + word_of_nat k) = load16 (disk_mem img) (0 + word_of_nat k)" if "k + 2 \<le> 62" for k
    by (rule load16_block [OF b that])
  note f = b [rule_format, of 13] b [rule_format, of 16] b [rule_format, of 38] w [of 14] w [of 17] w [of 22]
  show "sectors_per_cluster m P = sectors_per_cluster (disk_mem img) 0" "fat_signature m P = fat_signature (disk_mem img) 0"
    using f by (simp_all add: fat_layout)
  have g: "fat_copies m P = fat_copies (disk_mem img) 0" "sectors_per_fat m P = sectors_per_fat (disk_mem img) 0"
    "reserved_sectors m P = reserved_sectors (disk_mem img) 0" "root_dir_entries m P = root_dir_entries (disk_mem img) 0"
    using f by (simp_all add: fat_layout)
  show "uint (fat_copies m P) * uint (sectors_per_fat m P) + uint (reserved_sectors m P) = int (root_sector img)"
    unfolding g root_sector_def by simp
  show "uint (root_dir_entries m P) = int (root_capacity img)" unfolding g root_capacity_def by simp
qed

section \<open>Loading the root directory\<close>

definition root_area :: "u32 \<Rightarrow> u32 set" where
  "root_area P = {a. 64 \<le> unat (a - P) \<and> unat (a - P) < 80}"

lemma extends_within:
  assumes "extends X s s1" "\<And>a. a \<notin> X \<Longrightarrow> mem s2 a = mem s1 a" "kernel_heap s2 = kernel_heap s1"
  shows "extends X s s2"
  using assms by (auto simp: extends_def kheap_view_defs heap_area_def)

lemma root_word: "k \<in> {16, 17, 18, 19} \<Longrightarrow> a \<notin> root_area P \<Longrightarrow> stw P k w m a = m a"
proof -
  assume k: "k \<in> {16 :: nat, 17, 18, 19}" and a: "a \<notin> root_area P"
  have "a \<notin> word_at (P + word_of_nat (4 * k))"
  proof
    assume "a \<in> word_at (P + word_of_nat (4 * k))"
    moreover have "4 * k < 2 ^ 31" using k by auto
    ultimately have "4 * k \<le> unat (a - P)" "unat (a - P) < 4 * k + 4" using word_at_offset by blast+
    then show False using a k by (auto simp: root_area_def)
  qed
  then show ?thesis unfolding stw_def by (rule store32_outside)
qed

lemma stream_word: "a \<notin> word_at d \<Longrightarrow> store32 m d w a = m a"
  by (rule store32_outside)

lemma total_items_for_root:
  fixes s :: "'a dstate_scheme"
  assumes disk: "ata_disk (device s) img" and img: "fat16_image img dir" and sz: "sector_size s = 512"
    and d: "load32 (mem s) (fs_private s + DIRECTORY_STREAM) = d" "load32 (mem s) (d + 4) = disk_at s"
  shows "\<exists>es. fat16_get_total_items_for_directory (word_of_int (int (root_sector img))) s = Inr (int (length dir),
    s\<lparr>mem := store32 (mem s) d (word_of_nat (512 * root_sector img + 32 * (length dir + 1))), ports := ports s @ es\<rparr>)"
proof -
  let ?pos = "512 * root_sector img"
  have i: "length dir \<le> root_capacity img" "?pos + 32 * (root_capacity img + 1) < 2 ^ 31"
    "\<forall>i < length dir. disk_mem img (disk_entry img i) \<notin> {0, 0xE5}" "disk_mem img (disk_entry img (length dir)) = 0"
    using img by (simp_all add: fat16_image_def)
  have e: "disk_byte img (?pos + 32 * k) = disk_mem img (disk_entry img k)" if "k \<le> root_capacity img" for k
    using disk_entry_byte [OF i(2) that, of 0] by simp
  define t where "t = snd (diskstreamer_seek d (word_of_nat ?pos) s)"
  have t: "t = s\<lparr>mem := store32 (mem s) d (word_of_nat ?pos)\<rparr>" by (simp add: t_def diskstreamer_seek_def st32_def)
  have at: "stream_at d (?pos + 32 * 0) t" using stream_at_seek [OF d(2) t_def [symmetric]] by simp
  have dt: "ata_disk (device t) img" using disk by (simp add: t)
  have b: "?pos + 32 * (0 + length dir + 1) < 2 ^ 31" using i(1,2) by simp
  have u: "\<forall>j < length dir. disk_byte img (?pos + 32 * (0 + j)) \<notin> {0, 0xE5}" using i(1,3) e by simp
  have z: "disk_byte img (?pos + 32 * (0 + length dir)) = 0" using i(1,4) e by simp
  have al: "?pos mod 512 = 0" by simp
  obtain es where l: "total_items_loop d (int 0) t = Some (Inr (int (0 + length dir),
    t\<lparr>mem := store32 (mem t) d (word_of_nat (?pos + 32 * (0 + length dir + 1))), ports := ports t @ es\<rparr>))"
    using total_items_ok [OF dt al b at u z] by blast
  have w: "word_of_int (int (root_sector img)) * word_of_int 512 = (word_of_nat ?pos :: u32)" by simp
  have "fat16_get_total_items_for_directory (word_of_int (int (root_sector img))) s = ends (total_items_loop d (int 0) t)"
    unfolding fat16_get_total_items_for_directory_def Let_def sz w d(1)
    by (simp add: diskstreamer_seek_def GUAVAOS_ALL_OK_def t st32_def)
  then show ?thesis unfolding l by (intro exI [of _ es]) (simp add: ends_def t)
qed

text \<open>What a block of the heap shares with other live blocks: nothing.\<close>

lemma stream_in_page: "page_aligned d \<Longrightarrow> a \<in> word_at d \<Longrightarrow> in_page d a"
  using page_word_in_page [of d 0] by (auto simp: word_at_def)

lemma root_area_page: "page_aligned P \<Longrightarrow> a \<in> root_area P \<Longrightarrow> in_page P a"
proof -
  assume P: "page_aligned P" and a: "a \<in> root_area P"
  have "unat (a - P) < 4096" using a by (simp add: root_area_def)
  then have "in_page P (P + word_of_nat (unat (a - P)))" by (rule in_page_offset [OF P])
  then show ?thesis by simp
qed

text \<open>The four words of the root directory.\<close>

definition root_words :: "u32 \<Rightarrow> u32 \<Rightarrow> u32 \<Rightarrow> u32 \<Rightarrow> u32 \<Rightarrow> memory \<Rightarrow> memory" where
  "root_words P i t p e m = stw P 19 e (stw P 18 p (stw P 17 t (stw P 16 i m)))"

lemma root_words_ldw:
  assumes "page_aligned P"
  shows "ldw (root_words P i t p e m) P 16 = i" "ldw (root_words P i t p e m) P 17 = t" "ldw (root_words P i t p e m) P 19 = e"
    "a \<notin> root_area P \<Longrightarrow> root_words P i t p e m a = m a"
  by (simp_all add: root_words_def ldw_stw assms root_word)

lemma root_directory_ok:
  fixes s :: "'a dstate_scheme"
  assumes inv: "kheap_inv s" and disk: "ata_disk (device s) img" and img: "fat16_image img dir" and sz: "sector_size s = 512"
    and P: "(P, 1) \<in> kheap_allocs s" "fs_private s = P" and h: "\<forall>j < 62. mem s (P + word_of_nat j) = disk_byte img j"
    and d: "ldw (mem s) P 22 = d" "(d, 1) \<in> kheap_allocs s" "d \<noteq> P" "ldw (mem s) d 1 = disk_at s"
    and room: "(card (kheap_allocs s) + 1) * (blocks_of (word_of_nat (32 * root_capacity img)) - 1) < kheap_vacant s"
  obtains items s' where "fat16_get_root_directory P (P + ROOT_DIRECTORY) s = Inr (0, s')"
    "extends (word_at d \<union> root_area P) s s'" "rest s' = rest s"
    "kheap_allocs s' = insert (items, blocks_of (word_of_nat (32 * root_capacity img))) (kheap_allocs s)"
    "\<forall>k. (items, k) \<notin> kheap_allocs s" "ldw (mem s') P 16 = items" "ldw (mem s') P 17 = word_of_nat (length dir)"
    "ldw (mem s') P 19 = word_of_nat (root_sector img + 32 * root_capacity img div 512)"
    "\<forall>j < 32 * root_capacity img. mem s' (items + word_of_nat j) = disk_byte img (512 * root_sector img + j)"
proof -
  define R where "R = root_sector img"
  define E where "E = root_capacity img"
  define B where "B = blocks_of (word_of_nat (32 * E))"
  have i: "512 * R + 32 * (E + 1) < 2 ^ 31" "0 < E" using img by (simp_all add: fat16_image_def R_def E_def)
  note hf = header_fields [OF h, folded R_def E_def]
  have Ea: "page_aligned P" "page_aligned d" using live_page_aligned [OF inv] P(1) d(2) by blast+
  have E16: "E < 2 ^ 16" using unsigned_less [of "root_dir_entries (disk_mem img) 0"] by (simp add: E_def root_capacity_def)
  have usz: "unat (word_of_nat (32 * E) :: u32) = 32 * E" by (rule unat_of_nat32) (use E16 in simp)
  have vs: "valid_size (word_of_nat (32 * E))" using i(2) E16 usz by (simp add: valid_size_def word_less_nat_alt word_le_nat_alt)
  have dw: "load32 (mem s) (fs_private s + DIRECTORY_STREAM) = d" "load32 (mem s) (d + 4) = disk_at s"
    using d(1,4) P(2) by (simp_all add: private_words) (simp add: ldw_def)
  obtain es where n: "fat16_get_total_items_for_directory (word_of_int (int R)) s = Inr (int (length dir),
    s\<lparr>mem := store32 (mem s) d (word_of_nat (512 * R + 32 * (length dir + 1))), ports := ports s @ es\<rparr>)"
    using total_items_for_root [OF disk img sz dw] unfolding R_def by blast
  define s1 where "s1 = s\<lparr>mem := store32 (mem s) d (word_of_nat (512 * R + 32 * (length dir + 1))), ports := ports s @ es\<rparr>"
  have k1: "kernel_heap s1 = kernel_heap s" "rest s1 = rest s" "disk_at s1 = disk_at s" by (simp_all add: s1_def)
  have e1: "extends (word_at d) s s1"
    by (rule extends_within [OF extends_refl [OF inv]]) (simp_all add: s1_def stream_word)
  have inv1: "kheap_inv s1" "kheap_allocs s1 = kheap_allocs s" "kheap_vacant s1 = kheap_vacant s"
    using inv k1(1) by (simp_all add: kheap_view_defs)
  have "(card (kheap_allocs s1) + 1) * (blocks_of (word_of_nat (32 * E)) - 1) < kheap_vacant s1"
    using room unfolding inv1 E_def .
  from extends_alloc [OF inv1(1) vs this] obtain items s2 where x: "kzalloc (word_of_nat (32 * E)) s1 = Inr (items, s2)"
    "extends {} s1 s2" "items \<noteq> 0" "kheap_allocs s2 = insert (items, B) (kheap_allocs s)" "\<forall>k. (items, k) \<notin> kheap_allocs s"
    "heap_step s1 s2" unfolding B_def inv1(2) by metis
  have inv2: "kheap_inv s2" using x(2) by (simp add: extends_def)
  have r2: "rest s2 = rest s" using heap_step_rest [OF x(6)] k1(2) by simp
  have e2: "extends (word_at d) s s2" by (rule extends_trans [OF e1 extends_mono [OF x(2)]]) simp
  have d2: "(d, 1) \<in> kheap_allocs s1" "(P, 1) \<in> kheap_allocs s1" using d(2) P(1) inv1(2) by simp_all
  have s1d: "ldw (mem s1) d 1 = disk_at s" "ldw (mem s1) P 22 = d"
  proof -
    have "mem s1 = stw d 0 (word_of_nat (512 * R + 32 * (length dir + 1))) (mem s)" by (simp add: s1_def stw_def)
    then show "ldw (mem s1) d 1 = disk_at s" "ldw (mem s1) P 22 = d" using ldw_stw Ea d(1,3,4) by simp_all
  qed
  have w2: "ldw (mem s2) d 1 = disk_at s2" "ldw (mem s2) P 22 = d"
    using extends_ldw [OF x(2) inv1(1) d2(1), of 1] extends_ldw [OF x(2) inv1(1) d2(2), of 22] s1d rest_dstate(1) [OF r2] by simp_all
  define s3 where "s3 = snd (diskstreamer_seek d (word_of_nat (512 * R)) s2)"
  have s3: "s3 = s2\<lparr>mem := stw d 0 (word_of_nat (512 * R)) (mem s2)\<rparr>" by (simp add: s3_def diskstreamer_seek_def st32_def stw_def)
  have at: "stream_at d (512 * R) s3"
    by (rule stream_at_seek [OF _ s3_def [symmetric]]) (use w2(1) in \<open>simp add: ldw_def\<close>)
  have d3: "ata_disk (device s3) img" using disk rest_device [OF r2] by (simp add: s3)
  have b3: "512 * R + 32 * E < 2 ^ 31" "(512 * R) mod 512 = 0" using i(1) by simp_all
  obtain es' where rd: "diskstreamer_read_into d items (int (32 * E)) s3 = Inr (0,
    s3\<lparr>mem := store_bytes items (map (disk_byte img) [512 * R..<512 * R + 32 * E]) (store32 (mem s3) d (word_of_nat (512 * R + 32 * E))),
      ports := ports s3 @ es'\<rparr>)"
    using diskstreamer_read_into_ok [OF d3 at b3(1) disjI1 [OF b3(2)]] by blast
  define s4 where "s4 = s3\<lparr>mem := store_bytes items (map (disk_byte img) [512 * R..<512 * R + 32 * E]) (store32 (mem s3) d (word_of_nat (512 * R + 32 * E))),
      ports := ports s3 @ es'\<rparr>"
  define s' where "s' = s4\<lparr>mem := root_words P items (word_of_nat (length dir)) (word_of_nat R) (word_of_nat (R + 32 * E div 512)) (mem s4)\<rparr>"
  have bs: "length (map (disk_byte img) [512 * R..<512 * R + 32 * E]) = 32 * E" by simp
  have m4: "mem s4 a = (if unat (a - items) < 32 * E then disk_byte img (512 * R + unat (a - items)) else mem s2 a)" if "a \<notin> word_at d" for a
  proof -
    have "length (map (disk_byte img) [512 * R..<512 * R + 32 * E]) \<le> 2 ^ 32" using E16 unfolding bs by simp
    then show ?thesis unfolding s4_def using that
      by (simp add: store_bytes_apply stream_word s3 stw_def)
  qed
  have Bn: "32 * E \<le> 4096 * B" unfolding B_def by (rule block_bytes_bound) (use E16 in simp)
  have live2: "(items, B) \<in> kheap_allocs s2" "(d, 1) \<in> kheap_allocs s2" "(P, 1) \<in> kheap_allocs s2" using x(4) d(2) P(1) by simp_all
  have off: "in_block items B a" if "unat (a - items) < 32 * E" for a
    by (rule in_block_offset [OF inv2 live2(1)]) (use that Bn in simp)
  have apart: "\<not> in_block items B a" if "a \<in> word_at d \<union> root_area P" for a
  proof
    assume a: "in_block items B a"
    have "in_page d a \<or> in_page P a" using that stream_in_page [OF Ea(2)] root_area_page [OF Ea(1)] by blast
    then have "in_block d 1 a \<or> in_block P 1 a" using in_block_page Ea by simp
    then show False using km.allocs_apart [OF inv2 live2(1) live2(2) a] km.allocs_apart [OF inv2 live2(1) live2(3) a]
      x(5) d(2) P(1) by blast
  qed
  have e4: "extends (word_at d) s s4"
  proof -
    define u where "u = s2\<lparr>mem := \<lambda>a. if a \<in> word_at d then mem s2 a else mem s4 a\<rparr>"
    have "extends (word_at d) s u"
    proof (rule extends_store [OF e2 live2(1) x(5)])
      fix a
      assume "\<not> in_block items B a"
      then have "\<not> unat (a - items) < 32 * E" using off by blast
      then show "mem u a = mem s2 a" using m4 [of a] by (simp add: u_def)
    qed (simp add: u_def)
    then show ?thesis by (rule extends_within) (simp_all add: u_def s4_def s3)
  qed
  have e': "extends (word_at d \<union> root_area P) s s'"
    by (rule extends_within [OF extends_mono [OF e4]]) (simp_all add: s'_def root_words_ldw(4) Ea(1))
  have run: "fat16_get_root_directory P (P + ROOT_DIRECTORY) s = Inr (0, s')"
  proof -
    have sz': "sint fat_directory_item_sizeof = 32" by (simp add: fat_layout)
    have e: "int E * 32 = int (32 * E)" by simp
    have ss: "sector_size s2 = 512" "sector_size s3 = 512" "sector_size s4 = 512"
      using rest_dstate(3) [OF r2] sz by (simp_all add: s3 s4_def)
    have cd: "c_div (int (32 * E)) 512 = Inr (int (32 * E div 512))"
      using sdiv_nat [of "32 * E" 512] E16 by (simp add: c_div_def c_int_def)
    have abs: "fat16_sector_to_absolute (int R) s2 = Inr (int (512 * R))"
      using b3(1) by (simp add: fat16_sector_to_absolute_def ss c_int_def)
    have seek: "diskstreamer_seek d (word_of_int (int (512 * R))) s2 = (0, s3)" by (simp add: s3_def diskstreamer_seek_def)
    have w: "word_of_int (int k) = (word_of_nat k :: u32)" for k by simp
    note n' = n [unfolded w] and seek' = seek [unfolded w] and rd' = rd [folded s4_def]
    have q: "(32 * int E) sdiv 512 = int (32 * E div 512)" using sdiv_nat [of "32 * E" 512] by simp
    show ?thesis
      by (simp only: fat16_get_root_directory_def hf(3,4) sz' e sz Let_def cd bnd.simps n' prod.case s1_def [symmetric] x(1) w
          if_not_P [OF x(3)] w2(2) abs seek' rd' GUAVAOS_ALL_OK_def private_words not_True_eq_False if_False simp_thms)
        (simp add: s'_def root_words_def ss q)
  qed
  have "rest s' = rest s" using r2 by (simp add: s'_def s4_def s3)
  moreover have "kheap_allocs s' = insert (items, B) (kheap_allocs s)" using x(4) by (simp add: s'_def s4_def s3 kheap_view_defs)
  moreover have "ldw (mem s') P 16 = items" "ldw (mem s') P 17 = word_of_nat (length dir)" "ldw (mem s') P 19 = word_of_nat (R + 32 * E div 512)"
    by (simp_all add: s'_def root_words_ldw [OF Ea(1)])
  moreover have "\<forall>j < 32 * E. mem s' (items + word_of_nat j) = disk_byte img (512 * R + j)"
  proof (intro allI impI)
    fix j
    assume j: "j < 32 * E"
    have "unat (word_of_nat j :: u32) = j" by (rule unat_of_nat32) (use j E16 in simp)
    then have u: "unat (items + word_of_nat j - items) = j" by simp
    then have "in_block items B (items + word_of_nat j)" using off [of "items + word_of_nat j"] j by simp
    then have "items + word_of_nat j \<notin> word_at d \<union> root_area P" using apart by blast
    then show "mem s' (items + word_of_nat j) = disk_byte img (512 * R + j)"
      using m4 [of "items + word_of_nat j"] u j by (simp add: s'_def root_words_ldw(4) [OF Ea(1)])
  qed
  ultimately show thesis using that [OF run e'] x(5) unfolding R_def E_def B_def by blast
qed

lemma root_frame:
  assumes e: "extends (word_at x \<union> root_area P) s s'" and inv: "kheap_inv s"
    and live: "(P, 1) \<in> kheap_allocs s" "(x, 1) \<in> kheap_allocs s" "P \<noteq> x"
  shows "(y, 1) \<in> kheap_allocs s \<Longrightarrow> y \<noteq> P \<Longrightarrow> y \<noteq> x \<Longrightarrow> i < 1024 \<Longrightarrow> ldw (mem s') y i = ldw (mem s) y i"
    and "20 \<le> k \<Longrightarrow> k < 1024 \<Longrightarrow> ldw (mem s') P k = ldw (mem s) P k"
    and "j < 64 \<Longrightarrow> mem s' (P + word_of_nat j) = mem s (P + word_of_nat j)"
proof -
  have al: "page_aligned P" "page_aligned x" using live_page_aligned [OF inv] live by blast+
  have out: "a \<notin> word_at x \<union> root_area P" if "page_aligned y" "in_page y a" "y \<noteq> P" "y \<noteq> x" for y a
    using stream_in_page [OF al(2), of a] root_area_page [OF al(1), of a] in_page_unique [OF that(1) _ that(2)] al that(3,4) by blast
  have Pin: "mem s' (P + word_of_nat j) = mem s (P + word_of_nat j)" if "j < 4096" "j < 64 \<or> 80 \<le> j" for j
  proof (rule extends_mem [OF e])
    have a: "in_page P (P + word_of_nat j)" by (rule in_page_offset [OF al(1) that(1)])
    then show "kept s (P + word_of_nat j)" by (rule live_kept [OF inv live(1)])
    have "unat (word_of_nat j :: u32) = j" by (rule unat_of_nat32) (use that(1) in simp)
    then have "P + word_of_nat j \<notin> root_area P" using that(2) by (auto simp: root_area_def)
    moreover have "P + word_of_nat j \<notin> word_at x" using stream_in_page [OF al(2)] in_page_unique [OF al(1,2) a] live(3) by blast
    ultimately show "P + word_of_nat j \<notin> word_at x \<union> root_area P" by simp
  qed
  then show "j < 64 \<Longrightarrow> mem s' (P + word_of_nat j) = mem s (P + word_of_nat j)" by simp
  show "ldw (mem s') P k = ldw (mem s) P k" if "20 \<le> k" "k < 1024"
  proof -
    have "mem s' (P + word_of_nat (4 * k) + word_of_nat i) = mem s (P + word_of_nat (4 * k) + word_of_nat i)" if i: "i < 4" for i
      using Pin [of "4 * k + i"] i \<open>20 \<le> k\<close> \<open>k < 1024\<close> by (simp add: add.assoc)
    from this [of 0] this [of 1] this [of 2] this [of 3] show ?thesis by (simp add: ldw_def load32_def)
  qed
  show "ldw (mem s') y i = ldw (mem s) y i" if y: "(y, 1) \<in> kheap_allocs s" "y \<noteq> P" "y \<noteq> x" "i < 1024"
  proof (rule ldw_cong [OF live_page_aligned [OF inv y(1)] y(4)])
    fix a
    assume "in_page y a"
    then show "mem s' a = mem s a"
      using extends_mem [OF e live_kept [OF inv y(1)]] out [OF live_page_aligned [OF inv y(1)] _ y(2,3)] by blast
  qed
qed

text \<open>Reading the header over the start of the private data.\<close>

lemma header_read:
  fixes s :: "'a dstate_scheme"
  assumes inv: "kheap_inv s" and disk: "ata_disk (device s) img"
    and live: "(P, 1) \<in> kheap_allocs s" "(st, 1) \<in> kheap_allocs s" "P \<noteq> st"
    and at: "ldw (mem s) st 0 = 0" "ldw (mem s) st 1 = disk_at s"
  obtains s' where "diskstreamer_read_into st P 62 s = Inr (0, s')" "rest s' = rest s" "kernel_heap s' = kernel_heap s"
    "\<forall>j < 62. mem s' (P + word_of_nat j) = disk_byte img j"
    "\<And>k. 16 \<le> k \<Longrightarrow> k < 1024 \<Longrightarrow> ldw (mem s') P k = ldw (mem s) P k"
    "\<And>a. \<not> in_page P a \<Longrightarrow> \<not> in_page st a \<Longrightarrow> mem s' a = mem s a"
proof -
  have al: "page_aligned P" "page_aligned st" using live_page_aligned [OF inv] live by blast+
  have sa: "stream_at st 0 s" using at by (simp add: stream_at_def ldw_def)
  have b: "0 + 62 < (2 :: nat) ^ 31" "(0 :: nat) mod 512 = 0" by simp_all
  define bs where "bs = map (disk_byte img) [0..<0 + 62]"
  have bs: "length bs = 62" "length bs \<le> 2 ^ 32" "\<And>j. j < 62 \<Longrightarrow> bs ! j = disk_byte img j"
    by (simp_all add: bs_def del: upt_rec_numeral)
  obtain es where r: "diskstreamer_read_into st P (int 62) s = Inr (0,
    s\<lparr>mem := store_bytes P bs (store32 (mem s) st (word_of_nat (0 + 62))), ports := ports s @ es\<rparr>)"
    using diskstreamer_read_into_ok [OF disk sa b(1) disjI1 [OF b(2)]] unfolding bs_def by blast
  define s' where "s' = s\<lparr>mem := store_bytes P bs (store32 (mem s) st (word_of_nat (0 + 62))), ports := ports s @ es\<rparr>"
  have m: "mem s' a = (if unat (a - P) < 62 then disk_byte img (unat (a - P)) else store32 (mem s) st 62 a)" for a
    by (simp add: s'_def store_bytes_apply [OF bs(2)] bs(1,3))
  have off: "unat (word_of_nat j :: u32) = j" if "j < 4096" for j
    by (rule unat_of_nat32) (use that in simp)
  have Pin: "mem s' (P + word_of_nat j) = mem s (P + word_of_nat j)" if "j < 4096" "62 \<le> j" for j
  proof -
    have "P + word_of_nat j \<notin> word_at st"
      using stream_in_page [OF al(2)] in_page_unique [OF al(1,2) in_page_offset [OF al(1) that(1)]] live(3) by blast
    then show ?thesis using that(2) by (simp add: m off [OF that(1)] stream_word)
  qed
  have "diskstreamer_read_into st P 62 s = Inr (0, s')" using r unfolding s'_def by simp
  moreover have "rest s' = rest s" "kernel_heap s' = kernel_heap s" by (simp_all add: s'_def)
  moreover have "\<forall>j < 62. mem s' (P + word_of_nat j) = disk_byte img j" by (simp add: m off)
  moreover have "ldw (mem s') P k = ldw (mem s) P k" if "16 \<le> k" "k < 1024" for k
  proof -
    have "mem s' (P + word_of_nat (4 * k) + word_of_nat i) = mem s (P + word_of_nat (4 * k) + word_of_nat i)" if i: "i < 4" for i
      using Pin [of "4 * k + i"] i \<open>16 \<le> k\<close> \<open>k < 1024\<close> by (simp add: add.assoc)
    from this [of 0] this [of 1] this [of 2] this [of 3] show ?thesis by (simp add: ldw_def load32_def)
  qed
  moreover have "mem s' a = mem s a" if "\<not> in_page P a" "\<not> in_page st a" for a
  proof -
    have "\<not> unat (a - P) < 62"
    proof
      assume u: "unat (a - P) < 62"
      then have "in_page P (P + word_of_nat (unat (a - P)))" by (intro in_page_offset [OF al(1)]) simp
      then show False using that(1) by simp
    qed
    moreover have "a \<notin> word_at st" using stream_in_page [OF al(2)] that(2) by blast
    ultimately show ?thesis by (simp add: m stream_word)
  qed
  ultimately show thesis by (rule that)
qed

section \<open>Mounting\<close>

text \<open>
  The mounted volume: the private data \<open>P\<close> with its header, the streams \<open>c\<close> (clusters), \<open>f\<close> (allocation table) and
  \<open>x\<close> (directories), and the entries of the root directory at \<open>items\<close>.
\<close>

definition mounted_at ::
  "'a dstate_scheme \<Rightarrow> (nat \<Rightarrow> u16 list) \<Rightarrow> nat \<Rightarrow> u32 \<Rightarrow> u32 \<Rightarrow> u32 \<Rightarrow> u32 \<Rightarrow> u32 \<Rightarrow> bool" where
  "mounted_at s img n P c f x items \<longleftrightarrow> (\<forall>j < 62. mem s (P + word_of_nat j) = disk_byte img j)
     \<and> ldw (mem s) P 16 = items \<and> ldw (mem s) P 17 = word_of_nat n
     \<and> ldw (mem s) P 19 = word_of_nat (root_sector img + 32 * root_capacity img div 512)
     \<and> ldw (mem s) P 20 = c \<and> ldw (mem s) P 21 = f \<and> ldw (mem s) P 22 = x \<and> c \<noteq> 0 \<and> f \<noteq> 0
     \<and> ldw (mem s) c 1 = disk_at s \<and> ldw (mem s) f 1 = disk_at s
     \<and> (\<forall>j < 32 * root_capacity img. mem s (items + word_of_nat j) = disk_byte img (512 * root_sector img + j))"

lemma rest_private:
  fixes s :: "'a dstate_scheme"
  shows "rest (s\<lparr>fs_private := p, disk_filesystem := d\<rparr>) = (rest s)\<lparr>fs_private := p, disk_filesystem := d\<rparr>"
  by (cases s) (simp add: rest_def)

text \<open>What \<open>fat16_resolve\<close> does at its end, with the header stream \<open>t\<close>.\<close>

definition resolve_out :: "u32 \<Rightarrow> u32 \<Rightarrow> int \<times> 'a dstate_scheme \<Rightarrow> (int \<times> 'a dstate_scheme) outcome" where
  "resolve_out P t = (\<lambda>(res, s). bnd (diskstreamer_close t s) (\<lambda>s.
     if res < 0 then bnd (kfree P s) (\<lambda>s. Inr (res, s\<lparr>fs_private := 0\<rparr>)) else Inr (res, s)))"

text \<open>Up to the header: private data, its three streams and the stream \<open>t\<close> that read the header.\<close>

lemma fat16_resolve_begins:
  fixes s :: "'a fatstate_scheme"
  assumes inv: "kheap_inv s" and disk: "ata_disk (device s) img"
    and st: "sector_size s = 512" "disk_at s \<noteq> 0" "disk_id s = 0" and room: "5 \<le> kheap_vacant s"
  obtains P c f x t s5 where
    "fat16_resolve s = (if fat_signature (mem s5) P \<noteq> 0x29 then resolve_out P t (- EFSNOTUS, s5)
       else bnd (fat16_get_root_directory P (P + ROOT_DIRECTORY) s5) (\<lambda>(res, s6).
         if res \<noteq> GUAVAOS_ALL_OK then resolve_out P t (- EIO, s6) else resolve_out P t (0, s6)))"
    "extends {} s s5" "rest s5 = rest (s\<lparr>fs_private := P, disk_filesystem := fat16_fs s\<rparr>)"
    "kheap_allocs s5 = kheap_allocs s \<union> page_allocs [P, c, f, x, t]" "distinct [P, c, f, x, t]"
    "\<forall>y \<in> {P, c, f, x, t}. \<forall>k. (y, k) \<notin> kheap_allocs s" "kheap_vacant s = kheap_vacant s5 + 5" "c \<noteq> 0" "f \<noteq> 0"
    "\<forall>j < 62. mem s5 (P + word_of_nat j) = disk_byte img j"
    "ldw (mem s5) P 20 = c" "ldw (mem s5) P 21 = f" "ldw (mem s5) P 22 = x" "\<forall>y \<in> {c, f, x}. ldw (mem s5) y 1 = disk_at s5"
proof -
  have sz: "0 < fat_private_sizeof" "fat_private_sizeof \<le> 4096" by (simp_all add: fat_layout)
  obtain P s1 where P: "kzalloc fat_private_sizeof s = Inr (P, s1)" "parse_frame {} s s1" "P \<noteq> 0" "page_aligned P"
    "kheap_allocs s1 = insert (P, 1) (kheap_allocs s)" "\<forall>k. (P, k) \<notin> kheap_allocs s" "kheap_vacant s = Suc (kheap_vacant s1)"
    by (rule kzalloc_fresh [OF inv _ sz]) (use room in simp_all)
  have r1: "rest s1 = rest s" using P(2) by (auto simp: parse_frame_def intro: heap_step_rest)
  have d1: "disk_at s1 \<noteq> 0" "disk_id s1 = 0" "3 \<le> kheap_vacant s1" "(P, 1) \<in> kheap_allocs s1"
    using rest_dstate [OF r1] st P(5,7) room by simp_all
  obtain c f x s2 where i: "fat16_init_private P s1 = Inr s2" "extends {} s s2" "rest s2 = rest s1"
    "kheap_allocs s2 = kheap_allocs s1 \<union> page_allocs [c, f, x]" "distinct [P, c, f, x]" "\<forall>y \<in> {c, f, x}. \<forall>k. (y, k) \<notin> kheap_allocs s1"
    "c \<noteq> 0" "f \<noteq> 0" "x \<noteq> 0" "streams_at (mem s2) (disk_at s1) [c, f, x]"
    "ldw (mem s2) P 20 = c" "ldw (mem s2) P 21 = f" "ldw (mem s2) P 22 = x" "kheap_vacant s1 = kheap_vacant s2 + 3"
    by (rule fat16_init_private_ok [OF extends_frame [OF P(2)] d1(4) P(6) d1(3,1,2)], rule that)
  define s3 where "s3 = s2\<lparr>fs_private := P, disk_filesystem := fat16_fs s2\<rparr>"
  have g3: "kernel_heap s3 = kernel_heap s2" "mem s3 = mem s2" by (simp_all add: s3_def)
  have al3: "kheap_allocs s3 = kheap_allocs s \<union> page_allocs [P, c, f, x]" "kheap_vacant s3 = kheap_vacant s2"
    using i(4) P(5) by (auto simp: s3_def kheap_view_defs page_allocs_def)
  have e3: "extends {} s s3" by (rule extends_within [OF i(2)]) (simp_all add: s3_def)
  have inv3: "kheap_inv s3" using e3 by (simp add: extends_def)
  have r3: "rest s3 = rest (s\<lparr>fs_private := P, disk_filesystem := fat16_fs s\<rparr>)"
  proof -
    have "rest s2 = rest s" using i(3) r1 by simp
    moreover from this have "fat16_fs s2 = fat16_fs s" by (drule_tac arg_cong [of _ _ fat16_fs]) (simp add: rest_def)
    ultimately show ?thesis unfolding s3_def rest_private by simp
  qed
  note f3 = rest_dstate [OF r3, simplified]
  have d3: "disk_at s3 \<noteq> 0" "disk_id s3 = 0" "0 < kheap_vacant s3" using f3 st room P(7) i(14) al3(2) by simp_all
  obtain t s4 where t: "diskstreamer_new (disk_id s3) s3 = Inr (t, s4)" "extends {} s3 s4" "rest s4 = rest s3" "t \<noteq> 0" "page_aligned t"
    "kheap_allocs s4 = insert (t, 1) (kheap_allocs s3)" "\<forall>k. (t, k) \<notin> kheap_allocs s3" "kheap_vacant s3 = Suc (kheap_vacant s4)"
    "ldw (mem s4) t 0 = 0" "ldw (mem s4) t 1 = disk_at s3" by (rule diskstreamer_new_ok [OF inv3 d3(3,1,2)])
  have inv4: "kheap_inv s4" using t(2) by (simp add: extends_def)
  note f4 = rest_dstate [OF t(3)]
  have live3: "(y, 1) \<in> kheap_allocs s3" "(y, 1) \<in> kheap_allocs s4" "y \<noteq> t" if "y \<in> {P, c, f, x}" for y
    using that al3(1) t(6,7) by (auto simp: page_allocs_def)
  have livet: "(t, 1) \<in> kheap_allocs s4" "ldw (mem s4) t 1 = disk_at s4" using t(6,10) f4 by simp_all
  have dev: "device s4 = device s" using rest_device [OF t(3)] rest_device [OF r3] by simp
  have hP: "(P, 1) \<in> kheap_allocs s4" "P \<noteq> t" using live3 [of P] by simp_all
  have disk4: "ata_disk (device s4) img" using disk dev by simp
  obtain s5 where h: "diskstreamer_read_into t P 62 s4 = Inr (0, s5)" "rest s5 = rest s4" "kernel_heap s5 = kernel_heap s4"
    "\<forall>j < 62. mem s5 (P + word_of_nat j) = disk_byte img j"
    "\<And>k. 16 \<le> k \<Longrightarrow> k < 1024 \<Longrightarrow> ldw (mem s5) P k = ldw (mem s4) P k"
    "\<And>a. \<not> in_page P a \<Longrightarrow> \<not> in_page t a \<Longrightarrow> mem s5 a = mem s4 a"
    by (rule header_read [OF inv4 disk4 hP(1) livet(1) hP(2) t(9) livet(2)], rule that)
  have al5: "kheap_allocs s5 = kheap_allocs s4" "kheap_vacant s5 = kheap_vacant s4" "kheap_inv s5"
    using h(3) inv4 by (simp_all add: kheap_view_defs)
  note f5 = rest_dstate [OF h(2)]
  have w5: "ldw (mem s5) y k = ldw (mem s3) y k" if "y \<in> {c, f, x}" "k < 1024" for y k
  proof -
    have y: "y \<in> {P, c, f, x}" "y \<noteq> P" using that(1) i(5) by auto
    note l = live3 [OF y(1)]
    have ya: "page_aligned y" by (rule live_page_aligned [OF inv4 l(2)])
    have "ldw (mem s5) y k = ldw (mem s4) y k"
      by (rule ldw_cong [OF ya that(2)], rule h(6)) (use in_page_unique [OF ya] P(4) t(5) l(3) y(2) in blast)+
    then show ?thesis using extends_ldw [OF t(2) inv3 l(1) that(2)] by simp
  qed
  have P5: "ldw (mem s5) P 20 = c" "ldw (mem s5) P 21 = f" "ldw (mem s5) P 22 = x"
    using h(5) extends_ldw [OF t(2) inv3 live3(1) [of P]] i(11-13) g3(2) by simp_all
  have str5: "ldw (mem s5) y 1 = disk_at s5" if "y \<in> {c, f, x}" for y
    using w5 [OF that, of 1] i(10) that g3(2) f5(1) f4(1) f3(1) rest_dstate(1) [OF r1] by (auto simp: streams_at_def)
  have e5: "extends {} s s5"
  proof -
    define u where "u = s4\<lparr>mem := \<lambda>a. if in_page t a then mem s5 a else mem s4 a\<rparr>"
    have Pt: "\<forall>k. (t, k) \<notin> kheap_allocs s" "(P, 1) \<in> kheap_allocs u" using t(7) al3(1) hP(1) by (auto simp: u_def kheap_view_defs)
    have "extends {} s u"
      by (rule extends_store [OF extends_trans [OF e3 t(2)] livet(1) Pt(1)]) (simp_all add: u_def in_block_page [OF t(5)])
    from extends_store [OF this Pt(2) P(6)] show ?thesis using h(3,6) by (simp add: u_def in_block_page [OF P(4)])
  qed
  have run: "fat16_resolve s = (if fat_signature (mem s5) P \<noteq> 0x29 then resolve_out P t (- EFSNOTUS, s5)
       else bnd (fat16_get_root_directory P (P + ROOT_DIRECTORY) s5) (\<lambda>(res, s6).
         if res \<noteq> GUAVAOS_ALL_OK then resolve_out P t (- EIO, s6) else resolve_out P t (0, s6)))"
  proof -
    have "diskstreamer_new (disk_id s2) s3 = Inr (t, s4)" using t(1) by (simp add: s3_def)
    then show ?thesis
      by (cases "fat16_get_root_directory P (P + ROOT_DIRECTORY) s5")
        (auto simp: fat16_resolve_def P(1) i(1) s3_def [symmetric] Let_def t(4) h(1) GUAVAOS_ALL_OK_def resolve_out_def)
  qed
  have al: "kheap_allocs s5 = kheap_allocs s \<union> page_allocs [P, c, f, x, t]"
    unfolding al5(1) t(6) al3(1) by (auto simp: page_allocs_def)
  have new: "\<forall>y \<in> {P, c, f, x, t}. \<forall>k. (y, k) \<notin> kheap_allocs s" using P(5,6) i(6) t(7) al3(1) by auto
  have dist: "distinct [P, c, f, x, t]" using i(5) live3(3) by auto
  have vac: "kheap_vacant s = kheap_vacant s5 + 5" using P(7) i(14) al3(2) t(8) al5(2) by simp
  have str: "\<forall>y \<in> {c, f, x}. ldw (mem s5) y 1 = disk_at s5" using str5 by blast
  have rest: "rest s5 = rest (s\<lparr>fs_private := P, disk_filesystem := fat16_fs s\<rparr>)" using h(2) t(3) r3 by simp
  show thesis by (rule that [OF run e5 rest al dist new vac i(7,8) h(4) P5 str])
qed

lemma fat16_resolve_ok:
  fixes s :: "'a fatstate_scheme"
  assumes inv: "kheap_inv s" and disk: "ata_disk (device s) img" and img: "fat16_image img dir"
    and st: "sector_size s = 512" "disk_at s \<noteq> 0" "disk_id s = 0"
    and room: "(card (kheap_allocs s) + 6) * blocks_of (word_of_nat (32 * root_capacity img)) + 5 < kheap_vacant s"
  obtains P c f x items s' where "fat16_resolve s = Inr (0, s')" "extends {} s s'"
    "rest s' = rest (s\<lparr>fs_private := P, disk_filesystem := fat16_fs s\<rparr>)"
    "kheap_allocs s' = insert (items, blocks_of (word_of_nat (32 * root_capacity img))) (kheap_allocs s \<union> page_allocs [P, c, f, x])"
    "\<forall>y \<in> {P, c, f, x, items}. \<forall>k. (y, k) \<notin> kheap_allocs s" "mounted_at s' img (length dir) P c f x items"
proof -
  define B where "B = blocks_of (word_of_nat (32 * root_capacity img))"
  define A where "A = card (kheap_allocs s)"
  have R: "(A + 6) * B + 5 < kheap_vacant s" using room by (simp add: A_def B_def)
  then have R5: "5 \<le> kheap_vacant s" by simp
  obtain P c f x t s5 where b:
    "fat16_resolve s = (if fat_signature (mem s5) P \<noteq> 0x29 then resolve_out P t (- EFSNOTUS, s5)
       else bnd (fat16_get_root_directory P (P + ROOT_DIRECTORY) s5) (\<lambda>(res, s6).
         if res \<noteq> GUAVAOS_ALL_OK then resolve_out P t (- EIO, s6) else resolve_out P t (0, s6)))"
    "extends {} s s5" "rest s5 = rest (s\<lparr>fs_private := P, disk_filesystem := fat16_fs s\<rparr>)"
    "kheap_allocs s5 = kheap_allocs s \<union> page_allocs [P, c, f, x, t]" "distinct [P, c, f, x, t]"
    "\<forall>y \<in> {P, c, f, x, t}. \<forall>k. (y, k) \<notin> kheap_allocs s" "kheap_vacant s = kheap_vacant s5 + 5" "c \<noteq> 0" "f \<noteq> 0"
    "\<forall>j < 62. mem s5 (P + word_of_nat j) = disk_byte img j"
    "ldw (mem s5) P 20 = c" "ldw (mem s5) P 21 = f" "ldw (mem s5) P 22 = x" "\<forall>y \<in> {c, f, x}. ldw (mem s5) y 1 = disk_at s5"
    by (rule fat16_resolve_begins [OF inv disk st R5], rule that)
  have inv5: "kheap_inv s5" using b(2) by (simp add: extends_def)
  have live: "(y, 1) \<in> kheap_allocs s5" if "y \<in> {P, c, f, x, t}" for y using that b(4) by (auto simp: page_allocs_def)
  note f5 = rest_dstate [OF b(3), simplified]
  have disk5: "ata_disk (device s5) img" using disk rest_device [OF b(3)] by simp
  have x5: "x \<noteq> P" "fs_private s5 = P" "sector_size s5 = 512" "ldw (mem s5) x 1 = disk_at s5"
    using b(5,14) f5(3,6) st(1) by auto
  have Pl: "(P, 1) \<in> kheap_allocs s5" and xl: "(x, 1) \<in> kheap_allocs s5" and tl: "(t, 1) \<in> kheap_allocs s5" by (rule live; simp)+
  have room5: "(card (kheap_allocs s5) + 1) * (B - 1) < kheap_vacant s5"
  proof -
    have "card (page_allocs [P, c, f, x, t]) = 5" using b(5) page_allocs_accounts(1) [of "[P, c, f, x, t]"] by simp
    moreover have "card (kheap_allocs s5) \<le> A + card (page_allocs [P, c, f, x, t])" unfolding b(4) A_def by (rule card_Un_le)
    ultimately have "card (kheap_allocs s5) + 1 \<le> A + 6" by simp
    then have "(card (kheap_allocs s5) + 1) * (B - 1) \<le> (A + 6) * B" by (intro mult_le_mono) simp_all
    then show ?thesis using R b(7) by linarith
  qed
  obtain items s6 where q: "fat16_get_root_directory P (P + ROOT_DIRECTORY) s5 = Inr (0, s6)"
    "extends (word_at x \<union> root_area P) s5 s6" "rest s6 = rest s5" "kheap_allocs s6 = insert (items, B) (kheap_allocs s5)"
    "\<forall>k. (items, k) \<notin> kheap_allocs s5" "ldw (mem s6) P 16 = items" "ldw (mem s6) P 17 = word_of_nat (length dir)"
    "ldw (mem s6) P 19 = word_of_nat (root_sector img + 32 * root_capacity img div 512)"
    "\<forall>j < 32 * root_capacity img. mem s6 (items + word_of_nat j) = disk_byte img (512 * root_sector img + j)"
    by (rule root_directory_ok [OF inv5 disk5 img x5(3) Pl x5(2) b(10,13) xl x5(1,4) room5 [unfolded B_def], folded B_def], rule that)
  note rf = root_frame [OF q(2) inv5 Pl xl x5(1) [symmetric]]
  have t6: "(t, 1) \<in> kheap_allocs s6" "kheap_inv s6" using q(2,4) tl by (simp_all add: extends_def)
  obtain hp where k: "kfree t s6 = Inr (s6\<lparr>kernel_heap := hp\<rparr>)" "kheap_inv (s6\<lparr>kernel_heap := hp\<rparr>)"
    "kheap_allocs (s6\<lparr>kernel_heap := hp\<rparr>) = kheap_allocs s6 - {(t, 1)}" by (rule kfree_alloc [OF t6(2,1)])
  define s7 where "s7 = s6\<lparr>kernel_heap := hp\<rparr>"
  have run: "fat16_resolve s = Inr (0, s7)"
  proof -
    have "fat_signature (mem s5) P = 0x29" using header_fields(2) [OF b(10)] img by (simp add: fat16_image_def)
    then show ?thesis
      by (simp add: b(1) q(1) GUAVAOS_ALL_OK_def resolve_out_def diskstreamer_close_def k(1) s7_def)
  qed
  have nk: "\<not> kept s a" if a: "a \<in> word_at x \<union> root_area P" for a
  proof -
    have n: "\<forall>k. (x, k) \<notin> kheap_allocs s" "\<forall>k. (P, k) \<notin> kheap_allocs s" "heap_area s5 = heap_area s" "kheap_allocs s \<subseteq> kheap_allocs s5"
      using b(2,6) by (auto simp: extends_def)
    have al: "page_aligned x" "page_aligned P" using live_page_aligned [OF inv5] xl Pl by blast+
    have "in_block x 1 a \<or> in_block P 1 a"
      using a stream_in_page [OF al(1)] root_area_page [OF al(2)] in_block_page al by auto
    then show ?thesis using block_not_kept [OF inv5 xl n(3,4,1)] block_not_kept [OF inv5 Pl n(3,4,2)] by blast
  qed
  have q2: "extends ({} \<union> (word_at x \<union> root_area P)) s5 s6" using q(2) by simp
  have e6: "extends {} s s6" by (rule extends_drop [OF b(2) q2 nk])
  have al7: "kheap_allocs s7 = insert (items, B) (kheap_allocs s \<union> page_allocs [P, c, f, x])"
  proof -
    have "items \<noteq> t" using q(5) tl by auto
    moreover have "kheap_allocs s5 - {(t, 1)} = kheap_allocs s \<union> page_allocs [P, c, f, x]"
    proof -
      have "kheap_allocs s5 = insert (t, 1) (kheap_allocs s \<union> page_allocs [P, c, f, x])" unfolding b(4) by (auto simp: page_allocs_def)
      moreover have "(t, 1) \<notin> kheap_allocs s" "(t, 1) \<notin> page_allocs [P, c, f, x]" using b(5,6) by (auto simp: page_allocs_def)
      ultimately show ?thesis by blast
    qed
    moreover have "kheap_allocs s7 = insert (items, B) (kheap_allocs s5) - {(t, 1)}" unfolding s7_def k(3) q(4) by (rule refl)
    ultimately show ?thesis by (simp add: insert_Diff_if)
  qed
  have e7: "extends {} s s7"
  proof -
    have "kheap_inv s7" "heap_area s7 = heap_area s6" "mem s7 = mem s6"
      using k(2) kfree_area [OF t6(2,1) k(1)] by (simp_all add: s7_def)
    moreover have "kheap_allocs s \<subseteq> kheap_allocs s7" unfolding al7 by blast
    ultimately show ?thesis using e6 by (simp add: extends_def)
  qed
  have cf: "(y, 1) \<in> kheap_allocs s5" "y \<noteq> P" "y \<noteq> x" if "y \<in> {c, f}" for y
    using that live [of y] b(5) by auto
  have "mounted_at s7 img (length dir) P c f x items"
  proof -
    have m: "mem s7 = mem s6" "disk_at s7 = disk_at s5" using rest_dstate(1) [OF q(3)] by (simp_all add: s7_def)
    have str: "ldw (mem s6) y 1 = disk_at s5" if "y \<in> {c, f}" for y using rf(1) [OF cf [OF that], of 1] b(14) that by auto
    show ?thesis unfolding mounted_at_def m using b(8-13) rf(2,3) q(6-9) str by simp
  qed
  moreover have "rest s7 = rest (s\<lparr>fs_private := P, disk_filesystem := fat16_fs s\<rparr>)" using q(3) b(3) by (simp add: s7_def)
  moreover have "\<forall>y \<in> {P, c, f, x, items}. \<forall>k. (y, k) \<notin> kheap_allocs s"
    using b(6) q(5) b(2) by (auto simp: extends_def)
  ultimately show thesis using that [OF run e7 _ al7 [unfolded B_def]] by blast
qed

end
