(* ===== verification/MountProps.thy ===== *)
theory MountProps
  imports FatMount
begin

text \<open>
  From the bytes of the disk to the conditions the file calls rely on: after \<^verbatim>\<open>fat16_resolve\<close> the volume is mounted and
  its files are there (\<open>mounted_volume\<close>), and a disk without the signature is refused.
\<close>

section \<open>What a mounted volume gives\<close>

lemma entry_name_cong:
  assumes b: "\<forall>j < 32. m' (p' + word_of_nat j) = m (p + word_of_nat j)" and e: "entry_name m p b x"
  shows "entry_name m' p' b x"
proof -
  have d: "length b < 8" "length x \<le> 3" using e by (simp_all add: entry_name_def)
  have o: "m' (p' + word_of_nat i) = m (p + word_of_nat i)" if "i \<le> length b" for i using b that d(1) by simp
  have x: "m' (p' + I_EXT + word_of_nat i) = m (p + I_EXT + word_of_nat i)" if "i \<le> length x" for i
    using b [rule_format, of "8 + i"] that d(2) by (simp add: I_EXT_def add.assoc)
  have a: "m' (p' + I_ATTRIBUTE) = m (p + I_ATTRIBUTE)" using b [rule_format, of 11] by (simp add: I_ATTRIBUTE_def)
  show ?thesis using e unfolding entry_name_def by (simp add: o x a)
qed

text \<open>File number \<open>i\<close> of the root directory on the disk: \<open>n\<close> bytes from byte \<open>pos\<close> on, in one cluster.\<close>

definition disk_file :: "(nat \<Rightarrow> u16 list) \<Rightarrow> nat \<Rightarrow> nat \<Rightarrow> nat \<Rightarrow> bool" where
  "disk_file img i pos n \<longleftrightarrow> disk_mem img (disk_entry img i + I_ATTRIBUTE) AND FAT_FILE_SUBDIRECTORY = 0
     \<and> load32 (disk_mem img) (disk_entry img i + I_FILESIZE) = word_of_nat n \<and> 0 < n
     \<and> n \<le> unat (sectors_per_cluster (disk_mem img) 0) * 512
     \<and> int pos = 512 * (int (root_sector img + 32 * root_capacity img div 512)
          + (int (unat (fat16_get_first_cluster (disk_mem img) (disk_entry img i))) - 2) * int (unat (sectors_per_cluster (disk_mem img) 0)))
     \<and> pos + n < 2 ^ 31"

lemma mounted_volume:
  fixes s :: "'a filestate_scheme"
  assumes m: "mounted_at s img (length dir) P c f x items" and img: "fat16_image img dir" and disk: "ata_disk (device s) img"
    and inv: "kheap_inv s" and g: "fs_private s = P" "sector_size s = 512" "disk_filesystem s = fat16_fs s" "fat16_fs s \<noteq> 0" "disk_at s \<noteq> 0"
    and live: "page_allocs [P, c, f] \<subseteq> kheap_allocs s" "(items, blocks_of (word_of_nat (32 * root_capacity img))) \<in> kheap_allocs s"
  shows "mounted s" "volume s dir" "driver_kept s" "cluster_stream s = c"
    "only_match dir name i \<Longrightarrow> disk_file img i pos n \<Longrightarrow> root_file s dir name i img pos n"
proof -
  note d = m [unfolded mounted_at_def]
  have h: "\<forall>j < 62. mem s (P + word_of_nat j) = disk_byte img j" using d by blast
  have w: "ldw (mem s) P 16 = items" "ldw (mem s) P 17 = word_of_nat (length dir)"
    "ldw (mem s) P 19 = word_of_nat (root_sector img + 32 * root_capacity img div 512)"
    "ldw (mem s) P 20 = c" "ldw (mem s) P 21 = f" "f \<noteq> 0" "ldw (mem s) c 1 = disk_at s" "ldw (mem s) f 1 = disk_at s"
    using d by simp_all
  have it: "\<forall>j < 32 * root_capacity img. mem s (items + word_of_nat j) = disk_byte img (512 * root_sector img + j)" using d by blast
  have i: "sectors_per_cluster (disk_mem img) 0 \<noteq> 0" "length dir \<le> root_capacity img" "512 * root_sector img + 32 * (root_capacity img + 1) < 2 ^ 31"
    "\<forall>k < length dir. entry_name (disk_mem img) (disk_entry img k) (fst (dir ! k)) (snd (dir ! k))" using img by (simp_all add: fat16_image_def)
  have pages: "(y, 1) \<in> kheap_allocs s" "page_aligned y" if "y \<in> {P, c, f}" for y
  proof -
    show l: "(y, 1) \<in> kheap_allocs s" using live(1) that by (auto simp: page_allocs_def)
    show "page_aligned y" by (rule live_page_aligned [OF inv l])
  qed
  have E16: "root_capacity img < 2 ^ 16" using unsigned_less [of "root_dir_entries (disk_mem img) 0"] by (simp add: root_capacity_def)
  note hf = header_fields [OF h]
  show md: "mounted s" using hf(1) i(1) w by (simp add: mounted_def g private_words) (simp add: ldw_def)
  show cs: "cluster_stream s = c" using w(4) by (simp add: cluster_stream_def g private_words)
  have entry: "root_entry s k = items + word_of_nat (32 * k)" for k using w(1) by (simp add: root_entry_def entry_at_def g private_words)
  have eb: "\<forall>j < 32. mem s (root_entry s k + word_of_nat j) = disk_mem img (disk_entry img k + word_of_nat j)" if "k < length dir" for k
  proof (intro allI impI)
    fix j :: nat
    assume j: "j < 32"
    have "32 * k + j < 32 * root_capacity img" using that i(2) j by linarith
    then have "mem s (items + word_of_nat (32 * k + j)) = disk_byte img (512 * root_sector img + (32 * k + j))" using it by blast
    then show "mem s (root_entry s k + word_of_nat j) = disk_mem img (disk_entry img k + word_of_nat j)"
      using disk_entry_byte [OF i(3) _ j, of k] that i(2) unfolding entry by (simp add: add.assoc)
  qed
  have "directory_at (mem s) (P + ROOT_DIRECTORY) dir"
    using entry_name_cong [OF eb] i(2,4) E16 w(1,2) entry
    by (simp add: directory_at_def private_words) (simp add: entry_at_def)
  moreover have "directory_kept s (P + ROOT_DIRECTORY) (length dir)"
    unfolding directory_kept_def private_words w(1)
  proof (intro conjI ballI allI impI)
    fix b
    assume "b \<in> word_at (P + ROOT_DIRECTORY + D_ITEM) \<union> word_at (P + ROOT_DIRECTORY + D_TOTAL)"
    then have "b \<in> word_at (P + word_of_nat 64) \<or> b \<in> word_at (P + word_of_nat 68)" by (simp add: fat_layout add.assoc)
    then have "in_block P 1 b" using word_in_block [OF inv pages(1) [of P], of 64 b] word_in_block [OF inv pages(1) [of P], of 68 b] by auto
    then show "kept s b" using pages(1) [of P] by (auto simp: kept_def)
  next
    fix j
    assume j: "j < 32 * length dir"
    have "32 * root_capacity img \<le> 4096 * blocks_of (word_of_nat (32 * root_capacity img))"
      by (rule block_bytes_bound) (use E16 in simp)
    then have "in_block items (blocks_of (word_of_nat (32 * root_capacity img))) (items + word_of_nat j)"
      using in_block_add [OF inv live(2), of j] j i(2) by linarith
    then show "kept s (items + word_of_nat j)" using live(2) by (auto simp: kept_def)
  qed
  ultimately show vol: "volume s dir" using g by (simp add: volume_def)
  show dk: "driver_kept s" unfolding driver_kept_def g(1) private_words w(5) cs
  proof (intro conjI ballI allI impI)
    fix j :: nat
    assume "j < 92"
    then show "kept s (P + word_of_nat j)" by (intro live_kept [OF inv pages(1) [of P]] in_page_offset pages(2)) simp_all
  next
    fix a
    assume "a \<in> word_at c \<union> word_at (c + 4) \<union> word_at (f + 4)"
    then have "a \<in> word_at (c + word_of_nat 0) \<or> a \<in> word_at (c + word_of_nat 4) \<or> a \<in> word_at (f + word_of_nat 4)" by simp
    then have "in_block c 1 a \<or> in_block f 1 a"
      using word_in_block [OF inv pages(1) [of c], of 0 a] word_in_block [OF inv pages(1) [of c], of 4 a]
        word_in_block [OF inv pages(1) [of f], of 4 a] by auto
    then show "kept s a" using pages(1) [of c] pages(1) [of f] by (auto simp: kept_def)
  qed
  assume om: "only_match dir name i" and df: "disk_file img i pos n"
  have il: "i < length dir" using om by (simp add: only_match_def)
  have "bytes_at (mem s) (root_entry s i) 32 = bytes_at (disk_mem img) (disk_entry img i) 32" using eb [OF il] by (simp add: bytes_at_eq_iff)
  note c = entry_copy [OF this]
  have at: "mem s (root_entry s i + I_ATTRIBUTE) = disk_mem img (disk_entry img i + I_ATTRIBUTE)"
    using eb [OF il, rule_format, of 11] by (simp add: I_ATTRIBUTE_def)
  define L where "L = root_sector img + 32 * root_capacity img div 512"
  have L: "L < 2 ^ 31" using i(3) by (simp add: L_def)
  then have "sint (word_of_nat L :: u32) = int L" using unat_of_nat32 [of L] sint_small [of "word_of_nat L"] by simp
  then have "cluster_start s k = 512 * (int L + (int k - 2) * int (unat (sectors_per_cluster (disk_mem img) 0)))" for k
    using w(3) hf(1) by (simp add: cluster_start_def g private_words L_def)
  moreover have "cluster_bytes s = unat (sectors_per_cluster (disk_mem img) 0) * 512" using hf(1) by (simp add: cluster_bytes_def g)
  ultimately show "root_file s dir name i img pos n"
    using vol om df at c disk md dk by (simp add: root_file_def file_on_disk_def disk_file_def L_def)
qed

section \<open>Properties: mounting\<close>


text \<open>C40: A volume without the FAT16 signature is refused with -EFSNOTUS: the private data is released and its pointer
  cleared, but the disk still names the driver as its file system and the three streams stay taken.\<close>

theorem fat16_resolve_refuses:
  fixes s :: "'a fatstate_scheme"
  assumes "kheap_inv s" "ata_disk (device s) img" "disk_byte img 38 \<noteq> 0x29"
    and "sector_size s = 512" "disk_at s \<noteq> 0" "disk_id s = 0" "5 \<le> kheap_vacant s"
  shows "\<exists>s' ps. fat16_resolve s = Inr (- EFSNOTUS, s') \<and> fs_private s' = 0 \<and> disk_filesystem s' = fat16_fs s
    \<and> kheap_inv s' \<and> (\<forall>a. kept s a \<longrightarrow> mem s' a = mem s a)
    \<and> kheap_allocs s' = kheap_allocs s \<union> page_allocs ps \<and> length ps = 3 \<and> distinct ps
    \<and> (\<forall>x \<in> set ps. \<forall>k. (x, k) \<notin> kheap_allocs s)"
proof -
  obtain P c f x t s5 where b:
    "fat16_resolve s = (if fat_signature (mem s5) P \<noteq> 0x29 then resolve_out P t (- EFSNOTUS, s5)
       else bnd (fat16_get_root_directory P (P + ROOT_DIRECTORY) s5) (\<lambda>(res, s6).
         if res \<noteq> GUAVAOS_ALL_OK then resolve_out P t (- EIO, s6) else resolve_out P t (0, s6)))"
    "extends {} s s5" "rest s5 = rest (s\<lparr>fs_private := P, disk_filesystem := fat16_fs s\<rparr>)"
    "kheap_allocs s5 = kheap_allocs s \<union> page_allocs [P, c, f, x, t]" "distinct [P, c, f, x, t]"
    "\<forall>y \<in> {P, c, f, x, t}. \<forall>k. (y, k) \<notin> kheap_allocs s"
    "\<forall>j < 62. mem s5 (P + word_of_nat j) = disk_byte img j"
    by (rule fat16_resolve_begins [OF assms(1,2,4-7)], rule that)
  have inv5: "kheap_inv s5" using b(2) by (simp add: extends_def)
  have sig: "fat_signature (mem s5) P \<noteq> 0x29" using b(7) [rule_format, of 38] assms(3) by (simp add: fat_layout)
  have tl: "(t, 1) \<in> kheap_allocs s5" unfolding b(4) by (simp add: page_allocs_def)
  obtain h where h: "kfree t s5 = Inr (s5\<lparr>kernel_heap := h\<rparr>)" "kheap_inv (s5\<lparr>kernel_heap := h\<rparr>)"
    "kheap_allocs (s5\<lparr>kernel_heap := h\<rparr>) = kheap_allocs s5 - {(t, 1)}" by (rule kfree_alloc [OF inv5 tl])
  have Pl: "(P, 1) \<in> kheap_allocs (s5\<lparr>kernel_heap := h\<rparr>)" unfolding h(3) b(4) using b(5) by (auto simp: page_allocs_def)
  obtain h' where h': "kfree P (s5\<lparr>kernel_heap := h\<rparr>) = Inr (s5\<lparr>kernel_heap := h'\<rparr>)" "kheap_inv (s5\<lparr>kernel_heap := h'\<rparr>)"
    "kheap_allocs (s5\<lparr>kernel_heap := h'\<rparr>) = kheap_allocs s5 - {(t, 1)} - {(P, 1)}"
    by (rule kfree_alloc [OF h(2) Pl]) (use h(3) in simp)
  define s' where "s' = s5\<lparr>kernel_heap := h', fs_private := 0\<rparr>"
  have run: "fat16_resolve s = Inr (- EFSNOTUS, s')"
    using sig by (simp add: b(1) resolve_out_def diskstreamer_close_def h(1) h'(1) s'_def EFSNOTUS_def)
  have same: "\<forall>a. kept s a \<longrightarrow> mem s' a = mem s a" using extends_mem [OF b(2)] by (simp add: s'_def)
  have g: "fs_private s' = 0" "disk_filesystem s' = fat16_fs s" "kheap_inv s'"
    using rest_dstate(5) [OF b(3)] h'(2) by (simp_all add: s'_def kheap_view_defs)
  have al: "kheap_allocs s' = kheap_allocs s \<union> page_allocs [c, f, x]"
  proof -
    define S where "S = kheap_allocs s \<union> page_allocs [c, f, x]"
    have "kheap_allocs s5 = insert (t, 1) (insert (P, 1) S)" unfolding b(4) S_def page_allocs_image by auto
    moreover have "(t, 1) \<notin> S" "(P, 1) \<notin> S" "t \<noteq> P" using b(5,6) unfolding S_def page_allocs_image by auto
    ultimately have "kheap_allocs s5 - {(t, 1)} - {(P, 1)} = S" by (simp add: insert_Diff_if)
    moreover have "kheap_allocs s' = kheap_allocs s5 - {(t, 1)} - {(P, 1)}" using h'(3) by (simp add: s'_def kheap_view_defs)
    ultimately show ?thesis by (simp add: S_def)
  qed
  have "\<forall>y \<in> set [c, f, x]. \<forall>k. (y, k) \<notin> kheap_allocs s" "distinct [c, f, x]" using b(5,6) by auto
  then show ?thesis using run g same al by (intro exI [of _ s'] exI [of _ "[c, f, x]"]) simp
qed

section \<open>A volume with a program for the witnesses\<close>

text \<open>
  Sector 0 is the header (one sector per cluster, one reserved sector, one allocation table of one sector, 16 root
  entries), sector 2 the root directory with \<^verbatim>\<open>BLANK.BIN\<close> of 20 bytes in cluster 2, which is sector 3.
\<close>

definition boot_img :: "nat \<Rightarrow> u16 list" where
  "boot_img k = (if k = 0 then (replicate 256 0)[6 := 0x0100, 7 := 1, 8 := 0x1001, 11 := 1, 19 := 0x29]
     else if k = 2 then (replicate 256 0)[0 := 0x4C42, 1 := 0x4E41, 2 := 0x204B, 3 := 0x2020, 4 := 0x4942, 5 := 0x204E, 13 := 2, 14 := 20]
     else replicate 256 (word_of_nat k))"

lemma nth_word_bytes: "j < 2 * length ws \<Longrightarrow> concat (map word_bytes ws) ! j = word_bytes (ws ! (j div 2)) ! (j mod 2)"
proof (induction ws arbitrary: j)
  case (Cons w ws)
  show ?case
  proof (cases "j < 2")
    case True
    then have "j = 0 \<or> j = 1" by auto
    then show ?thesis by (auto simp: word_bytes_def)
  next
    case False
    then obtain k where k: "j = Suc (Suc k)" by (metis One_nat_def less_2_cases not0_implies_Suc numeral_2_eq_2 zero_less_Suc nat_neq_iff not_less_eq)
    have "k < 2 * length ws" using Cons.prems by (simp add: k)
    from Cons.IH [OF this] show ?thesis by (simp add: k word_bytes_def)
  qed
qed simp

lemma boot_img_length: "length (boot_img k) = 256"
  by (simp add: boot_img_def)

lemma boot_byte: "disk_byte boot_img p = word_bytes (boot_img (p div 512) ! (p mod 512 div 2)) ! (p mod 2)"
proof -
  have "p mod 512 mod 2 = p mod 2" by (rule mod_mod_cancel) simp
  then show ?thesis using nth_word_bytes [of "p mod 512" "boot_img (p div 512)"] by (simp add: disk_byte_def sector_bytes_def boot_img_length)
qed

lemma boot_header:
  "fat_signature (disk_mem boot_img) 0 = 0x29" "sectors_per_cluster (disk_mem boot_img) 0 = 1" "root_sector boot_img = 2"
  "root_capacity boot_img = 16"
proof -
  show "fat_signature (disk_mem boot_img) 0 = 0x29" "sectors_per_cluster (disk_mem boot_img) 0 = 1"
    by (simp_all add: fat_layout disk_mem_def boot_byte) (simp_all add: boot_img_def word_bytes_def)
  show "root_sector boot_img = 2"
    by (simp add: root_sector_def fat_layout disk_mem_def load16_def boot_byte) (simp add: boot_img_def word_bytes_def)
  show "root_capacity boot_img = 16"
    by (simp add: root_capacity_def fat_layout disk_mem_def load16_def boot_byte) (simp add: boot_img_def word_bytes_def)
qed

lemma boot_entry: "disk_entry boot_img 0 = 0x400" "disk_entry boot_img 1 = 0x420"
  by (simp_all add: disk_entry_def boot_header)

abbreviation boot_dir :: "(u8 list \<times> u8 list) list" where
  "boot_dir \<equiv> [([66, 76, 65, 78, 75], [66, 73, 78])]"

lemma boot_entry_byte: "j < 64 \<Longrightarrow> disk_mem boot_img (0x400 + word_of_nat j) = word_bytes (boot_img 2 ! (j div 2)) ! (j mod 2)"
proof -
  assume j: "j < 64"
  have "unat (word_of_nat (0x400 + j) :: u32) = 0x400 + j" by (rule unat_of_nat32) (use j in simp)
  then have u: "unat (0x400 + word_of_nat j :: u32) = 0x400 + j" by simp
  have "(0x400 + j) div 512 = 2" "(0x400 + j) mod 512 = j" using j mod_mult_self3 [of 2 512 j] by simp_all
  moreover have "(0x400 + j) mod 2 = j mod 2" by presburger
  ultimately show ?thesis by (simp add: disk_mem_def u boot_byte)
qed

lemma boot_name: "entry_name (disk_mem boot_img) 0x400 [66, 76, 65, 78, 75] [66, 73, 78]"
  using boot_entry_byte [of 0] boot_entry_byte [of 1] boot_entry_byte [of 2] boot_entry_byte [of 3] boot_entry_byte [of 4]
    boot_entry_byte [of 5] boot_entry_byte [of 8] boot_entry_byte [of 9] boot_entry_byte [of 10] boot_entry_byte [of 11]
  by (simp add: entry_name_def name_char_def I_EXT_def I_ATTRIBUTE_def less_Suc_eq all_conj_distrib imp_disjL conj_disj_distribR boot_img_def word_bytes_def)

lemma boot_image: "fat16_image boot_img boot_dir"
  using boot_name boot_entry_byte [of 0] boot_entry_byte [of 32]
  by (simp add: fat16_image_def boot_header boot_entry boot_entry(2) [unfolded One_nat_def] boot_img_def word_bytes_def)

lemma boot_file: "only_match boot_dir [98, 108, 97, 110, 107, 46, 98, 105, 110] 0" "disk_file boot_img 0 1536 20"
proof -
  show "only_match boot_dir [98, 108, 97, 110, 107, 46, 98, 105, 110] 0"
    by (simp add: only_match_def same_name_def full_name_def tolower_def)
  show "disk_file boot_img 0 1536 20"
    using boot_entry_byte [of 11] boot_entry_byte [of 20] boot_entry_byte [of 21] boot_entry_byte [of 26] boot_entry_byte [of 27]
      boot_entry_byte [of 28] boot_entry_byte [of 29] boot_entry_byte [of 30] boot_entry_byte [of 31]
      boot_header(2) [unfolded fat_layout]
    by (simp add: FAT_FILE_SUBDIRECTORY_def disk_file_def boot_entry boot_header fat16_get_first_cluster_def fat_layout load16_def load32_def boot_img_def word_bytes_def)
qed

definition mount_sample :: "(nat \<Rightarrow> u16 list) \<Rightarrow> filestate" where
  "mount_sample img = open_sample\<lparr>device := ata_of img, fs_private := 0, disk_filesystem := 0\<rparr>"

lemma mount_sample_fields:
  "kheap_inv (mount_sample img)" "sector_size (mount_sample img) = 512" "disk_at (mount_sample img) \<noteq> 0" "disk_id (mount_sample img) = 0"
  "fat16_fs (mount_sample img) = 0x7000" "kheap_allocs (mount_sample img) = {}" "kheap_vacant (mount_sample img) = 25600"
  by (simp_all add: mount_sample_def open_sample_def kheap_view_defs fresh_heap_inv) (simp_all add: file_sample_def)


theorem fat16_resolve_refuses_witness:
  "\<exists>s'. fat16_resolve (mount_sample sample_img) = Inr (- EFSNOTUS, s') \<and> disk_filesystem s' = 0x7000 \<and> card (kheap_allocs s') = 3"
proof -
  note m = mount_sample_fields [of sample_img]
  have d: "ata_disk (device (mount_sample sample_img)) sample_img"
    using ata_of_disk [of sample_img] by (simp add: mount_sample_def sample_img_def)
  have "sector_bytes sample_img 0 ! 38 = 0" using nth_word_bytes [of 38 "sample_img 0"] by (simp add: sector_bytes_def sample_img_def word_bytes_def)
  then have b: "disk_byte sample_img 38 \<noteq> 0x29" by (simp add: disk_byte_def)
  have "5 \<le> kheap_vacant (mount_sample sample_img)" by (simp add: m)
  from fat16_resolve_refuses [OF m(1) d b m(2-4) this] m(5,6)
  obtain s' ps where "fat16_resolve (mount_sample sample_img) = Inr (- EFSNOTUS, s')" "disk_filesystem s' = 0x7000"
    "kheap_allocs s' = page_allocs ps" "length ps = 3" "distinct ps" by auto
  then show ?thesis using page_allocs_accounts(2) [of ps] by (intro exI [of _ s']) simp
qed

end
