(* ===== verification/Idt.thy ===== *)
theory Idt
  imports Process
begin

text \<open>
  \<^verbatim>\<open>src/idt/idt.c\<close> and \<^verbatim>\<open>src/isr80h\<close>: the interrupt descriptor table, the registered interrupt
  callbacks and the system commands behind interrupt \<^verbatim>\<open>0x80\<close>. Callbacks and commands are code
  addresses; what runs at an address is the argument \<open>code\<close> or \<open>commands\<close> of the definitions, so the
  dispatch is modelled for any registered code. \<^verbatim>\<open>panic\<close> prints and loops: \<open>Inl Halted\<close>.
\<close>

section \<open>Data (idt.h, config.h)\<close>

definition GUAVAOS_TOTAL_INTERRUPTS :: nat where "GUAVAOS_TOTAL_INTERRUPTS = 512"
definition GUAVAOS_MAX_ISR80H_COMMANDS :: nat where "GUAVAOS_MAX_ISR80H_COMMANDS = 1024"
definition KERNEL_CODE_SELECTOR :: u16 where "KERNEL_CODE_SELECTOR = 0x08"

record idt_desc =
  offset_1 :: u16
  selector :: u16
  zero_byte :: u8
  type_attr :: u8
  offset_2 :: u16

record idtr_desc =
  idtr_limit :: u16
  idtr_base :: u32

text \<open>
  The tables of idt.c; the register \<^verbatim>\<open>idtr\<close> that \<^verbatim>\<open>idt_load\<close> (assembly) sets; and addresses of the
  kernel image: the table itself, the entry stubs of \<^verbatim>\<open>idt.asm\<close>, \<^verbatim>\<open>idt_zero\<close>, \<^verbatim>\<open>isr80h_wrapper\<close>.
\<close>

record idtstate = procstate +
  idt_descriptors :: "idt_desc list"
  idtr_descriptor :: idtr_desc
  interrupt_callbacks :: "u32 list"
  isr80h_commands :: "u32 list"
  idtr :: idtr_desc
  idt_descriptors_at :: u32
  interrupt_pointer_table :: "u32 list"
  idt_zero_at :: u32
  isr80h_wrapper_at :: u32

section \<open>idt.c\<close>

definition no_interrupt_handler :: "'a iostate_scheme \<Rightarrow> 'a iostate_scheme" where
  "no_interrupt_handler s = outb 0x20 0x20 s"

definition idt_zero :: "'a machine_scheme \<Rightarrow> 'a machine_scheme" where
  "idt_zero s = print_literal (lit ''Divide by zero error'' @ [10]) 6 s"

definition idt_set :: "int \<Rightarrow> u32 \<Rightarrow> 'a idtstate_scheme \<Rightarrow> 'a idtstate_scheme outcome" where
  "idt_set interrupt_no address s =
     bnd (arr_set (idt_descriptors s) interrupt_no
           \<lparr>offset_1 = ucast (address AND 0x0000ffff), selector = KERNEL_CODE_SELECTOR, zero_byte = 0x00,
            type_attr = 0xEE, offset_2 = ucast (drop_bit 16 address)\<rparr>)
       (\<lambda>ds. Inr (s\<lparr>idt_descriptors := ds\<rparr>))"

definition zero_desc :: idt_desc where
  "zero_desc = \<lparr>offset_1 = 0, selector = 0, zero_byte = 0, type_attr = 0, offset_2 = 0\<rparr>"

definition idt_load :: "'a idtstate_scheme \<Rightarrow> 'a idtstate_scheme" where
  "idt_load s = s\<lparr>idtr := idtr_descriptor s\<rparr>"

definition idt_init :: "'a idtstate_scheme \<Rightarrow> 'a idtstate_scheme outcome" where
  "idt_init s =
     (let s1 = s\<lparr>idt_descriptors := replicate GUAVAOS_TOTAL_INTERRUPTS zero_desc\<rparr>;
          s2 = s1\<lparr>idtr_descriptor := \<lparr>idtr_limit = word_of_nat (8 * GUAVAOS_TOTAL_INTERRUPTS - 1),
                                     idtr_base = idt_descriptors_at s1\<rparr>\<rparr>
      in bnd (for_each (\<lambda>i s. bnd (arr_get (interrupt_pointer_table s) (int i)) (\<lambda>a. idt_set (int i) a s))
                [0..<GUAVAOS_TOTAL_INTERRUPTS] s2) (\<lambda>s3.
         bnd (idt_set 0 (idt_zero_at s3) s3) (\<lambda>s4.
         bnd (idt_set 0x80 (isr80h_wrapper_at s4) s4) (\<lambda>s5.
           Inr (idt_load s5)))))"

definition idt_register_interrupt_callback ::
  "int \<Rightarrow> u32 \<Rightarrow> 'a idtstate_scheme \<Rightarrow> (int \<times> 'a idtstate_scheme) outcome" where
  "idt_register_interrupt_callback interrupt callback_fn s =
     (if interrupt < 0 \<or> int GUAVAOS_TOTAL_INTERRUPTS \<le> interrupt then Inr (- EINVARG, s)
      else bnd (arr_set (interrupt_callbacks s) interrupt callback_fn) (\<lambda>cs.
        Inr (0, s\<lparr>interrupt_callbacks := cs\<rparr>)))"

text \<open>The code at an address, run by an interrupt.\<close>

type_synonym 's callbacks = "u32 \<Rightarrow> 's \<Rightarrow> 's outcome"

definition interrupt_handler ::
  "'a idtstate_scheme callbacks \<Rightarrow> int \<Rightarrow> interrupt_frame \<Rightarrow> 'a idtstate_scheme \<Rightarrow> 'a idtstate_scheme outcome" where
  "interrupt_handler code interrupt frame s =
     (let s1 = kernel_page s
      in bnd (arr_get (interrupt_callbacks s1) interrupt) (\<lambda>callback.
         bnd (if callback \<noteq> 0 then bnd (task_current_save_state frame s1) (code callback) else Inr s1) (\<lambda>s2.
           Inr (outb 0x20 0x20 (snd (task_page s2))))))"

text \<open>The code at an address, run as a system command on a frame; the result is a word.\<close>

type_synonym 's commands = "u32 \<Rightarrow> interrupt_frame \<Rightarrow> 's \<Rightarrow> (u32 \<times> 's) outcome"

definition isr80h_register_command :: "int \<Rightarrow> u32 \<Rightarrow> 'a idtstate_scheme \<Rightarrow> 'a idtstate_scheme outcome" where
  "isr80h_register_command cmd_id command s =
     (if cmd_id < 0 \<or> int GUAVAOS_MAX_ISR80H_COMMANDS \<le> cmd_id then Inl Halted
      else bnd (arr_get (isr80h_commands s) cmd_id) (\<lambda>old.
        if old \<noteq> 0 then Inl Halted
        else bnd (arr_set (isr80h_commands s) cmd_id command) (\<lambda>cs. Inr (s\<lparr>isr80h_commands := cs\<rparr>))))"

definition isr80h_handle_command ::
  "'a idtstate_scheme commands \<Rightarrow> int \<Rightarrow> interrupt_frame \<Rightarrow> 'a idtstate_scheme \<Rightarrow> (u32 \<times> 'a idtstate_scheme) outcome" where
  "isr80h_handle_command cmds command frame s =
     (if command < 0 \<or> int GUAVAOS_MAX_ISR80H_COMMANDS \<le> command then Inr (0, s)
      else bnd (arr_get (isr80h_commands s) command) (\<lambda>command_func.
        if command_func = 0 then Inr (0, s) else cmds command_func frame s))"

definition isr80h_handler ::
  "'a idtstate_scheme commands \<Rightarrow> int \<Rightarrow> interrupt_frame \<Rightarrow> 'a idtstate_scheme \<Rightarrow> (u32 \<times> 'a idtstate_scheme) outcome" where
  "isr80h_handler cmds command frame s =
     (let s1 = kernel_page s
      in bnd (task_current_save_state frame s1) (\<lambda>s2.
         bnd (isr80h_handle_command cmds command frame s2) (\<lambda>(res, s3).
           Inr (res, snd (task_page s3)))))"

section \<open>isr80h: the system commands\<close>

definition SYSTEM_COMMAND0_SUM :: int where "SYSTEM_COMMAND0_SUM = 0"
definition SYSTEM_COMMAND1_PRINT :: int where "SYSTEM_COMMAND1_PRINT = 1"

definition isr80h_command0_sum ::
  "interrupt_frame \<Rightarrow> 'a tstate_scheme \<Rightarrow> (u32 \<times> 'a tstate_scheme) outcome" where
  "isr80h_command0_sum frame s =
     bnd (task_get_stack_item (task_current s) 1 s) (\<lambda>(v2, s1).
     bnd (task_get_stack_item (task_current s1) 0 s1) (\<lambda>(v1, s2).
     bnd (c_int (sint v1 + sint v2)) (\<lambda>v. Inr (word_of_int v, s2))))"

text \<open>The local buffer of 1024 bytes is on the kernel stack, at an address the state gives.\<close>

definition isr80h_command1_print ::
  "u32 \<Rightarrow> interrupt_frame \<Rightarrow> 'a tstate_scheme \<Rightarrow> (u32 \<times> 'a tstate_scheme) outcome" where
  "isr80h_command1_print buff frame s =
     bnd (task_get_stack_item (task_current s) 0 s) (\<lambda>(user_space_msg_buffer, s1).
     bnd (copy_string_from_task (task_current s1) user_space_msg_buffer buff 1024 s1) (\<lambda>(_, s2).
     bnd (print buff 3 s2) (\<lambda>s3. Inr (0, s3))))"

text \<open>The addresses of the two commands are the arguments.\<close>

definition isr80h_register_commands ::
  "u32 \<Rightarrow> u32 \<Rightarrow> 'a idtstate_scheme \<Rightarrow> 'a idtstate_scheme outcome" where
  "isr80h_register_commands sum_at print_at s =
     bnd (isr80h_register_command SYSTEM_COMMAND0_SUM sum_at s)
       (isr80h_register_command SYSTEM_COMMAND1_PRINT print_at)"

end
