(* ===== verification/Keyboard.thy ===== *)
theory Keyboard
  imports Idt
begin

text \<open>
  \<^verbatim>\<open>src/keyboard/keyboard.c\<close> and \<^verbatim>\<open>src/keyboard/ps2.c\<close>: the list of keyboards, the key buffer of a
  process (a ring of 1024 bytes in \<^verbatim>\<open>struct process\<close>) and the PS/2 driver. A \<^verbatim>\<open>struct keyboard\<close> has
  its init function at offset 0, its name at 4 and its next pointer at 24; what runs at the address
  of an init function is the argument \<open>code\<close>.
\<close>

record keystate = idtstate +
  keyboard_list_head :: u32
  keyboard_list_last :: u32
  ps2_keyboard :: u32
  ps2_handler_at :: u32

definition K_INIT :: u32 where "K_INIT = 0"
definition K_NEXT :: u32 where "K_NEXT = 24"

section \<open>keyboard.c\<close>

type_synonym 's init_functions = "u32 \<Rightarrow> 's \<Rightarrow> (int \<times> 's) outcome"

definition keyboard_insert ::
  "'a keystate_scheme init_functions \<Rightarrow> u32 \<Rightarrow> 'a keystate_scheme \<Rightarrow> (int \<times> 'a keystate_scheme) outcome" where
  "keyboard_insert code keyboard s =
     (if load32 (mem s) (keyboard + K_INIT) = 0 then Inr (- EINVARG, s)
      else
        let s1 = (if keyboard_list_last s \<noteq> 0
                  then (st32 (keyboard_list_last s + K_NEXT) keyboard s)\<lparr>keyboard_list_last := keyboard\<rparr>
                  else s\<lparr>keyboard_list_head := keyboard, keyboard_list_last := keyboard\<rparr>)
        in code (load32 (mem s1) (keyboard + K_INIT)) s1)"

text \<open>A ring index; \<^verbatim>\<open>%\<close> of a negative \<^verbatim>\<open>int\<close> is negative or zero.\<close>

definition keyboard_get_tail_index :: "memory \<Rightarrow> u32 \<Rightarrow> int" where
  "keyboard_get_tail_index m process = sint (load32 m (process + P_TAIL)) smod GUAVAOS_KEYBOARD_BUFFER_SIZE"

definition buffer_set :: "u32 \<Rightarrow> int \<Rightarrow> u8 \<Rightarrow> 'a procstate_scheme \<Rightarrow> 'a procstate_scheme outcome" where
  "buffer_set process i c s =
     (if 0 \<le> i \<and> i < GUAVAOS_KEYBOARD_BUFFER_SIZE
      then Inr (s\<lparr>mem := (mem s)(process + P_BUFFER + word_of_int i := c)\<rparr>) else Inl Undefined)"

definition buffer_get :: "u32 \<Rightarrow> int \<Rightarrow> 'a procstate_scheme \<Rightarrow> u8 outcome" where
  "buffer_get process i s =
     (if 0 \<le> i \<and> i < GUAVAOS_KEYBOARD_BUFFER_SIZE
      then Inr (mem s (process + P_BUFFER + word_of_int i)) else Inl Undefined)"

definition keyboard_backspace :: "u32 \<Rightarrow> 'a procstate_scheme \<Rightarrow> 'a procstate_scheme outcome" where
  "keyboard_backspace process s =
     bnd (c_int (sint (load32 (mem s) (process + P_TAIL)) - 1)) (\<lambda>tail.
       let s1 = st32 (process + P_TAIL) (word_of_int tail) s
       in buffer_set process (keyboard_get_tail_index (mem s1) process) 0 s1)"

definition keyboard_push :: "u8 \<Rightarrow> 'a procstate_scheme \<Rightarrow> 'a procstate_scheme outcome" where
  "keyboard_push c s =
     (let process = process_current s
      in if process = 0 then Inr s
         else bnd (buffer_set process (keyboard_get_tail_index (mem s) process) c s) (\<lambda>s1.
           bnd (c_int (sint (load32 (mem s1) (process + P_TAIL)) + 1)) (\<lambda>tail.
             Inr (st32 (process + P_TAIL) (word_of_int tail) s1))))"

definition keyboard_pop :: "'a procstate_scheme \<Rightarrow> (u8 \<times> 'a procstate_scheme) outcome" where
  "keyboard_pop s =
     (if task_current s = 0 then Inr (0, s)
      else
        let process = get s (task_current s) T_PROCESS;
            real_index = sint (load32 (mem s) (process + P_HEAD)) smod GUAVAOS_KEYBOARD_BUFFER_SIZE
        in bnd (buffer_get process real_index s) (\<lambda>c.
           if c = 0 then Inr (0, s)
           else bnd (buffer_set process real_index 0 s) (\<lambda>s1.
             bnd (c_int (sint (load32 (mem s1) (process + P_HEAD)) + 1)) (\<lambda>head.
               Inr (c, st32 (process + P_HEAD) (word_of_int head) s1)))))"

section \<open>ps2.c\<close>

definition PS2_PORT :: u16 where "PS2_PORT = 0x64"
definition PS2_COMMAND_ENABLE_FIRST_PORT :: u8 where "PS2_COMMAND_ENABLE_FIRST_PORT = 0xAE"
definition PS2_KEYBOARD_KEY_RELEASED :: u8 where "PS2_KEYBOARD_KEY_RELEASED = 0x80"
definition ISR_KEYBOARD_INTERRUPT :: int where "ISR_KEYBOARD_INTERRUPT = 0x21"
definition KEYBOARD_INPUT_PORT :: u16 where "KEYBOARD_INPUT_PORT = 0x60"

definition keyboard_scan_set_one :: "u8 list" where
  "keyboard_scan_set_one =
     [0, 27, 49, 50, 51, 52, 53, 54, 55, 56, 57, 48, 45, 61, 8, 9, 81, 87, 69, 82, 84,
      89, 85, 73, 79, 80, 91, 93, 13, 0, 65, 83, 68, 70, 71, 72, 74, 75, 76, 59, 39, 96,
      0, 92, 90, 88, 67, 86, 66, 78, 77, 44, 46, 47, 0, 42, 0, 32, 0, 0, 0, 0,
      0, 0, 0, 0, 0, 0, 0, 55, 56, 57, 45, 52, 53, 54, 43, 49, 50, 51, 48, 46]"

text \<open>The guard compares with \<^verbatim>\<open>>\<close>, so the length itself is an index past the end.\<close>

definition ps2_scancode_to_char :: "u8 \<Rightarrow> u8 outcome" where
  "ps2_scancode_to_char scancode =
     (if length keyboard_scan_set_one < unat scancode then Inr 0
      else arr_get keyboard_scan_set_one (int (unat scancode)))"

definition ps2_keyboard_init :: "'a keystate_scheme \<Rightarrow> (int \<times> 'a keystate_scheme) outcome" where
  "ps2_keyboard_init s =
     bnd (idt_register_interrupt_callback ISR_KEYBOARD_INTERRUPT (ps2_handler_at s) s) (\<lambda>(_, s1).
       Inr (0, outb PS2_PORT PS2_COMMAND_ENABLE_FIRST_PORT s1))"

definition ps2_get :: "'a keystate_scheme \<Rightarrow> u32" where
  "ps2_get s = ps2_keyboard s"

definition ps2_keyboard_handle_interrupt :: "'a procstate_scheme \<Rightarrow> 'a procstate_scheme outcome" where
  "ps2_keyboard_handle_interrupt s =
     (let s1 = kernel_page s;
          (scancode, s2) = insb KEYBOARD_INPUT_PORT s1;
          (_, s3) = insb KEYBOARD_INPUT_PORT s2
      in if scancode AND PS2_KEYBOARD_KEY_RELEASED \<noteq> 0 then Inr s3
         else bnd (ps2_scancode_to_char scancode) (\<lambda>c.
           bnd (if c \<noteq> 0 then keyboard_push c s3 else Inr s3) (\<lambda>s4. Inr (snd (task_page s4)))))"

definition keyboard_init ::
  "'a keystate_scheme init_functions \<Rightarrow> 'a keystate_scheme \<Rightarrow> 'a keystate_scheme outcome" where
  "keyboard_init code s = bnd (keyboard_insert code (ps2_get s) s) (\<lambda>(_, s1). Inr s1)"

end
