(* ===== verification/Gdt.thy ===== *)
theory Gdt
  imports KHeap
begin

text \<open>
  \<^verbatim>\<open>src/gdt/gdt.c\<close>: encoding of segment descriptors into the eight bytes the processor reads.
  The target is the byte array of one \<^verbatim>\<open>struct gdt\<close>. \<^verbatim>\<open>panic\<close> prints and loops, so it is
  \<open>Inl Halted\<close>. The decoder is the descriptor layout of the i386 manual: base and limit in
  pieces, and a limit in units of 4096 bytes when the granularity bit is set.
\<close>

record gdt_structured =
  base :: u32
  limit :: u32
  type :: u8

definition encode_gdt_entry :: "u8 list \<Rightarrow> gdt_structured \<Rightarrow> u8 list outcome" where
  "encode_gdt_entry target source =
     (if limit source > 65536 \<and> limit source AND 0xFFF \<noteq> 0xFFF then Inl Halted
      else
        let t1 = target[6 := 0x40];
            (lim, t2) = (if limit source > 65536
                         then (drop_bit 12 (limit source), t1[6 := 0xC0])
                         else (limit source, t1));
            t3 = t2[0 := ucast (lim AND 0xFF)];
            t4 = t3[1 := ucast (drop_bit 8 lim AND 0xFF)];
            t5 = t4[6 := t4 ! 6 OR ucast (drop_bit 16 lim AND 0x0F)];
            t6 = t5[2 := ucast (base source AND 0xFF)];
            t7 = t6[3 := ucast (drop_bit 8 (base source) AND 0xFF)];
            t8 = t7[4 := ucast (drop_bit 16 (base source) AND 0xFF)];
            t9 = t8[7 := ucast (drop_bit 24 (base source) AND 0xFF)]
        in Inr (t9[5 := type source]))"

definition gdt_structured_to_gdt ::
  "u8 list list \<Rightarrow> gdt_structured list \<Rightarrow> nat \<Rightarrow> u8 list list outcome" where
  "gdt_structured_to_gdt gdt structured_gdt total_entries =
     for_each (\<lambda>i gdt.
         bnd (arr_get structured_gdt (int i)) (\<lambda>source.
         bnd (arr_get gdt (int i)) (\<lambda>target.
         bnd (encode_gdt_entry target source) (\<lambda>target'.
           arr_set gdt (int i) target'))))
       [0..<total_entries] gdt"

section \<open>The processor's view\<close>

definition gdt_decode :: "u8 list \<Rightarrow> gdt_structured" where
  "gdt_decode d =
     (let lim = ucast (d ! 0) OR push_bit 8 (ucast (d ! 1)) OR push_bit 16 (ucast (d ! 6) AND 0x0F)
      in \<lparr>base = ucast (d ! 2) OR push_bit 8 (ucast (d ! 3)) OR push_bit 16 (ucast (d ! 4))
                  OR push_bit 24 (ucast (d ! 7)),
          limit = (if bit (d ! 6) 7 then push_bit 12 lim OR 0xFFF else lim),
          type = d ! 5\<rparr>)"

lemma base_bytes:
  "ucast (ucast (w AND 0xFF) :: u8) OR push_bit 8 (ucast (ucast (drop_bit 8 w AND 0xFF) :: u8))
     OR push_bit 16 (ucast (ucast (drop_bit 16 w AND 0xFF) :: u8))
     OR push_bit 24 (ucast (ucast (drop_bit 24 w AND 0xFF) :: u8)) = (w :: u32)" (is "?l = w")
proof (rule bit_word_eqI)
  fix n
  have m: "0xFF = (mask 8 :: u32)" by (simp add: mask_eq_exp_minus_1)
  assume "n < LENGTH(32)"
  then consider "n < 8" | "8 \<le> n" "n < 16" | "16 \<le> n" "n < 24" | "24 \<le> n" "n < 32"
    by (simp, linarith)
  then show "bit ?l n = bit w n"
    by cases (auto simp: m bit_simps simp del: mask_numeral)
qed

lemma limit_bytes:
  fixes w :: u32 and g :: u8
  assumes "unat w < 2 ^ 20" "take_bit 4 g = 0"
  shows "ucast (ucast (w AND 0xFF) :: u8) OR push_bit 8 (ucast (ucast (drop_bit 8 w AND 0xFF) :: u8))
     OR push_bit 16 (ucast (g OR ucast (drop_bit 16 w AND 0x0F)) AND 0x0F) = w" (is "?l = w")
proof (rule bit_word_eqI)
  fix n
  have m: "0xFF = (mask 8 :: u32)" "0x0F = (mask 4 :: u32)" by (simp_all add: mask_eq_exp_minus_1)
  have hi: "\<not> bit w k" if "20 \<le> k" for k
  proof -
    have "w = take_bit 20 w" using assms(1) by (simp add: word_unat_eq_iff unsigned_take_bit_eq take_bit_nat_eq_self)
    then have "bit w k = bit (take_bit 20 w) k" by simp
    then show ?thesis using that by (simp add: bit_take_bit_iff)
  qed
  have lo: "\<not> bit g k" if "k < 4" for k
  proof -
    have "bit (take_bit 4 g) k = (k < 4 \<and> bit g k)" by (simp add: bit_take_bit_iff)
    then show ?thesis using assms(2) that by simp
  qed
  assume "n < LENGTH(32)"
  then consider "n < 8" | "8 \<le> n" "n < 16" | "16 \<le> n" "n < 20" | "20 \<le> n" "n < 32"
    by (simp, linarith)
  then show "bit ?l n = bit w n"
    by cases (use hi lo in \<open>auto simp: m bit_simps simp del: mask_numeral\<close>)
qed


lemma limit_pages:
  fixes l :: u32
  assumes "l AND 0xFFF = 0xFFF"
  shows "push_bit 12 (drop_bit 12 l) OR 0xFFF = l"
proof (rule bit_word_eqI)
  fix n
  have m: "0xFFF = (mask 12 :: u32)" by (simp add: mask_eq_exp_minus_1)
  have one: "bit l k" if "k < 12" for k
  proof -
    have "bit (l AND mask 12) k = bit (mask 12 :: u32) k" using assms by (simp add: m)
    with that show ?thesis by (simp add: bit_simps)
  qed
  assume "n < LENGTH(32)"
  then show "bit (push_bit 12 (drop_bit 12 l) OR 0xFFF) n = bit l n"
    by (cases "n < 12") (use one in \<open>auto simp: m bit_simps simp del: mask_numeral\<close>)
qed

lemma length_8_cases: "length t = 8 \<Longrightarrow> \<exists>a b c d e f g h. t = [a, b, c, d, e, f, g, h]"
  by (auto simp: numeral_eq_Suc length_Suc_conv)

lemma encode_small:
  assumes "length t = 8" "limit g \<le> 65536"
  shows "\<exists>d. encode_gdt_entry t g = Inr d \<and> length d = 8 \<and> gdt_decode d = g"
proof -
  obtain a b c d e f i h where t: "t = [a, b, c, d, e, f, i, h]" using length_8_cases [OF assms(1)] by metis
  have "unat (limit g) < 2 ^ 20" using assms(2) by (simp add: word_le_nat_alt)
  note l = limit_bytes [OF this, of "0x40"]
  have b7: "\<not> bit (0x40 OR ucast (drop_bit 16 (limit g) AND 0x0F) :: u8) 7"
    by (simp add: bit_simps)
  show ?thesis
    using assms(2) l b7 base_bytes [of "base g"]
    by (cases g) (simp add: encode_gdt_entry_def gdt_decode_def t Let_def not_less [symmetric])
qed

lemma encode_large:
  assumes "length t = 8" "65536 < limit g" "limit g AND 0xFFF = 0xFFF"
  shows "\<exists>d. encode_gdt_entry t g = Inr d \<and> length d = 8 \<and> gdt_decode d = g"
proof -
  obtain a b c d e f i h where t: "t = [a, b, c, d, e, f, i, h]" using length_8_cases [OF assms(1)] by metis
  have "unat (drop_bit 12 (limit g)) < 2 ^ 20"
    by (simp add: drop_bit_eq_div unat_div less_mult_imp_div_less)
  note l = limit_bytes [OF this, of "0xC0"]
  have b7: "bit (0xC0 OR ucast (drop_bit 16 (drop_bit 12 (limit g)) AND 0x0F) :: u8) 7"
    by (simp add: bit_simps)
  show ?thesis
    using assms(2,3) l b7 base_bytes [of "base g"] limit_pages [OF assms(3)]
    by (cases g) (simp add: encode_gdt_entry_def gdt_decode_def t Let_def)
qed

text \<open>Every segment that has a representation is encoded to it, every other one panics.\<close>

definition gdt_representable :: "gdt_structured \<Rightarrow> bool" where
  "gdt_representable g \<longleftrightarrow> limit g \<le> 65536 \<or> limit g AND 0xFFF = 0xFFF"

lemma encode_gdt_entry_decode:
  "length t = 8 \<Longrightarrow> gdt_representable g \<Longrightarrow>
     \<exists>d. encode_gdt_entry t g = Inr d \<and> length d = 8 \<and> gdt_decode d = g"
  using encode_small [of t g] encode_large [of t g] unfolding gdt_representable_def by (meson not_le)

lemma encode_gdt_entry_panic:
  "\<not> gdt_representable g \<Longrightarrow> encode_gdt_entry t g = Inl Halted"
  by (simp add: gdt_representable_def encode_gdt_entry_def not_le)

text \<open>One round of the loop over the table, and the table after \<open>n\<close> rounds.\<close>

definition gdt_round :: "gdt_structured list \<Rightarrow> nat \<Rightarrow> u8 list list \<Rightarrow> u8 list list outcome" where
  "gdt_round gs i gdt = bnd (arr_get gs (int i)) (\<lambda>source. bnd (arr_get gdt (int i)) (\<lambda>target.
     bnd (encode_gdt_entry target source) (\<lambda>target'. arr_set gdt (int i) target')))"

definition gdt_done :: "gdt_structured list \<Rightarrow> nat \<Rightarrow> u8 list list \<Rightarrow> bool" where
  "gdt_done gs n d \<longleftrightarrow> length d = length gs \<and> (\<forall>t \<in> set d. length t = 8) \<and> (\<forall>i < n. gdt_decode (d ! i) = gs ! i)"

lemma gdt_rounds: "gdt_structured_to_gdt gdt gs n = for_each (gdt_round gs) [0..<n] gdt"
  by (simp add: gdt_structured_to_gdt_def gdt_round_def [abs_def])

lemma gdt_round_done:
  assumes i: "i < length gs" and d: "gdt_done gs i d" and r: "gdt_representable (gs ! i)"
  shows "\<exists>d'. gdt_round gs i d = Inr d' \<and> gdt_done gs (Suc i) d'"
proof -
  have "length (d ! i) = 8" using i d by (simp add: gdt_done_def)
  from encode_gdt_entry_decode [OF this r] obtain e where
    e: "encode_gdt_entry (d ! i) (gs ! i) = Inr e" "length e = 8" "gdt_decode e = gs ! i" by blast
  have "gdt_done gs (Suc i) (d[i := e])"
    using i d e(2,3) set_update_subset_insert [of d i e] by (auto simp: gdt_done_def nth_list_update less_Suc_eq)
  then show ?thesis using i d e(1) by (simp add: gdt_done_def gdt_round_def)
qed

lemma gdt_run:
  assumes "length gdt = length gs" "\<forall>t \<in> set gdt. length t = 8" "n \<le> length gs" "\<forall>i < n. gdt_representable (gs ! i)"
  shows "\<exists>d. for_each (gdt_round gs) [0..<n] gdt = Inr d \<and> gdt_done gs n d"
  by (rule for_each_upt [where P = "gdt_done gs"]) (use assms gdt_round_done in \<open>auto simp: gdt_done_def\<close>)

lemma gdt_table_encoded:
  assumes "length gdt = length gs" "\<forall>t \<in> set gdt. length t = 8" "\<forall>g \<in> set gs. gdt_representable g"
  shows "\<exists>d. gdt_structured_to_gdt gdt gs (length gs) = Inr d \<and> map gdt_decode d = gs"
  using gdt_run [OF assms(1,2) order_refl] assms(3) by (auto simp: gdt_rounds gdt_done_def intro!: nth_equalityI)

text \<open>C28: encoding a table of segments succeeds exactly for representable segments (a limit of at most
  65536 bytes, or one whose low twelve bits are set), and the processor's reading of each encoded
  entry is the segment it was made from; a segment without representation panics.\<close>

theorem gdt_table_roundtrip:
  assumes "length gdt = length gs" "\<forall>t \<in> set gdt. length t = 8"
  shows "(if \<forall>g \<in> set gs. gdt_representable g
          then \<exists>d. gdt_structured_to_gdt gdt gs (length gs) = Inr d \<and> map gdt_decode d = gs
          else gdt_structured_to_gdt gdt gs (length gs) = Inl Halted)"
proof (cases "\<forall>g \<in> set gs. gdt_representable g")
  case True
  then show ?thesis using gdt_table_encoded [OF assms] by simp
next
  case False
  define n where "n = (LEAST i. i < length gs \<and> \<not> gdt_representable (gs ! i))"
  have "\<exists>i. i < length gs \<and> \<not> gdt_representable (gs ! i)" using False by (auto simp: in_set_conv_nth)
  from LeastI_ex [OF this] have n: "n < length gs" "\<not> gdt_representable (gs ! n)" by (simp_all add: n_def)
  have "\<forall>i < n. gdt_representable (gs ! i)" using n(1) not_less_Least unfolding n_def by fastforce
  with gdt_run [OF assms, of n] n obtain d where d: "for_each (gdt_round gs) [0..<n] gdt = Inr d" "gdt_done gs n d" by auto
  have split: "[0..<length gs] = [0..<n] @ n # [Suc n..<length gs]"
    using n(1) by (metis le_add_diff_inverse less_imp_le_nat upt_add_eq_append upt_conv_Cons le0)
  have "gdt_round gs n d = Inl Halted" using n d(2) encode_gdt_entry_panic by (simp add: gdt_done_def gdt_round_def)
  then show ?thesis using False d(1) unfolding gdt_rounds split for_each_append by auto
qed

theorem gdt_table_roundtrip_witness:
  "\<exists>d. gdt_structured_to_gdt [replicate 8 0, replicate 8 0]
      [\<lparr>base = 0, limit = 0xFFFFFFFF, type = 0x9a\<rparr>, \<lparr>base = 0x123456, limit = 100, type = 0xe9\<rparr>] 2 = Inr d
    \<and> map gdt_decode d = [\<lparr>base = 0, limit = 0xFFFFFFFF, type = 0x9a\<rparr>, \<lparr>base = 0x123456, limit = 100, type = 0xe9\<rparr>]"
proof -
  let ?gs = "[\<lparr>base = 0, limit = 0xFFFFFFFF, type = 0x9a\<rparr>, \<lparr>base = 0x123456, limit = 100, type = 0xe9\<rparr>]"
    and ?d = "[replicate 8 0, replicate 8 0] :: u8 list list"
  have "length ?d = length ?gs" "\<forall>t \<in> set ?d. length t = 8" by simp_all
  note gdt_table_roundtrip [OF this]
  moreover have "\<forall>g \<in> set ?gs. gdt_representable g" by (simp add: gdt_representable_def)
  ultimately show ?thesis by (simp add: numeral_2_eq_2)
qed

end
