(* ===== verification/Kernel.thy ===== *)
theory Kernel
  imports Keyboard Gdt
begin

text \<open>
  \<^verbatim>\<open>kernel_main\<close> of \<^verbatim>\<open>src/kernel.c\<close>: the order in which the parts are brought up, and the dispatch of
  the program's code addresses (interrupt callbacks, system commands, keyboard init function). The
  assembly routines \<^verbatim>\<open>gdt_load\<close>, \<^verbatim>\<open>tss_load\<close> and \<^verbatim>\<open>enable_paging\<close> set the registers they name.
\<close>

definition GUAVAOS_TOTAL_GDT_SEGMENTS :: nat where "GUAVAOS_TOTAL_GDT_SEGMENTS = 6"
definition tss_sizeof :: u32 where "tss_sizeof = 100"
definition TSS_ESP0 :: u32 where "TSS_ESP0 = 4"
definition TSS_SS0 :: u32 where "TSS_SS0 = 8"

record kernelstate = keystate +
  gdt_real :: "u8 list list"
  gdtr :: "u8 list list"
  task_register :: u16
  tss_at :: u32
  blank_bin_at :: u32
  ps2_init_at :: u32
  command0_at :: u32
  command1_at :: u32
  print_buff_at :: u32

definition gdt_load :: "'a kernelstate_scheme \<Rightarrow> 'a kernelstate_scheme" where
  "gdt_load s = s\<lparr>gdtr := gdt_real s\<rparr>"

definition tss_load :: "u16 \<Rightarrow> 'a kernelstate_scheme \<Rightarrow> 'a kernelstate_scheme" where
  "tss_load seg s = s\<lparr>task_register := seg\<rparr>"

definition enable_paging :: "'a pstate_scheme \<Rightarrow> 'a pstate_scheme" where
  "enable_paging s = s\<lparr>paging_enabled := True\<rparr>"

definition kernel_gdt :: "u32 \<Rightarrow> gdt_structured list" where
  "kernel_gdt tss =
     [\<lparr>base = 0x00, limit = 0x00, type = 0x00\<rparr>,
      \<lparr>base = 0x00, limit = 0xFFFFFFFF, type = 0x9a\<rparr>,
      \<lparr>base = 0x00, limit = 0xFFFFFFFF, type = 0x92\<rparr>,
      \<lparr>base = 0x00, limit = 0xFFFFFFFF, type = 0xf8\<rparr>,
      \<lparr>base = 0x00, limit = 0xFFFFFFFF, type = 0xf2\<rparr>,
      \<lparr>base = tss, limit = tss_sizeof, type = 0xe9\<rparr>]"

text \<open>\<^verbatim>\<open>panic\<close> prints and loops for ever.\<close>

definition panic :: "u8 list \<Rightarrow> 'a machine_scheme \<Rightarrow> 'b outcome" where
  "panic msg s = (let s1 = print_literal msg 10 s in Inl Halted)"

definition pic_timer_callback :: "'a machine_scheme \<Rightarrow> 'a machine_scheme" where
  "pic_timer_callback s = print_literal (lit ''Timer activated'' @ [10]) 15 s"

section \<open>The code at the program's addresses\<close>

definition kernel_callbacks :: "'a kernelstate_scheme callbacks" where
  "kernel_callbacks a s =
     (if a = ps2_handler_at s then ps2_keyboard_handle_interrupt s else Inl Undefined)"

definition kernel_commands :: "'a kernelstate_scheme commands" where
  "kernel_commands a frame s =
     (if a = command0_at s then isr80h_command0_sum frame s
      else if a = command1_at s then isr80h_command1_print (print_buff_at s) frame s
      else Inl Undefined)"

definition kernel_init_functions :: "'a kernelstate_scheme init_functions" where
  "kernel_init_functions a s = (if a = ps2_init_at s then ps2_keyboard_init s else Inl Undefined)"

section \<open>kernel_main\<close>

text \<open>
  In the order of the code. The result is the register block that \<^verbatim>\<open>task_return\<close> loads, with the state
  in which the first task starts.
\<close>

definition kernel_main :: "'a kernelstate_scheme \<Rightarrow> (u32 \<times> 'a kernelstate_scheme) outcome" where
  "kernel_main s =
     (let s1 = terminal_initialize s;
          s2 = s1\<lparr>gdt_real := replicate GUAVAOS_TOTAL_GDT_SEGMENTS (replicate 8 0)\<rparr>
      in bnd (gdt_structured_to_gdt (gdt_real s2) (kernel_gdt (tss_at s2)) GUAVAOS_TOTAL_GDT_SEGMENTS) (\<lambda>g.
         bnd (kheap_init (gdt_load (s2\<lparr>gdt_real := g\<rparr>))) (\<lambda>s3.
         bnd (fs_init s3) (\<lambda>s4.
         bnd (disk_search_and_init fat16_objects s4) (\<lambda>s5.
         bnd (idt_init s5) (\<lambda>s6.
           let s7 = s6\<lparr>mem := memset (tss_at s6) 0 tss_sizeof (mem s6)\<rparr>;
               s8 = st32 (tss_at s7 + TSS_SS0) KERNEL_DATA_SELECTOR (st32 (tss_at s7 + TSS_ESP0) 0x600000 s7);
               s9 = tss_load 0x28 s8
           in bnd (paging_new_4gb (ucast (PAGING_IS_WRITABLE OR PAGING_IS_PRESENT OR PAGING_ACCESS_FROM_ALL)) s9)
                (\<lambda>(chunk, s10).
              let s11 = s10\<lparr>kernel_chunk := chunk\<rparr>;
                  s12 = enable_paging (paging_switch (kernel_chunk s11) s11)
              in bnd (isr80h_register_commands (command0_at s12) (command1_at s12) s12) (\<lambda>s13.
                 bnd (keyboard_init kernel_init_functions s13) (\<lambda>s14.
                 bnd (process_load_switch fat16_objects (blank_bin_at s14) 0 s14) (\<lambda>(res, process, s15).
                   if res \<noteq> GUAVAOS_ALL_OK then panic (lit ''failed to load blank.bin'' @ [10]) s15
                   else task_run_first_ever_task s15))))))))))"

end
