(* ===== verification/SysCalls.thy ===== *)
theory SysCalls
  imports Kernel TaskProps
begin

text \<open>
  Properties of the interrupt side of the kernel (\<^verbatim>\<open>src/idt/idt.c\<close>, \<^verbatim>\<open>src/isr80h\<close>): the descriptor table the
  processor reads after \<^verbatim>\<open>idt_init\<close>, the command table, and the sum command from the interrupt frame to
  the result, through the task's saved registers and its page tables.
\<close>

section \<open>The descriptor table\<close>

text \<open>The address a gate jumps to, as the processor puts it together.\<close>

definition gate_target :: "idt_desc \<Rightarrow> u32" where
  "gate_target d = ucast (offset_1 d) OR push_bit 16 (ucast (offset_2 d))"

definition gate :: "u32 \<Rightarrow> idt_desc" where
  "gate address = \<lparr>offset_1 = ucast (address AND 0x0000ffff), selector = KERNEL_CODE_SELECTOR, zero_byte = 0x00,
     type_attr = 0xEE, offset_2 = ucast (drop_bit 16 address)\<rparr>"

lemma gate_target_gate [simp]: "gate_target (gate a) = a"
proof (rule bit_word_eqI)
  fix n
  assume "n < LENGTH(32)"
  then consider "n < 16" | "16 \<le> n" "n < 32" by (simp, linarith)
  moreover have F: "0x0000ffff = (mask 16 :: u32)" by (simp add: mask_eq_exp_minus_1)
  ultimately show "bit (gate_target (gate a)) n = bit a n"
    unfolding gate_target_def gate_def F by cases (auto simp: bit_simps simp del: mask_numeral)
qed

lemma idt_set_gate:
  "0 \<le> i \<Longrightarrow> i < int (length (idt_descriptors s)) \<Longrightarrow>
     idt_set i a s = Inr (s\<lparr>idt_descriptors := (idt_descriptors s)[nat i := gate a]\<rparr>)"
  by (simp add: idt_set_def arr_set_def gate_def)

lemma idt_fill:
  assumes "length (interrupt_pointer_table s) = 512" "length (idt_descriptors s) = 512"
  shows "for_each (\<lambda>i s. bnd (arr_get (interrupt_pointer_table s) (int i)) (\<lambda>a. idt_set (int i) a s))
    [0..<512] s = Inr (s\<lparr>idt_descriptors := map gate (interrupt_pointer_table s)\<rparr>)"
proof -
  define P where "P = (\<lambda>(i :: nat) s'. \<exists>ds. s' = s\<lparr>idt_descriptors := ds\<rparr> \<and> length ds = 512
    \<and> (\<forall>j < i. ds ! j = gate (interrupt_pointer_table s ! j)))"
  have "\<exists>s'. for_each (\<lambda>i s. bnd (arr_get (interrupt_pointer_table s) (int i)) (\<lambda>a. idt_set (int i) a s))
      [0..<512] s = Inr s' \<and> P 512 s'"
  proof (rule for_each_upt)
    show "P 0 s" using assms(2) by (auto simp: P_def intro!: exI [of _ "idt_descriptors s"])
  next
    fix i s'
    assume i: "i < (512 :: nat)" and "P i s'"
    then obtain ds where ds: "s' = s\<lparr>idt_descriptors := ds\<rparr>" "length ds = 512"
      "\<forall>j < i. ds ! j = gate (interrupt_pointer_table s ! j)" by (auto simp: P_def)
    have "arr_get (interrupt_pointer_table s') (int i) = Inr (interrupt_pointer_table s ! i)"
      using i assms(1) by (simp add: ds(1))
    moreover have "idt_set (int i) a s' = Inr (s\<lparr>idt_descriptors := ds[i := gate a]\<rparr>)" for a
      using i ds(2) by (simp add: idt_set_gate ds(1))
    moreover have "P (Suc i) (s\<lparr>idt_descriptors := ds[i := gate (interrupt_pointer_table s ! i)]\<rparr>)"
      using i ds(2,3) by (auto simp: P_def nth_list_update less_Suc_eq)
    ultimately show "\<exists>s''. bnd (arr_get (interrupt_pointer_table s') (int i)) (\<lambda>a. idt_set (int i) a s') = Inr s''
        \<and> P (Suc i) s''" by simp
  qed
  then obtain ds where "for_each (\<lambda>i s. bnd (arr_get (interrupt_pointer_table s) (int i)) (\<lambda>a. idt_set (int i) a s))
      [0..<512] s = Inr (s\<lparr>idt_descriptors := ds\<rparr>)" "length ds = 512"
    "\<forall>j < 512. ds ! j = gate (interrupt_pointer_table s ! j)" by (auto simp: P_def)
  moreover from this have "ds = map gate (interrupt_pointer_table s)"
    using assms(1) by (intro nth_equalityI) simp_all
  ultimately show ?thesis by simp
qed

lemma idt_init_ok:
  assumes "length (interrupt_pointer_table s) = 512"
  shows "idt_init s = Inr (s\<lparr>idt_descriptors := (map gate (interrupt_pointer_table s))
      [0 := gate (idt_zero_at s), 0x80 := gate (isr80h_wrapper_at s)],
    idtr_descriptor := \<lparr>idtr_limit = 4095, idtr_base = idt_descriptors_at s\<rparr>,
    idtr := \<lparr>idtr_limit = 4095, idtr_base = idt_descriptors_at s\<rparr>\<rparr>)"
proof -
  define s2 where "s2 = s\<lparr>idt_descriptors := replicate 512 zero_desc,
    idtr_descriptor := \<lparr>idtr_limit = 4095, idtr_base = idt_descriptors_at s\<rparr>\<rparr>"
  have "length (interrupt_pointer_table s2) = 512" "length (idt_descriptors s2) = 512"
    using assms by (simp_all add: s2_def)
  note fill = idt_fill [OF this]
  have "idt_init s = bnd (Inr (s2\<lparr>idt_descriptors := map gate (interrupt_pointer_table s2)\<rparr>)) (\<lambda>s3.
         bnd (idt_set 0 (idt_zero_at s3) s3) (\<lambda>s4. bnd (idt_set 0x80 (isr80h_wrapper_at s4) s4) (\<lambda>s5. Inr (idt_load s5))))"
    unfolding idt_init_def Let_def GUAVAOS_TOTAL_INTERRUPTS_def fill [symmetric] by (simp add: s2_def)
  also have "\<dots> = Inr (idt_load (s2\<lparr>idt_descriptors := (map gate (interrupt_pointer_table s))
      [0 := gate (idt_zero_at s), 0x80 := gate (isr80h_wrapper_at s)]\<rparr>))"
  proof -
    have a: "idt_set 0 x (s2\<lparr>idt_descriptors := ds\<rparr>) = Inr (s2\<lparr>idt_descriptors := ds[0 := gate x]\<rparr>)"
      "idt_set 0x80 x (s2\<lparr>idt_descriptors := ds\<rparr>) = Inr (s2\<lparr>idt_descriptors := ds[0x80 := gate x]\<rparr>)"
      if "length ds = 512" for x ds
      using that idt_set_gate [of 0 "s2\<lparr>idt_descriptors := ds\<rparr>" x] idt_set_gate [of 128 "s2\<lparr>idt_descriptors := ds\<rparr>" x]
      by simp_all
    have "length (map gate (interrupt_pointer_table s)) = 512" using assms by simp
    note a(1) [OF this] a(2) [of "(map gate (interrupt_pointer_table s))[0 := gate (idt_zero_at s)]"]
    with assms show ?thesis unfolding bnd.simps by (simp add: s2_def)
  qed
  also have "\<dots> = Inr (s\<lparr>idt_descriptors := (map gate (interrupt_pointer_table s))
      [0 := gate (idt_zero_at s), 0x80 := gate (isr80h_wrapper_at s)],
    idtr_descriptor := \<lparr>idtr_limit = 4095, idtr_base = idt_descriptors_at s\<rparr>,
    idtr := \<lparr>idtr_limit = 4095, idtr_base = idt_descriptors_at s\<rparr>\<rparr>)"
    by (simp add: s2_def idt_load_def)
  finally show ?thesis .
qed

section \<open>Entering and leaving the kernel\<close>

lemma kernel_page_eq: "kernel_page s = s\<lparr>data_segment := 0x10, cr3 := load32 (mem s) (kernel_chunk s), current_directory := load32 (mem s) (kernel_chunk s)\<rparr>"
  by (simp add: kernel_page_def kernel_registers_def paging_switch_def Let_def)

lemma task_page_eq:
  "snd (task_page s) = s\<lparr>data_segment := 0x23, cr3 := load32 (mem s) (get s (current_task s) PAGE_DIRECTORY),
     current_directory := load32 (mem s) (get s (current_task s) PAGE_DIRECTORY)\<rparr>"
  by (cases s) (simp add: task_page_def user_registers_def task_switch_def paging_switch_def Let_def get_def)

lemma task_save_state_mem: "\<exists>m. task_save_state t fr s = s\<lparr>mem := m\<rparr>"
  by (simp add: task_save_state_def put_def) blast

text \<open>
  The handlers' entry loads the kernel's page and saves the registers of the task that was interrupted: only that
  task's page changes, and every task sees what it saw.
\<close>

lemma trap_entry:
  assumes inv: "tasks_inv s ts" and cur: "current_task s = t" "t \<noteq> 0"
  obtains s2 m where "task_current_save_state fr (kernel_page s) = Inr s2" "s2 = (kernel_page s)\<lparr>mem := m\<rparr>" "t \<in> set ts"
    "tasks_inv s2 ts" "get s2 t R_ESP = f_esp fr" "get s2 t R_IP = f_ip fr" "get s2 t T_PROCESS = get s t T_PROCESS"
    "\<And>a. \<not> in_page t a \<Longrightarrow> mem s2 a = mem s a"
    "\<And>w. mmu_walk (mem s2) (load32 (mem s2) (get s2 t PAGE_DIRECTORY)) w = mmu_walk (mem s) (load32 (mem s) (get s t PAGE_DIRECTORY)) w"
    "\<And>u. u \<in> set ts \<Longrightarrow> task_blocks s2 u = task_blocks s u"
    "\<And>u. u \<in> set ts \<Longrightarrow> get s2 u PAGE_DIRECTORY = get s u PAGE_DIRECTORY"
    "\<And>u v. u \<in> set ts \<Longrightarrow> page_aligned v \<Longrightarrow>
      space_view (mem s2) (get s u PAGE_DIRECTORY) v = space_view (mem s) (get s u PAGE_DIRECTORY) v"
proof -
  have t: "t \<in> set ts" using queue_current [OF tasks_inv_queue [OF inv]] cur by blast
  define s1 where "s1 = kernel_page s"
  define s2 where "s2 = task_save_state t fr s1"
  have m1: "mem s1 = mem s" and g1: "get s1 u f = get s u f" for u f by (simp_all add: s1_def get_def)
  have inv1: "tasks_inv s1 ts" by (rule tasks_inv_switch(1) [OF inv]) (simp_all add: s1_def)
  note tk = tasks_inv_task [OF inv1, unfolded g1 m1] and hi = tasks_inv_heap [OF inv1]
  have al: "page_aligned t" by (rule tk(3) [OF t])
  have inv2: "tasks_inv s2 ts" unfolding s2_def by (rule tasks_inv_save(1) [OF inv1 t])
  have out: "mem s2 a = mem s1 a" if "\<not> in_page t a" for a
    unfolding s2_def by (rule task_save_state_frame [OF al that])
  have pd: "get s2 u PAGE_DIRECTORY = get s u PAGE_DIRECTORY" if "u \<in> set ts" for u
    using task_save_state_gets(13) [OF al, of fr s1] task_save_state_other [OF al tk(3) [OF that], of PAGE_DIRECTORY fr s1]
    by (cases "u = t") (simp_all add: s2_def task_fields g1)
  have sp: "space_blocks (mem s2) (get s u PAGE_DIRECTORY) = space_blocks (mem s) (get s u PAGE_DIRECTORY)"
    "page_aligned v \<Longrightarrow> space_view (mem s2) (get s u PAGE_DIRECTORY) v = space_view (mem s) (get s u PAGE_DIRECTORY) v"
    if u: "u \<in> set ts" for u v
    using space_other_page(1,2) [OF hi tasks_inv_task(1) [OF inv1 u, unfolded g1] _ al out] tk(5) [OF u t] unfolding m1 by blast+
  have dir: "page_aligned (load32 (mem s') (get s' t PAGE_DIRECTORY))" "space_present (mem s') (get s' t PAGE_DIRECTORY)"
    if "tasks_inv s' ts" for s'
    using space_ok_pages(1) [OF tasks_inv_heap [OF that] tasks_inv_task(1) [OF that t]] tasks_inv_task(4) [OF that t]
    by (simp_all add: space_blocks_def)
  have view: "space_view (mem s2) (get s2 t PAGE_DIRECTORY) v = space_view (mem s) (get s t PAGE_DIRECTORY) v" if "page_aligned v" for v
    using sp(2) [OF t that] pd [OF t] by simp
  have walk: "mmu_walk (mem s2) (load32 (mem s2) (get s2 t PAGE_DIRECTORY)) w = mmu_walk (mem s) (load32 (mem s) (get s t PAGE_DIRECTORY)) w" for w
    unfolding mmu_walk_view [OF dir [OF inv]] mmu_walk_view [OF dir [OF inv2]] view [OF page_base_aligned] ..
  have run: "task_current_save_state fr (kernel_page s) = Inr s2"
    using cur by (simp add: task_current_save_state_def task_current_def s2_def s1_def)
  obtain m where m: "s2 = (kernel_page s)\<lparr>mem := m\<rparr>" using task_save_state_mem unfolding s2_def s1_def by blast
  show thesis
  proof (rule that [OF run m t inv2])
    show "get s2 t R_ESP = f_esp fr" "get s2 t R_IP = f_ip fr" "get s2 t T_PROCESS = get s t T_PROCESS"
      using task_save_state_gets [OF al, of fr s1] by (simp_all add: s2_def g1)
    show "mem s2 a = mem s a" if "\<not> in_page t a" for a using out [OF that] m1 by simp
    show "task_blocks s2 u = task_blocks s u" if "u \<in> set ts" for u by (simp add: task_blocks_def pd [OF that] sp(1) [OF that])
  qed (fact walk pd sp(2))+
qed

lemma trap_exit:
  assumes "tasks_inv s ts" and "current_task s = t"
  defines "s' \<equiv> snd (task_page s)"
  shows "tasks_inv s' ts" "current_task s' = t" "data_segment s' = 0x23" "cr3 s' = load32 (mem s') (get s' t PAGE_DIRECTORY)"
    "mem s' = mem s" "kernel_heap s' = kernel_heap s"
proof -
  show "tasks_inv s' ts" by (rule tasks_inv_switch(1) [OF assms(1)]) (simp_all add: s'_def)
qed (use assms(2) in \<open>simp_all add: s'_def task_page_eq get_def\<close>)

section \<open>The sum command\<close>

definition user_word :: "'a tstate_scheme \<Rightarrow> u32 \<Rightarrow> u32 \<Rightarrow> u32 \<Rightarrow> bool" where
  "user_word s t v a \<longleftrightarrow> (\<forall>j < 4. mmu_walk (mem s) (load32 (mem s) (get s t PAGE_DIRECTORY)) (v + word_of_nat j)
     = Some (a + word_of_nat j))"

lemma less4: "(\<forall>j < 4. P j) \<longleftrightarrow> P 0 \<and> P 1 \<and> P 2 \<and> P (3 :: nat)"
proof -
  have "j < 4 \<longleftrightarrow> j = 0 \<or> j = 1 \<or> j = 2 \<or> j = 3" for j :: nat by linarith
  then have "(\<forall>j < 4. P j) \<longleftrightarrow> (\<forall>j. j = 0 \<or> j = 1 \<or> j = 2 \<or> j = 3 \<longrightarrow> P j)" by (simp only:)
  then show ?thesis by auto
qed

lemma stack_item_word:
  assumes "paging_enabled s" "user_word s t (get s t R_ESP + 4 * word_of_int index) a"
  shows "task_get_stack_item t index s = Inr (load32 (mem s) a, kernel_page (snd (task_page_task t s)))"
  using assms unfolding user_word_def less4
  by (simp add: task_get_stack_item_def task_page_task_def user_registers_def
    paging_switch_def vload32_def vload8_def virt_to_phys_def get_def load32_def Let_def)

lemma page_task_state [simp]:
  "mem (snd (task_page_task t s)) = mem s" "kernel_heap (snd (task_page_task t s)) = kernel_heap s"
  "task_head (snd (task_page_task t s)) = task_head s" "task_tail (snd (task_page_task t s)) = task_tail s"
  "current_task (snd (task_page_task t s)) = current_task s" "paging_enabled (snd (task_page_task t s)) = paging_enabled s"
  "tstate.more (snd (task_page_task t s)) = tstate.more s"
  by (simp_all add: task_page_task_def user_registers_def paging_switch_def Let_def)

lemma kernel_page_more [simp]:
  "tstate.more (kernel_page s) = tstate.more s" "paging_enabled (kernel_page s) = paging_enabled s"
  by (simp_all add: kernel_page_def kernel_registers_def paging_switch_def Let_def)

lemma user_word_same:
  assumes "mem s' = mem s"
  shows "user_word s' t v a = user_word s t v a" and "get s' t f = get s t f"
  by (simp_all add: user_word_def get_def assms)

definition word_sum :: "u32 \<Rightarrow> u32 \<Rightarrow> u32 outcome" where
  "word_sum v w = bnd (c_int (sint v + sint w)) (\<lambda>x. Inr (word_of_int x))"

lemma sum_command:
  assumes "paging_enabled s" "user_word s (current_task s) (get s (current_task s) R_ESP) a0"
    and "user_word s (current_task s) (get s (current_task s) R_ESP + 4) a1"
  shows "isr80h_command0_sum fr s = bnd (word_sum (load32 (mem s) a0) (load32 (mem s) a1))
    (\<lambda>v. Inr (v, kernel_page (snd (task_page_task (current_task s) (kernel_page (snd (task_page_task (current_task s) s)))))))"
proof -
  define c where "c = current_task s"
  define s1 where "s1 = kernel_page (snd (task_page_task c s))"
  have s1: "mem s1 = mem s" "current_task s1 = c" "paging_enabled s1" using assms(1) by (simp_all add: s1_def c_def)
  have r1: "task_get_stack_item c 1 s = Inr (load32 (mem s) a1, s1)"
    unfolding s1_def by (rule stack_item_word [OF assms(1)]) (use assms(3) in \<open>simp add: c_def\<close>)
  have "task_get_stack_item c 0 s1 = Inr (load32 (mem s1) a0, kernel_page (snd (task_page_task c s1)))"
    by (rule stack_item_word [OF s1(3)]) (use assms(2) in \<open>simp add: user_word_same [OF s1(1)] c_def\<close>)
  with r1 s1 show ?thesis
    by (simp add: isr80h_command0_sum_def word_sum_def bnd_assoc task_current_def c_def [symmetric] s1_def [symmetric])
qed


section \<open>Properties: idt.c, isr80h\<close>

text \<open>After \<open>idt_init\<close> the processor's table register describes 512 gates of 8 bytes, and every gate is a
  32-bit interrupt gate open to user code in the kernel's code segment whose target is the stub of its
  number, except gate 0 (\<open>idt_zero\<close>) and gate 0x80 (\<open>isr80h_wrapper\<close>).\<close>

lemma idt_init_gates:
  assumes "length (interrupt_pointer_table s) = 512"
  shows "\<exists>s'. idt_init s = Inr s' \<and> idtr s' = \<lparr>idtr_limit = 4095, idtr_base = idt_descriptors_at s\<rparr>
    \<and> length (idt_descriptors s') = 512
    \<and> (\<forall>i < 512. let d = idt_descriptors s' ! i in
         gate_target d = (if i = 0 then idt_zero_at s else if i = 0x80 then isr80h_wrapper_at s
                          else interrupt_pointer_table s ! i)
         \<and> selector d = KERNEL_CODE_SELECTOR \<and> type_attr d = 0xEE)"
proof -
  have g: "selector (gate a) = KERNEL_CODE_SELECTOR" "type_attr (gate a) = 0xEE" for a by (simp_all add: gate_def)
  define ds where "ds = (map gate (interrupt_pointer_table s))[0 := gate (idt_zero_at s), 0x80 := gate (isr80h_wrapper_at s)]"
  have len: "length ds = 512" using assms by (simp add: ds_def)
  have nth: "ds ! i = gate (if i = 0 then idt_zero_at s else if i = 0x80 then isr80h_wrapper_at s
                          else interrupt_pointer_table s ! i)" if "i < 512" for i
    using that assms by (simp add: ds_def nth_list_update)
  show ?thesis
    by (rule exI, rule conjI, rule idt_init_ok [OF assms, folded ds_def]) (simp add: len nth g Let_def)
qed

text \<open>The command table. Registering a command in a free slot makes exactly that number run it and leaves
  the other numbers alone; registering a taken number stops the kernel; a number that is free or
  outside 0 to 1023 answers 0 without running anything.\<close>

lemma command_table_dispatch:
  fixes s :: "'a idtstate_scheme"
  assumes "length (isr80h_commands s) = GUAVAOS_MAX_ISR80H_COMMANDS" "0 \<le> n" "n < 1024" "a \<noteq> 0"
  shows "(if isr80h_commands s ! nat n = 0
    then isr80h_handle_command cmds n f s = Inr (0, s)
      \<and> (\<exists>s'. isr80h_register_command n a s = Inr s' \<and> isr80h_handle_command cmds n f s' = cmds a f s'
          \<and> (\<forall>k. k \<noteq> n \<longrightarrow> arr_get (isr80h_commands s') k = arr_get (isr80h_commands s) k)
          \<and> isr80h_register_command n b s' = Inl Halted)
    else isr80h_register_command n a s = Inl Halted)
    \<and> (\<forall>k. k < 0 \<or> 1024 \<le> k \<longrightarrow> isr80h_handle_command cmds k f s = Inr (0, s))"
  using assms
  by (auto simp: isr80h_handle_command_def isr80h_register_command_def GUAVAOS_MAX_ISR80H_COMMANDS_def
      arr_get_def arr_set_def nth_list_update nat_eq_iff)

text \<open>C9: The sum system call. A task of a well-formed system that traps with command 0 and two mapped words
  on its stack gets their signed sum: its registers are saved, the two words are read at the saved
  stack pointer through the task's page tables, and control goes back with the task's directory and
  data segment loaded and the run queue well formed. A sum outside \<open>int\<close> is undefined.\<close>

theorem system_call_sum:
  fixes s :: "'a kernelstate_scheme"
  assumes "tasks_inv s ts" "current_task s \<noteq> 0" "paging_enabled s"
    and "isr80h_commands s = command0_at s # cs" "command0_at s \<noteq> 0"
    and "user_word s (current_task s) (f_esp fr) a0" "user_word s (current_task s) (f_esp fr + 4) a1"
    and "\<forall>j < 4. \<not> in_page (current_task s) (a0 + word_of_nat j) \<and> \<not> in_page (current_task s) (a1 + word_of_nat j)"
  shows "let v = sint (load32 (mem s) a0) + sint (load32 (mem s) a1) in
    if - (2 ^ 31) \<le> v \<and> v < 2 ^ 31
    then \<exists>s'. isr80h_handler kernel_commands 0 fr s = Inr (word_of_int v, s') \<and> tasks_inv s' ts
      \<and> current_task s' = current_task s \<and> get s' (current_task s) R_IP = f_ip fr
      \<and> data_segment s' = 0x23 \<and> cr3 s' = load32 (mem s') (get s' (current_task s) PAGE_DIRECTORY)
    else isr80h_handler kernel_commands 0 fr s = Inl Undefined"
proof -
  define c where "c = current_task s"
  have c: "current_task s = c" "c \<noteq> 0" using assms(2) by (simp_all add: c_def)
  obtain s2 m where s2: "task_current_save_state fr (kernel_page s) = Inr s2" "s2 = (kernel_page s)\<lparr>mem := m\<rparr>" "tasks_inv s2 ts"
    "get s2 c R_ESP = f_esp fr" "get s2 c R_IP = f_ip fr" "\<And>a. \<not> in_page c a \<Longrightarrow> mem s2 a = mem s a"
    "\<And>w. mmu_walk (mem s2) (load32 (mem s2) (get s2 c PAGE_DIRECTORY)) w = mmu_walk (mem s) (load32 (mem s) (get s c PAGE_DIRECTORY)) w"
    by (rule trap_entry [OF assms(1) c, where fr = fr], rule that)
  have f2: "current_task s2 = c" "paging_enabled s2" "isr80h_commands s2 = command0_at s2 # cs" "command0_at s2 \<noteq> 0"
    using assms(3-5) by (simp_all add: s2(2) kernel_page_eq c_def)
  have uw: "user_word s2 c (f_esp fr) a0" "user_word s2 c (f_esp fr + 4) a1" using assms(6,7) by (simp_all add: user_word_def s2(7) c(1))
  have words: "load32 (mem s2) a0 = load32 (mem s) a0" "load32 (mem s2) a1 = load32 (mem s) a1"
    using assms(8) unfolding less4 c_def [symmetric] by (auto intro!: load32_cong s2(6) simp: add.commute)
  define s3 where "s3 = kernel_page (snd (task_page_task c (kernel_page (snd (task_page_task c s2)))))"
  have cmd: "isr80h_handle_command kernel_commands 0 fr s2 = bnd (word_sum (load32 (mem s) a0) (load32 (mem s) a1)) (\<lambda>v. Inr (v, s3))"
    using sum_command [OF f2(2), of a0 a1 fr] uw f2(3,4)
    by (simp add: isr80h_handle_command_def GUAVAOS_MAX_ISR80H_COMMANDS_def arr_get_def kernel_commands_def f2(1) s2(4) words s3_def)
  have inv3: "tasks_inv s3 ts" by (rule tasks_inv_switch(1) [OF s2(3)]) (simp_all add: s3_def f2)
  have cur3: "current_task s3 = c" and m3: "mem s3 = mem s2" by (simp_all add: s3_def f2)
  note e = trap_exit [OF inv3 cur3]
  have run: "isr80h_handler kernel_commands 0 fr s = bnd (word_sum (load32 (mem s) a0) (load32 (mem s) a1)) (\<lambda>v. Inr (v, snd (task_page s3)))"
    by (simp add: isr80h_handler_def Let_def s2(1) cmd bnd_assoc)
  have "get (snd (task_page s3)) c R_IP = f_ip fr" using s2(5) by (simp add: get_def e(5) m3)
  then show ?thesis
    using e(1-4) unfolding run c_def [symmetric] by (auto simp: word_sum_def c_int_def Let_def)
qed


text \<open>A kernel around a given run queue: nothing registered but the sum command, at address \<^verbatim>\<open>0x100\<close>.\<close>

definition kernel_around :: "tstate \<Rightarrow> kernelstate" where
  "kernel_around s = tstate.extend s
     \<lparr>ports = [], device = (\<lambda>_ _. 0), disk_at = 0x9000, disk_type = 0, sector_size = 512, disk_id = 0,
      disk_filesystem = 0, fs_private = 0, fat16_fs = 0x9100, filesystems = replicate 12 0,
      file_descriptors = replicate 512 0, current_process = 0, processes = replicate 12 0, literal_r = 0x9200,
      idt_descriptors = [], idtr_descriptor = \<lparr>idtr_limit = 0, idtr_base = 0\<rparr>, interrupt_callbacks = [],
      isr80h_commands = 0x100 # replicate 1023 0, idtr = \<lparr>idtr_limit = 0, idtr_base = 0\<rparr>, idt_descriptors_at = 0,
      interrupt_pointer_table = [], idt_zero_at = 0, isr80h_wrapper_at = 0, keyboard_list_head = 0,
      keyboard_list_last = 0, ps2_keyboard = 0, ps2_handler_at = 0, gdt_real = [], gdtr = [], task_register = 0,
      tss_at = 0, blank_bin_at = 0, ps2_init_at = 0, command0_at = 0x100, command1_at = 0x104, print_buff_at = 0\<rparr>"

lemma kernel_around_fields [simp]:
  "mem (kernel_around s) = mem s" "kernel_heap (kernel_around s) = kernel_heap s"
  "task_head (kernel_around s) = task_head s" "task_tail (kernel_around s) = task_tail s"
  "current_task (kernel_around s) = current_task s" "paging_enabled (kernel_around s) = paging_enabled s"
  "isr80h_commands (kernel_around s) = 0x100 # replicate 1023 0" "command0_at (kernel_around s) = 0x100"
  by (cases s; simp add: kernel_around_def tstate.defs)+

lemma kernel_around_inv: "tasks_inv (kernel_around s) ts = tasks_inv s ts"
proof -
  have "task_blocks (kernel_around s) = task_blocks s" by (rule ext) (simp add: task_blocks_def get_def)
  then show ?thesis by (simp add: tasks_inv_def kheap_view_defs queue_def all_blocks_def get_def)
qed

text \<open>Three tasks and any contents of page 0, which is no heap block.\<close>

lemma low_page_sample:
  fixes m0 :: memory
  obtains s a b c where "with_tasks s [a, b, c]" "3000 \<le> kheap_vacant s" "\<And>x. unat x < 4096 \<Longrightarrow> mem s x = m0 x"
proof -
  obtain s a b c where w: "with_tasks s [a, b, c]" "3000 \<le> kheap_vacant s" by (rule three_tasks)
  note inv = with_tasksD(1) [OF w(1)]
  define s' where "s' = s\<lparr>mem := \<lambda>x. if unat x < 4096 then m0 x else mem s x\<rparr>"
  have gl: "kheap_inv s'" "task_head s' = task_head s" "task_tail s' = task_tail s" "current_task s' = current_task s"
    using tasks_inv_heap [OF inv] by (simp_all add: s'_def)
  have live: "\<forall>p. (p, 1) \<in> kheap_allocs s \<longrightarrow> (p, 1) \<in> kheap_allocs s'" by (simp add: s'_def)
  have same: "\<forall>p x. p \<in> set (all_blocks s [a, b, c]) \<longrightarrow> in_page p x \<longrightarrow> mem s' x = mem s x"
  proof (intro allI impI)
    fix p x
    assume "p \<in> set (all_blocks s [a, b, c])" "in_page p x"
    moreover from this have "(p, 1) \<in> kheap_allocs s" using inv by (simp add: tasks_inv_def)
    ultimately have "\<not> unat x < 4096" using page_zero_free [OF tasks_inv_heap [OF inv]] by blast
    then show "mem s' x = mem s x" by (simp add: s'_def)
  qed
  note g = tasks_inv_grow [OF inv gl live same]
  have dir: "get s' u PAGE_DIRECTORY = get s u PAGE_DIRECTORY" "get s' u R_ESP = get s u R_ESP" if "u \<in> set [a, b, c]" for u
    by (rule g(2) [OF that]; simp add: task_fields)+
  have o: "heap_area s' = heap_area s" "kheap_allocs s' = kheap_allocs s" "kernel_chunk s' = kernel_chunk s" "paging_enabled s' = paging_enabled s"
    by (simp_all add: s'_def)
  have view: "space_view (mem s') (get s' u PAGE_DIRECTORY) v = v OR 5" if "u \<in> set [a, b, c]" "page_aligned v" for u v
    using g(3) [OF that] dir(1) [OF that(1)] w(1) that unfolding with_tasks_def by metis
  have esp: "get s' u R_ESP = 0x3ff000" if "u \<in> set [a, b, c]" for u using dir(2) [OF that] w(1) that unfolding with_tasks_def by metis
  have "\<forall>u \<in> set [a, b, c]. \<forall>v. page_aligned v \<longrightarrow> space_view (mem s') (get s' u PAGE_DIRECTORY) v = v OR 5"
    "\<forall>u \<in> set [a, b, c]. get s' u R_ESP = 0x3ff000" using view esp by blast+
  then have "with_tasks s' [a, b, c]"
    using w(1) g(1) unfolding with_tasks_def o gl(4) g(4,5) by (elim conjE) (intro conjI)
  moreover have "mem s' x = m0 x" if "unat x < 4096" for x using that by (simp add: s'_def)
  moreover have "3000 \<le> kheap_vacant s'" using w(2) by (simp add: s'_def)
  ultimately show thesis using that [of s'] by blast
qed

text \<open>Two words at the bottom of the current task's stack.\<close>

lemma stack_sample:
  obtains s :: tstate and ts where "tasks_inv s ts" "current_task s \<noteq> 0" "paging_enabled s"
    "load32 (mem s) 0x10 = 2" "load32 (mem s) 0x14 = 40"
    "\<forall>v. mmu_walk (mem s) (load32 (mem s) (get s (current_task s) PAGE_DIRECTORY)) v = Some v"
    "\<forall>a. unat a < 4096 \<longrightarrow> \<not> in_page (current_task s) a"
proof -
  define m where "m = store32 (store32 (\<lambda>_. 0) 0x10 2) 0x14 40"
  obtain s a b c where w: "with_tasks s [a, b, c]" "3000 \<le> kheap_vacant s" "\<And>x. unat x < 4096 \<Longrightarrow> mem s x = m x"
    by (rule low_page_sample [of m], rule that)
  note d = with_tasksD [OF w(1)]
  have a: "a \<in> set [a, b, c]" and cur: "current_task s = a" using d(5) by simp_all
  note ti = tasks_inv_task [OF d(1) a]
  show thesis
  proof (rule that [OF d(1)])
    show "current_task s \<noteq> 0" "paging_enabled s" using km.allocs_shape [OF tasks_inv_heap [OF d(1)] ti(2)] cur d(4) by auto
    show "load32 (mem s) 0x10 = 2" "load32 (mem s) 0x14 = 40" using w(3) by (simp_all add: load32_def m_def store32_def)
    show "\<forall>v. mmu_walk (mem s) (load32 (mem s) (get s (current_task s) PAGE_DIRECTORY)) v = Some v"
      using with_tasks_walk [OF w(1) a] cur by simp
    show "\<forall>x. unat x < 4096 \<longrightarrow> \<not> in_page (current_task s) x"
      using page_zero_free [OF tasks_inv_heap [OF d(1)] ti(2)] cur by simp
  qed
qed

theorem system_call_sum_witness:
  "\<exists>(s :: kernelstate) fr s'. isr80h_handler kernel_commands 0 fr s = Inr (42, s') \<and> f_esp fr = 0x10
     \<and> load32 (mem s) 0x10 = 2 \<and> load32 (mem s) 0x14 = 40"
proof -
  obtain s :: tstate and ts where s: "tasks_inv s ts" "current_task s \<noteq> 0" "paging_enabled s"
    "load32 (mem s) 0x10 = 2" "load32 (mem s) 0x14 = 40"
    "\<forall>v. mmu_walk (mem s) (load32 (mem s) (get s (current_task s) PAGE_DIRECTORY)) v = Some v"
    "\<forall>a. unat a < 4096 \<longrightarrow> \<not> in_page (current_task s) a"
    by (rule stack_sample)
  let ?k = "kernel_around s"
  let ?fr = "\<lparr>f_edi = 0, f_esi = 0, f_ebp = 0, f_reserved = 0, f_ebx = 0, f_edx = 0, f_ecx = 0, f_eax = 0,
       f_ip = 9, f_cs = 10, f_flags = 11, f_esp = 0x10, f_ss = 13\<rparr>"
  have uw: "user_word ?k (current_task ?k) v v" for v
    using s(6) by (simp add: user_word_def get_def)
  have low: "\<forall>j < 4. \<not> in_page (current_task ?k) (0x10 + word_of_nat j) \<and> \<not> in_page (current_task ?k) (0x14 + word_of_nat j)"
    unfolding less4 using s(7) by simp
  have "- (2 ^ 31) \<le> sint (2 :: u32) + sint (40 :: u32) \<and> sint (2 :: u32) + sint (40 :: u32) < 2 ^ 31" by simp
  with system_call_sum [of ?k ts "replicate 1023 0" ?fr "0x10" "0x14"] s uw [of "0x10"] uw [of "0x14"] low
  obtain s' where "isr80h_handler kernel_commands 0 ?fr ?k = Inr (42, s')"
    by (auto simp: kernel_around_inv Let_def)
  with s(4,5) show ?thesis by (intro exI [of _ ?k] exI [of _ ?fr] exI [of _ s']) simp
qed

end
