(* ===== verification/Boot.thy ===== *)
theory Boot
  imports MountProps SysCalls Kernel
begin

text \<open>
  The start of the kernel, step by step, in the order of \<^verbatim>\<open>kernel_main\<close>: the console is cleared, the segments are encoded,
  the heap, the file system and the disk come up (\<open>boot_disk_ok\<close>), then the gates, the task state segment, the kernel's
  page tables, the system commands and the keyboard (\<open>kernel_tail_ok\<close>). Each step is an explicit update of the state, and
  the mounted volume (\<open>volume_up\<close>) and the bytes of the kernel's image (\<open>image_byte\<close>) survive them all.
\<close>

section \<open>The console\<close>

lemma low_cell:
  assumes "i < 2000"
  shows "unat (0xB8000 + word_of_nat (2 * i) :: u32) = 0xB8000 + 2 * i"
proof -
  have "unat (word_of_nat (0xB8000 + 2 * i) :: u32) = 0xB8000 + 2 * i" by (rule unat_of_nat32) (use assms in simp)
  then show ?thesis by simp
qed

lemma terminal_initialize_ok:
  obtains m where "terminal_initialize s = s\<lparr>terminal_row := 0, terminal_col := 0, video_mem := 0xB8000, mem := m\<rparr>"
    "\<And>a. 0x100000 \<le> unat a \<Longrightarrow> m a = mem s a"
proof -
  define s0 where "s0 = s\<lparr>terminal_row := 0, terminal_col := 0, video_mem := 0xB8000\<rparr>"
  define Q where "Q s' \<longleftrightarrow> (\<exists>m. s' = s0\<lparr>mem := m\<rparr> \<and> (\<forall>a. 0x100000 \<le> unat a \<longrightarrow> m a = mem s a))" for s'
  have put: "Q (terminal_putchar (int x) (int y) 0x20 0 s')" if "x < 80" "y < 25" "Q s'" for x y s'
  proof -
    obtain m where m: "s' = s0\<lparr>mem := m\<rparr>" "\<forall>a. 0x100000 \<le> unat a \<longrightarrow> m a = mem s a" using \<open>Q s'\<close> by (auto simp: Q_def)
    define p :: u32 where "p = 0xB8000 + word_of_nat (2 * (80 * y + x))"
    have i: "80 * y + x < 2000" using that(1,2) by linarith
    then have p: "unat p = 0xB8000 + 2 * (80 * y + x)" using low_cell unfolding p_def by blast
    then have "unat (word_of_nat (unat p + 1) :: u32) = unat p + 1" using i by (intro unat_of_nat32) simp
    then have p1: "unat (p + 1) = unat p + 1" by (simp add: add.commute)
    have n: "a \<noteq> p \<and> a \<noteq> p + 1" if "0x100000 \<le> unat a" for a using that p p1 i by auto
    have q: "video_mem s0 + word_of_int (2 * (int y * VGA_WIDTH + int x)) = p"
      by (simp add: p_def s0_def VGA_WIDTH_def algebra_simps)
    have "terminal_putchar (int x) (int y) 0x20 0 s' = s0\<lparr>mem := store16 m p (terminal_make_char 0x20 0)\<rparr>"
      using q by (simp add: terminal_putchar_def m(1) s0_def)
    moreover have "\<forall>a. 0x100000 \<le> unat a \<longrightarrow> store16 m p (terminal_make_char 0x20 0) a = mem s a"
      using m(2) n by (simp add: store16_other)
    ultimately show ?thesis unfolding Q_def by blast
  qed
  have row: "Q (fold (\<lambda>x. terminal_putchar (int x) (int y) 0x20 0) [0..<nat VGA_WIDTH] s')" if "y < 25" "Q s'" for y s'
    by (rule fold_invariant [where Q = "\<lambda>x. x < 80" and P = Q]) (use that put in \<open>auto simp: VGA_WIDTH_def simp del: upt_rec_numeral upt_Suc\<close>)
  have start: "Q s0" unfolding Q_def s0_def by (intro exI [of _ "mem s"]) (cases s, simp)
  have "Q (terminal_initialize s)"
    unfolding terminal_initialize_def Let_def s0_def [symmetric]
    by (rule fold_invariant [where Q = "\<lambda>y. y < 25" and P = Q])
      (use start row in \<open>auto simp: VGA_HEIGHT_def simp del: upt_rec_numeral upt_Suc\<close>)
  then show thesis using that by (auto simp: Q_def s0_def)
qed

section \<open>The disk\<close>

lemma fs_init_ok:
  fixes s :: "'a filestate_scheme"
  obtains m where "fs_init s = Inr (s\<lparr>file_descriptors := replicate 512 0, filesystems := fat16_fs s # replicate 11 0, mem := m\<rparr>)"
    "\<And>a. 6 \<le> unat (a - (fat16_fs s + 24)) \<Longrightarrow> m a = mem s a"
proof -
  define m where "m = store_bytes (fat16_fs s + 24) (lit ''FAT16'' @ [0]) (mem s)"
  have "replicate 12 (0 :: u32) = 0 # replicate 11 0" by (simp add: numeral_eq_Suc)
  then have "fs_init s = Inr (s\<lparr>file_descriptors := replicate 512 0, filesystems := fat16_fs s # replicate 11 0, mem := m\<rparr>)"
    by (simp add: fs_init_def fs_load_def fs_static_load_def fat16_init_def fs_insert_filesystem_def fs_get_free_filesystem_def
        GUAVAOS_MAX_FILE_DESCRIPTORS_def GUAVAOS_MAX_FILESYSTEMS_def first_zero_replicate m_def)
  moreover have "m a = mem s a" if "6 \<le> unat (a - (fat16_fs s + 24))" for a
    using that unfolding m_def by (subst store_bytes_apply) (simp_all add: lit_def)
  ultimately show thesis by (rule that)
qed

section \<open>A volume that is up\<close>

text \<open>
  The mounted volume as the rest of the kernel keeps it: it lives in heap blocks and fields, so any step that keeps
  the contents of the allocated blocks keeps it.
\<close>

definition volume_up :: "'a filestate_scheme \<Rightarrow> (nat \<Rightarrow> u16 list) \<Rightarrow> (u8 list \<times> u8 list) list \<Rightarrow> bool" where
  "volume_up s img dir \<longleftrightarrow> kheap_inv s \<and> ata_disk (device s) img \<and> sector_size s = 512 \<and> disk_filesystem s = fat16_fs s
     \<and> fat16_fs s \<noteq> 0 \<and> disk_at s \<noteq> 0
     \<and> (\<exists>c f x items. mounted_at s img (length dir) (fs_private s) c f x items
          \<and> page_allocs [fs_private s, c, f] \<subseteq> kheap_allocs s
          \<and> (items, blocks_of (word_of_nat (32 * root_capacity img))) \<in> kheap_allocs s)"

lemma root_capacity_bound: "root_capacity img < 2 ^ 16"
  using unsigned_less [of "root_dir_entries (disk_mem img) 0"] by (simp add: root_capacity_def)

lemma volume_up_frame:
  fixes s s' :: "'a filestate_scheme"
  assumes v: "volume_up s img dir" and h: "kheap_inv s'" "kheap_allocs s \<subseteq> kheap_allocs s'"
    and g: "device s' = device s" "sector_size s' = sector_size s" "disk_filesystem s' = disk_filesystem s"
      "fat16_fs s' = fat16_fs s" "disk_at s' = disk_at s" "fs_private s' = fs_private s"
    and m: "\<And>p k a. (p, k) \<in> kheap_allocs s \<Longrightarrow> in_block p k a \<Longrightarrow> mem s' a = mem s a"
  shows "volume_up s' img dir"
proof -
  obtain c f x items where u: "kheap_inv s" "ata_disk (device s) img" "sector_size s = 512" "disk_filesystem s = fat16_fs s"
    "fat16_fs s \<noteq> 0" "disk_at s \<noteq> 0" "mounted_at s img (length dir) (fs_private s) c f x items"
    "page_allocs [fs_private s, c, f] \<subseteq> kheap_allocs s"
    "(items, blocks_of (word_of_nat (32 * root_capacity img))) \<in> kheap_allocs s" using v by (auto simp: volume_up_def)
  have live: "(y, 1) \<in> kheap_allocs s" if "y \<in> {fs_private s, c, f}" for y using u(8) that by (auto simp: page_allocs_def)
  have w: "ldw (mem s') y i = ldw (mem s) y i" if "y \<in> {fs_private s, c, f}" "i < 1024" for y i
    by (rule ldw_cong [OF live_page_aligned [OF u(1) live [OF that(1)]] that(2)], rule m [OF live [OF that(1)]])
      (simp add: in_block_page [OF live_page_aligned [OF u(1) live [OF that(1)]]])
  have b: "mem s' (fs_private s + word_of_nat j) = mem s (fs_private s + word_of_nat j)" if "j < 62" for j
    by (rule m [OF live in_block_add [OF u(1) live]]) (use that in simp_all)
  have it: "mem s' (items + word_of_nat j) = mem s (items + word_of_nat j)" if "j < 32 * root_capacity img" for j
    by (rule m [OF u(9) in_block_add [OF u(1,9)]])
      (use that block_bytes_bound [of "32 * root_capacity img"] root_capacity_bound [of img] in simp)
  have "mounted_at s' img (length dir) (fs_private s) c f x items"
    using u(7) w b it by (simp add: mounted_at_def g)
  moreover have "page_allocs [fs_private s, c, f] \<subseteq> kheap_allocs s'"
    "(items, blocks_of (word_of_nat (32 * root_capacity img))) \<in> kheap_allocs s'" using u(8,9) h(2) by blast+
  ultimately show ?thesis unfolding volume_up_def g using u(2-6) h(1) by blast
qed

lemma volume_up_file:
  fixes s :: "'a filestate_scheme"
  assumes "volume_up s img dir" "fat16_image img dir" "only_match dir name i" "disk_file img i pos n"
  shows "root_file s dir name i img pos n" "(cluster_stream s, 1) \<in> kheap_allocs s"
proof -
  obtain c f x items where u: "kheap_inv s" "ata_disk (device s) img" "sector_size s = 512" "disk_filesystem s = fat16_fs s"
    "fat16_fs s \<noteq> 0" "disk_at s \<noteq> 0" "mounted_at s img (length dir) (fs_private s) c f x items"
    "page_allocs [fs_private s, c, f] \<subseteq> kheap_allocs s"
    "(items, blocks_of (word_of_nat (32 * root_capacity img))) \<in> kheap_allocs s" using assms(1) by (auto simp: volume_up_def)
  note v = mounted_volume [OF u(7) assms(2) u(2,1) refl u(3-6,8,9)]
  show "root_file s dir name i img pos n" by (rule v(5) [OF assms(3,4)])
  show "(cluster_stream s, 1) \<in> kheap_allocs s" using u(8) v(4) by (auto simp: page_allocs_def)
qed

lemma disk_search_ok:
  fixes s :: "'a filestate_scheme"
  assumes inv: "kheap_inv s" and disk: "ata_disk (device s) img" and img: "fat16_image img dir"
    and st: "disk_at s \<noteq> 0" "fat16_fs s \<noteq> 0" "filesystems s = fat16_fs s # fs"
    and room: "(card (kheap_allocs s) + 6) * blocks_of (word_of_nat (32 * root_capacity img)) + 5 < kheap_vacant s"
  obtains p s' where "disk_search_and_init fat16_objects s = Inr s'" "volume_up s' img dir" "extends {} s s'"
    "rest s' = rest (s\<lparr>disk_type := 0, sector_size := 512, disk_id := 0, disk_filesystem := fat16_fs s, fs_private := p\<rparr>)"
    "card (kheap_allocs s') \<le> card (kheap_allocs s) + 5"
    "kheap_vacant s \<le> kheap_vacant s' + 4 + blocks_of (word_of_nat (32 * root_capacity img))"
proof -
  let ?B = "blocks_of (word_of_nat (32 * root_capacity img))"
  define s1 where "s1 = s\<lparr>disk_filesystem := 0, fs_private := 0, disk_type := 0, sector_size := 512, disk_id := 0\<rparr>"
  have h1: "kheap_inv s1" "kheap_allocs s1 = kheap_allocs s" "kheap_vacant s1 = kheap_vacant s" "heap_area s1 = heap_area s" "mem s1 = mem s"
    using inv by (simp_all add: s1_def kheap_view_defs heap_area_def)
  have g1: "ata_disk (device s1) img" "sector_size s1 = 512" "disk_at s1 \<noteq> 0" "disk_id s1 = 0" "fat16_fs s1 = fat16_fs s" "disk_at s1 = disk_at s"
    "filesystems s1 = fat16_fs s # fs"
    using disk st by (simp_all add: s1_def)
  have room1: "(card (kheap_allocs s1) + 6) * ?B + 5 < kheap_vacant s1" using room h1 by simp
  obtain P c f x items s2 where r: "fat16_resolve s1 = Inr (0, s2)" "extends {} s1 s2"
    "rest s2 = rest (s1\<lparr>fs_private := P, disk_filesystem := fat16_fs s1\<rparr>)"
    "kheap_allocs s2 = insert (items, ?B) (kheap_allocs s1 \<union> page_allocs [P, c, f, x])"
    "\<forall>y \<in> {P, c, f, x, items}. \<forall>k. (y, k) \<notin> kheap_allocs s1" "mounted_at s2 img (length dir) P c f x items"
    by (rule fat16_resolve_ok [OF h1(1) g1(1) img g1(2-4) room1], rule that)
  have e2: "extends {} s s2" using r(2) h1 by (simp add: extends_def kept_def)
  note g2 = rest_dstate [OF r(3), simplified] and d2 = rest_device [OF r(3), simplified]
  have f2: "fat16_fs s2 = fat16_fs s" "filesystems s2 = fat16_fs s # fs"
    using arg_cong [OF r(3), of fat16_fs] arg_cong [OF r(3), of filesystems] g1 by (simp_all add: rest_def)
  have same: "s2\<lparr>disk_filesystem := fat16_fs s\<rparr> = s2"
    using g2(5) g1(5) by (cases s2) simp
  have run: "disk_search_and_init fat16_objects s = Inr s2"
  proof -
    have "fs_resolve fat16_objects (disk_at s1) s1 = Inr (fat16_fs s, s2)"
      using r(1) f2(2) st(2) g1(5,7) by (simp add: fs_resolve_def upt_conv_Cons fat16_objects_def fat16_ops_def del: upt_Suc)
    then show ?thesis by (simp add: disk_search_and_init_def s1_def GUAVAOS_DISK_TYPE_REAL_def GUAVAOS_SECTOR_SIZE_def same)
  qed
  define A where "A = insert (items, ?B) (page_allocs [P, c, f, x])"
  have acc: "kheap_allocs s2 = kheap_allocs s \<union> A" "kheap_allocs s \<inter> A = {}" "finite A"
    using r(4,5) h1(2) by (auto simp: A_def)
  have A: "card A \<le> 5" "(\<Sum>(p, n) \<in> A. n) \<le> 4 + ?B"
    by (simp_all add: A_def card_insert_if sum.insert_if)
  note ac = extends_accounts [OF inv e2 acc]
  have up: "volume_up s2 img dir"
    using r(2,4,6) d2 g1 g2 f2 st by (auto simp: volume_up_def extends_def)
  have "rest s2 = rest (s\<lparr>disk_type := 0, sector_size := 512, disk_id := 0, disk_filesystem := fat16_fs s, fs_private := P\<rparr>)"
    using r(3) by (simp add: s1_def rest_def)
  then show thesis using that [OF run up e2, of P] ac A by linarith
qed

section \<open>The kernel in memory\<close>

text \<open>
  A byte of the kernel's image (1 MB to the heap at 16 MB) that is not of the two objects the start writes: the task
  state segment and the name in \<^verbatim>\<open>fat16_fs\<close>.
\<close>

definition image_byte :: "'a kernelstate_scheme \<Rightarrow> u32 \<Rightarrow> bool" where
  "image_byte s a \<longleftrightarrow> 0x100000 \<le> unat a \<and> unat a < 0x1000000 \<and> 100 \<le> unat (a - tss_at s) \<and> 6 \<le> unat (a - (fat16_fs s + 24))"

text \<open>
  What the image holds when \<^verbatim>\<open>kernel_main\<close> is called: the path \<^verbatim>\<open>0:/name\<close> of the program, the string \<^verbatim>\<open>r\<close>, the
  keyboard with its \<^verbatim>\<open>init\<close>, the table of interrupt stubs, and the variables without initial value, cleared.
\<close>

definition kernel_image :: "'a kernelstate_scheme \<Rightarrow> u8 list \<Rightarrow> bool" where
  "kernel_image s name \<longleftrightarrow> (\<forall>j \<le> 108. image_byte s (blank_bin_at s + word_of_nat j))
     \<and> cstr_at (mem s) (blank_bin_at s) (48 # 58 # 47 # name) \<and> part_names [name] \<and> length name \<le> 105
     \<and> image_byte s (literal_r s) \<and> mem s (literal_r s) = 114
     \<and> (\<forall>a \<in> word_at (ps2_keyboard s + K_INIT). image_byte s a)
     \<and> load32 (mem s) (ps2_keyboard s + K_INIT) = ps2_init_at s \<and> ps2_init_at s \<noteq> 0
     \<and> 0x100000 \<le> unat (tss_at s) \<and> unat (tss_at s) + 100 \<le> 0x1000000
     \<and> fat16_fs s \<noteq> 0 \<and> disk_at s \<noteq> 0 \<and> length (interrupt_pointer_table s) = 512
     \<and> processes s = replicate 12 0 \<and> current_task s = 0 \<and> task_head s = 0 \<and> task_tail s = 0
     \<and> keyboard_list_last s = 0 \<and> interrupt_callbacks s = replicate 512 0 \<and> isr80h_commands s = replicate 1024 0"

text \<open>\<^verbatim>\<open>kernel_main\<close> from \<^verbatim>\<open>idt_init\<close> on.\<close>

definition kernel_main_tail :: "'a kernelstate_scheme \<Rightarrow> (u32 \<times> 'a kernelstate_scheme) outcome" where
  "kernel_main_tail s5 =
     bnd (idt_init s5) (\<lambda>s6.
       let s7 = s6\<lparr>mem := memset (tss_at s6) 0 tss_sizeof (mem s6)\<rparr>;
           s8 = st32 (tss_at s7 + TSS_SS0) KERNEL_DATA_SELECTOR (st32 (tss_at s7 + TSS_ESP0) 0x600000 s7);
           s9 = tss_load 0x28 s8
       in bnd (paging_new_4gb (ucast (PAGING_IS_WRITABLE OR PAGING_IS_PRESENT OR PAGING_ACCESS_FROM_ALL)) s9)
            (\<lambda>(chunk, s10).
          let s11 = s10\<lparr>kernel_chunk := chunk\<rparr>;
              s12 = enable_paging (paging_switch (kernel_chunk s11) s11)
          in bnd (isr80h_register_commands (command0_at s12) (command1_at s12) s12) (\<lambda>s13.
             bnd (keyboard_init kernel_init_functions s13) (\<lambda>s14.
             bnd (process_load_switch fat16_objects (blank_bin_at s14) 0 s14) (\<lambda>(res, process, s15).
               if res \<noteq> GUAVAOS_ALL_OK then panic (lit ''failed to load blank.bin'' @ [10]) s15
               else task_run_first_ever_task s15)))))"

lemma rest_explicit: "rest s' = rest (s :: 'a iostate_scheme) \<Longrightarrow> s' = s\<lparr>kernel_heap := kernel_heap s', mem := mem s', ports := ports s'\<rparr>"
  by (cases s; cases s') (simp add: rest_def)

lemma kernel_gdt_encoded:
  obtains g where "gdt_structured_to_gdt (replicate 6 (replicate 8 0)) (kernel_gdt t) 6 = Inr g" "map gdt_decode g = kernel_gdt t"
proof -
  have "\<forall>g \<in> set (kernel_gdt t). gdt_representable g" by (simp add: kernel_gdt_def gdt_representable_def tss_sizeof_def)
  moreover have "length (kernel_gdt t) = 6" by (simp add: kernel_gdt_def)
  ultimately show thesis using gdt_table_encoded [of "replicate 6 (replicate 8 0)" "kernel_gdt t"] that by auto
qed

lemma boot_disk_ok:
  fixes s :: "'a kernelstate_scheme"
  assumes k: "fat16_fs s \<noteq> 0" "disk_at s \<noteq> 0" and disk: "ata_disk (device s) img" and img: "fat16_image img dir"
  obtains s5 g P h m es where "kernel_main s = kernel_main_tail s5"
    "s5 = s\<lparr>terminal_row := 0, terminal_col := 0, video_mem := 0xB8000, gdt_real := g, gdtr := g,
       file_descriptors := replicate 512 0, filesystems := fat16_fs s # replicate 11 0, disk_type := 0, sector_size := 512,
       disk_id := 0, disk_filesystem := fat16_fs s, fs_private := P, kernel_heap := h, mem := m, ports := es\<rparr>"
    "map gdt_decode g = kernel_gdt (tss_at s)" "volume_up s5 img dir"
    "heap_area s5 = {a. 0x1000000 \<le> unat a \<and> unat a < 121634816}" "card (kheap_allocs s5) \<le> 5" "25084 \<le> kheap_vacant s5"
    "\<And>a. image_byte s a \<Longrightarrow> m a = mem s a"
proof -
  obtain m1 where t: "terminal_initialize s = s\<lparr>terminal_row := 0, terminal_col := 0, video_mem := 0xB8000, mem := m1\<rparr>"
    "\<And>a. 0x100000 \<le> unat a \<Longrightarrow> m1 a = mem s a" by (rule terminal_initialize_ok, rule that)
  define s1 where "s1 = terminal_initialize s"
  define s2 where "s2 = s1\<lparr>gdt_real := replicate GUAVAOS_TOTAL_GDT_SEGMENTS (replicate 8 0)\<rparr>"
  obtain g where "gdt_structured_to_gdt (replicate 6 (replicate 8 0)) (kernel_gdt (tss_at s)) 6 = Inr g"
    and gd: "map gdt_decode g = kernel_gdt (tss_at s)" by (rule kernel_gdt_encoded)
  then have g: "gdt_structured_to_gdt (gdt_real s2) (kernel_gdt (tss_at s2)) GUAVAOS_TOTAL_GDT_SEGMENTS = Inr g"
    by (simp add: s2_def s1_def t(1) GUAVAOS_TOTAL_GDT_SEGMENTS_def)
  define s3 where "s3 = (gdt_load (s2\<lparr>gdt_real := g\<rparr>))\<lparr>kernel_heap := fresh_heap\<rparr>"
  have s3: "s3 = s\<lparr>terminal_row := 0, terminal_col := 0, video_mem := 0xB8000, mem := m1, gdt_real := g, gdtr := g, kernel_heap := fresh_heap\<rparr>"
    by (simp add: s3_def gdt_load_def s2_def s1_def t(1))
  obtain m2 where fi: "fs_init s3 = Inr (s3\<lparr>file_descriptors := replicate 512 0, filesystems := fat16_fs s3 # replicate 11 0, mem := m2\<rparr>)"
    "\<And>a. 6 \<le> unat (a - (fat16_fs s3 + 24)) \<Longrightarrow> m2 a = mem s3 a" by (rule fs_init_ok, rule that)
  define s4 where "s4 = s3\<lparr>file_descriptors := replicate 512 0, filesystems := fat16_fs s3 # replicate 11 0, mem := m2\<rparr>"
  have f4: "kheap_inv s4" "kheap_allocs s4 = {}" "kheap_vacant s4 = 25600" "ata_disk (device s4) img" "disk_at s4 \<noteq> 0" "fat16_fs s4 \<noteq> 0"
    "filesystems s4 = fat16_fs s4 # replicate 11 0"
    using disk k by (simp_all add: s4_def s3 kheap_view_defs fresh_heap_inv)
  have area: "heap_area s4 = {a. 0x1000000 \<le> unat a \<and> unat a < 121634816}" by (simp add: s4_def s3 heap_area_def fresh_heap_def)
  define B where "B = blocks_of (word_of_nat (32 * root_capacity img))"
  have B: "B \<le> 512"
  proof -
    have "unat (word_of_nat (32 * root_capacity img) :: u32) = 32 * root_capacity img"
      using root_capacity_bound [of img] by (intro unat_of_nat32) simp
    then show ?thesis using root_capacity_bound [of img] by (simp add: B_def blocks_of_def)
  qed
  have room: "(card (kheap_allocs s4) + 6) * B + 5 < kheap_vacant s4" using B f4 by simp
  obtain P s5 where d: "disk_search_and_init fat16_objects s4 = Inr s5" "volume_up s5 img dir" "extends {} s4 s5"
    "rest s5 = rest (s4\<lparr>disk_type := 0, sector_size := 512, disk_id := 0, disk_filesystem := fat16_fs s4, fs_private := P\<rparr>)"
    "card (kheap_allocs s5) \<le> card (kheap_allocs s4) + 5" "kheap_vacant s4 \<le> kheap_vacant s5 + 4 + B"
    by (rule disk_search_ok [OF f4(1,4) img f4(5-7) room [unfolded B_def], folded B_def], rule that)
  have run: "kernel_main s = kernel_main_tail s5"
    unfolding kernel_main_def kernel_main_tail_def
    by (simp only: Let_def s1_def [symmetric] s2_def [symmetric] g bnd.simps kheap_init_ok s3_def [symmetric] fi(1) s4_def [symmetric] d(1))
  have s5: "s5 = s\<lparr>terminal_row := 0, terminal_col := 0, video_mem := 0xB8000, gdt_real := g, gdtr := g,
       file_descriptors := replicate 512 0, filesystems := fat16_fs s # replicate 11 0, disk_type := 0, sector_size := 512,
       disk_id := 0, disk_filesystem := fat16_fs s, fs_private := P, kernel_heap := kernel_heap s5, mem := mem s5, ports := ports s5\<rparr>"
    by (rule trans [OF rest_explicit [OF d(4)]]) (simp add: s4_def s3)
  have same: "mem s5 a = mem s a" if "image_byte s a" for a
  proof -
    have a: "0x100000 \<le> unat a" "unat a < 0x1000000" "6 \<le> unat (a - (fat16_fs s + 24))" using that by (simp_all add: image_byte_def)
    have "a \<notin> heap_area s4" using a by (simp add: area)
    then have "mem s5 a = mem s4 a" using extends_mem [OF d(3), of a] by (simp add: kept_def)
    also have "\<dots> = m2 a" by (simp add: s4_def)
    also have "\<dots> = mem s3 a" using fi(2) [of a] a(3) by (simp add: s3)
    finally show ?thesis using t(2) [of a] a(1) by (simp add: s3)
  qed
  have "heap_area s5 = {a. 0x1000000 \<le> unat a \<and> unat a < 121634816}" using d(3) area by (simp add: extends_def)
  moreover have "card (kheap_allocs s5) \<le> 5" "25084 \<le> kheap_vacant s5" using d(5,6) f4(2,3) B by simp_all
  ultimately show thesis using that [OF run s5 gd d(2)] same by blast
qed

section \<open>The page tables of the kernel\<close>

text \<open>The page tables of the kernel keep what is in use.\<close>

lemma paging_new_extends:
  fixes s :: "'a pstate_scheme"
  assumes "kheap_inv s" "1026 \<le> kheap_vacant s"
  obtains chunk s' where "paging_new_4gb flags s = Inr (chunk, s')" "parse_frame {} s s'"
    "kheap_vacant s = kheap_vacant s' + 1026" "card (kheap_allocs s') \<le> card (kheap_allocs s) + 1026"
    "\<And>v. page_aligned v \<Longrightarrow> space_view (mem s') chunk v = v OR ucast flags" "space_ok chunk s'"
proof -
  obtain chunk s' where p: "paging_new_4gb flags s = Inr (chunk, s')" "kheap_inv s'" "space_ok chunk s'"
    "\<And>v. page_aligned v \<Longrightarrow> space_view (mem s') chunk v = v OR ucast flags"
    "kheap_allocs s' = kheap_allocs s \<union> (\<lambda>p. (p, 1)) ` set (space_blocks (mem s') chunk)"
    "\<And>p q k. p \<in> set (space_blocks (mem s') chunk) \<Longrightarrow> (q, k) \<in> kheap_allocs s \<Longrightarrow> q \<noteq> p"
    "kheap_vacant s = kheap_vacant s' + 1026"
    "\<And>a. \<forall>p \<in> set (space_blocks (mem s') chunk). \<not> in_page p a \<Longrightarrow> mem s' a = mem s a"
    "heap_step s s'" by (rule paging_new_4gb_ok [OF assms, of flags], rule that)
  note ar = paging_new_4gb_area [OF p(1)]
  have sub: "kheap_allocs s \<subseteq> kheap_allocs s'" using p(5) by blast
  have "mem s' a = mem s a" if k: "kept s a" for a
  proof (rule p(8), rule ballI)
    fix b
    assume b: "b \<in> set (space_blocks (mem s') chunk)"
    have l: "(b, 1) \<in> kheap_allocs s'" using b p(5) by blast
    have "\<And>k. (b, k) \<notin> kheap_allocs s" using p(6) [OF b] by blast
    from kept_not_new [OF p(2) l ar sub this k] show "\<not> in_page b a"
      using in_block_page [OF live_page_aligned [OF p(2) l]] by simp
  qed
  then have "parse_frame {} s s'" using p(2,9) ar sub by (simp add: parse_frame_def)
  moreover have "card (kheap_allocs s') \<le> card (kheap_allocs s) + 1026"
  proof -
    have "length (space_blocks (mem s') chunk) = 1026" by (simp add: space_blocks_def space_tables_def)
    then have "card ((\<lambda>p. (p, 1 :: nat)) ` set (space_blocks (mem s') chunk)) \<le> 1026"
      using card_image_le [of "set (space_blocks (mem s') chunk)" "\<lambda>p. (p, 1 :: nat)"] card_length [of "space_blocks (mem s') chunk"] by simp
    then show ?thesis unfolding p(5) using card_Un_le [of "kheap_allocs s" "(\<lambda>p. (p, 1)) ` set (space_blocks (mem s') chunk)"] by linarith
  qed
  ultimately show thesis using that p(1,3,4,7) by blast
qed

section \<open>Commands, keyboard and task state segment\<close>

lemma register_commands_ok:
  assumes "length (isr80h_commands s) = 1024" "isr80h_commands s ! 0 = 0" "isr80h_commands s ! 1 = 0"
  shows "isr80h_register_commands a b s = Inr (s\<lparr>isr80h_commands := (isr80h_commands s)[0 := a, 1 := b]\<rparr>)"
  using assms by (simp add: isr80h_register_commands_def isr80h_register_command_def SYSTEM_COMMAND0_SUM_def SYSTEM_COMMAND1_PRINT_def
      GUAVAOS_MAX_ISR80H_COMMANDS_def arr_get_def arr_set_def)

lemma keyboard_init_ok:
  fixes s :: "'a kernelstate_scheme"
  assumes "load32 (mem s) (ps2_keyboard s + K_INIT) = ps2_init_at s" "ps2_init_at s \<noteq> 0" "keyboard_list_last s = 0"
    and "length (interrupt_callbacks s) = 512"
  shows "keyboard_init kernel_init_functions s = Inr (s\<lparr>keyboard_list_head := ps2_keyboard s, keyboard_list_last := ps2_keyboard s,
    interrupt_callbacks := (interrupt_callbacks s)[0x21 := ps2_handler_at s],
    ports := ports s @ [Out8 PS2_PORT PS2_COMMAND_ENABLE_FIRST_PORT]\<rparr>)"
  using assms by (simp add: keyboard_init_def keyboard_insert_def ps2_get_def kernel_init_functions_def ps2_keyboard_init_def
      idt_register_interrupt_callback_def ISR_KEYBOARD_INTERRUPT_def GUAVAOS_TOTAL_INTERRUPTS_def arr_set_def outb_def)

text \<open>The memory after the task state segment is filled in.\<close>

definition tss_filled :: "u32 \<Rightarrow> memory \<Rightarrow> memory" where
  "tss_filled t m = store32 (store32 (memset t 0 tss_sizeof m) (t + TSS_ESP0) 0x600000) (t + TSS_SS0) KERNEL_DATA_SELECTOR"

lemma tss_filled_frame:
  assumes "100 \<le> unat (a - t)"
  shows "tss_filled t m a = m a"
proof -
  have "a \<notin> word_at (t + word_of_nat 4)" "a \<notin> word_at (t + word_of_nat 8)"
    using word_at_offset [of a t 4] word_at_offset [of a t 8] assms by auto
  then show ?thesis using assms
    by (simp add: tss_filled_def TSS_ESP0_def TSS_SS0_def store32_outside memset_apply tss_sizeof_def)
qed

lemma image_not_heap: "image_byte s a \<Longrightarrow> a \<notin> {a. 0x1000000 \<le> unat a \<and> unat a < 121634816}"
  by (simp add: image_byte_def)

lemma kernel_tail_ok:
  fixes s :: "'a kernelstate_scheme"
  assumes up: "volume_up s img dir" and area: "heap_area s = {a. 0x1000000 \<le> unat a \<and> unat a < 121634816}" and room: "1026 \<le> kheap_vacant s"
    and tab: "length (interrupt_pointer_table s) = 512" "isr80h_commands s = replicate 1024 0" "interrupt_callbacks s = replicate 512 0"
    and kb: "keyboard_list_last s = 0" "load32 (mem s) (ps2_keyboard s + K_INIT) = ps2_init_at s" "ps2_init_at s \<noteq> 0"
      "\<forall>a \<in> word_at (ps2_keyboard s + K_INIT). image_byte s a"
    and tss: "unat (tss_at s) + 100 \<le> 0x1000000"
  obtains s' chunk m h where
    "kernel_main_tail s = bnd (process_load_switch fat16_objects (blank_bin_at s') 0 s') (\<lambda>(res, process, s15).
       if res \<noteq> GUAVAOS_ALL_OK then panic (lit ''failed to load blank.bin'' @ [10]) s15 else task_run_first_ever_task s15)"
    "s' = s\<lparr>idt_descriptors := (map gate (interrupt_pointer_table s))[0 := gate (idt_zero_at s), 0x80 := gate (isr80h_wrapper_at s)],
       idtr_descriptor := \<lparr>idtr_limit = 4095, idtr_base = idt_descriptors_at s\<rparr>, idtr := \<lparr>idtr_limit = 4095, idtr_base = idt_descriptors_at s\<rparr>,
       task_register := 0x28, kernel_chunk := chunk, cr3 := load32 m chunk, current_directory := load32 m chunk, paging_enabled := True,
       isr80h_commands := (replicate 1024 0)[0 := command0_at s, 1 := command1_at s], keyboard_list_head := ps2_keyboard s,
       keyboard_list_last := ps2_keyboard s, interrupt_callbacks := (replicate 512 0)[0x21 := ps2_handler_at s],
       ports := ports s @ [Out8 PS2_PORT PS2_COMMAND_ENABLE_FIRST_PORT], kernel_heap := h, mem := m\<rparr>"
    "volume_up s' img dir" "heap_area s' = heap_area s" "card (kheap_allocs s') \<le> card (kheap_allocs s) + 1026"
    "kheap_vacant s = kheap_vacant s' + 1026" "\<And>a. image_byte s a \<Longrightarrow> m a = mem s a"
proof -
  have inv: "kheap_inv s" using up by (simp add: volume_up_def)
  define s6 where "s6 = s\<lparr>idt_descriptors := (map gate (interrupt_pointer_table s))[0 := gate (idt_zero_at s), 0x80 := gate (isr80h_wrapper_at s)],
    idtr_descriptor := \<lparr>idtr_limit = 4095, idtr_base = idt_descriptors_at s\<rparr>, idtr := \<lparr>idtr_limit = 4095, idtr_base = idt_descriptors_at s\<rparr>\<rparr>"
  have idt: "idt_init s = Inr s6" by (simp add: idt_init_ok [OF tab(1)] s6_def)
  define s7 where "s7 = s6\<lparr>mem := memset (tss_at s6) 0 tss_sizeof (mem s6)\<rparr>"
  define s9 where "s9 = tss_load 0x28 (st32 (tss_at s7 + TSS_SS0) KERNEL_DATA_SELECTOR (st32 (tss_at s7 + TSS_ESP0) 0x600000 s7))"
  have s9: "s9 = s6\<lparr>mem := tss_filled (tss_at s) (mem s), task_register := 0x28\<rparr>"
    by (simp add: s9_def s7_def s6_def tss_load_def st32_def tss_filled_def)
  have h9: "kheap_inv s9" "kheap_allocs s9 = kheap_allocs s" "kheap_vacant s9 = kheap_vacant s" "heap_area s9 = heap_area s"
    using inv by (simp_all add: s9 s6_def kheap_view_defs heap_area_def)
  have image9: "mem s9 a = mem s a" if "100 \<le> unat (a - tss_at s)" for a by (simp add: s9 tss_filled_frame [OF that])
  have heap9: "mem s9 a = mem s a" if "a \<in> heap_area s" for a
  proof (rule image9)
    have "0x1000000 \<le> unat a" using that by (simp add: area)
    then show "100 \<le> unat (a - tss_at s)" using tss by (simp add: unat_sub word_le_nat_alt)
  qed
  have up9: "volume_up s9 img dir"
    by (rule volume_up_frame [OF up h9(1)]) (use h9(2) heap9 live_in_area [OF inv] in \<open>auto simp: s9 s6_def\<close>)
  have room9: "1026 \<le> kheap_vacant s9" using room h9 by simp
  obtain chunk s10 where p: "paging_new_4gb (ucast (PAGING_IS_WRITABLE OR PAGING_IS_PRESENT OR PAGING_ACCESS_FROM_ALL)) s9 = Inr (chunk, s10)"
    "parse_frame {} s9 s10" "kheap_vacant s9 = kheap_vacant s10 + 1026" "card (kheap_allocs s10) \<le> card (kheap_allocs s9) + 1026"
    by (rule paging_new_extends [OF h9(1) room9], rule that)
  have p10: "kheap_inv s10" "heap_area s10 = heap_area s" "kheap_allocs s9 \<subseteq> kheap_allocs s10"
    "\<And>a. kept s9 a \<Longrightarrow> mem s10 a = mem s9 a" "heap_step s9 s10" using p(2) h9(4) by (simp_all add: parse_frame_def)
  have live9: "kept s9 a" if "(q, k) \<in> kheap_allocs s9" "in_block q k a" for q k a using that by (auto simp: kept_def)
  obtain h m where s10: "s10 = s9\<lparr>kernel_heap := h, mem := m\<rparr>" using p10(5) by (auto simp: heap_step_def)
  have up10: "volume_up s10 img dir"
    by (rule volume_up_frame [OF up9 p10(1,3) _ _ _ _ _ _ p10(4) [OF live9]]) (simp_all add: s10)
  have same: "m a = mem s a" if i: "image_byte s a" for a
  proof -
    have "a \<notin> heap_area s9" using image_not_heap [OF i] area h9(4) by simp
    then have "mem s10 a = mem s9 a" using p10(4) by (simp add: kept_def)
    then show ?thesis using image9 [of a] i by (simp add: s10 image_byte_def)
  qed
  define s12 where "s12 = enable_paging (paging_switch (kernel_chunk (s10\<lparr>kernel_chunk := chunk\<rparr>)) (s10\<lparr>kernel_chunk := chunk\<rparr>))"
  have c12: "isr80h_commands s12 = replicate 1024 0" "interrupt_callbacks s12 = replicate 512 0"
    unfolding tab(2,3) [symmetric] by (simp_all add: s12_def enable_paging_def paging_switch_def s10 s9 s6_def)
  define s13 where "s13 = s12\<lparr>isr80h_commands := (isr80h_commands s12)[0 := command0_at s12, 1 := command1_at s12]\<rparr>"
  have reg: "isr80h_register_commands (command0_at s12) (command1_at s12) s12 = Inr s13"
    unfolding s13_def by (rule register_commands_ok) (simp_all add: c12 nth_replicate)
  have "load32 m (ps2_keyboard s + K_INIT) = load32 (mem s) (ps2_keyboard s + K_INIT)"
    by (rule load32_cong; rule same, rule bspec [OF kb(4)]) (simp_all add: word_at_def)
  then have kb13: "load32 (mem s13) (ps2_keyboard s13 + K_INIT) = ps2_init_at s13" "ps2_init_at s13 \<noteq> 0" "keyboard_list_last s13 = 0"
    "length (interrupt_callbacks s13) = 512"
    using kb(1-3) c12(2) by (simp_all add: s13_def) (simp_all add: s12_def enable_paging_def paging_switch_def s10 s9 s6_def)
  define s14 where "s14 = s13\<lparr>keyboard_list_head := ps2_keyboard s13, keyboard_list_last := ps2_keyboard s13,
    interrupt_callbacks := (interrupt_callbacks s13)[0x21 := ps2_handler_at s13],
    ports := ports s13 @ [Out8 PS2_PORT PS2_COMMAND_ENABLE_FIRST_PORT]\<rparr>"
  note key = keyboard_init_ok [OF kb13, folded s14_def]
  have run: "kernel_main_tail s = bnd (process_load_switch fat16_objects (blank_bin_at s14) 0 s14) (\<lambda>(res, process, s15).
       if res \<noteq> GUAVAOS_ALL_OK then panic (lit ''failed to load blank.bin'' @ [10]) s15 else task_run_first_ever_task s15)"
    unfolding kernel_main_tail_def
    by (simp only: Let_def idt bnd.simps s7_def [symmetric] s9_def [symmetric] p(1) prod.case s12_def [symmetric] reg key)
  have s14: "s14 = s\<lparr>idt_descriptors := (map gate (interrupt_pointer_table s))[0 := gate (idt_zero_at s), 0x80 := gate (isr80h_wrapper_at s)],
       idtr_descriptor := \<lparr>idtr_limit = 4095, idtr_base = idt_descriptors_at s\<rparr>, idtr := \<lparr>idtr_limit = 4095, idtr_base = idt_descriptors_at s\<rparr>,
       task_register := 0x28, kernel_chunk := chunk, cr3 := load32 m chunk, current_directory := load32 m chunk, paging_enabled := True,
       isr80h_commands := (replicate 1024 0)[0 := command0_at s, 1 := command1_at s], keyboard_list_head := ps2_keyboard s,
       keyboard_list_last := ps2_keyboard s, interrupt_callbacks := (replicate 512 0)[0x21 := ps2_handler_at s],
       ports := ports s @ [Out8 PS2_PORT PS2_COMMAND_ENABLE_FIRST_PORT], kernel_heap := h, mem := m\<rparr>"
    unfolding tab(2,3) [symmetric] by (simp add: s14_def s13_def s12_def enable_paging_def paging_switch_def s10 s9 s6_def)
  have h14: "kernel_heap s14 = kernel_heap s10" "mem s14 = mem s10" by (simp_all add: s14 s10)
  have v14: "kheap_inv s14" "kheap_allocs s14 = kheap_allocs s10" "heap_area s14 = heap_area s" "kheap_vacant s14 = kheap_vacant s10"
    using p10(1,2) by (simp_all add: kheap_view_defs heap_area_def h14(1))
  have up14: "volume_up s14 img dir"
    by (rule volume_up_frame [OF up10 v14(1)]) (simp_all add: v14(2) h14(2), simp_all add: s14 s10 s9 s6_def)
  have acc: "card (kheap_allocs s14) \<le> card (kheap_allocs s) + 1026" "kheap_vacant s = kheap_vacant s14 + 1026"
    using p(3,4) h9(2,3) v14(2,4) by simp_all
  show thesis by (rule that [OF run s14 up14 v14(3) acc same])
qed

end
