(* ===== verification/BootProps.thy ===== *)
theory BootProps
  imports Boot
begin

text \<open>
  \<^verbatim>\<open>kernel_main\<close> as a whole: it reaches the state \<open>kernel_up\<close> in which the first program is loaded (\<open>kernel_main_up\<close>), the
  program is loaded (\<open>kernel_up_loads\<close>), and its task is started.
\<close>

section \<open>The kernel when it loads its first program\<close>

text \<open>
  The volume is mounted, the tables of segments, gates, callbacks and commands are filled in, paging is on, no task, no
  process and no open file exists, and the heap has room for a program.
\<close>

definition tables_up :: "'a kernelstate_scheme \<Rightarrow> 'a kernelstate_scheme \<Rightarrow> bool" where
  "tables_up s s' \<longleftrightarrow> map gdt_decode (gdtr s') = kernel_gdt (tss_at s) \<and> task_register s' = 0x28
     \<and> idtr s' = \<lparr>idtr_limit = 4095, idtr_base = idt_descriptors_at s\<rparr> \<and> gate_target (idt_descriptors s' ! 0x80) = isr80h_wrapper_at s
     \<and> isr80h_commands s' = (replicate 1024 0)[0 := command0_at s, 1 := command1_at s]
     \<and> interrupt_callbacks s' = (replicate 512 0)[0x21 := ps2_handler_at s] \<and> paging_enabled s'"

definition kernel_up :: "'a kernelstate_scheme \<Rightarrow> u8 list \<Rightarrow> (nat \<Rightarrow> u16 list) \<Rightarrow> (u8 list \<times> u8 list) list \<Rightarrow> bool" where
  "kernel_up s name img dir \<longleftrightarrow> volume_up s img dir \<and> heap_area s = {a. 0x1000000 \<le> unat a \<and> unat a < 121634816}
     \<and> card (kheap_allocs s) \<le> 1031 \<and> 24058 \<le> kheap_vacant s
     \<and> processes s = replicate 12 0 \<and> file_descriptors s = replicate 512 0 \<and> task_head s = 0 \<and> task_tail s = 0 \<and> current_task s = 0
     \<and> (\<forall>j \<le> 108. blank_bin_at s + word_of_nat j \<notin> heap_area s) \<and> cstr_at (mem s) (blank_bin_at s) (48 # 58 # 47 # name)
     \<and> part_names [name] \<and> length name \<le> 105 \<and> mem s (literal_r s) = 114 \<and> literal_r s \<notin> heap_area s"

lemma kernel_main_up:
  fixes s :: "'a kernelstate_scheme"
  assumes k: "kernel_image s name" and disk: "ata_disk (device s) img" and img: "fat16_image img dir"
  obtains s' where
    "kernel_main s = bnd (process_load_switch fat16_objects (blank_bin_at s') 0 s') (\<lambda>(res, process, s15).
       if res \<noteq> GUAVAOS_ALL_OK then panic (lit ''failed to load blank.bin'' @ [10]) s15 else task_run_first_ever_task s15)"
    "kernel_up s' name img dir" "tables_up s s'"
proof -
  have im: "\<forall>j \<le> 108. image_byte s (blank_bin_at s + word_of_nat j)" "cstr_at (mem s) (blank_bin_at s) (48 # 58 # 47 # name)"
    "part_names [name]" "length name \<le> 105" "image_byte s (literal_r s)" "mem s (literal_r s) = 114"
    "\<forall>a \<in> word_at (ps2_keyboard s + K_INIT). image_byte s a" "load32 (mem s) (ps2_keyboard s + K_INIT) = ps2_init_at s" "ps2_init_at s \<noteq> 0"
    "unat (tss_at s) + 100 \<le> 0x1000000" "fat16_fs s \<noteq> 0" "disk_at s \<noteq> 0" "length (interrupt_pointer_table s) = 512"
    "processes s = replicate 12 0" "current_task s = 0" "task_head s = 0" "task_tail s = 0"
    "keyboard_list_last s = 0" "interrupt_callbacks s = replicate 512 0" "isr80h_commands s = replicate 1024 0"
    using k by (simp_all add: kernel_image_def)
  obtain s5 g P h5 m5 es where d: "kernel_main s = kernel_main_tail s5"
    "s5 = s\<lparr>terminal_row := 0, terminal_col := 0, video_mem := 0xB8000, gdt_real := g, gdtr := g,
       file_descriptors := replicate 512 0, filesystems := fat16_fs s # replicate 11 0, disk_type := 0, sector_size := 512,
       disk_id := 0, disk_filesystem := fat16_fs s, fs_private := P, kernel_heap := h5, mem := m5, ports := es\<rparr>"
    "map gdt_decode g = kernel_gdt (tss_at s)" "volume_up s5 img dir"
    "heap_area s5 = {a. 0x1000000 \<le> unat a \<and> unat a < 121634816}" "card (kheap_allocs s5) \<le> 5" "25084 \<le> kheap_vacant s5"
    "\<And>a. image_byte s a \<Longrightarrow> m5 a = mem s a"
    by (rule boot_disk_ok [OF im(11,12) disk img], rule that)
  have e5: "fat16_fs s5 = fat16_fs s" "tss_at s5 = tss_at s" "ps2_keyboard s5 = ps2_keyboard s" "ps2_init_at s5 = ps2_init_at s" "mem s5 = m5"
    "literal_r s5 = literal_r s" "blank_bin_at s5 = blank_bin_at s" "processes s5 = replicate 12 0" "current_task s5 = 0"
    "task_head s5 = 0" "task_tail s5 = 0" "file_descriptors s5 = replicate 512 0" "gdtr s5 = g" "command0_at s5 = command0_at s" "command1_at s5 = command1_at s"
    "isr80h_wrapper_at s5 = isr80h_wrapper_at s" "idt_descriptors_at s5 = idt_descriptors_at s" "ps2_handler_at s5 = ps2_handler_at s"
    unfolding d(2) using im(14-17) by simp_all
  have t5: "length (interrupt_pointer_table s5) = 512" "isr80h_commands s5 = replicate 1024 0" "interrupt_callbacks s5 = replicate 512 0" "keyboard_list_last s5 = 0"
    unfolding im(19,20) [symmetric] using im(13,18) by (simp_all add: d(2))
  have ib: "image_byte s5 = image_byte s" by (rule ext) (simp add: image_byte_def e5)
  have "load32 m5 (ps2_keyboard s + K_INIT) = load32 (mem s) (ps2_keyboard s + K_INIT)"
    by (rule load32_cong; rule d(8), rule bspec [OF im(7)]) (simp_all add: word_at_def)
  then have kb: "load32 (mem s5) (ps2_keyboard s5 + K_INIT) = ps2_init_at s5" "ps2_init_at s5 \<noteq> 0"
    "\<forall>a \<in> word_at (ps2_keyboard s5 + K_INIT). image_byte s5 a" using im(7-9) by (simp_all add: e5 ib)
  have room5: "1026 \<le> kheap_vacant s5" and tss5: "unat (tss_at s5) + 100 \<le> 0x1000000" using d(7) im(10) by (simp_all add: e5)
  obtain s' chunk m h where r: "kernel_main_tail s5 = bnd (process_load_switch fat16_objects (blank_bin_at s') 0 s') (\<lambda>(res, process, s15).
       if res \<noteq> GUAVAOS_ALL_OK then panic (lit ''failed to load blank.bin'' @ [10]) s15 else task_run_first_ever_task s15)"
    "s' = s5\<lparr>idt_descriptors := (map gate (interrupt_pointer_table s5))[0 := gate (idt_zero_at s5), 0x80 := gate (isr80h_wrapper_at s5)],
       idtr_descriptor := \<lparr>idtr_limit = 4095, idtr_base = idt_descriptors_at s5\<rparr>, idtr := \<lparr>idtr_limit = 4095, idtr_base = idt_descriptors_at s5\<rparr>,
       task_register := 0x28, kernel_chunk := chunk, cr3 := load32 m chunk, current_directory := load32 m chunk, paging_enabled := True,
       isr80h_commands := (replicate 1024 0)[0 := command0_at s5, 1 := command1_at s5], keyboard_list_head := ps2_keyboard s5,
       keyboard_list_last := ps2_keyboard s5, interrupt_callbacks := (replicate 512 0)[0x21 := ps2_handler_at s5],
       ports := ports s5 @ [Out8 PS2_PORT PS2_COMMAND_ENABLE_FIRST_PORT], kernel_heap := h, mem := m\<rparr>"
    "volume_up s' img dir" "heap_area s' = heap_area s5" "card (kheap_allocs s') \<le> card (kheap_allocs s5) + 1026"
    "kheap_vacant s5 = kheap_vacant s' + 1026" "\<And>a. image_byte s5 a \<Longrightarrow> m a = mem s5 a"
    by (rule kernel_tail_ok [OF d(4,5) room5 t5(1-4) kb tss5], rule that)
  have area: "heap_area s' = {a. 0x1000000 \<le> unat a \<and> unat a < 121634816}" using r(4) d(5) by simp
  have e: "mem s' = m" "blank_bin_at s' = blank_bin_at s" "literal_r s' = literal_r s" "processes s' = replicate 12 0"
    "file_descriptors s' = replicate 512 0" "task_head s' = 0" "task_tail s' = 0" "current_task s' = 0"
    unfolding r(2) by (simp_all add: e5)
  have "tables_up s s'"
    using t5(1) d(3) by (simp add: tables_up_def r(2) e5)
  moreover have same: "m a = mem s a" "a \<notin> heap_area s'" if "image_byte s a" for a
    using r(7) d(8) that image_not_heap [OF that] by (simp_all add: ib e5 area)
  have "cstr_at m (blank_bin_at s) (48 # 58 # 47 # name)"
    by (rule cstr_at_mem_cong [OF im(2)], rule same(1)) (use im(1,4) in simp)
  then have "kernel_up s' name img dir"
    unfolding kernel_up_def e area [symmetric] using r(3,5,6) d(6,7) im(1,3-6) same by simp
  ultimately show thesis using that [OF _ _] r(1) d(1) by simp
qed

lemma kernel_up_loads:
  fixes s :: "'a kernelstate_scheme"
  assumes k: "kernel_up s name img dir" and img: "fat16_image img dir"
    and f: "only_match dir name i" "disk_file img i pos n" "n \<le> 77824"
  obtains t p s1 where "process_load fat16_objects (blank_bin_at s) 0 s = Inr (0, p, s1)" "process_get 0 s1 = Inr p" "tasks_inv s1 [t]"
    "get s1 t T_PROCESS = p" "get s1 t R_IP = 0x400000" "get s1 t R_ESP = 0x3ff000" "current_task s1 = t"
    "task_sees s1 t 0x400000 (map (disk_byte img) [pos..<pos + n])" "files_ok s1" "open_files s1 = Map.empty" "load_change s s1"
proof -
  have u: "volume_up s img dir" "heap_area s = {a. 0x1000000 \<le> unat a \<and> unat a < 121634816}"
    "card (kheap_allocs s) \<le> 1031" "24058 \<le> kheap_vacant s"
    "processes s = replicate 12 0" "file_descriptors s = replicate 512 0" "task_head s = 0" "task_tail s = 0" "current_task s = 0"
    "\<forall>j \<le> 108. blank_bin_at s + word_of_nat j \<notin> heap_area s" "cstr_at (mem s) (blank_bin_at s) (48 # 58 # 47 # name)"
    "part_names [name]" "length name \<le> 105" "mem s (literal_r s) = 114" "literal_r s \<notin> heap_area s"
    using k unfolding kernel_up_def by blast+
  have inv: "kheap_inv s" using u(1) by (simp add: volume_up_def)
  note vf = volume_up_file [OF u(1) img f(1,2)]
  have none: "open_files s = Map.empty" by (rule ext) (simp add: open_files_def u(6))
  have a1: "tasks_inv s []" by (simp add: tasks_inv_Nil inv u(7-9))
  have a2: "files_ok s" by (simp add: files_ok_def inv none u(6))
  have a3: "length (processes s) = 12" "first_zero (processes s) = Some 0" "first_zero (file_descriptors s) = Some 0" "(0 :: nat) < 511"
    unfolding u(5,6) by (simp_all add: first_zero_replicate)
  have path: "root_path s (blank_bin_at s) name" using u(10-13) by (simp add: root_path_def)
  have cl: "a \<in> heap_area s" if a: "a \<in> word_at (cluster_stream s)" for a
  proof -
    have "a \<in> word_at (cluster_stream s + word_of_nat 0)" using a by simp
    from word_in_block [OF inv vf(2) _ this] show ?thesis using live_in_area [OF inv vf(2)] by simp
  qed
  have a9: "\<forall>j \<le> 108. blank_bin_at s + word_of_nat j \<notin> heap_area s \<union> word_at (cluster_stream s)" using u(10) cl by blast
  have a12: "\<forall>a \<in> heap_area s. unat a < 2 ^ 31" by (simp add: u(2))
  have a13: "\<forall>x \<in> set (all_blocks s []) \<union> ran (open_files s). \<forall>a. in_page x a \<longrightarrow> a \<notin> word_at (cluster_stream s)"
    "ran (open_files s) \<inter> set (all_blocks s []) = {}" by (simp_all add: all_blocks_def none)
  have a15: "(card (kheap_allocs s) + 9) * (blocks_of (word_of_nat n) + 3) + 1036 \<le> kheap_vacant s"
  proof -
    have "unat (word_of_nat n :: u32) = n" using f(3) by (intro unat_of_nat32) simp
    then have "blocks_of (word_of_nat n) \<le> 19" using f(3) by (simp add: blocks_of_def)
    then have "(card (kheap_allocs s) + 9) * (blocks_of (word_of_nat n) + 3) \<le> 1040 * 22" using u(3) by (intro mult_le_mono) simp_all
    then show ?thesis using u(4) by simp
  qed
  from process_load_ok [OF a1 a2 a3 vf(1) path a9 u(14,15) a12 a13 a15, of 0]
  obtain p t s1 where "process_load fat16_objects (blank_bin_at s) 0 s = Inr (0, p, s1)" "process_get (int 0) s1 = Inr p" "tasks_inv s1 ([] @ [t])"
    "get s1 t T_PROCESS = p" "get s1 t R_IP = 0x400000" "get s1 t R_ESP = 0x3ff000" "current_task s1 = (if [] = ([] :: u32 list) then t else current_task s)"
    "task_sees s1 t 0x400000 (map (disk_byte img) [pos..<pos + n])" "files_ok s1" "open_files s1 = open_files s" "load_change s s1" by blast
  then show thesis by (intro that [of p s1 t]) (simp_all add: none)
qed

section \<open>Properties: kernel start\<close>



section \<open>A kernel and its disk for the witness\<close>

text \<open>
  The volume of \<open>boot_img\<close>, and an image with the path \<^verbatim>\<open>0:/blank.bin\<close> at \<^verbatim>\<open>0x110000\<close>, \<^verbatim>\<open>r\<close> at \<^verbatim>\<open>0x110100\<close>, the keyboard at
  \<^verbatim>\<open>0x110200\<close>, the task state segment at \<^verbatim>\<open>0x120000\<close>, \<^verbatim>\<open>fat16_fs\<close> at \<^verbatim>\<open>0x130000\<close> and the disk at \<^verbatim>\<open>0x140000\<close>.
\<close>

definition boot_memory :: memory where
  "boot_memory = (\<lambda>_. 0)(0x110000 := 48, 0x110001 := 58, 0x110002 := 47, 0x110003 := 98, 0x110004 := 108, 0x110005 := 97,
     0x110006 := 110, 0x110007 := 107, 0x110008 := 46, 0x110009 := 98, 0x11000A := 105, 0x11000B := 110,
     0x110100 := 114, 0x110202 := 0x10)"

definition boot_sample :: kernelstate where
  "boot_sample = \<lparr>mem = boot_memory, video_mem = 0, terminal_row = 0, terminal_col = 0, kernel_heap = fresh_heap,
     cr3 = 0, paging_enabled = False, current_directory = 0, kernel_chunk = 0, current_task = 0, task_tail = 0,
     task_head = 0, data_segment = 0x10, ports = [], device = ata_of boot_img, disk_at = 0x140000, disk_type = 0,
     sector_size = 0, disk_id = 0, disk_filesystem = 0, fs_private = 0, fat16_fs = 0x130000,
     filesystems = replicate 12 0, file_descriptors = replicate 512 0, current_process = 0,
     processes = replicate 12 0, literal_r = 0x110100, idt_descriptors = replicate 512 zero_desc,
     idtr_descriptor = \<lparr>idtr_limit = 0, idtr_base = 0\<rparr>, interrupt_callbacks = replicate 512 0, isr80h_commands = replicate 1024 0,
     idtr = \<lparr>idtr_limit = 0, idtr_base = 0\<rparr>, idt_descriptors_at = 0x150000, interrupt_pointer_table = replicate 512 0x102000,
     idt_zero_at = 0x102100, isr80h_wrapper_at = 0x102200, keyboard_list_head = 0, keyboard_list_last = 0, ps2_keyboard = 0x110200,
     ps2_handler_at = 0x102300, gdt_real = [], gdtr = [], task_register = 0, tss_at = 0x120000, blank_bin_at = 0x110000,
     ps2_init_at = 0x100000, command0_at = 0x102400, command1_at = 0x102500, print_buff_at = 0x160000\<rparr>"

lemma boot_sample_byte:
  assumes "0x110000 \<le> k" "k < 0x110300"
  shows "image_byte boot_sample (word_of_nat k)"
proof -
  have "unat (word_of_nat k :: u32) = k" by (rule unat_of_nat32) (use assms in simp)
  then have "unat (word_of_nat k - 0x120000 :: u32) = k + 2 ^ 32 - 0x120000" "unat (word_of_nat k - 0x130018 :: u32) = k + 2 ^ 32 - 0x130018"
    using assms by (simp_all add: unat_sub_if')
  then show ?thesis using assms \<open>unat (word_of_nat k :: u32) = k\<close> by (simp add: image_byte_def boot_sample_def)
qed

lemma boot_sample_image: "kernel_image boot_sample [98, 108, 97, 110, 107, 46, 98, 105, 110]"
proof -
  have path: "\<forall>j \<le> 108. image_byte boot_sample (blank_bin_at boot_sample + word_of_nat j)"
  proof (intro allI impI)
    fix j :: nat
    assume "j \<le> 108"
    then have "image_byte boot_sample (word_of_nat (0x110000 + j))" by (intro boot_sample_byte) simp_all
    then show "image_byte boot_sample (blank_bin_at boot_sample + word_of_nat j)" by (simp add: boot_sample_def)
  qed
  have r: "image_byte boot_sample (literal_r boot_sample)" using boot_sample_byte [of "0x110100"] by (simp add: boot_sample_def)
  have kb: "\<forall>a \<in> word_at (ps2_keyboard boot_sample + K_INIT). image_byte boot_sample a"
    using boot_sample_byte [of "0x110200"] boot_sample_byte [of "0x110201"] boot_sample_byte [of "0x110202"] boot_sample_byte [of "0x110203"]
    by (simp add: word_at_def K_INIT_def) (simp add: boot_sample_def)
  have lits: "cstr_at boot_memory 0x110000 (48 # 58 # 47 # [98, 108, 97, 110, 107, 46, 98, 105, 110])" "boot_memory 0x110100 = 114"
    "load32 boot_memory 0x110200 = 0x100000" by (simp_all add: boot_memory_def load32_def)
  have f: "mem boot_sample = boot_memory" "blank_bin_at boot_sample = 0x110000" "literal_r boot_sample = 0x110100"
    "ps2_keyboard boot_sample = 0x110200" "ps2_init_at boot_sample = 0x100000" "tss_at boot_sample = 0x120000"
    "fat16_fs boot_sample = 0x130000" "disk_at boot_sample = 0x140000" "interrupt_pointer_table boot_sample = replicate 512 0x102000"
    "processes boot_sample = replicate 12 0" "current_task boot_sample = 0" "task_head boot_sample = 0" "task_tail boot_sample = 0"
    "keyboard_list_last boot_sample = 0" "interrupt_callbacks boot_sample = replicate 512 0" "isr80h_commands boot_sample = replicate 1024 0"
    by (simp_all only: boot_sample_def kernelstate.simps keystate.simps idtstate.simps procstate.simps filestate.simps fatstate.simps
        dstate.simps iostate.simps tstate.simps pstate.simps kstate.simps machine.simps)
  show ?thesis
    unfolding kernel_image_def using path r kb lits by (simp only: f) (simp add: part_names_def K_INIT_def)
qed


end
