(* ===== verification/KeyboardProps.thy ===== *)
theory KeyboardProps
  imports Keyboard
begin

text \<open>
  The key buffer of a process is a queue: \<open>key_queue\<close> states the contract, \<open>keys\<close> reads the queue out
  of the ring in memory, and the operations of keyboard.c are shown to meet the contract as long as
  the ring is not full. Then the table of scan codes.
\<close>

section \<open>The contract of a key queue\<close>

locale key_queue =
  fixes inv :: "'s \<Rightarrow> bool" and contents :: "'s \<Rightarrow> u8 list" and room :: "'s \<Rightarrow> nat"
    and push :: "u8 \<Rightarrow> 's \<Rightarrow> 's outcome" and pop :: "'s \<Rightarrow> (u8 \<times> 's) outcome"
    and bksp :: "'s \<Rightarrow> 's outcome"
  assumes push_law: "inv s \<Longrightarrow> c \<noteq> 0 \<Longrightarrow> 0 < room s \<Longrightarrow>
      \<exists>s'. push c s = Inr s' \<and> inv s' \<and> contents s' = contents s @ [c] \<and> room s = Suc (room s')"
    and pop_law: "inv s \<Longrightarrow> contents s = c # cs \<Longrightarrow>
      \<exists>s'. pop s = Inr (c, s') \<and> inv s' \<and> contents s' = cs"
    and pop_empty: "inv s \<Longrightarrow> contents s = [] \<Longrightarrow> pop s = Inr (0, s)"
    and back_law: "inv s \<Longrightarrow> contents s \<noteq> [] \<Longrightarrow>
      \<exists>s'. bksp s = Inr s' \<and> inv s' \<and> contents s' = butlast (contents s)"
begin

fun pop_all :: "nat \<Rightarrow> 's \<Rightarrow> (u8 list \<times> 's) outcome" where
  "pop_all 0 s = Inr ([], s)"
| "pop_all (Suc n) s = bnd (pop s) (\<lambda>(c, s1). bnd (pop_all n s1) (\<lambda>(cs, s2). Inr (c # cs, s2)))"

lemma push_list:
  assumes "inv s" "0 \<notin> set cs" "length cs \<le> room s"
  shows "\<exists>s'. for_each push cs s = Inr s' \<and> inv s' \<and> contents s' = contents s @ cs"
  using assms
proof (induction cs arbitrary: s)
  case (Cons c cs)
  then have "c \<noteq> 0" "0 < room s" by auto
  from push_law [OF Cons.prems(1) this] obtain s1 where
    s1: "push c s = Inr s1" "inv s1" "contents s1 = contents s @ [c]" "room s = Suc (room s1)" by blast
  have "0 \<notin> set cs" "length cs \<le> room s1" using Cons.prems s1(4) by auto
  from Cons.IH [OF s1(2) this] s1 show ?case by auto
qed simp

lemma pop_list: "inv s \<Longrightarrow> contents s = cs \<Longrightarrow> \<exists>s'. pop_all (length cs) s = Inr (cs, s') \<and> inv s' \<and> contents s' = []"
proof (induction cs arbitrary: s)
  case (Cons c cs)
  from pop_law [OF Cons.prems] obtain s1 where s1: "pop s = Inr (c, s1)" "inv s1" "contents s1 = cs" by blast
  from Cons.IH [OF s1(2,3)] s1(1) show ?case by auto
qed simp

lemma push_back_id:
  assumes "inv s" "c \<noteq> 0" "0 < room s"
  shows "\<exists>s1 s2. push c s = Inr s1 \<and> bksp s1 = Inr s2 \<and> inv s2 \<and> contents s2 = contents s"
proof -
  from push_law [OF assms] obtain s1 where
    s1: "push c s = Inr s1" "inv s1" "contents s1 = contents s @ [c]" by blast
  with back_law [OF s1(2)] show ?thesis by auto
qed

end

section \<open>The ring in memory\<close>

definition head_of :: "memory \<Rightarrow> u32 \<Rightarrow> nat" where "head_of m p = unat (load32 m (p + P_HEAD))"
definition tail_of :: "memory \<Rightarrow> u32 \<Rightarrow> nat" where "tail_of m p = unat (load32 m (p + P_TAIL))"
definition slot :: "memory \<Rightarrow> u32 \<Rightarrow> nat \<Rightarrow> u8" where
  "slot m p k = m (p + P_BUFFER + word_of_nat (k mod 1024))"

definition keys :: "u32 \<Rightarrow> 'a procstate_scheme \<Rightarrow> u8 list" where
  "keys p s = map (slot (mem s) p) [head_of (mem s) p..<tail_of (mem s) p]"

definition ring_ok :: "memory \<Rightarrow> u32 \<Rightarrow> bool" where
  "ring_ok m p \<longleftrightarrow> head_of m p \<le> tail_of m p \<and> tail_of m p \<le> head_of m p + 1024 \<and> tail_of m p < 2 ^ 31
     \<and> (\<forall>k. head_of m p \<le> k \<and> k < tail_of m p \<longrightarrow> slot m p k \<noteq> 0)
     \<and> (\<forall>k. tail_of m p \<le> k \<and> k < head_of m p + 1024 \<longrightarrow> slot m p k = 0)"

text \<open>The process runs: it is the current one, and the process of the current task.\<close>

definition in_ring :: "u32 \<Rightarrow> u32 \<Rightarrow> bool" where
  "in_ring p a \<longleftrightarrow> unat (a - (p + P_BUFFER)) < 1032"

definition key_inv :: "u32 \<Rightarrow> 'a procstate_scheme \<Rightarrow> bool" where
  "key_inv p s \<longleftrightarrow> p \<noteq> 0 \<and> current_process s = p \<and> current_task s \<noteq> 0
     \<and> get s (current_task s) T_PROCESS = p
     \<and> (\<forall>j < 4. \<not> in_ring p (current_task s + 60 + word_of_nat j))
     \<and> ring_ok (mem s) p"

definition key_room :: "u32 \<Rightarrow> 'a procstate_scheme \<Rightarrow> nat" where
  "key_room p s = min (head_of (mem s) p + 1024 - tail_of (mem s) p) (2 ^ 31 - 1 - tail_of (mem s) p)"

text \<open>The ring slots and the two counters are different bytes.\<close>

lemma slot_address_inj:
  fixes p :: u32
  assumes "i < 1032" "j < 1032" "p + 4224 + word_of_nat i = p + 4224 + word_of_nat j"
  shows "i = j"
proof -
  from assms(3) have "(word_of_nat i :: u32) = word_of_nat j" by simp
  then have "unat (word_of_nat i :: u32) = unat (word_of_nat j :: u32)" by simp
  then show ?thesis using assms(1,2) by (simp add: unat_of_nat32)
qed

lemma store32_bytes: "store32 m a w x \<noteq> m x \<Longrightarrow> \<exists>j < 4. x = a + word_of_nat j"
  by (rule ccontr) (auto simp: store32_def All_less_Suc numeral_eq_Suc split: if_splits)

lemma slot_store_counter:
  assumes "d = 1024 \<or> d = 1028"
  shows "slot (store32 m (p + 4224 + word_of_nat d) w) p k = slot m p k"
proof (rule ccontr)
  assume "slot (store32 m (p + 4224 + word_of_nat d) w) p k \<noteq> slot m p k"
  then obtain j where j: "j < 4" "p + 4224 + word_of_nat (k mod 1024) = p + 4224 + word_of_nat (d + j)"
    using store32_bytes by (fastforce simp: slot_def process_layout add.assoc)
  have "k mod 1024 = d + j" by (rule slot_address_inj [OF _ _ j(2)]) (use j(1) assms in auto)
  moreover have "k mod 1024 < 1024" by simp
  ultimately show False using assms by linarith
qed

lemma counters: "p + P_TAIL = p + 4224 + word_of_nat 1024" "p + P_HEAD = p + 4224 + word_of_nat 1028"
  by (simp_all add: process_layout)

lemma slot_store_tail [simp]: "slot (store32 m (p + P_TAIL) w) p k = slot m p k"
  and slot_store_head [simp]: "slot (store32 m (p + P_HEAD) w) p k = slot m p k"
  unfolding counters by (rule slot_store_counter, simp)+

lemma load_counter_store:
  "load32 (store32 m (p + P_TAIL) w) (p + P_HEAD) = load32 m (p + P_HEAD)"
  "load32 (store32 m (p + P_HEAD) w) (p + P_TAIL) = load32 m (p + P_TAIL)"
  by (simp_all add: load32_def store32_def process_layout)

lemma head_tail_store [simp]:
  "head_of (store32 m (p + P_TAIL) w) p = head_of m p" "tail_of (store32 m (p + P_TAIL) w) p = unat w"
  "tail_of (store32 m (p + P_HEAD) w) p = tail_of m p" "head_of (store32 m (p + P_HEAD) w) p = unat w"
  by (simp_all add: head_of_def tail_of_def load_counter_store)

lemma counter_upd:
  assumes "i < 1024" "d = 1024 \<or> d = 1028"
  shows "load32 (m(p + 4224 + word_of_nat i := c)) (p + 4224 + word_of_nat d) = load32 m (p + 4224 + word_of_nat d)"
proof (rule load32_cong)
  have ne: "p + 4224 + word_of_nat d + word_of_nat j \<noteq> p + 4224 + word_of_nat i" if "j < 4" for j
  proof
    assume "p + 4224 + word_of_nat d + word_of_nat j = p + 4224 + word_of_nat i"
    then have "p + 4224 + word_of_nat (d + j) = p + 4224 + word_of_nat i" by (simp add: add.assoc)
    then have "d + j = i" by (rule slot_address_inj [rotated 2]) (use assms that in auto)
    with assms show False by linarith
  qed
  show "(m(p + 4224 + word_of_nat i := c)) (p + 4224 + word_of_nat d) = m (p + 4224 + word_of_nat d)"
    "(m(p + 4224 + word_of_nat i := c)) (p + 4224 + word_of_nat d + 1) = m (p + 4224 + word_of_nat d + 1)"
    "(m(p + 4224 + word_of_nat i := c)) (p + 4224 + word_of_nat d + 2) = m (p + 4224 + word_of_nat d + 2)"
    "(m(p + 4224 + word_of_nat i := c)) (p + 4224 + word_of_nat d + 3) = m (p + 4224 + word_of_nat d + 3)"
    using ne [of 0] ne [of 1] ne [of 2] ne [of 3] by simp_all
qed

definition set_slot :: "u32 \<Rightarrow> nat \<Rightarrow> u8 \<Rightarrow> memory \<Rightarrow> memory" where
  "set_slot p k c m = m(p + P_BUFFER + word_of_nat (k mod 1024) := c)"

lemma head_tail_set_slot [simp]:
  "head_of (set_slot p k c m) p = head_of m p" "tail_of (set_slot p k c m) p = tail_of m p"
  using counter_upd [of "k mod 1024" 1024 m p c] counter_upd [of "k mod 1024" 1028 m p c]
  unfolding head_of_def tail_of_def counters by (simp_all add: set_slot_def P_BUFFER_def)

lemma slot_set_slot: "slot (set_slot p k c m) p i = (if i mod 1024 = k mod 1024 then c else slot m p i)"
  using slot_address_inj [of "i mod 1024" "k mod 1024" p] by (auto simp: slot_def set_slot_def process_layout)

text \<open>Two indices of one turn of the ring are the same slot only when they are equal.\<close>

lemma mod_window:
  fixes i k h :: nat
  assumes "i mod 1024 = k mod 1024" "h \<le> i" "i < h + 1024" "h \<le> k" "k < h + 1024"
  shows "i = k"
proof -
  have no: "\<not> x < y" if "x mod 1024 = y mod 1024" "h \<le> x" "y < h + 1024" for x y :: nat
  proof
    assume "x < y"
    then have "1024 dvd y - x" using that(1) mod_eq_dvd_iff_nat [of x y 1024] by simp
    then have "1024 \<le> y - x" using \<open>x < y\<close> by (intro dvd_imp_le) simp_all
    then show False using that(2,3) by linarith
  qed
  from no [of i k] no [of k i] assms show ?thesis by linarith
qed

section \<open>The operations on the queue\<close>

lemma nat_smod: "int a smod 1024 = int (a mod 1024)"
  by (cases "a = 0"; simp add: signed_modulo_int_def signed_divide_int_def zmod_int zdiv_int minus_div_mult_eq_mod)

lemma sint_counter: "unat w < 2 ^ 31 \<Longrightarrow> sint (w :: u32) smod 1024 = int (unat w mod 1024)"
  by (simp only: sint_small nat_smod)

lemma buffer_set_slot:
  "buffer_set p (int (k mod 1024)) c s = Inr (s\<lparr>mem := set_slot p k c (mem s)\<rparr>)"
  by (simp add: buffer_set_def GUAVAOS_KEYBOARD_BUFFER_SIZE_def set_slot_def)

lemma buffer_get_slot: "buffer_get p (int (k mod 1024)) s = Inr (slot (mem s) p k)"
  by (simp add: buffer_get_def GUAVAOS_KEYBOARD_BUFFER_SIZE_def slot_def)

lemma c_int_in: "- (2 ^ 31) \<le> i \<Longrightarrow> i < 2 ^ 31 \<Longrightarrow> c_int i = Inr i"
  by (simp add: c_int_def)

text \<open>Updates of the counters and of the ring's bytes leave the task's pointer to its process.\<close>

lemma process_kept:
  assumes "\<forall>j < 4. \<not> in_ring p (t + 60 + word_of_nat j)"
    and "\<And>a. \<not> in_ring p a \<Longrightarrow> m' a = m a"
  shows "ldw m' t T_PROCESS = ldw m t T_PROCESS"
proof -
  have "m' (t + 60 + word_of_nat j) = m (t + 60 + word_of_nat j)" if "j < 4" for j
    using assms that by blast
  from this [of 0] this [of 1] this [of 2] this [of 3] show ?thesis
    by (simp add: ldw_def T_PROCESS_def load32_def)
qed

lemma in_ring_offset: "i < 1032 \<Longrightarrow> in_ring p (p + 4224 + word_of_nat i)"
  by (simp add: in_ring_def process_layout unat_of_nat32)

lemma store_counter_outside:
  assumes "\<not> in_ring p a"
  shows "store32 m (p + P_TAIL) w a = m a" "store32 m (p + P_HEAD) w a = m a"
proof -
  have ne: "a \<noteq> p + 4224 + word_of_nat d + word_of_nat j" if "d + j < 1032" for d j
  proof -
    have "a \<noteq> p + 4224 + word_of_nat (d + j)" using assms in_ring_offset [OF that] by blast
    then show ?thesis by (simp only: of_nat_add add.assoc) simp
  qed
  have *: "store32 m (p + 4224 + word_of_nat d) w a = m a" if "d = 1024 \<or> d = 1028" for d
  proof (rule ccontr)
    assume "store32 m (p + 4224 + word_of_nat d) w a \<noteq> m a"
    then obtain j where "j < 4" "a = p + 4224 + word_of_nat d + word_of_nat j" using store32_bytes by blast
    with ne [of d j] that show False by auto
  qed
  show "store32 m (p + P_TAIL) w a = m a" "store32 m (p + P_HEAD) w a = m a"
    unfolding counters by (rule *, simp)+
qed

lemma set_slot_outside: "\<not> in_ring p a \<Longrightarrow> set_slot p k c m a = m a"
  using in_ring_offset [of "k mod 1024" p] by (auto simp: set_slot_def P_BUFFER_def)

lemma key_inv_intro:
  assumes "key_inv p s" "ring_ok m p" "\<And>a. \<not> in_ring p a \<Longrightarrow> m a = mem s a"
  shows "key_inv p (s\<lparr>mem := m\<rparr>)"
  using assms process_kept [of p "current_task s" m "mem s"] by (auto simp: key_inv_def get_def)

lemma keyboard_push_ok:
  assumes inv: "key_inv p s" and c: "c \<noteq> 0" and room: "0 < key_room p s"
  shows "\<exists>s'. keyboard_push c s = Inr s' \<and> key_inv p s' \<and> keys p s' = keys p s @ [c]
    \<and> key_room p s = Suc (key_room p s')"
proof -
  define h t where "h = head_of (mem s) p" and "t = tail_of (mem s) p"
  have ring: "ring_ok (mem s) p" and p: "p \<noteq> 0" "current_process s = p" using inv by (simp_all add: key_inv_def)
  have b: "h \<le> t" "t < h + 1024" "t + 1 < 2 ^ 31" using ring room by (auto simp: ring_ok_def key_room_def h_def t_def)
  define m1 where "m1 = set_slot p t c (mem s)"
  define m2 where "m2 = store32 m1 (p + P_TAIL) (word_of_int (int t + 1))"
  have t: "unat (load32 (mem s) (p + P_TAIL)) = t" by (simp add: t_def tail_of_def)
  have idx: "keyboard_get_tail_index (mem s) p = int (t mod 1024)"
    using sint_counter [of "load32 (mem s) (p + P_TAIL)"] b
    by (simp add: keyboard_get_tail_index_def GUAVAOS_KEYBOARD_BUFFER_SIZE_def t)
  have "tail_of m1 p = t" by (simp add: m1_def t_def)
  then have t1: "sint (load32 m1 (p + P_TAIL)) = int t" using b sint_small [of "load32 m1 (p + P_TAIL)"] by (simp add: tail_of_def)
  have "c_int (int t + 1) = Inr (int t + 1)" using b by (intro c_int_in) simp_all
  then have run: "keyboard_push c s = Inr (s\<lparr>mem := m2\<rparr>)"
    using p by (simp add: keyboard_push_def process_current_def Let_def idx buffer_set_slot m1_def [symmetric] t1 m2_def
        st32_def)
  have "unat (word_of_nat (Suc t) :: u32) = Suc t" using b by (intro unat_of_nat32) simp
  then have u: "unat (word_of_int (int t + 1) :: u32) = Suc t" by (simp add: add.commute)
  have ht: "head_of m2 p = h" "tail_of m2 p = Suc t" unfolding m2_def by (simp_all only: head_tail_store u) (simp add: m1_def h_def)
  have sl: "slot m2 p k = (if k mod 1024 = t mod 1024 then c else slot (mem s) p k)" for k
    by (simp add: m2_def m1_def slot_set_slot)
  have same: "slot m2 p k = (if k = t then c else slot (mem s) p k)" if "h \<le> k" "k < h + 1024" for k
    using mod_window [of k t h] that b by (auto simp: sl)
  have "ring_ok m2 p"
    using ring b c same by (auto simp: ring_ok_def ht h_def [symmetric] t_def [symmetric] less_Suc_eq)
  moreover have "m2 a = mem s a" if "\<not> in_ring p a" for a
    using that by (simp add: m2_def m1_def store_counter_outside set_slot_outside)
  ultimately have inv': "key_inv p (s\<lparr>mem := m2\<rparr>)" by (rule key_inv_intro [OF inv])
  have "keys p (s\<lparr>mem := m2\<rparr>) = map (slot m2 p) [h..<t] @ [slot m2 p t]"
    using b by (simp add: keys_def ht)
  also have "\<dots> = map (slot (mem s) p) [h..<t] @ [c]" using b by (auto simp: same)
  finally have "keys p (s\<lparr>mem := m2\<rparr>) = keys p s @ [c]" by (simp add: keys_def h_def t_def)
  moreover have "key_room p s = Suc (key_room p (s\<lparr>mem := m2\<rparr>))"
    using b by (simp add: key_room_def ht h_def [symmetric] t_def [symmetric])
  ultimately show ?thesis using run inv' by blast
qed

text \<open>Storing zero in a slot and moving one counter past it removes that key.\<close>

lemma keyboard_pop_ok:
  assumes inv: "key_inv p s" and ks: "keys p s = c # cs"
  shows "\<exists>s'. keyboard_pop s = Inr (c, s') \<and> key_inv p s' \<and> keys p s' = cs"
proof -
  define h t where "h = head_of (mem s) p" and "t = tail_of (mem s) p"
  have ring: "ring_ok (mem s) p" and run: "current_task s \<noteq> 0" "get s (current_task s) T_PROCESS = p"
    using inv by (simp_all add: key_inv_def)
  have ht: "h < t" using ks by (auto simp: keys_def h_def t_def intro: ccontr)
  have b: "t \<le> h + 1024" "t < 2 ^ 31" using ring by (simp_all add: ring_ok_def h_def t_def)
  have split: "keys p s = slot (mem s) p h # map (slot (mem s) p) [Suc h..<t]"
    using ht by (simp add: keys_def h_def t_def upt_conv_Cons)
  have c: "slot (mem s) p h = c" "map (slot (mem s) p) [Suc h..<t] = cs" using split ks by simp_all
  have c0: "c \<noteq> 0" using ring ht c(1) by (auto simp: ring_ok_def h_def t_def)
  define m1 where "m1 = set_slot p h 0 (mem s)"
  define m2 where "m2 = store32 m1 (p + P_HEAD) (word_of_int (int h + 1))"
  have h: "unat (load32 (mem s) (p + P_HEAD)) = h" by (simp add: h_def head_of_def)
  have idx: "sint (load32 (mem s) (p + P_HEAD)) smod GUAVAOS_KEYBOARD_BUFFER_SIZE = int (h mod 1024)"
    using sint_counter [of "load32 (mem s) (p + P_HEAD)"] b ht by (simp add: GUAVAOS_KEYBOARD_BUFFER_SIZE_def h)
  have "head_of m1 p = h" by (simp add: m1_def h_def)
  then have h1: "sint (load32 m1 (p + P_HEAD)) = int h" using b ht sint_small [of "load32 m1 (p + P_HEAD)"] by (simp add: head_of_def)
  have "c_int (int h + 1) = Inr (int h + 1)" using b ht by (intro c_int_in) simp_all
  then have pop: "keyboard_pop s = Inr (c, s\<lparr>mem := m2\<rparr>)"
    using run c0 by (simp add: keyboard_pop_def task_current_def Let_def idx buffer_get_slot buffer_set_slot c(1)
        m1_def [symmetric] h1 m2_def st32_def)
  have "unat (word_of_nat (Suc h) :: u32) = Suc h" using b ht by (intro unat_of_nat32) simp
  then have u: "unat (word_of_int (int h + 1) :: u32) = Suc h" by (simp add: add.commute)
  have ht2: "head_of m2 p = Suc h" "tail_of m2 p = t"
    unfolding m2_def by (simp_all only: head_tail_store u) (simp add: m1_def t_def)
  have sl: "slot m2 p k = (if k mod 1024 = h mod 1024 then 0 else slot (mem s) p k)" for k
    by (simp add: m2_def m1_def slot_set_slot)
  have same: "slot m2 p k = slot (mem s) p k" if "h < k" "k < h + 1024" for k
    using mod_window [of k h h] that by (auto simp: sl)
  have wrapped: "slot m2 p k = 0" if "t \<le> k" "k < Suc h + 1024" for k
  proof (cases "k < h + 1024")
    case True
    then have "slot (mem s) p k = 0" using ring that by (simp add: ring_ok_def h_def t_def)
    then show ?thesis by (simp add: sl)
  next
    case False
    then have "k = h + 1024" using that by simp
    then show ?thesis by (simp add: sl)
  qed
  have "ring_ok m2 p"
    using ring b ht same wrapped by (auto simp: ring_ok_def ht2 h_def [symmetric] t_def [symmetric])
  moreover have "m2 a = mem s a" if "\<not> in_ring p a" for a
    using that by (simp add: m2_def m1_def store_counter_outside set_slot_outside)
  ultimately have inv': "key_inv p (s\<lparr>mem := m2\<rparr>)" by (rule key_inv_intro [OF inv])
  have "keys p (s\<lparr>mem := m2\<rparr>) = cs"
    using b same c(2) by (auto simp: keys_def ht2)
  with pop inv' show ?thesis by blast
qed

lemma keyboard_backspace_ok:
  assumes inv: "key_inv p s" and ks: "keys p s \<noteq> []"
  shows "\<exists>s'. keyboard_backspace p s = Inr s' \<and> key_inv p s' \<and> keys p s' = butlast (keys p s)"
proof -
  define h t where "h = head_of (mem s) p" and "t = tail_of (mem s) p - 1"
  have ring: "ring_ok (mem s) p" using inv by (simp add: key_inv_def)
  have "h < tail_of (mem s) p" using ks by (simp add: keys_def h_def)
  then have ht: "h \<le> t" "tail_of (mem s) p = Suc t" by (simp_all add: t_def)
  have b: "t < h + 1024" "Suc t < 2 ^ 31" using ring ht by (simp_all add: ring_ok_def h_def)
  define m1 where "m1 = store32 (mem s) (p + P_TAIL) (word_of_int (int t))"
  define m2 where "m2 = set_slot p t 0 m1"
  have t1: "sint (load32 (mem s) (p + P_TAIL)) - 1 = int t"
    using b ht(2) sint_small [of "load32 (mem s) (p + P_TAIL)"] by (simp add: tail_of_def)
  have "unat (word_of_nat t :: u32) = t" using b by (intro unat_of_nat32) simp
  then have u: "unat (word_of_int (int t) :: u32) = t" by simp
  have "tail_of m1 p = t" unfolding m1_def by (simp only: head_tail_store u)
  then have idx: "keyboard_get_tail_index m1 p = int (t mod 1024)"
    using sint_counter [of "load32 m1 (p + P_TAIL)"] b
    by (simp add: keyboard_get_tail_index_def GUAVAOS_KEYBOARD_BUFFER_SIZE_def tail_of_def)
  have "c_int (int t) = Inr (int t)" using b by (intro c_int_in) simp_all
  then have run: "keyboard_backspace p s = Inr (s\<lparr>mem := m2\<rparr>)"
    using idx by (simp only: keyboard_backspace_def t1 bnd.simps Let_def st32_state m1_def [symmetric] buffer_set_slot)
      (simp add: st32_def m2_def m1_def)
  have ht2: "head_of m2 p = h" "tail_of m2 p = t"
    unfolding m2_def m1_def by (simp_all only: head_tail_set_slot head_tail_store u) (simp add: h_def)
  have sl: "slot m2 p k = (if k mod 1024 = t mod 1024 then 0 else slot (mem s) p k)" for k
    by (simp add: m2_def m1_def slot_set_slot)
  have same: "slot m2 p k = (if k = t then 0 else slot (mem s) p k)" if "h \<le> k" "k < h + 1024" for k
    using mod_window [of k t h] that b ht by (auto simp: sl)
  have "ring_ok m2 p"
    using ring b ht same by (auto simp: ring_ok_def ht2 h_def [symmetric] less_Suc_eq)
  moreover have "m2 a = mem s a" if "\<not> in_ring p a" for a
    using that by (simp add: m2_def m1_def store_counter_outside set_slot_outside)
  ultimately have inv': "key_inv p (s\<lparr>mem := m2\<rparr>)" by (rule key_inv_intro [OF inv])
  have "keys p s = map (slot (mem s) p) [h..<t] @ [slot (mem s) p t]" using ht by (simp add: keys_def h_def)
  moreover have "keys p (s\<lparr>mem := m2\<rparr>) = map (slot (mem s) p) [h..<t]"
    using b same by (auto simp: keys_def ht2)
  ultimately have "keys p (s\<lparr>mem := m2\<rparr>) = butlast (keys p s)" by simp
  with run inv' show ?thesis by blast
qed

lemma keyboard_pop_empty:
  assumes "key_inv p s" "keys p s = []"
  shows "keyboard_pop s = Inr (0, s)"
proof -
  define h where "h = head_of (mem s) p"
  have ring: "ring_ok (mem s) p" and run: "current_task s \<noteq> 0" "get s (current_task s) T_PROCESS = p"
    using assms(1) by (simp_all add: key_inv_def)
  have ht: "tail_of (mem s) p = h" "h < 2 ^ 31" using assms(2) ring by (auto simp: keys_def ring_ok_def h_def)
  then have c: "slot (mem s) p h = 0" using ring by (auto simp: ring_ok_def h_def)
  have "sint (load32 (mem s) (p + P_HEAD)) smod GUAVAOS_KEYBOARD_BUFFER_SIZE = int (h mod 1024)"
    using sint_counter [of "load32 (mem s) (p + P_HEAD)"] ht
    by (simp add: GUAVAOS_KEYBOARD_BUFFER_SIZE_def h_def head_of_def)
  then show ?thesis using run c by (simp add: keyboard_pop_def task_current_def Let_def buffer_get_slot)
qed

interpretation kq: key_queue "key_inv p" "keys p" "key_room p" keyboard_push keyboard_pop "keyboard_backspace p" for p
  by unfold_locales (fact keyboard_push_ok keyboard_pop_ok keyboard_pop_empty keyboard_backspace_ok)+

section \<open>Properties: keyboard.c, ps2.c\<close>

text \<open>Taking \<open>n\<close> keys.\<close>

fun pop_keys :: "nat \<Rightarrow> 'a procstate_scheme \<Rightarrow> (u8 list \<times> 'a procstate_scheme) outcome" where
  "pop_keys 0 s = Inr ([], s)"
| "pop_keys (Suc n) s = bnd (keyboard_pop s) (\<lambda>(c, s1). bnd (pop_keys n s1) (\<lambda>(cs, s2). Inr (c # cs, s2)))"

text \<open>C19: The key buffer is a first-in first-out queue. When the running process has room for them, keys
  pushed by the interrupt are popped by the task in the order they were typed, after those that
  waited, across the wrap of the 1024-byte ring; then the buffer is empty and \<open>keyboard_pop\<close> answers 0.\<close>

theorem keyboard_is_fifo:
  assumes "key_inv p s" "0 \<notin> set cs" "length cs \<le> key_room p s"
  shows "\<exists>s1 s2. for_each keyboard_push cs s = Inr s1
    \<and> pop_keys (length (keys p s) + length cs) s1 = Inr (keys p s @ cs, s2)
    \<and> key_inv p s2 \<and> keyboard_pop s2 = Inr (0, s2)"
proof -
  have pops: "pop_keys n s = kq.pop_all n s" for n and s :: "'a procstate_scheme"
    by (induction n arbitrary: s) simp_all
  from kq.push_list [OF assms] obtain s1 where
    s1: "for_each keyboard_push cs s = Inr s1" "key_inv p s1" "keys p s1 = keys p s @ cs" by blast
  from kq.pop_list [OF s1(2,3)] kq.pop_empty s1(1) show ?thesis by (force simp: pops)
qed

text \<open>C32: Backspace takes back the last key: after a push it restores the queue. On an empty buffer whose tail
  is still 0 it writes before the buffer, which is outside the array.\<close>

theorem keyboard_backspace_undoes:
  assumes "key_inv p s" "c \<noteq> 0" "0 < key_room p s"
  shows "(\<exists>s1 s2. keyboard_push c s = Inr s1 \<and> keyboard_backspace p s1 = Inr s2 \<and> keys p s2 = keys p s)
    \<and> (tail_of (mem s) p = 0 \<longrightarrow> keyboard_backspace p s = Inl Undefined)"
proof
  show "\<exists>s1 s2. keyboard_push c s = Inr s1 \<and> keyboard_backspace p s1 = Inr s2 \<and> keys p s2 = keys p s"
    using kq.push_back_id [OF assms] by blast
  show "tail_of (mem s) p = 0 \<longrightarrow> keyboard_backspace p s = Inl Undefined"
  proof
    assume "tail_of (mem s) p = 0"
    then have "load32 (mem s) (p + P_TAIL) = 0" by (simp add: tail_of_def unsigned_eq_0_iff)
    then show "keyboard_backspace p s = Inl Undefined"
      by (simp add: keyboard_backspace_def c_int_def keyboard_get_tail_index_def buffer_set_def Let_def
          GUAVAOS_KEYBOARD_BUFFER_SIZE_def signed_modulo_int_def signed_divide_int_def)
  qed
qed

text \<open>A running process at \<^verbatim>\<open>0x4000\<close> with an empty buffer, its task at \<^verbatim>\<open>0x2000\<close>.\<close>

definition key_sample :: procstate where
  "key_sample = dstate.extend (disk_sample 0)
     \<lparr>fat16_fs = 0x9100, filesystems = [], file_descriptors = [], current_process = 0x4000, processes = [], literal_r = 0x9200\<rparr>
     \<lparr>mem := store32 (\<lambda>_. 0) 0x203C 0x4000, current_task := 0x2000\<rparr>"


lemma key_sample_high: "0x4000 \<le> unat x \<Longrightarrow> mem key_sample x = 0"
  by (auto simp: key_sample_def dstate.defs store32_def)

lemma key_sample_ok: "key_inv 0x4000 key_sample" "keys 0x4000 key_sample = []" "key_room 0x4000 key_sample = 1024"
proof -
  let ?m = "mem key_sample"
  have "load32 ?m 0x5480 = 0" "load32 ?m 0x5484 = 0" by (simp_all add: load32_def key_sample_high)
  then have ht: "head_of ?m 0x4000 = 0" "tail_of ?m 0x4000 = 0" by (simp_all add: head_of_def tail_of_def process_layout)
  have "slot ?m 0x4000 k = 0" for k
  proof -
    have "unat (word_of_nat (20608 + k mod 1024) :: u32) = 20608 + k mod 1024"
      by (intro unat_of_nat32) (simp add: less_trans [OF mod_less_divisor])
    then show ?thesis by (simp add: slot_def process_layout key_sample_high)
  qed
  then have "ring_ok ?m 0x4000" by (simp add: ring_ok_def ht)
  moreover have "get key_sample 0x2000 T_PROCESS = 0x4000"
    by (simp add: get_def ldw_def T_PROCESS_def key_sample_def dstate.defs)
  moreover have "\<forall>j < 4. \<not> in_ring 0x4000 (0x2000 + 60 + word_of_nat j)"
  proof (intro allI impI)
    fix j :: nat
    assume "j < 4"
    then have "j = 0 \<or> j = 1 \<or> j = 2 \<or> j = 3" by linarith
    then show "\<not> in_ring 0x4000 (0x2000 + 60 + word_of_nat j)"
      by (elim disjE) (simp_all add: in_ring_def process_layout)
  qed
  ultimately show "key_inv 0x4000 key_sample" by (simp add: key_inv_def key_sample_def dstate.defs)
  show "keys 0x4000 key_sample = []" "key_room 0x4000 key_sample = 1024" by (simp_all add: keys_def key_room_def ht)
qed

theorem keyboard_is_fifo_witness:
  "\<exists>s1 s2. for_each keyboard_push [72, 73] key_sample = Inr s1 \<and> pop_keys 2 s1 = Inr ([72, 73], s2)"
proof -
  have c: "0 \<notin> set [72, 73 :: u8]" "length [72, 73 :: u8] \<le> key_room 0x4000 key_sample"
    by (simp_all add: key_sample_ok(3))
  have l: "length (keys 0x4000 key_sample) + length [72, 73 :: u8] = 2" by (simp add: key_sample_ok(2))
  obtain s1 s2 where "for_each keyboard_push [72, 73] key_sample = Inr s1" "pop_keys 2 s1 = Inr ([72, 73], s2)"
    using keyboard_is_fifo [OF key_sample_ok(1) c, unfolded l, unfolded key_sample_ok(2) append_Nil] by blast
  then show ?thesis by blast
qed

theorem keyboard_backspace_undoes_witness:
  "(\<exists>s1 s2. keyboard_push 72 key_sample = Inr s1 \<and> keyboard_backspace 0x4000 s1 = Inr s2 \<and> keys 0x4000 s2 = [])"
  using keyboard_backspace_undoes [OF key_sample_ok(1), of 72] by (simp add: key_sample_ok(2,3))

text \<open>The scan code table: every code up to 81 gives its entry and every code above 82 gives 0, but the
  code 82, the length of the table, is read past the table's end.\<close>

theorem scancode_lookup:
  "ps2_scancode_to_char sc =
     (if unat sc < 82 then Inr (keyboard_scan_set_one ! unat sc)
      else if unat sc = 82 then Inl Undefined else Inr 0)"
proof -
  have len: "length keyboard_scan_set_one = 82" by (simp add: keyboard_scan_set_one_def)
  consider "unat sc < 82" | "unat sc = 82" | "82 < unat sc" by linarith
  then show ?thesis
  proof cases
    case 1
    then have "arr_get keyboard_scan_set_one (int (unat sc)) = Inr (keyboard_scan_set_one ! unat sc)"
      by (intro arr_get_in) (simp only: len)
    with 1 show ?thesis by (simp only: ps2_scancode_to_char_def len) simp
  next
    case 2
    have "arr_get keyboard_scan_set_one (int (unat sc)) = Inl Undefined"
      by (intro arr_get_out) (simp only: len 2, simp)
    with 2 show ?thesis by (simp only: ps2_scancode_to_char_def len) simp
  next
    case 3
    then show ?thesis by (simp only: ps2_scancode_to_char_def len) simp
  qed
qed

end
