(* ===== verification/Interrupts.thy ===== *)
theory Interrupts
  imports BootProps KeyboardProps
begin

text \<open>
  The keyboard interrupt across the components: what the driver's handler leaves alone (the tasks beside the key
  ring), and the path of a key from the port to the queue of the process that runs.
\<close>

section \<open>The key ring beside the tasks\<close>

lemma keyboard_push_frame:
  assumes "keyboard_push c s = Inr s'" "current_process s = p" "p \<noteq> 0"
  obtains m where "s' = s\<lparr>mem := m\<rparr>" "\<And>a. \<not> in_ring p a \<Longrightarrow> m a = mem s a"
proof -
  obtain i tail where i: "0 \<le> i" "i < 1024" "s' = s\<lparr>mem := store32 ((mem s)(p + P_BUFFER + word_of_int i := c)) (p + P_TAIL) (word_of_int tail)\<rparr>"
    using assms by (auto simp: keyboard_push_def process_current_def Let_def bnd_Inr_iff buffer_set_def GUAVAOS_KEYBOARD_BUFFER_SIZE_def st32_def split: if_splits)
  have "in_ring p (p + 4224 + word_of_nat (nat i))" by (rule in_ring_offset) (use i in simp)
  then have "in_ring p (p + P_BUFFER + word_of_int i)" using i(1) by (simp add: P_BUFFER_def)
  then have "store32 ((mem s)(p + P_BUFFER + word_of_int i := c)) (p + P_TAIL) (word_of_int tail) a = mem s a" if "\<not> in_ring p a" for a
    using store_counter_outside(1) [OF that] that by auto
  then show thesis using that i(3) by blast
qed

text \<open>The key ring of \<open>p\<close> lies outside every block of the tasks.\<close>

definition ring_apart :: "u32 \<Rightarrow> 'a tstate_scheme \<Rightarrow> u32 list \<Rightarrow> bool" where
  "ring_apart p s ts \<longleftrightarrow> (\<forall>x \<in> set (all_blocks s ts). \<forall>a. in_ring p a \<longrightarrow> \<not> in_page x a)"

lemma key_inv_cong:
  assumes "key_inv p s" "current_process s' = current_process s" "current_task s' = current_task s"
    and "get s' (current_task s) T_PROCESS = get s (current_task s) T_PROCESS" "\<And>a. in_ring p a \<Longrightarrow> mem s' a = mem s a"
  shows "key_inv p s'" "keys p s' = keys p s" "key_room p s' = key_room p s"
proof -
  have w: "mem s' (p + 4224 + word_of_nat i) = mem s (p + 4224 + word_of_nat i)" if "i < 1032" for i
    by (rule assms(5) [OF in_ring_offset [OF that]])
  have sl: "slot (mem s') p k = slot (mem s) p k" for k
    using w [of "k mod 1024"] less_trans [OF mod_less_divisor [of 1024 k]] by (simp add: slot_def P_BUFFER_def)
  have c: "load32 (mem s') (p + 4224 + word_of_nat d) = load32 (mem s) (p + 4224 + word_of_nat d)" if "d + 3 < 1032" for d
    using w [of d] w [of "d + 1"] w [of "d + 2"] w [of "d + 3"] that by (simp add: load32_def ac_simps)
  have ht: "head_of (mem s') p = head_of (mem s) p" "tail_of (mem s') p = tail_of (mem s) p"
    unfolding head_of_def tail_of_def counters by (simp_all only: c)
  have sf: "slot (mem s') p = slot (mem s) p" by (rule ext) (rule sl)
  show "key_inv p s'" using assms(1-4) by (simp add: key_inv_def ring_ok_def ht sl)
  show "keys p s' = keys p s" "key_room p s' = key_room p s" by (simp_all add: keys_def key_room_def ht sf)
qed

section \<open>The handlers\<close>

lemma type_key_ok:
  fixes u :: "'a procstate_scheme"
  assumes inv: "tasks_inv u ts" and key: "key_inv p u" "0 < key_room p u" and ap: "ring_apart p u ts"
  obtains m where "(if c \<noteq> 0 then keyboard_push c u else Inr u) = Inr (u\<lparr>mem := m\<rparr>)" "tasks_inv (u\<lparr>mem := m\<rparr>) ts" "key_inv p (u\<lparr>mem := m\<rparr>)"
    "keys p (u\<lparr>mem := m\<rparr>) = keys p u @ (if c \<noteq> 0 then [c] else [])"
    "\<And>f. f < 1024 \<Longrightarrow> get (u\<lparr>mem := m\<rparr>) (current_task u) f = get u (current_task u) f"
proof (cases "c = 0")
  case True
  have "u\<lparr>mem := mem u\<rparr> = u" by (cases u) simp
  then show ?thesis using True inv key by (intro that [of "mem u"]) simp_all
next
  case False
  obtain u' where u': "keyboard_push c u = Inr u'" "key_inv p u'" "keys p u' = keys p u @ [c]"
    using keyboard_push_ok [OF key(1) False key(2)] by blast
  have p: "current_process u = p" "p \<noteq> 0" "current_task u \<noteq> 0" using key(1) by (auto simp: key_inv_def)
  obtain m where m: "u' = u\<lparr>mem := m\<rparr>" "\<And>a. \<not> in_ring p a \<Longrightarrow> m a = mem u a" by (rule keyboard_push_frame [OF u'(1) p(1,2)], rule that)
  have same: "\<forall>x a. x \<in> set (all_blocks u ts) \<longrightarrow> in_page x a \<longrightarrow> mem u' a = mem u a"
    using ap m by (auto simp: ring_apart_def)
  have g: "task_head u' = task_head u" "task_tail u' = task_tail u" "current_task u' = current_task u" "kernel_heap u' = kernel_heap u"
    by (simp_all add: m(1))
  note o = tasks_inv_outside [OF inv g same]
  have "current_task u \<in> set ts" by (rule queue_current [OF tasks_inv_queue [OF inv] p(3)])
  then show ?thesis using that [of m] u' o(1,2) False unfolding m(1) by simp
qed

definition typed_key :: "u8 \<Rightarrow> u8 list" where
  "typed_key sc = (if sc AND 0x80 = 0 \<and> unat sc < 82 \<and> keyboard_scan_set_one ! unat sc \<noteq> 0 then [keyboard_scan_set_one ! unat sc] else [])"

text \<open>The driver's handler, in the kernel's page.\<close>

lemma ps2_handler_ok:
  fixes s :: "'a procstate_scheme"
  assumes inv: "tasks_inv s ts" and key: "key_inv p s" "0 < key_room p s" and ap: "ring_apart p s ts"
    and sc: "sc = ucast (device s (ports s) 0x60)" "unat sc \<noteq> 82"
  obtains s' b where "ps2_keyboard_handle_interrupt s = Inr s'" "ports s' = ports s @ [In8 0x60 sc, In8 0x60 b]" "current_task s' = current_task s"
    "tasks_inv s' ts" "key_inv p s'" "keys p s' = keys p s @ typed_key sc"
    "\<And>f. f < 1024 \<Longrightarrow> get s' (current_task s) f = get s (current_task s) f"
proof -
  define q where "q = load32 (mem s) (kernel_chunk s)"
  define b where "b = (ucast (device s (ports s @ [In8 0x60 sc]) 0x60) :: u8)"
  define u where "u = s\<lparr>data_segment := 0x10, cr3 := q, current_directory := q, ports := ports s @ [In8 0x60 sc, In8 0x60 b]\<rparr>"
  define k where "k = (kernel_page s)\<lparr>ports := ports s @ [In8 0x60 sc]\<rparr>"
  have i1: "insb 0x60 (kernel_page s) = (sc, k)" by (simp add: insb_def kernel_page_eq sc(1) k_def Let_def)
  have i2: "insb 0x60 k = (b, u)" by (simp add: insb_def kernel_page_eq k_def b_def u_def q_def Let_def)
  have run: "ps2_keyboard_handle_interrupt s = (if sc AND 0x80 \<noteq> 0 then Inr u
      else bnd (ps2_scancode_to_char sc) (\<lambda>c. bnd (if c \<noteq> 0 then keyboard_push c u else Inr u) (\<lambda>s4. Inr (snd (task_page s4)))))"
    by (simp add: ps2_keyboard_handle_interrupt_def KEYBOARD_INPUT_PORT_def PS2_KEYBOARD_KEY_RELEASED_def i1 i2)
  have u: "mem u = mem s" "kernel_heap u = kernel_heap s" "task_head u = task_head s" "task_tail u = task_tail s" "current_task u = current_task s"
    "current_process u = current_process s" by (simp_all add: u_def)
  have inv_u: "tasks_inv u ts" by (rule tasks_inv_switch(1) [OF inv]) (simp_all add: u)
  note ku = key_inv_cong [OF key(1) u(6,5)]
  have key_u: "key_inv p u" "keys p u = keys p s" "key_room p u = key_room p s" by (rule ku; simp add: u get_def)+
  have ap_u: "ring_apart p u ts" using ap by (simp add: ring_apart_def all_blocks_def task_blocks_def get_def u)
  define c where "c = (if unat sc < 82 then keyboard_scan_set_one ! unat sc else 0)"
  have conv: "ps2_scancode_to_char sc = Inr c" using sc(2) by (simp add: scancode_lookup c_def)
  show thesis
  proof (cases "sc AND 0x80 \<noteq> 0")
    case True
    then have t: "typed_key sc = []" "ps2_keyboard_handle_interrupt s = Inr u" by (simp_all add: typed_key_def run)
    show thesis by (rule that [OF t(2)]) (use inv_u key_u t(1) in \<open>simp_all add: u get_def\<close>, simp add: u_def)
  next
    case False
    then have ty: "typed_key sc = (if c \<noteq> 0 then [c] else [])" by (simp add: typed_key_def c_def)
    obtain m where m: "(if c \<noteq> 0 then keyboard_push c u else Inr u) = Inr (u\<lparr>mem := m\<rparr>)" "tasks_inv (u\<lparr>mem := m\<rparr>) ts" "key_inv p (u\<lparr>mem := m\<rparr>)"
      "keys p (u\<lparr>mem := m\<rparr>) = keys p u @ (if c \<noteq> 0 then [c] else [])"
      "\<And>f. f < 1024 \<Longrightarrow> get (u\<lparr>mem := m\<rparr>) (current_task u) f = get u (current_task u) f"
      by (rule type_key_ok [OF inv_u key_u(1) _ ap_u]) (use key(2) key_u(3) in simp, rule that)
    define v where "v = snd (task_page (u\<lparr>mem := m\<rparr>))"
    have r: "ps2_keyboard_handle_interrupt s = Inr v" using False by (simp add: run conv m(1) v_def)
    have v: "mem v = m" "kernel_heap v = kernel_heap s" "task_head v = task_head s" "task_tail v = task_tail s" "current_task v = current_task s"
      "current_process v = current_process s" "ports v = ports s @ [In8 0x60 sc, In8 0x60 b]"
      by (simp_all add: v_def task_page_eq u) (simp_all add: u_def)
    have inv_v: "tasks_inv v ts" by (rule tasks_inv_switch(1) [OF m(2)]) (simp_all add: v u)
    have key_v: "key_inv p v" "keys p v = keys p (u\<lparr>mem := m\<rparr>)" by (rule key_inv_cong [OF m(3)]; simp add: v u get_def)+
    have "get v (current_task s) f = get s (current_task s) f" if "f < 1024" for f
      using m(5) [OF that] by (simp add: get_def v u)
    then show thesis using that [OF r v(7,5) inv_v key_v(1)] key_v(2) m(4) key_u(2) ty by simp
  qed
qed

section \<open>The interrupt\<close>

lemma ring_apart_cong:
  assumes "ring_apart p s ts" "\<And>t. t \<in> set ts \<Longrightarrow> task_blocks s' t = task_blocks s t"
  shows "ring_apart p s' ts"
  using assms by (simp add: ring_apart_def set_all_blocks)

text \<open>C10: A key press reaches the running process. When interrupt \<^verbatim>\<open>0x21\<close> arrives in a well-formed system whose callback
  for it is the keyboard driver, and the process that runs has room in its key buffer, the handler saves the task's
  registers, reads the scan code from port \<^verbatim>\<open>0x60\<close> twice, appends the key of a pressed code to the process's queue (nothing
  for a released, an unknown or a keyless one), acknowledges the interrupt and goes back to the task's own pages; the run
  queue stays well formed. The scan code 82 reads past the end of the table.\<close>

theorem keyboard_interrupt:
  fixes s :: "'a kernelstate_scheme"
  assumes "tasks_inv s ts" "key_inv p s" "0 < key_room p s" "ring_apart p s ts"
    and "length (interrupt_callbacks s) = 512" "interrupt_callbacks s ! 0x21 = ps2_handler_at s" "ps2_handler_at s \<noteq> 0"
  shows "let sc = ucast (device s (ports s) 0x60); t = current_task s in
    if unat sc = 82 then interrupt_handler kernel_callbacks 0x21 fr s = Inl Undefined
    else \<exists>s' b. interrupt_handler kernel_callbacks 0x21 fr s = Inr s' \<and> keys p s' = keys p s @ typed_key sc
      \<and> key_inv p s' \<and> tasks_inv s' ts \<and> current_task s' = t \<and> get s' t R_IP = f_ip fr \<and> get s' t R_ESP = f_esp fr
      \<and> data_segment s' = 0x23 \<and> cr3 s' = load32 (mem s') (get s' t PAGE_DIRECTORY)
      \<and> ports s' = ports s @ [In8 0x60 sc, In8 0x60 b, Out8 0x20 0x20]"
proof -
  define sc where "sc = (ucast (device s (ports s) 0x60) :: u8)"
  define t where "t = current_task s"
  have t0: "current_task s \<noteq> 0" using assms(2) by (simp add: key_inv_def)
  have c: "current_task s = t" "t \<noteq> 0" using t0 by (simp_all add: t_def)
  obtain s2 m where e: "task_current_save_state fr (kernel_page s) = Inr s2" "s2 = (kernel_page s)\<lparr>mem := m\<rparr>" "t \<in> set ts" "tasks_inv s2 ts"
    "get s2 t R_ESP = f_esp fr" "get s2 t R_IP = f_ip fr" "get s2 t T_PROCESS = get s t T_PROCESS" "\<And>a. \<not> in_page t a \<Longrightarrow> mem s2 a = mem s a"
    "\<And>u. u \<in> set ts \<Longrightarrow> task_blocks s2 u = task_blocks s u"
    by (rule trap_entry [OF assms(1) c, where fr = fr], rule that)
  have s2: "interrupt_callbacks s2 = interrupt_callbacks s" "ps2_handler_at s2 = ps2_handler_at s" "device s2 = device s" "ports s2 = ports s"
    "current_task s2 = t" "current_process s2 = current_process s" by (simp_all add: e(2) kernel_page_eq t_def)
  have ring: "mem s2 a = mem s a" if "in_ring p a" for a
    using e(8) that assms(4) e(3) by (auto simp: ring_apart_def set_all_blocks task_blocks_def)
  note k2 = key_inv_cong [OF assms(2) s2(6)]
  have key2: "key_inv p s2" "keys p s2 = keys p s" "key_room p s2 = key_room p s"
    by (rule k2; simp add: s2(5) t_def [symmetric] e(7) ring)+
  have ap2: "ring_apart p s2 ts" by (rule ring_apart_cong [OF assms(4) e(9)])
  have sc2: "sc = ucast (device s2 (ports s2) 0x60)" by (simp add: sc_def s2(3,4))
  have cb: "arr_get (interrupt_callbacks (kernel_page s)) 0x21 = Inr (ps2_handler_at s)"
    using assms(5,6) by (simp add: arr_get_def kernel_page_eq)
  have run: "interrupt_handler kernel_callbacks 0x21 fr s =
      bnd (ps2_keyboard_handle_interrupt s2) (\<lambda>s3. Inr (outb 0x20 0x20 (snd (task_page s3))))"
    using assms(7) by (simp add: interrupt_handler_def Let_def cb e(1) kernel_callbacks_def s2(2))
  show ?thesis
  proof (cases "unat sc = 82")
    case True
    then have "sc = 82" by (simp add: word_unat_eq_iff)
    then have "ps2_scancode_to_char sc = Inl Undefined" "sc AND 0x80 = 0" by (simp_all add: scancode_lookup)
    then have "ps2_keyboard_handle_interrupt s2 = Inl Undefined"
      using sc2 by (simp add: ps2_keyboard_handle_interrupt_def kernel_page_eq insb_def Let_def KEYBOARD_INPUT_PORT_def PS2_KEYBOARD_KEY_RELEASED_def)
    then show ?thesis using True by (simp add: run Let_def sc_def)
  next
    case False
    obtain s3 b where s3: "ps2_keyboard_handle_interrupt s2 = Inr s3" "ports s3 = ports s2 @ [In8 0x60 sc, In8 0x60 b]" "current_task s3 = current_task s2"
      "tasks_inv s3 ts" "key_inv p s3" "keys p s3 = keys p s2 @ typed_key sc"
      "\<And>f. f < 1024 \<Longrightarrow> get s3 (current_task s2) f = get s2 (current_task s2) f"
      by (rule ps2_handler_ok [OF e(4) key2(1) _ ap2 sc2 False]) (use assms(3) key2(3) in simp, rule that)
    have cur3: "current_task s3 = t" by (simp add: s3(3) s2(5))
    note x = trap_exit [OF s3(4) cur3]
    have po: "ports (snd (task_page s3)) = ports s3" "current_process (snd (task_page s3)) = current_process s3" by (simp_all add: task_page_eq)
    define s' where "s' = outb 0x20 0x20 (snd (task_page s3))"
    have s': "mem s' = mem s3" "current_task s' = t" "current_process s' = current_process s3" "data_segment s' = 0x23"
      "ports s' = ports s @ [In8 0x60 sc, In8 0x60 b, Out8 0x20 0x20]" "cr3 s' = load32 (mem s') (get s' t PAGE_DIRECTORY)"
      using x(2-5) po by (simp_all add: s'_def outb_def s3(2) s2(4) get_def)
    have "interrupt_handler kernel_callbacks 0x21 fr s = Inr s'" by (simp add: run s3(1) s'_def)
    moreover have "tasks_inv s' ts" by (rule tasks_inv_switch(1) [OF x(1)]) (simp_all add: s'_def outb_def)
    moreover have "key_inv p s'" "keys p s' = keys p s3" by (rule key_inv_cong [OF s3(5)]; simp add: s' s3(3) s2(5) get_def)+
    moreover have "get s' t f = get s2 t f" if "f < 1024" for f using s3(7) [OF that] by (simp add: get_def s'(1) s2(5))
    ultimately show ?thesis
      using False s'(2,4-6) s3(6) key2(2) e(5,6)
      unfolding Let_def sc_def [symmetric] t_def [symmetric] by (simp add: task_fields)
  qed
qed

section \<open>A running process for the witness\<close>

text \<open>A process from the heap and its task, in a kernel whose keyboard port holds the code of the key \<^verbatim>\<open>A\<close>.\<close>

definition typing_sample :: kernelstate where
  "typing_sample = boot_sample\<lparr>interrupt_callbacks := (replicate 512 0)[0x21 := 0x102300], device := \<lambda>_ _. 0x1E\<rparr>"

lemma typing_sample_ok:
  obtains s :: kernelstate and p t where "tasks_inv s [t]" "key_inv p s" "0 < key_room p s" "ring_apart p s [t]" "keys p s = []"
    "length (interrupt_callbacks s) = 512" "interrupt_callbacks s ! 0x21 = ps2_handler_at s" "ps2_handler_at s \<noteq> 0" "device s = (\<lambda>_ _. 0x1E)"
proof -
  define s0 where "s0 = typing_sample"
  have f0: "processes s0 = replicate 12 0" "file_descriptors s0 = replicate 512 0" "kernel_heap s0 = fresh_heap"
    "task_head s0 = 0" "task_tail s0 = 0" "current_task s0 = 0" by (simp_all add: s0_def typing_sample_def boot_sample_def)
  have h0: "kheap_inv s0" "kheap_allocs s0 = {}" "kheap_vacant s0 = 25600" by (simp_all add: kheap_view_defs f0 fresh_heap_inv)
  have sz: "valid_size process_sizeof" "blocks_of process_sizeof = 2" by (simp_all add: valid_size_def process_sizeof_def blocks_of_def)
  have room: "(card (kheap_allocs s0) + 1) * (blocks_of process_sizeof - 1) < kheap_vacant s0" by (simp add: sz h0)
  obtain p s1 where P: "kzalloc process_sizeof s0 = Inr (p, s1)" "extends {} s0 s1" "p \<noteq> 0" "kheap_allocs s1 = insert (p, 2) (kheap_allocs s0)"
    "heap_step s0 s1" using extends_alloc [OF h0(1) sz(1) room] unfolding sz(2) by metis
  have m1: "mem s1 a = 0" if "unat (a - p) < 5256" for a
    using P(1,3) that by (auto simp: kzalloc_Inr memset_apply process_sizeof_def)
  define s2 where "s2 = s1\<lparr>current_process := p\<rparr>"
  obtain h m where s1: "s1 = s0\<lparr>kernel_heap := h, mem := m\<rparr>" using P(5) by (auto simp: heap_step_def)
  have inv1: "kheap_inv s1" using P(2) by (simp add: extends_def)
  have h2: "kheap_inv s2" "kheap_allocs s2 = {(p, 2)}" "kheap_vacant s2 = kheap_vacant s1" "mem s2 = mem s1" "current_process s2 = p"
    using inv1 P(4) h0(2) by (simp_all add: s2_def kheap_view_defs)
  have vac: "kheap_vacant s0 = kheap_vacant s1 + 2"
    using extends_accounts(2) [OF h0(1) P(2), of "{(p, 2)}"] P(4) h0(2) by simp
  have inv2: "tasks_inv s2 []" by (simp add: tasks_inv_Nil h2(1)) (simp add: s2_def s1 f0)
  have room2: "1027 \<le> kheap_vacant s2" using vac h0(3) h2(3) by simp
  obtain t s where t: "task_new p s2 = Inr (t, s)" "tasks_inv s ([] @ [t])" "get s t T_PROCESS = p" "current_task s = (if [] = ([] :: u32 list) then t else current_task s2)"
    "\<And>q k a. (q, k) \<in> kheap_allocs s2 \<Longrightarrow> q \<notin> set [] \<Longrightarrow> in_block q k a \<Longrightarrow> mem s a = mem s2 a"
    "\<And>q k. (q, k) \<in> kheap_allocs s2 \<Longrightarrow> (q, k) \<in> kheap_allocs s" "\<And>q k. q \<in> set (task_blocks s t) \<Longrightarrow> (q, k) \<notin> kheap_allocs s2" "task_change s2 s"
    by (rule task_new_ok [OF inv2 room2, of p], rule that)
  have ts: "tasks_inv s [t]" "current_task s = t" using t(2,4) by simp_all
  note inv = tasks_inv_heap [OF ts(1)] and tt = tasks_inv_task [OF ts(1), of t, simplified]
  have plive: "(p, 2) \<in> kheap_allocs s" using t(6) h2(2) by simp
  have inb: "in_block p 2 a" if "unat (a - p) < 5256" for a by (rule in_block_offset [OF inv plive]) (use that in simp)
  have ringb: "unat (a - p) < 5256" if "in_ring p a" for a
  proof -
    have "a - p = (a - (p + P_BUFFER)) + 4224" by (simp add: P_BUFFER_def)
    moreover have "unat ((a - (p + P_BUFFER)) + 4224) = unat (a - (p + P_BUFFER)) + 4224"
      using that unat_of_nat32 [of "unat (a - (p + P_BUFFER)) + 4224"] by (simp add: in_ring_def)
    ultimately show ?thesis using that by (simp add: in_ring_def)
  qed
  have zero: "mem s a = 0" if "in_ring p a" for a
    using t(5) [of p 2 a] inb [OF ringb [OF that]] m1 [OF ringb [OF that]] h2(2,4) by simp
  have ap: "\<not> in_page x a" if "x \<in> set (task_blocks s t)" "in_ring p a" for x a
  proof
    assume a: "in_page x a"
    have l: "(x, 1) \<in> kheap_allocs s" using ts(1) that(1) by (simp add: tasks_inv_def all_blocks_def)
    have "x = p" using km.allocs_apart [OF inv l plive _ inb [OF ringb [OF that(2)]]] a in_block_page [OF live_page_aligned [OF inv l]] by simp
    then show False using t(7) [OF that(1)] h2(2) by blast
  qed
  have apart: "ring_apart p s [t]" using ap by (auto simp: ring_apart_def all_blocks_def)
  have w: "mem s (p + 4224 + word_of_nat i) = 0" if "i < 1032" for i by (rule zero [OF in_ring_offset [OF that]])
  have w4: "load32 (mem s) (p + 4224 + word_of_nat d) = 0" if "d + 3 < 1032" for d
    using w [of d] w [of "d + 1"] w [of "d + 2"] w [of "d + 3"] that by (simp add: load32_def ac_simps)
  have ht: "head_of (mem s) p = 0" "tail_of (mem s) p = 0" unfolding head_of_def tail_of_def counters by (simp_all only: w4) simp_all
  have sl: "slot (mem s) p k = 0" for k
    using w [of "k mod 1024"] less_trans [OF mod_less_divisor [of 1024 k]] by (simp add: slot_def P_BUFFER_def)
  have tp: "\<not> in_ring p (t + 60 + word_of_nat j)" if "j < 4" for j
  proof -
    have "in_page t (t + word_of_nat (60 + j))" by (rule in_page_offset) (use tt(3) that in simp_all)
    then have "in_page t (t + 60 + word_of_nat j)" by (simp add: add.assoc)
    then show ?thesis using ap [of t] by (auto simp: task_blocks_def)
  qed
  have "current_process s = p" using t(8) h2(5) by (auto simp: task_change_def)
  moreover have "t \<noteq> 0" using tasks_inv_queue [OF ts(1)] by (simp add: queue_def)
  ultimately have key: "key_inv p s" using P(3) t(3) tp ts(2) by (simp add: key_inv_def ring_ok_def ht sl)
  have "0 < key_room p s" "keys p s = []" by (simp_all add: key_room_def keys_def ht)
  moreover have "length (interrupt_callbacks s) = 512" "interrupt_callbacks s ! 0x21 = ps2_handler_at s" "ps2_handler_at s \<noteq> 0" "device s = (\<lambda>_ _. 0x1E)"
    using t(8) by (auto simp: task_change_def s2_def s1 s0_def typing_sample_def boot_sample_def)
  ultimately show thesis using that [OF ts(1) key _ apart] by blast
qed

theorem keyboard_interrupt_witness:
  "\<exists>(s :: kernelstate) fr p s'. interrupt_handler kernel_callbacks 0x21 fr s = Inr s' \<and> keys p s = [] \<and> keys p s' = [65]"
proof -
  obtain s :: kernelstate and p t where s: "tasks_inv s [t]" "key_inv p s" "0 < key_room p s" "ring_apart p s [t]" "keys p s = []"
    "length (interrupt_callbacks s) = 512" "interrupt_callbacks s ! 0x21 = ps2_handler_at s" "ps2_handler_at s \<noteq> 0" "device s = (\<lambda>_ _. 0x1E)"
    by (rule typing_sample_ok)
  have ty: "typed_key 0x1E = [65]" by (simp add: typed_key_def keyboard_scan_set_one_def)
  from keyboard_interrupt [OF s(1-4,6-8), of undefined] s(5,9) ty
  obtain s' where "interrupt_handler kernel_callbacks 0x21 undefined s = Inr s'" "keys p s' = [65]" by (auto simp: Let_def)
  then show ?thesis using s(5) by blast
qed

end
