(* ===== verification/SysPrint.thy ===== *)
theory SysPrint
  imports Interrupts
begin

text \<open>
  The print system call across the components: the string of the task that traps is copied through its page tables
  and written to the console, and the tasks, the heap and every address space are left as they were.
\<close>

section \<open>The tasks after a copy\<close>

lemma tasks_inv_copied:
  assumes inv: "tasks_inv s ts" and t: "t \<in> set ts" and fr: "copy_frame (get s t PAGE_DIRECTORY) tmp phys n s s'"
    and h: "kheap_inv s'" "kheap_allocs s' = kheap_allocs s" and tmp: "page_aligned tmp" "(tmp, 1) \<notin> kheap_allocs s"
    and buf: "\<And>p j. (p, 1) \<in> kheap_allocs s \<Longrightarrow> j < n \<Longrightarrow> \<not> in_page p (phys + word_of_nat j)"
  shows "tasks_inv s' ts" "linked_back s' ts = linked_back s ts"
    "\<And>u f. u \<in> set ts \<Longrightarrow> f < 1024 \<Longrightarrow> get s' u f = get s u f"
    "\<And>u v. u \<in> set ts \<Longrightarrow> u \<noteq> t \<Longrightarrow> page_aligned v \<Longrightarrow>
       space_view (mem s') (get s u PAGE_DIRECTORY) v = space_view (mem s) (get s u PAGE_DIRECTORY) v"
    "\<And>u. u \<in> set ts \<Longrightarrow> task_blocks s' u = task_blocks s u"
proof -
  note tk = tasks_inv_task [OF inv] and hi = tasks_inv_heap [OF inv]
  note ok = tk(1) [OF t] and f = fr [unfolded copy_frame_def]
  have out: "mem s' a = mem s a"
    if "p \<in> set (all_blocks s ts)" "p \<notin> set (space_blocks (mem s) (get s t PAGE_DIRECTORY))" "in_page p a" for p a
  proof -
    have live: "(p, 1) \<in> kheap_allocs s" using inv that(1) by (simp add: tasks_inv_def)
    then have "page_aligned p" "p \<noteq> tmp" using live_page_aligned [OF hi] tmp(2) by auto
    then have "\<not> in_page x a" if "x \<in> insert tmp (set (space_blocks (mem s) (get s t PAGE_DIRECTORY)))" for x
      using in_page_unique [OF _ \<open>page_aligned p\<close> _ \<open>in_page p a\<close>, of x] space_ok_pages(1) [OF hi ok, of x] tmp(1) \<open>p \<notin> _\<close> that by blast
    moreover have "a \<noteq> phys + word_of_nat j" if "j < n" for j using buf [OF live that] \<open>in_page p a\<close> by blast
    ultimately show ?thesis using f by blast
  qed
  have g: "task_head s' = task_head s" "task_tail s' = task_tail s" "current_task s' = current_task s" using f by auto
  have a: "\<And>p. (p, 1) \<in> kheap_allocs s \<Longrightarrow> (p, 1) \<in> kheap_allocs s'" using h(2) by simp
  have bt: "space_blocks (mem s') (get s t PAGE_DIRECTORY) = space_blocks (mem s) (get s t PAGE_DIRECTORY)"
    and pt: "space_present (mem s') (get s t PAGE_DIRECTORY)" using f by blast+
  show "tasks_inv s' ts" "linked_back s' ts = linked_back s ts"
    "\<And>u f. u \<in> set ts \<Longrightarrow> f < 1024 \<Longrightarrow> get s' u f = get s u f"
    "\<And>u v. u \<in> set ts \<Longrightarrow> u \<noteq> t \<Longrightarrow> page_aligned v \<Longrightarrow>
       space_view (mem s') (get s u PAGE_DIRECTORY) v = space_view (mem s) (get s u PAGE_DIRECTORY) v"
    "\<And>u. u \<in> set ts \<Longrightarrow> task_blocks s' u = task_blocks s u" 
    by (rule tasks_inv_one_space [OF inv t h(1) _ g _ bt pt]; ((rule a, assumption) | (rule out, assumption+) | assumption))+
qed

section \<open>The print command\<close>

lemma print_literal_rest: "\<exists>m r c. print_literal cs colour s = s\<lparr>mem := m, terminal_row := r, terminal_col := c\<rparr>"
proof (induction cs arbitrary: s)
  case Nil
  have "s = s\<lparr>mem := mem s, terminal_row := terminal_row s, terminal_col := terminal_col s\<rparr>" by (cases s) simp
  then show ?case unfolding print_literal_def by (metis fold_simps(1))
next
  case (Cons c cs)
  have w: "\<exists>m r k. terminal_writechar c colour s = s\<lparr>mem := m, terminal_row := r, terminal_col := k\<rparr>"
    by (cases s) (simp add: terminal_writechar_def terminal_putchar_def Let_def)
  have "print_literal (c # cs) colour s = print_literal cs colour (terminal_writechar c colour s)" by (simp add: print_literal_def)
  moreover obtain m r k where "terminal_writechar c colour s = s\<lparr>mem := m, terminal_row := r, terminal_col := k\<rparr>" using w by blast
  moreover from this obtain m' r' k' where "print_literal cs colour (terminal_writechar c colour s) = s\<lparr>mem := m', terminal_row := r', terminal_col := k'\<rparr>"
    using Cons.IH [of "terminal_writechar c colour s"] by auto
  ultimately show ?case by (intro exI [of _ m'] exI [of _ r'] exI [of _ k']) simp
qed

text \<open>An address outside the heap or in a block that is taken, so in no block that is handed out next.\<close>

definition settled :: "'a kstate_scheme \<Rightarrow> u32 \<Rightarrow> bool" where
  "settled s a \<longleftrightarrow> a \<notin> heap_area s \<or> (\<exists>p n. (p, n) \<in> kheap_allocs s \<and> in_block p n a)"

text \<open>What a task sees at an address, and \<open>n\<close> bytes of its program or data.\<close>

definition task_view :: "'a tstate_scheme \<Rightarrow> u32 \<Rightarrow> memory" where
  "task_view s t = user_mem (mem s) (load32 (mem s) (get s t PAGE_DIRECTORY))"

definition user_text :: "'a tstate_scheme \<Rightarrow> u32 \<Rightarrow> u32 \<Rightarrow> nat \<Rightarrow> bool" where
  "user_text s t v n \<longleftrightarrow> (\<forall>j < n. v + word_of_nat j \<notin> heap_area s
     \<and> (\<exists>a. mmu_walk (mem s) (load32 (mem s) (get s t PAGE_DIRECTORY)) (v + word_of_nat j) = Some a
          \<and> settled s a \<and> (\<forall>p \<in> set (task_blocks s t). \<not> in_page p a)))"

text \<open>The cells that a text of up to 1023 characters takes, and a console and a buffer that can print it.\<close>

definition text_cells :: "'a machine_scheme \<Rightarrow> u32 set" where
  "text_cells s = {a. 2 * cursor s \<le> unat (a - video_mem s) \<and> unat (a - video_mem s) < 2 * (cursor s + 1023)}"

definition print_ready :: "u32 \<Rightarrow> 'a kstate_scheme \<Rightarrow> bool" where
  "print_ready buf s \<longleftrightarrow> unat (terminal_col s) < 80 \<and> cursor s + 1023 < 80 * 65535 \<and> text_cells s \<inter> heap_area s = {}
     \<and> (\<forall>j < 1024. buf + word_of_nat j \<notin> heap_area s \<union> text_cells s)"

lemma new_page_apart:
  assumes inv: "kheap_inv s1" and allocs: "kheap_allocs s1 = insert (tmp, 1) (kheap_allocs s)" "(tmp, 1) \<notin> kheap_allocs s"
    and ar: "heap_area s1 = heap_area s" and new: "\<And>q k. (q, k) \<in> kheap_allocs s \<Longrightarrow> q \<noteq> tmp"
  shows "v \<notin> heap_area s \<Longrightarrow> page_base v \<noteq> tmp" "settled s a \<Longrightarrow> \<not> in_page tmp a"
proof -
  have live: "(tmp, 1) \<in> kheap_allocs s1" by (simp add: allocs(1))
  have al: "page_aligned tmp" by (rule live_page_aligned [OF inv live])
  have area: "a \<in> heap_area s" if "in_page tmp a" for a
    using live_in_area [OF inv live, of a] that by (simp add: in_block_page [OF al] ar)
  show "page_base v \<noteq> tmp" if "v \<notin> heap_area s" using area [of v] that in_page_base [OF al] by blast
  show "\<not> in_page tmp a" if st: "settled s a"
  proof
    assume a: "in_page tmp a"
    obtain p n where p: "(p, n) \<in> kheap_allocs s" "in_block p n a" using st area [OF a] by (auto simp: settled_def)
    then have "(p, n) \<in> kheap_allocs s1" by (simp add: allocs(1))
    then have "tmp = p" using km.allocs_apart [OF inv live _ _ p(2)] a by (simp add: in_block_page [OF al])
    then show False using new p(1) by blast
  qed
qed

lemma tasks_kept_print:
  assumes inv: "tasks_inv s ts" and ready: "print_ready buf s" and str: "cstr_at (mem s) buf cs" "length cs \<le> 1023" "0x0A \<notin> set cs"
  obtains s' where "print buf colour s = Inr s'" "cursor s' = cursor s + length cs" "video_mem s' = video_mem s"
    "\<And>i. i < length cs \<Longrightarrow> cell s' (cursor s + i) = terminal_make_char (cs ! i) colour"
    "\<And>a. a \<notin> text_cells s \<Longrightarrow> mem s' a = mem s a" "machine.more s' = machine.more s"
    "tasks_inv s' ts" "\<And>u f. u \<in> set ts \<Longrightarrow> f < 1024 \<Longrightarrow> get s' u f = get s u f"
    "\<And>u v. u \<in> set ts \<Longrightarrow> page_aligned v \<Longrightarrow>
       space_view (mem s') (get s u PAGE_DIRECTORY) v = space_view (mem s) (get s u PAGE_DIRECTORY) v"
proof -
  note r = ready [unfolded print_ready_def]
  define s' where "s' = print_literal cs colour s"
  have len: "cursor s + length cs < 80 * 65535" and col: "unat (terminal_col s) < 80" using r str(2) by simp_all
  have off: "unat (buf + word_of_nat i - video_mem s) < 2 * cursor s \<or> 2 * (cursor s + length cs) \<le> unat (buf + word_of_nat i - video_mem s)"
    if "i < length cs" for i
  proof -
    have "buf + word_of_nat i \<notin> text_cells s" using r that str(2) by simp
    then show ?thesis using str(2) by (auto simp: text_cells_def)
  qed
  have run: "print buf colour s = Inr s'" unfolding s'_def by (rule print_cstr [OF str(1,3) col len off])
  note c = print_literal_cells [OF str(3) col len, of colour, folded s'_def]
  have out: "mem s' a = mem s a" if "a \<notin> text_cells s" for a
  proof -
    have "unat (a - video_mem s) < 2 * cursor s \<or> 2 * (cursor s + length cs) \<le> unat (a - video_mem s)"
      using that str(2) by (auto simp: text_cells_def)
    then show ?thesis using c by blast
  qed
  obtain m ro co where s': "s' = s\<lparr>mem := m, terminal_row := ro, terminal_col := co\<rparr>"
    using print_literal_rest unfolding s'_def by blast
  have g: "task_head s' = task_head s" "task_tail s' = task_tail s" "current_task s' = current_task s" "kernel_heap s' = kernel_heap s"
    by (simp_all add: s')
  have same: "\<forall>p a. p \<in> set (all_blocks s ts) \<longrightarrow> in_page p a \<longrightarrow> mem s' a = mem s a"
  proof (intro allI impI)
    fix p a
    assume p: "p \<in> set (all_blocks s ts)" "in_page p a"
    have l: "(p, 1) \<in> kheap_allocs s" using inv p(1) by (simp add: tasks_inv_def)
    have "a \<in> heap_area s"
      by (rule live_in_area [OF tasks_inv_heap [OF inv] l]) (simp add: p(2) in_block_page [OF live_page_aligned [OF tasks_inv_heap [OF inv] l]])
    then show "mem s' a = mem s a" using out r by blast
  qed
  note o = tasks_inv_outside [OF inv g same]
  have cur: "cursor s' = cursor s + length cs" and vid: "video_mem s' = video_mem s"
    and cell: "\<And>i. i < length cs \<Longrightarrow> cell s' (cursor s + i) = terminal_make_char (cs ! i) colour" using c by blast+
  have more: "machine.more s' = machine.more s" by (simp add: s')
  show thesis by (rule that [OF run cur vid cell out more]) (assumption | fact o | rule o; assumption)+
qed

lemma copied_space_views:
  assumes "copy_result t phys cs s s'" "u \<noteq> t \<Longrightarrow> space_view (mem s') (get s u PAGE_DIRECTORY) v = space_view (mem s) (get s u PAGE_DIRECTORY) v"
    and "page_aligned v"
  shows "space_view (mem s') (get s u PAGE_DIRECTORY) v = space_view (mem s) (get s u PAGE_DIRECTORY) v"
  using assms by (cases "u = t") (simp_all add: copy_result_def)

lemma print_command_ok:
  fixes s :: "'a tstate_scheme"
  assumes inv: "tasks_inv s ts" and cur: "current_task s \<noteq> 0" and pe: "paging_enabled s"
    and kc: "(kernel_chunk s, 1) \<in> kheap_allocs s" "kernel_chunk s \<notin> set (task_blocks s (current_task s))"
    and room: "0 < kheap_vacant s" and uw: "user_word s (current_task s) (get s (current_task s) R_ESP) a0"
    and seen: "user_text s (current_task s) (load32 (mem s) a0) 1024" and ready: "print_ready buf s"
    and nl: "0x0A \<notin> set (cstr_upto (task_view s (current_task s)) (load32 (mem s) a0) 1023)"
  defines "cs \<equiv> cstr_upto (task_view s (current_task s)) (load32 (mem s) a0) 1023"
  obtains s' where "isr80h_command1_print buf fr s = Inr (0, s')" "cursor s' = cursor s + length cs" "video_mem s' = video_mem s"
    "\<And>i. i < length cs \<Longrightarrow> cell s' (cursor s + i) = terminal_make_char (cs ! i) 3"
    "\<And>a. a \<notin> heap_area s \<union> text_cells s \<Longrightarrow> (\<forall>j < 1024. a \<noteq> buf + word_of_nat j) \<Longrightarrow> mem s' a = mem s a"
    "tstate.more s' = tstate.more s" "current_task s' = current_task s" "kheap_allocs s' = kheap_allocs s" "tasks_inv s' ts"
    "\<And>u f. u \<in> set ts \<Longrightarrow> f < 1024 \<Longrightarrow> get s' u f = get s u f"
    "\<And>u v. u \<in> set ts \<Longrightarrow> page_aligned v \<Longrightarrow>
       space_view (mem s') (get s u PAGE_DIRECTORY) v = space_view (mem s) (get s u PAGE_DIRECTORY) v"
proof -
  define t where "t = current_task s"
  define v where "v = load32 (mem s) a0"
  have t: "t \<in> set ts" unfolding t_def by (rule queue_current [OF tasks_inv_queue [OF inv] cur])
  define s1 where "s1 = kernel_page (snd (task_page_task t s))"
  have item: "task_get_stack_item t 0 s = Inr (v, s1)"
    unfolding s1_def v_def by (rule stack_item_word [OF pe]) (use uw in \<open>simp add: t_def\<close>)
  have m1: "mem s1 = mem s" "kernel_heap s1 = kernel_heap s" "task_head s1 = task_head s" "task_tail s1 = task_tail s"
    "current_task s1 = t" "paging_enabled s1" "tstate.more s1 = tstate.more s" "kernel_chunk s1 = kernel_chunk s"
    "cursor s1 = cursor s" "video_mem s1 = video_mem s" "terminal_col s1 = terminal_col s"
    using pe by (simp_all add: s1_def t_def)
      (simp_all add: kernel_page_eq task_page_task_def user_registers_def paging_switch_def cursor_def Let_def)
  have g1: "get s1 u f = get s u f" for u f by (simp add: get_def m1)
  have a1: "kheap_inv s1" "kheap_allocs s1 = kheap_allocs s" "kheap_vacant s1 = kheap_vacant s" "heap_area s1 = heap_area s"
    using tasks_inv_heap [OF inv] by (simp_all add: kheap_view_defs heap_area_def m1)
  have tb1: "task_blocks s1 t = task_blocks s t" by (simp add: task_blocks_def g1 m1)
  have inv1: "tasks_inv s1 ts" by (rule tasks_inv_switch(1) [OF inv]) (simp_all add: m1 t_def)
  have sz: "0 < (word_of_int 1024 :: u32)" "(word_of_int 1024 :: u32) \<le> 4096" by simp_all
  have rm: "0 < kheap_vacant s1" using room a1(3) by simp
  obtain tmp s2 where T: "kzalloc (word_of_int 1024) s1 = Inr (tmp, s2)" "tmp \<noteq> 0" "kheap_inv s2"
    "kheap_allocs s2 = insert (tmp, 1) (kheap_allocs s1)" "\<And>q k. (q, k) \<in> kheap_allocs s1 \<Longrightarrow> q \<noteq> tmp" "page_aligned tmp"
    by (rule kzalloc_page [OF a1(1) rm sz], rule that)
  have ar2: "heap_area s2 = heap_area s1" by (rule kzalloc_area [OF T(1)])
  have fresh: "(tmp, 1) \<notin> kheap_allocs s1" using T(5) by blast
  have area: "a \<in> heap_area s" if "p \<in> insert tmp (set (task_blocks s1 t))" "in_page p a" for p a
  proof -
    have "(p, 1) \<in> kheap_allocs s2" using that(1) inv1 t T(4) by (auto simp: tasks_inv_def set_all_blocks)
    then show ?thesis using live_in_area [OF T(3), of p 1 a] live_page_aligned [OF T(3)] that(2) ar2 a1(4) in_block_page by simp
  qed
  have src: "page_base (v + word_of_nat j) \<noteq> tmp \<and>
      (\<exists>a. mmu_walk (mem s1) (load32 (mem s1) (get s1 t PAGE_DIRECTORY)) (v + word_of_nat j) = Some a
         \<and> (\<forall>p \<in> insert tmp (set (task_blocks s1 t)). \<not> in_page p a))" if j: "j < nat 1024" for j
  proof -
    obtain a where a: "v + word_of_nat j \<notin> heap_area s" "settled s a" "\<forall>p \<in> set (task_blocks s t). \<not> in_page p a"
      "mmu_walk (mem s) (load32 (mem s) (get s t PAGE_DIRECTORY)) (v + word_of_nat j) = Some a"
      using seen j unfolding user_text_def t_def v_def by auto
    have st: "settled s1 a" "v + word_of_nat j \<notin> heap_area s1" using a(1,2) by (simp_all add: settled_def a1)
    have "\<not> in_page tmp a" by (rule new_page_apart(2) [OF T(3,4) fresh ar2 _ st(1)]) (rule T(5))
    moreover have "page_base (v + word_of_nat j) \<noteq> tmp" by (rule new_page_apart(1) [OF T(3,4) fresh ar2 _ st(2)]) (rule T(5))
    ultimately show ?thesis using a(3,4) by (simp add: g1 m1 tb1)
  qed
  have bf: "\<forall>p \<in> insert tmp (set (task_blocks s1 t)). \<not> in_page p (buf + word_of_nat j)" if "j < nat 1024" for j
    using area ready that by (auto simp: print_ready_def)
  have kc1: "(kernel_chunk s1, 1) \<in> kheap_allocs s1" "kernel_chunk s1 \<notin> set (task_blocks s1 t)"
    using kc tb1 unfolding t_def [symmetric] by (simp_all add: a1 m1)
  have tv: "user_mem (mem s1) (load32 (mem s1) (get s1 t PAGE_DIRECTORY)) = task_view s t" by (simp add: task_view_def g1 m1)
  have mx: "(0 :: int) < 1024" "(1024 :: int) < 4096" by simp_all
  obtain s3 where c: "copy_string_from_task t v buf 1024 s1 = Inr (0, s3)" "copy_result t buf cs s1 s3"
    "copy_frame (get s1 t PAGE_DIRECTORY) tmp buf (nat 1024) s1 s3"
    using copy_string_from_task_ok [OF inv1 t m1(6) kc1 mx T(1,2) src bf]
    unfolding tv by (auto simp: cs_def t_def v_def)
  note cr = c(2) [unfolded copy_result_def] and cf = c(3) [unfolded copy_frame_def]
  obtain m h d where s3: "s3 = s1\<lparr>mem := m, kernel_heap := h, cr3 := d, current_directory := d, data_segment := 0x10\<rparr>" using cf by blast
  have live_buf: "\<not> in_page p (buf + word_of_nat j)" if "(p, 1) \<in> kheap_allocs s1" "j < nat 1024" for p j
    using live_in_area [OF a1(1) that(1), of "buf + word_of_nat j"] live_page_aligned [OF a1(1) that(1)] in_block_page ready that(2)
    by (auto simp: print_ready_def a1)
  have h3: "kheap_inv s3" "kheap_allocs s3 = kheap_allocs s1" using cr by blast+
  note co = tasks_inv_copied [OF inv1 t c(3) h3 T(6) fresh]
  have inv3: "tasks_inv s3 ts" by (rule co(1), rule live_buf)
  have g3: "get s3 u f = get s u f" if "u \<in> set ts" "f < 1024" for u f
    unfolding g1 [symmetric] by (rule co(3), rule live_buf, (assumption | rule that)+)
  have v3: "space_view (mem s3) (get s u PAGE_DIRECTORY) w = space_view (mem s) (get s u PAGE_DIRECTORY) w"
    if "u \<in> set ts" "page_aligned w" for u w
  proof -
    have "space_view (mem s3) (get s1 u PAGE_DIRECTORY) w = space_view (mem s1) (get s1 u PAGE_DIRECTORY) w"
      by (rule copied_space_views [OF c(2) _ that(2)], rule co(4), rule live_buf, (assumption | rule that)+)
    then show ?thesis by (simp add: g1 m1)
  qed
  have ar3: "heap_area s3 = heap_area s" using cf a1(4) by simp
  have con: "cursor s3 = cursor s" "video_mem s3 = video_mem s" "terminal_col s3 = terminal_col s" using m1 by (simp_all add: s3 cursor_def)
  have ready3: "print_ready buf s3" using ready by (simp add: print_ready_def text_cells_def con ar3)
  have len: "length cs \<le> 1023" unfolding cs_def by (rule length_cstr_upto)
  have str3: "cstr_at (mem s3) buf cs" using cr by blast
  obtain s4 where p: "print buf 3 s3 = Inr s4" "cursor s4 = cursor s3 + length cs" "video_mem s4 = video_mem s3"
    "\<And>i. i < length cs \<Longrightarrow> cell s4 (cursor s3 + i) = terminal_make_char (cs ! i) 3"
    "\<And>a. a \<notin> text_cells s3 \<Longrightarrow> mem s4 a = mem s3 a" "machine.more s4 = machine.more s3"
    "tasks_inv s4 ts" "\<And>u f. u \<in> set ts \<Longrightarrow> f < 1024 \<Longrightarrow> get s4 u f = get s3 u f"
    "\<And>u v. u \<in> set ts \<Longrightarrow> page_aligned v \<Longrightarrow>
       space_view (mem s4) (get s3 u PAGE_DIRECTORY) v = space_view (mem s3) (get s3 u PAGE_DIRECTORY) v"
    by (rule tasks_kept_print [OF inv3 ready3 str3 len], (rule nl [folded cs_def]), rule that)
  show thesis
  proof (rule that)
    show "isr80h_command1_print buf fr s = Inr (0, s4)"
      using item c(1) p(1) m1(5) by (simp add: isr80h_command1_print_def task_current_def t_def [symmetric])
    show "cursor s4 = cursor s + length cs" "video_mem s4 = video_mem s" using p(2,3) con by simp_all
    show "cell s4 (cursor s + i) = terminal_make_char (cs ! i) 3" if "i < length cs" for i using p(4) [OF that] con by simp
    show "mem s4 a = mem s a" if a: "a \<notin> heap_area s \<union> text_cells s" "\<forall>j < 1024. a \<noteq> buf + word_of_nat j" for a
    proof -
      have "mem s4 a = mem s3 a" by (rule p(5)) (use a(1) con in \<open>simp add: text_cells_def\<close>)
      moreover have "\<forall>q \<in> insert tmp (set (space_blocks (mem s1) (get s1 t PAGE_DIRECTORY))). \<not> in_page q a"
        using area [of _ a] a(1) by (auto simp: task_blocks_def)
      then have "mem s3 a = mem s1 a" using cf a(2) by simp
      ultimately show ?thesis by (simp add: m1)
    qed
    have fl: "tstate.more s4 = tstate.more s3" "current_task s4 = current_task s3" "kernel_heap s4 = kernel_heap s3"
      using p(6) by (cases s4; cases s3; simp)+
    show "tstate.more s4 = tstate.more s" "current_task s4 = current_task s" using fl m1 by (simp_all add: s3 t_def)
    show "kheap_allocs s4 = kheap_allocs s" using fl(3) h3(2) a1(2) by (simp add: kheap_view_defs)
    show "tasks_inv s4 ts" by (rule p(7))
    show "get s4 u f = get s u f" if "u \<in> set ts" "f < 1024" for u f using p(8) [OF that] g3 [OF that] by simp
    show "space_view (mem s4) (get s u PAGE_DIRECTORY) w = space_view (mem s) (get s u PAGE_DIRECTORY) w"
      if "u \<in> set ts" "page_aligned w" for u w using p(9) [OF that] v3 [OF that] g3 [OF that(1), of PAGE_DIRECTORY] by simp
  qed
qed

text \<open>What the print command needs is kept by the entry of the handler: the kernel's page and the saved registers.\<close>

lemma cstr_user_text:
  assumes "user_text s t v n"
    and "\<And>w. mmu_walk (mem s') (load32 (mem s') (get s' t PAGE_DIRECTORY)) w = mmu_walk (mem s) (load32 (mem s) (get s t PAGE_DIRECTORY)) w"
    and "task_blocks s' t = task_blocks s t" "\<And>a. \<not> in_page t a \<Longrightarrow> mem s' a = mem s a"
    and "heap_area s' = heap_area s" "kheap_allocs s' = kheap_allocs s"
  shows "user_text s' t v n" "k \<le> n \<Longrightarrow> cstr_upto (task_view s' t) v k = cstr_upto (task_view s t) v k"
proof -
  show "user_text s' t v n" using assms(1) by (simp add: user_text_def settled_def assms(2,3,5,6))
  show "cstr_upto (task_view s' t) v k = cstr_upto (task_view s t) v k" if k: "k \<le> n"
  proof (rule cstr_upto_mem_cong)
    fix j
    assume "j < k"
    then have "j < n" using k by simp
    then obtain a where a: "mmu_walk (mem s) (load32 (mem s) (get s t PAGE_DIRECTORY)) (v + word_of_nat j) = Some a"
      "\<forall>p \<in> set (task_blocks s t). \<not> in_page p a" using assms(1) unfolding user_text_def by blast
    then have "mem s' a = mem s a" by (intro assms(4)) (simp add: task_blocks_def)
    then show "task_view s' t (v + word_of_nat j) = task_view s t (v + word_of_nat j)"
      using a(1) by (simp add: task_view_def user_mem_def assms(2))
  qed
qed


section \<open>A task that prints, for the witness\<close>

text \<open>
  A kernel whose current task traps with its stack at \<^verbatim>\<open>0x10\<close>: the word there points to the text \<^verbatim>\<open>Hi\<close> at \<^verbatim>\<open>0x100\<close>, the
  print command is registered at \<^verbatim>\<open>0x104\<close>, and its buffer is at address 0.
\<close>

definition hi_page :: memory where
  "hi_page = (store32 (\<lambda>_. 0) 0x10 0x100)(0x100 := 72, 0x101 := 105)"

definition print_sample :: "tstate \<Rightarrow> kernelstate" where
  "print_sample s = (kernel_around s)\<lparr>video_mem := 0xB8000, terminal_row := 0, terminal_col := 0,
     isr80h_commands := 0x100 # 0x104 # replicate 1022 0\<rparr>"

lemma print_sample_fields [simp]:
  "mem (print_sample s) = mem s" "kernel_heap (print_sample s) = kernel_heap s" "current_task (print_sample s) = current_task s"
  "paging_enabled (print_sample s) = paging_enabled s" "kernel_chunk (print_sample s) = kernel_chunk s"
  "video_mem (print_sample s) = 0xB8000" "terminal_col (print_sample s) = 0" "cursor (print_sample s) = 0"
  "isr80h_commands (print_sample s) = 0x100 # 0x104 # replicate 1022 0" "command0_at (print_sample s) = 0x100"
  "command1_at (print_sample s) = 0x104" "print_buff_at (print_sample s) = 0"
  by (cases s; simp add: print_sample_def kernel_around_def tstate.defs cursor_def)+

lemma print_sample_tasks [simp]:
  "get (print_sample s) = get s" "task_blocks (print_sample s) = task_blocks s" "heap_area (print_sample s) = heap_area s"
  "kheap_allocs (print_sample s) = kheap_allocs s" "kheap_vacant (print_sample s) = kheap_vacant s"
  "user_word (print_sample s) = user_word s" "task_view (print_sample s) = task_view s" "user_text (print_sample s) = user_text s"
  by (simp_all add: fun_eq_iff get_def task_blocks_def heap_area_def kheap_view_defs user_word_def task_view_def user_text_def settled_def)

lemma print_sample_inv: "tasks_inv s ts \<Longrightarrow> tasks_inv (print_sample s) ts"
  by (rule tasks_inv_switch(1) [of "kernel_around s"]) (simp_all add: kernel_around_inv print_sample_def)

lemma low_address: "k < 2048 \<Longrightarrow> unat (word_of_nat k :: u32) < 4096"
  by (subst unat_of_nat32) simp_all

lemma print_sample_ready:
  assumes "heap_area s = {a. 0x1000000 \<le> unat a \<and> unat a < 121634816}"
  shows "print_ready 0 (print_sample s)"
proof -
  have cells: "text_cells (print_sample s) = {a. unat (a - 0xB8000) < 2046}" by (simp add: text_cells_def)
  have near: "unat a < 0xB8000 + 2046 \<and> 0xB8000 \<le> unat a" if "unat (a - 0xB8000) < 2046" for a :: u32
  proof -
    have "a = 0xB8000 + word_of_nat (unat (a - 0xB8000))" by simp
    then have "unat a = 0xB8000 + unat (a - 0xB8000)"
      using that unat_of_nat32 [of "0xB8000 + unat (a - 0xB8000)"] by simp
    then show ?thesis using that by simp
  qed
  have "word_of_nat j \<notin> heap_area s \<union> text_cells (print_sample s)" if "j < 1024" for j
    using low_address [of j] near [of "word_of_nat j"] that unfolding cells assms by auto
  moreover have "text_cells (print_sample s) \<inter> heap_area s = {}" using near unfolding cells assms by fastforce
  ultimately show ?thesis by (simp add: print_ready_def)
qed


end
