(* ===== verification/Spec2Isabelle.thy ===== *)
theory Spec2Isabelle
  imports SysPrint
begin

text \<open>
  guavaOS: a verification development for the kernel under \<^verbatim>\<open>src/src\<close>, a 32-bit i686 kernel with its own
  heap, paging, tasks, a FAT16 file system over a PIO disk, user processes, a PS/2 keyboard and system calls
  behind interrupt \<^verbatim>\<open>0x80\<close>.

  \<^bold>\<open>State.\<close> The kernel is one program with global variables and one flat memory. A record per component holds its
  globals, and each record extends the one of the component below it: \<open>machine\<close> (memory, cursor), \<open>kstate\<close>
  (kernel heap), \<open>pstate\<close> (page directory register), \<open>tstate\<close> (run queue), \<open>iostate\<close> (ports), \<open>dstate\<close> (the
  disk), \<open>fatstate\<close>, \<open>filestate\<close> (tables of file systems and of open files), \<open>procstate\<close>, \<open>idtstate\<close>,
  \<open>keystate\<close>, \<open>kernelstate\<close>. An operation takes the record of its own component with an open tail
  (\<open>'a kstate_scheme\<close>), so the components above call it unchanged. Structures the code allocates
  (\<^verbatim>\<open>struct task\<close>, \<^verbatim>\<open>struct process\<close>, streams, paths, directories, descriptors) are bytes of the memory at
  the compiler's offsets; page tables are too.

  \<^bold>\<open>Errors.\<close> Error codes are the code's own integers. Leaving defined behaviour (an index outside an array, a
  block that is no allocation, a signed overflow) is \<open>Inl Undefined\<close>, and a loop that stops the kernel is
  \<open>Inl Halted\<close>; \<open>bnd\<close> sequences the calls. Loops that end by a counter are structural or have a measure; loops
  that follow memory or wait for a device are \<open>partial_function (option)\<close>, and the theorems about them state that
  they return.

  \<^bold>\<open>Theories, in the order of the code.\<close>
  \<^item> \<open>Prelude\<close>: words, outcomes, checked arrays, counted loops (\<open>for_each\<close>), \<^verbatim>\<open>status.h\<close>, \<^verbatim>\<open>config.h\<close>.
  \<^item> \<open>Memory\<close> (\<^verbatim>\<open>memory/memory.c\<close>), \<open>CString\<close> (\<^verbatim>\<open>string/string.c\<close>), \<open>Terminal\<close> (the console of \<^verbatim>\<open>kernel.c\<close>).
  \<^item> \<open>Allocator\<close>: the contract between the heap and its clients, locales \<open>block_allocator\<close> and
    \<open>zeroing_allocator\<close>. \<open>Heap\<close> (\<^verbatim>\<open>memory/heap/heap.c\<close>) and \<open>KHeap\<close> (\<^verbatim>\<open>memory/heap/kheap.c\<close>) interpret them
    (\<open>hp\<close>, \<open>km\<close>, \<open>kz\<close>). The table's invariant is that its bytes are free bytes and whole runs.
  \<^item> \<open>Paging\<close> (\<^verbatim>\<open>memory/paging\<close>), \<open>Mmu\<close> (the walk the processor makes through these tables), \<open>Gdt\<close> (\<^verbatim>\<open>gdt/gdt.c\<close>).
  \<^item> \<open>Task\<close> (\<^verbatim>\<open>task/task.c\<close>), \<open>TaskCopy\<close> (reading a task's memory), \<open>TaskProps\<close> (the run queue as a state
    machine \<open>task_step\<close>, its reachable states and its properties).
  \<^item> \<open>Disk\<close> (\<^verbatim>\<open>io\<close>, \<^verbatim>\<open>disk/disk.c\<close>, \<^verbatim>\<open>disk/streamer.c\<close>), \<open>PathParser\<close> (\<^verbatim>\<open>fs/pparser.c\<close>), \<open>Fat16\<close> (\<^verbatim>\<open>fs/fat/fat16.c\<close>),
    \<open>File\<close> (\<^verbatim>\<open>fs/file.c\<close> and \<^verbatim>\<open>disk_search_and_init\<close>), \<open>Frames\<close> (a calculus of postconditions and what the
    file code cannot change), \<open>FatProps\<close>, \<open>FileProps\<close> (locale \<open>file_driver\<close>, interpreted as \<open>fat\<close>),
    \<open>FatOpen\<close> and \<open>FileOpen\<close> (\<^verbatim>\<open>fopen\<close> from the path to the handle, and what it leaves allocated), \<open>FatMount\<close> and
    \<open>MountProps\<close> (\<^verbatim>\<open>fat16_resolve\<close>, from the sectors of the disk to a mounted volume).
  \<^item> \<open>Process\<close> (\<^verbatim>\<open>task/process.c\<close>), \<open>ProcessLoad\<close>, \<open>ProcessMap\<close> and \<open>ProcessProps\<close> (loading a program, from the
    bytes of the disk to the memory its task sees), \<open>Idt\<close> (\<^verbatim>\<open>idt/idt.c\<close>, \<^verbatim>\<open>isr80h\<close>), \<open>Keyboard\<close> (\<^verbatim>\<open>keyboard\<close>), \<open>Kernel\<close>
    (\<^verbatim>\<open>kernel_main\<close>), \<open>SysCalls\<close> and \<open>KeyboardProps\<close> (locale \<open>key_queue\<close>).
  \<^item> \<open>Boot\<close> and \<open>BootProps\<close>: the components put together, \<^verbatim>\<open>kernel_main\<close> from the image the boot sector loads to
    the first instruction of the user program. \<open>Interrupts\<close>: a key from the keyboard's port to the queue of the
    process that runs. \<open>SysPrint\<close>: a string from the memory a task sees to the screen.

  \<^bold>\<open>What is shown.\<close> The heap serves, refuses and releases requests as the contract says, and its scan is first fit.
  A new page directory maps every page to itself, mapping a range gives exactly that range, and no address space
  changes another. The run queue keeps its invariant over every sequence of creations, releases, switches and
  returns from interrupts; the scheduler is round robin; a released task gives back all it owned. Strings and
  words of user memory are read through the task's own directory. The disk driver and its streams deliver the
  bytes of the disk. A disk with a FAT16 volume is mounted with exactly the entries of its root directory, and one
  without is refused. Paths parse to their parts and nothing else. The open-file table is a finite map that the
  file calls keep. A program that is loaded runs on the bytes
  of its file, and the tasks and files beside it are untouched; one that is not on the disk changes no table. The key
  buffer is a bounded queue, and the keyboard's interrupt puts the pressed key into the queue of the process that runs
  and resumes its task. The system calls return the sum of two words of the caller's stack and print the caller's
  string, and leave every address space as it was. From a kernel image and a drive with
  the program, \<^verbatim>\<open>kernel_main\<close> ends in user mode, with its tables loaded, paging on, and the program's bytes where its
  task starts. The program may have 76 KB (19 blocks): of the 25600 blocks of the heap more than 24000 are free when it is
  loaded, among at most 1040 allocations, so there is a run of more than 22 free blocks however they lie.

  \<^bold>\<open>Conventions.\<close> Out-parameters and local buffers are results and byte lists. Function pointers are addresses, and
  the code behind an address is an argument (\<open>vt\<close>, \<open>code\<close>, \<open>cmds\<close>); \<open>fat16_objects\<close>, \<open>kernel_callbacks\<close> and
  \<open>kernel_commands\<close> are the ones of this program. Addresses that the linker chooses are fields of the state. The
  program has one \<^verbatim>\<open>struct disk\<close>, so the driver's functions take it from the state. The heap's table at
  \<^verbatim>\<open>0x7E00\<close> is kept beside memory, as no other code addresses it. The device behind the ports is the field
  \<open>device\<close>; theorems that need a drive assume \<open>ata_disk\<close>, the documented PIO read of one sector, and the
  witnesses instantiate it.

  \<^bold>\<open>Not modelled.\<close> The boot sector, the assembly stubs and the linker script (they appear as register loads, port
  accesses and addresses), the user programs, and interrupts that arrive while the kernel runs (the kernel runs
  with interrupts off except in user mode).
\<close>

end
